(* ===== verification/Prelude.thy ===== *)
theory Prelude
  imports Main "HOL-Library.Word"
begin

section \<open>Prelude: the types, outcomes and list lemmas the components share\<close>

text \<open>
  This theory holds what every component uses: bytes, the outcome type of C code that can stop
  (a failed \<open>assert\<close>, a call of \<open>exit\<close>, a fault of the machine), the little-endian layout
  of integers in memory, and lemmas about slices of lists. Nothing here models a particular
  file of the repository.
\<close>

subsection \<open>Outcomes\<close>

text \<open>
  A C function either comes back with a value or stops the program. \<open>Inl\<close> holds the reason
  it stopped, \<open>Inr\<close> the value (with the new state). Error codes that the C code returns to
  its caller are part of the value, not faults.
\<close>

datatype fault =
    Assert_failed  \<comment> \<open>an \<open>assert\<close> of the source is false\<close>
  | Exit_called    \<comment> \<open>\<open>exit\<close> or the \<open>EXIT\<close> macro\<close>
  | Div_by_zero    \<comment> \<open>an integer division or remainder by zero\<close>
  | Data_race      \<comment> \<open>two threads access an object unsynchronised, one of them writing\<close>
  | Null_deref     \<comment> \<open>a null pointer is dereferenced\<close>
  | Bad_pointer    \<comment> \<open>a dangling or uninitialised pointer is dereferenced\<close>
  | Uninit_read    \<comment> \<open>a variable that was never written is read\<close>
  | Sync_misuse    \<comment> \<open>a mutex or condition is destroyed while in use, or used afterwards\<close>
  | Stuck          \<comment> \<open>a thread is waited for that has not ended\<close>
  | Out_of_bounds  \<comment> \<open>an access outside the object or the mapped region\<close>

type_synonym 'a outcome = "fault + 'a"

definition obind :: "'a outcome \<Rightarrow> ('a \<Rightarrow> 'b outcome) \<Rightarrow> 'b outcome" where
  "obind r f = (case r of Inl e \<Rightarrow> Inl e | Inr x \<Rightarrow> f x)"

lemma obind_simps [simp]:
  "obind (Inl e) f = Inl e"
  "obind (Inr x) f = f x"
  by (simp_all add: obind_def)

lemma obind_eq_Inr: "obind r f = Inr y \<longleftrightarrow> (\<exists>x. r = Inr x \<and> f x = Inr y)"
  by (cases r) auto

lemma obind_eq_Inl: "obind r f = Inl e \<longleftrightarrow> r = Inl e \<or> (\<exists>x. r = Inr x \<and> f x = Inl e)"
  by (cases r) auto

text \<open>A loop may also not end, which is \<open>None\<close>.\<close>

type_synonym 'a run = "'a outcome option"

definition lbind :: "'a run \<Rightarrow> ('a \<Rightarrow> 'b run) \<Rightarrow> 'b run" where
  "lbind r f = (case r of None \<Rightarrow> None | Some (Inl e) \<Rightarrow> Some (Inl e) | Some (Inr x) \<Rightarrow> f x)"

lemma lbind_simps [simp]:
  "lbind None f = None" "lbind (Some (Inl e)) f = Some (Inl e)" "lbind (Some (Inr x)) f = f x"
  by (simp_all add: lbind_def)

lemma lbind_eq_Inr: "lbind r f = Some (Inr y) \<longleftrightarrow> (\<exists>x. r = Some (Inr x) \<and> f x = Some (Inr y))"
  by (auto simp: lbind_def split: option.splits sum.splits)

text \<open>Loops may recurse through \<open>lbind\<close>.\<close>

lemma lbind_mono [partial_function_mono]:
  fixes f :: "('a \<Rightarrow> 'b option) \<Rightarrow> 'c run" and g :: "('a \<Rightarrow> 'b option) \<Rightarrow> 'c \<Rightarrow> 'd run"
  assumes "mono_option f" and "\<And>x. mono_option (\<lambda>F. g F x)"
  shows "mono_option (\<lambda>F. lbind (f F) (g F))"
proof (rule monotoneI)
  fix F G :: "'a \<Rightarrow> 'b option"
  assume le: "fun_ord option_ord F G"
  have "option_ord (f F) (f G)" and "option_ord (g F x) (g G x)" for x
    using assms le unfolding monotone_def by blast+
  then have f: "f F = None \<or> f F = f G" and g: "g F x = None \<or> g F x = g G x" for x
    by (auto simp: flat_ord_def)
  show "option_ord (lbind (f F) (g F)) (lbind (f G) (g G))"
  proof (cases "f F")
    case (Some r)
    with f have "f G = Some r" by auto
    with Some g show ?thesis by (cases r) (auto simp: flat_ord_def)
  qed (simp add: flat_ord_def)
qed

subsection \<open>Bytes and little-endian integers\<close>

type_synonym byte = "8 word"
type_synonym bytes = "byte list"

fun le_bytes :: "nat \<Rightarrow> nat \<Rightarrow> bytes" where
  "le_bytes 0 v = []"
| "le_bytes (Suc n) v = word_of_nat v # le_bytes n (v div 256)"

fun le_val :: "bytes \<Rightarrow> nat" where
  "le_val [] = 0"
| "le_val (b # bs) = unat b + 256 * le_val bs"

lemma length_le_bytes [simp]: "length (le_bytes n v) = n"
  by (induction n arbitrary: v) auto

lemma le_val_le_bytes: "le_val (le_bytes n v) = v mod 256 ^ n"
proof (induction n arbitrary: v)
  case 0
  then show ?case by simp
next
  case (Suc n)
  have "v mod (256 * 256 ^ n) = 256 * (v div 256 mod 256 ^ n) + v mod 256"
    by (rule mod_mult2_eq)
  then show ?case
    using Suc by (simp add: unat_of_nat)
qed

lemma le_val_bound: "le_val bs < 256 ^ length bs"
proof (induction bs)
  case Nil
  then show ?case by simp
next
  case (Cons b bs)
  have "unat b < 256"
    using unsigned_less [of b, where ?'a = nat] by simp
  then show ?case using Cons by simp
qed

subsection \<open>Arithmetic on \<open>uint64_t\<close> and \<open>size_t\<close>\<close>

definition add64 :: "nat \<Rightarrow> nat \<Rightarrow> nat" where
  "add64 a b = (a + b) mod 2 ^ 64"

definition sub64 :: "nat \<Rightarrow> nat \<Rightarrow> nat" where
  "sub64 a b = (a + (2 ^ 64 - b mod 2 ^ 64)) mod 2 ^ 64"

definition inc64 :: "nat \<Rightarrow> nat" where "inc64 n = (n + 1) mod 2 ^ 64"
definition dec64 :: "nat \<Rightarrow> nat" where "dec64 n = (if n = 0 then 2 ^ 64 - 1 else n - 1)"

lemma inc64_small: "n < k \<Longrightarrow> k < 2 ^ 64 \<Longrightarrow> inc64 n = n + 1"
  by (simp add: inc64_def)

lemma add64_small: "a + b < 2 ^ 64 \<Longrightarrow> add64 a b = a + b"
  by (simp add: add64_def)

lemma sub64_small: "b \<le> a \<Longrightarrow> a < 2 ^ 64 \<Longrightarrow> sub64 a b = a - b"
proof -
  assume "b \<le> a" "a < 2 ^ 64"
  then have "a + (2 ^ 64 - b mod 2 ^ 64) = (a - b) + 2 ^ 64" by simp
  then have "sub64 a b = (a - b) mod 2 ^ 64" unfolding sub64_def by (metis mod_add_self2)
  then show "sub64 a b = a - b" using \<open>a < 2 ^ 64\<close> by simp
qed

subsection \<open>Text\<close>

text \<open>The bytes of a text, and a number as \<open>printf\<close> prints it for \<open>%lu\<close>.\<close>

definition bytes_of :: "string \<Rightarrow> bytes" where
  "bytes_of s = map (\<lambda>c. word_of_nat (of_char c)) s"

fun digits :: "nat \<Rightarrow> string" where
  "digits n = (if n < 10 then [char_of (48 + n)] else digits (n div 10) @ [char_of (48 + n mod 10)])"

declare digits.simps [simp del]

lemma digits_length: "n < 10000 \<Longrightarrow> length (digits n) \<le> 4"
  using digits.simps [of n] digits.simps [of "n div 10"] digits.simps [of "n div 10 div 10"] digits.simps [of "n div 10 div 10 div 10"]
  by auto

subsection \<open>Slices of lists\<close>

definition slice :: "nat \<Rightarrow> nat \<Rightarrow> 'a list \<Rightarrow> 'a list" where
  "slice off len xs = take len (drop off xs)"

lemma length_slice: "off + len \<le> length xs \<Longrightarrow> length (slice off len xs) = len"
  by (simp add: slice_def)

lemma slice_append_left: "off + len \<le> length xs \<Longrightarrow> slice off len (xs @ ys) = slice off len xs"
  by (simp add: slice_def)

lemma slice_append_right: "length xs \<le> off \<Longrightarrow> slice off len (xs @ ys) = slice (off - length xs) len ys"
  by (simp add: slice_def)

lemma slice_split: "slice off (m + n) xs = slice off m xs @ slice (off + m) n xs"
  by (simp add: slice_def take_add add.commute)

lemma slice_zero [simp]: "slice off 0 xs = []"
  by (simp add: slice_def)

lemma slice_all [simp]: "length xs \<le> n \<Longrightarrow> slice 0 n xs = xs"
  by (simp add: slice_def)

lemma slice_slice: "off2 + len2 \<le> len1 \<Longrightarrow> slice off2 len2 (slice off1 len1 xs) = slice (off1 + off2) len2 xs"
  by (simp add: slice_def drop_take min_def add.commute)

text \<open>\<open>splice xs off ys\<close> is the list \<open>xs\<close> with \<open>ys\<close> written over it from index \<open>off\<close> on.\<close>

definition splice :: "'a list \<Rightarrow> nat \<Rightarrow> 'a list \<Rightarrow> 'a list" where
  "splice xs off ys = take off xs @ ys @ drop (off + length ys) xs"

lemma length_splice [simp]: "off + length ys \<le> length xs \<Longrightarrow> length (splice xs off ys) = length xs"
  by (simp add: splice_def)

lemma slice_splice_same: "off + length ys \<le> length xs \<Longrightarrow> slice off (length ys) (splice xs off ys) = ys"
  by (simp add: slice_def splice_def)

lemma slice_splice_before:
  assumes "off2 + len \<le> off" and "off \<le> length xs"
  shows "slice off2 len (splice xs off ys) = slice off2 len xs"
proof -
  have "take (off2 + len) (splice xs off ys) = take (off2 + len) xs"
    using assms by (simp add: splice_def min_def)
  then show ?thesis by (metis slice_def take_drop add.commute)
qed

lemma slice_splice_after:
  assumes "off + length ys \<le> off2" and "off + length ys \<le> length xs"
  shows "slice off2 len (splice xs off ys) = slice off2 len xs"
proof -
  have "drop off2 (splice xs off ys) = drop (off2 - (off + length ys)) (drop (off + length ys) xs)"
    using assms by (simp add: splice_def drop_append)
  also have "\<dots> = drop off2 xs" using assms(1) by simp
  finally show ?thesis by (simp add: slice_def)
qed

lemma slice_splice_disjoint:
  assumes "off2 + len \<le> off \<or> off + length ys \<le> off2" and "off + length ys \<le> length xs"
  shows "slice off2 len (splice xs off ys) = slice off2 len xs"
  using assms slice_splice_before [of off2 len off xs ys] slice_splice_after [of off ys off2 xs len]
  by auto

lemma take_splice_prefix: "off \<le> length xs \<Longrightarrow> take (off + length ys) (splice xs off ys) = take off xs @ ys"
  by (simp add: splice_def)

end
