(* ===== verification/Device.thy ===== *)
theory Device
  imports Prelude
begin

section \<open>The block device (\<open>project-4/device.c\<close>)\<close>

text \<open>
  A device is an open file with its geometry: a block size, and a size rounded down to a whole
  number of blocks. What the kernel answers is a parameter: the results of \<open>malloc\<close>, \<open>open\<close>,
  \<open>fstat\<close> and \<open>ioctl\<close> are arguments of \<open>device_open\<close>, and the field \<open>dio\<close> says which transfers
  complete (a transfer also has to lie inside the file). The file's bytes are the field \<open>dfile\<close>.
\<close>

record device =
  fd :: int
  dsize :: nat
  dblock :: nat
  dfile :: bytes
  dio :: "nat \<Rightarrow> nat \<Rightarrow> bool"

text \<open>
  What \<open>fstat\<close> and, for a block device, the two \<open>ioctl\<close> calls report; \<^const>\<open>None\<close> is a failed call.
\<close>

datatype stat =
    Regular_file nat nat                  \<comment> \<open>\<open>st_size\<close> and \<open>st_blksize\<close>\<close>
  | Block_device "nat option" "nat option"  \<comment> \<open>\<open>BLKGETSIZE64\<close> and \<open>BLKSSZGET\<close>\<close>
  | Other_kind

definition set_geometry :: "nat \<Rightarrow> nat \<Rightarrow> device \<Rightarrow> int \<times> device" where
  "set_geometry u64 u32 dev =
     (if u32 = 0 \<or> u64 = 0 then (-1, dev)
      else (0, dev\<lparr>dsize := u64 div u32 * u32, dblock := u32\<rparr>))"

text \<open>\<open>u32\<close> is a \<open>uint32_t\<close>: the assignment from \<open>st_blksize\<close> keeps 32 bits.\<close>

definition geometry :: "stat option \<Rightarrow> device \<Rightarrow> int \<times> device" where
  "geometry st dev =
     (case st of
        None \<Rightarrow> (-1, dev)
      | Some (Regular_file sz bs) \<Rightarrow> set_geometry sz (bs mod 2 ^ 32) dev
      | Some (Block_device sz bs) \<Rightarrow>
          (case (sz, bs) of
             (Some sz', Some bs') \<Rightarrow> set_geometry sz' (bs' mod 2 ^ 32) dev
           | _ \<Rightarrow> (-1, dev))
      | Some Other_kind \<Rightarrow> (-1, dev))"

text \<open>
  \<open>device_open\<close>: \<open>mem\<close> says whether \<open>malloc\<close> succeeds, \<open>opened\<close> is the result of \<open>open\<close> and
  \<open>content\<close> and \<open>io\<close> describe the file behind it. The result \<^const>\<open>None\<close> is \<open>NULL\<close>.
\<close>

definition device_open ::
  "string \<Rightarrow> bool \<Rightarrow> int \<Rightarrow> stat option \<Rightarrow> bytes \<Rightarrow> (nat \<Rightarrow> nat \<Rightarrow> bool) \<Rightarrow> device option outcome" where
  "device_open pathname mem opened st content io =
     (if pathname = [] then Inl Assert_failed
      else if \<not> mem then Inr None
      else if opened \<le> 0 then Inr None
      else
        (let dev = \<lparr>fd = opened, dsize = 0, dblock = 0, dfile = content, dio = io\<rparr>;
             (rc, dev') = geometry st dev
         in if rc \<noteq> 0 then Inr None else Inr (Some dev')))"

text \<open>The asserts on offset and length that both transfers share; the sum is a \<open>uint64_t\<close>.\<close>

definition check_transfer :: "device \<Rightarrow> nat \<Rightarrow> nat \<Rightarrow> unit outcome" where
  "check_transfer dev off len =
     (if dblock dev = 0 then Inl Div_by_zero
      else if off mod dblock dev \<noteq> 0 then Inl Assert_failed
      else if len mod dblock dev \<noteq> 0 then Inl Assert_failed
      else if dsize dev < (off + len) mod 2 ^ 64 then Inl Assert_failed
      else Inr ())"

definition transfer_completes :: "device \<Rightarrow> nat \<Rightarrow> nat \<Rightarrow> bool" where
  "transfer_completes dev off len \<longleftrightarrow> dio dev off len \<and> off + len \<le> length (dfile dev)"

definition device_read :: "device \<Rightarrow> nat \<Rightarrow> nat \<Rightarrow> (int \<times> bytes) outcome" where
  "device_read dev off len =
     obind (check_transfer dev off len) (\<lambda>_.
       if transfer_completes dev off len then Inr (0, slice off len (dfile dev)) else Inr (-1, []))"

definition device_write :: "device \<Rightarrow> bytes \<Rightarrow> nat \<Rightarrow> nat \<Rightarrow> (int \<times> device) outcome" where
  "device_write dev buf off len =
     obind (check_transfer dev off len) (\<lambda>_.
       if transfer_completes dev off len
       then Inr (0, dev\<lparr>dfile := splice (dfile dev) off (take len buf)\<rparr>)
       else Inr (-1, dev))"

definition device_size :: "device \<Rightarrow> nat" where
  "device_size dev = dsize dev"

definition device_block :: "device \<Rightarrow> nat" where
  "device_block dev = dblock dev"

subsection \<open>Facts\<close>

text \<open>
  A healthy device completes every transfer inside its size, and its size is below \<open>2 ^ 64\<close>, as
  the field of type \<open>uint64_t\<close> requires.
\<close>

definition healthy :: "device \<Rightarrow> bool" where
  "healthy dev \<longleftrightarrow>
     (\<forall>off len. dio dev off len) \<and> dsize dev \<le> length (dfile dev) \<and> 0 < dblock dev \<and> dsize dev < 2 ^ 64"

lemma check_transfer_block:
  "0 < dblock dev \<Longrightarrow> b * dblock dev + dblock dev \<le> dsize dev \<Longrightarrow> dsize dev < 2 ^ 64 \<Longrightarrow>
   check_transfer dev (b * dblock dev) (dblock dev) = Inr ()"
  by (simp add: check_transfer_def)

lemma device_read_block:
  "healthy dev \<Longrightarrow> b * dblock dev + dblock dev \<le> dsize dev \<Longrightarrow>
   device_read dev (b * dblock dev) (dblock dev) = Inr (0, slice (b * dblock dev) (dblock dev) (dfile dev))"
  by (simp add: device_read_def check_transfer_block healthy_def transfer_completes_def)

lemma device_write_block:
  "healthy dev \<Longrightarrow> b * dblock dev + dblock dev \<le> dsize dev \<Longrightarrow> length buf = dblock dev \<Longrightarrow>
   device_write dev buf (b * dblock dev) (dblock dev) =
     Inr (0, dev\<lparr>dfile := splice (dfile dev) (b * dblock dev) buf\<rparr>)"
  by (simp add: device_write_def check_transfer_block healthy_def transfer_completes_def)

lemma healthy_splice:
  "healthy dev \<Longrightarrow> off + length buf \<le> dsize dev \<Longrightarrow> healthy (dev\<lparr>dfile := splice (dfile dev) off buf\<rparr>)"
  by (simp add: healthy_def)

text \<open>Two different blocks do not overlap.\<close>

lemma block_slice_splice:
  fixes b c bs :: nat
  assumes "length buf = bs" and "b * bs + bs \<le> length xs"
  shows "slice (c * bs) bs (splice xs (b * bs) buf) = (if c = b then buf else slice (c * bs) bs xs)"
proof (cases "c = b")
  case True
  then show ?thesis using slice_splice_same [of "b * bs" buf xs] assms by simp
next
  case False
  then have "c + 1 \<le> b \<or> b + 1 \<le> c" by arith
  then have "(c + 1) * bs \<le> b * bs \<or> (b + 1) * bs \<le> c * bs"
    using mult_le_mono1 by blast
  then show ?thesis
    using False assms slice_splice_disjoint [of "c * bs" bs "b * bs" buf xs] by (simp add: add.commute)
qed

lemma set_geometry_ok:
  "set_geometry u64 (u mod 2 ^ 32) dev = (0, dev') \<Longrightarrow>
     0 < dblock dev' \<and> dblock dev' < 2 ^ 32 \<and> dsize dev' mod dblock dev' = 0 \<and> dsize dev' \<le> u64 \<and>
     u64 < dsize dev' + dblock dev'"
  by (auto simp: set_geometry_def split: if_splits)
    (metis add.commute add_less_cancel_left div_mult_mod_eq mod_less_divisor)

fun reported_size :: "stat \<Rightarrow> nat" where
  "reported_size (Regular_file sz bs) = sz"
| "reported_size (Block_device sz bs) = (case sz of None \<Rightarrow> 0 | Some n \<Rightarrow> n)"
| "reported_size Other_kind = 0"

lemma geometry_ok:
  assumes "geometry st dev = (0, dev')"
  shows "\<exists>st'. st = Some st' \<and> 0 < dblock dev' \<and> dblock dev' < 2 ^ 32 \<and> dsize dev' mod dblock dev' = 0 \<and>
    dsize dev' \<le> reported_size st' \<and> reported_size st' < dsize dev' + dblock dev'"
proof (cases st)
  case None
  with assms show ?thesis by (simp add: geometry_def)
next
  case (Some st')
  show ?thesis
  proof (cases st')
    case (Regular_file sz bs)
    with assms Some set_geometry_ok show ?thesis by (simp add: geometry_def)
  next
    case (Block_device sz bs)
    with assms Some obtain sz' bs' where "sz = Some sz'" "bs = Some bs'"
      "set_geometry sz' (bs' mod 2 ^ 32) dev = (0, dev')"
      by (cases sz; cases bs) (auto simp: geometry_def)
    with Some Block_device set_geometry_ok show ?thesis by simp
  next
    case Other_kind
    with assms Some show ?thesis by (simp add: geometry_def)
  qed
qed

lemma device_open_cases:
  assumes "device_open pathname mem opened st content io = Inr (Some dev)"
  shows "geometry st \<lparr>fd = opened, dsize = 0, dblock = 0, dfile = content, dio = io\<rparr> = (0, dev)"
  using assms by (auto simp: device_open_def Let_def split: if_splits prod.splits)

subsection \<open>Properties\<close>

text \<open>
  A device that \<open>device_open\<close> hands out has a positive block size of 32 bits, and its size is the
  largest multiple of the block size not above what the kernel reported.
\<close>

theorem device_open_geometry:
  assumes "device_open pathname mem opened (Some st) content io = Inr (Some dev)"
  shows "0 < device_block dev \<and> device_block dev < 2 ^ 32 \<and> device_size dev mod device_block dev = 0 \<and>
    device_size dev \<le> reported_size st \<and> reported_size st < device_size dev + device_block dev"
  using geometry_ok [OF device_open_cases [OF assms]] by (simp add: device_block_def device_size_def)

theorem device_open_geometry_witness:
  "\<exists>dev. device_open ''disk'' True 3 (Some (Regular_file 10000 4096)) [] (\<lambda>_ _. True) = Inr (Some dev) \<and>
     device_size dev mod device_block dev = 0 \<and> device_size dev \<le> 10000"
proof -
  let ?dev = "\<lparr>fd = 3, dsize = 8192, dblock = 4096, dfile = [], dio = \<lambda>_ _. True\<rparr>"
  have d: "device_open ''disk'' True 3 (Some (Regular_file 10000 4096)) [] (\<lambda>_ _. True) = Inr (Some ?dev)"
    by (simp add: device_open_def geometry_def set_geometry_def)
  show ?thesis using d device_open_geometry [OF d] by auto
qed

end
