(* ===== verification/Logfs.thy ===== *)
theory Logfs
  imports Device
begin

section \<open>The append-only log and its caches (\<open>project-4/logfs.c\<close>)\<close>

text \<open>
  The log buffers the current block in memory, hands full blocks to a ring of 32 slots (the
  write cache), from which a worker thread writes them to the device, and keeps a direct-mapped
  read cache of 256 blocks.

  The worker thread is part of the state. Its two critical moves are separate half-steps, as in
  \<open>write_to_device\<close>: it copies the slot at \<open>tail\<close> under the lock (field \<open>inflight\<close> then holds the
  slot's number and the copy, its local variables \<open>wcache_unit\<close> and \<open>buf\<close>), and after unlocking it
  calls \<open>device_write\<close>, reading \<open>wcache_unit->blk\<close> without the lock. When the worker runs is the
  schedule: \<open>sched t\<close> half-steps run just before the client takes the mutex for the \<open>t\<close>-th time
  (or while it waits for space). If the client overwrites the slot that the worker still refers
  to, the two accesses of \<open>blk\<close> race, which is undefined in C: the outcome is \<^const>\<open>Data_race\<close>.

  Memory from \<open>malloc\<close> is not initialised, so its content is the parameter \<open>junk\<close>.
\<close>

subsection \<open>State\<close>

definition WCACHE_BLOCKS :: nat where "WCACHE_BLOCKS = 32"
definition RCACHE_BLOCKS :: nat where "RCACHE_BLOCKS = 256"

lemmas cache_sizes = WCACHE_BLOCKS_def RCACHE_BLOCKS_def

record block =
  blk :: nat
  bbuf :: bytes

record logfs =
  lf_device :: device
  lf_done :: bool
  cur_blk :: bytes
  cur_off :: nat
  lf_off :: nat
  blk_sz :: nat
  available :: nat
  head :: nat
  tail :: nat
  active_blks :: nat
  wcache :: "block list"
  rcache :: "block list"
  inflight :: "(nat \<times> bytes) option"
  sched :: "nat \<Rightarrow> nat"
  tick :: nat

definition block_start :: "logfs \<Rightarrow> nat \<Rightarrow> nat" where
  "block_start s off = off - off mod blk_sz s"

subsection \<open>The worker thread\<close>

text \<open>The part of \<open>write_to_device\<close> under the lock; with nothing queued it waits.\<close>

definition take_item :: "logfs \<Rightarrow> logfs" where
  "take_item s =
     (if lf_done s \<or> active_blks s = 0 then s
      else s\<lparr>inflight := Some (tail s, take (blk_sz s) (bbuf (wcache s ! tail s))),
             tail := (tail s + 1) mod WCACHE_BLOCKS,
             active_blks := active_blks s - 1\<rparr>)"

text \<open>The part after unlocking: \<open>device_write\<close> of the copy, at the slot's \<open>blk\<close>.\<close>

definition write_item :: "logfs \<Rightarrow> nat \<Rightarrow> bytes \<Rightarrow> logfs outcome" where
  "write_item s i buf =
     obind (device_write (lf_device s) buf (blk (wcache s ! i)) (blk_sz s)) (\<lambda>(rc, dev).
       if rc \<noteq> 0 then Inl Exit_called
       else Inr (s\<lparr>lf_device := dev, inflight := None\<rparr>))"

definition worker_step :: "logfs \<Rightarrow> logfs outcome" where
  "worker_step s =
     (case inflight s of None \<Rightarrow> Inr (take_item s) | Some (i, buf) \<Rightarrow> write_item s i buf)"

fun worker_run :: "nat \<Rightarrow> logfs \<Rightarrow> logfs outcome" where
  "worker_run 0 s = Inr s"
| "worker_run (Suc n) s = obind (worker_step s) (worker_run n)"

text \<open>Taking the mutex: the worker gets the half-steps the schedule grants it first.\<close>

definition lock :: "logfs \<Rightarrow> logfs outcome" where
  "lock s = obind (worker_run (sched s (tick s)) s) (\<lambda>s'. Inr (s'\<lparr>tick := tick s + 1\<rparr>))"

text \<open>
  Waiting on \<open>space\<close>: the worker runs at least until it has taken an item and signalled, which
  is one half-step, or two when it still has a block to write.
\<close>

definition wait_space :: "logfs \<Rightarrow> logfs outcome" where
  "wait_space s =
     (let need = (if inflight s = None then 1 else 2)
      in obind (worker_run (max need (sched s (tick s))) s) (\<lambda>s'. Inr (s'\<lparr>tick := tick s + 1\<rparr>)))"

subsection \<open>The client side\<close>

definition await_slot :: "logfs \<Rightarrow> logfs outcome" where
  "await_slot s = (if WCACHE_BLOCKS \<le> active_blks s then wait_space s else Inr s)"

definition put_item :: "logfs \<Rightarrow> bytes \<Rightarrow> nat \<Rightarrow> logfs outcome" where
  "put_item s buf b =
     (if map_option fst (inflight s) = Some (head s) then Inl Data_race
      else Inr (s\<lparr>wcache := (wcache s)[head s := \<lparr>blk = b, bbuf = take (blk_sz s) buf\<rparr>],
                  head := (head s + 1) mod WCACHE_BLOCKS,
                  active_blks := active_blks s + 1\<rparr>))"

definition write_to_queue :: "logfs \<Rightarrow> bytes \<Rightarrow> nat \<Rightarrow> logfs outcome" where
  "write_to_queue s buf b = obind (lock s) (\<lambda>s1. obind (await_slot s1) (\<lambda>s2. put_item s2 buf b))"

text \<open>
  \<open>logfs_open\<close>: \<open>dev\<close> is what \<open>device_open\<close> returned, \<open>pth\<close> says whether the \<open>pthread\<close> calls succeed,
  \<open>junk\<close> is the content of the cache buffers. The number 3 marks an empty cache entry.
\<close>

definition logfs_open :: "device option \<Rightarrow> bool \<Rightarrow> bytes \<Rightarrow> (nat \<Rightarrow> nat) \<Rightarrow> logfs option outcome" where
  "logfs_open dev pth junk sch =
     (case dev of
        None \<Rightarrow> Inr None
      | Some d \<Rightarrow>
          if \<not> pth then Inl Exit_called
          else Inr (Some
            \<lparr>lf_device = d, lf_done = False, cur_blk = replicate (device_block d) 0, cur_off = 0,
             lf_off = 0, blk_sz = device_block d, available = device_block d,
             head = 0, tail = 0, active_blks = 0,
             wcache = replicate WCACHE_BLOCKS \<lparr>blk = 3, bbuf = junk\<rparr>,
             rcache = replicate RCACHE_BLOCKS \<lparr>blk = 3, bbuf = junk\<rparr>,
             inflight = None, sched = sch, tick = 0\<rparr>))"

text \<open>
  \<open>logfs_close\<close>: the worker may still run until \<open>done\<close> is set; after that it finishes a write it has
  begun and ends, if it does (its shutdown, which can go wrong, is in \<open>Shutdown\<close>). The result is the device that is then closed.
\<close>

definition logfs_close :: "logfs \<Rightarrow> device outcome" where
  "logfs_close s =
     obind (lock s) (\<lambda>s1.
     obind (worker_step (s1\<lparr>lf_done := True\<rparr>)) (\<lambda>s2. Inr (lf_device s2)))"

text \<open>The read-cache entry of the current block is dropped before the block changes.\<close>

definition rc_index :: "logfs \<Rightarrow> nat \<Rightarrow> nat" where
  "rc_index s b = (b div blk_sz s) mod RCACHE_BLOCKS"

definition invalidate :: "logfs \<Rightarrow> logfs" where
  "invalidate s =
     (let b = block_start s (lf_off s); i = rc_index s b
      in if b = blk (rcache s ! i) then s\<lparr>rcache := (rcache s)[i := (rcache s ! i)\<lparr>blk := 3\<rparr>]\<rparr> else s)"

text \<open>The part of the loop body of \<open>logfs_append\<close> before and after \<open>write_to_queue\<close>.\<close>

definition fill_block :: "logfs \<Rightarrow> bytes \<Rightarrow> logfs" where
  "fill_block s data =
     s\<lparr>cur_blk := splice (cur_blk s) (cur_off s) data,
       lf_off := lf_off s + length data, available := available s - length data\<rparr>"

definition fresh_block :: "logfs \<Rightarrow> logfs" where
  "fresh_block s =
     s\<lparr>cur_blk := replicate (blk_sz s) 0, available := blk_sz s, cur_off := 0\<rparr>"

definition append_tail :: "logfs \<Rightarrow> bytes \<Rightarrow> logfs" where
  "append_tail s data =
     (if 0 < length data
      then (fill_block s data)\<lparr>cur_off := cur_off s + length data\<rparr>
      else s)"


text \<open>What the worker never changes.\<close>

definition client_view :: "logfs \<Rightarrow>
    (bool \<times> bytes \<times> nat \<times> nat \<times> nat) \<times> (nat \<times> nat \<times> block list \<times> block list \<times> (nat \<Rightarrow> nat))" where
  "client_view s =
     ((lf_done s, cur_blk s, cur_off s, lf_off s, blk_sz s), (available s, head s, wcache s, rcache s, sched s))"

lemma worker_step_view: "worker_step s = Inr s' \<Longrightarrow> client_view s' = client_view s \<and> tick s' = tick s"
  by (auto simp: worker_step_def take_item_def write_item_def client_view_def obind_eq_Inr
      split: option.splits if_splits)

lemma worker_run_view: "worker_run n s = Inr s' \<Longrightarrow> client_view s' = client_view s \<and> tick s' = tick s"
proof (induction n arbitrary: s)
  case (Suc n)
  then show ?case by (auto simp: obind_eq_Inr dest!: worker_step_view Suc.IH)
qed simp

lemma lock_view: "lock s = Inr s' \<Longrightarrow> client_view s' = client_view s"
  by (auto simp: lock_def obind_eq_Inr dest!: worker_run_view) (simp add: client_view_def)

lemma wait_space_view: "wait_space s = Inr s' \<Longrightarrow> client_view s' = client_view s"
  by (auto simp: wait_space_def Let_def obind_eq_Inr dest!: worker_run_view) (simp_all add: client_view_def)

lemma await_slot_view: "await_slot s = Inr s' \<Longrightarrow> client_view s' = client_view s"
  by (auto simp: await_slot_def split: if_splits dest: wait_space_view)

lemma write_to_queue_view:
  assumes "write_to_queue s buf b = Inr s'"
  shows "cur_blk s' = cur_blk s \<and> cur_off s' = cur_off s \<and> lf_off s' = lf_off s \<and> blk_sz s' = blk_sz s \<and>
    available s' = available s \<and> rcache s' = rcache s \<and> sched s' = sched s \<and> lf_done s' = lf_done s"
proof -
  obtain s1 s2 where "lock s = Inr s1" "await_slot s1 = Inr s2" and p: "put_item s2 buf b = Inr s'"
    using assms by (auto simp: write_to_queue_def obind_eq_Inr)
  then have "client_view s2 = client_view s" by (simp add: lock_view await_slot_view)
  then show ?thesis using p by (auto simp: client_view_def put_item_def split: if_splits)
qed

text \<open>
  The loop of \<open>logfs_append\<close> and the part after it. With a block size of 0 the call of
  \<open>block_start\<close> in the body divides by zero.
\<close>

function append_loop :: "logfs \<Rightarrow> bytes \<Rightarrow> logfs outcome" where
  "append_loop s data =
     (if length data < available s then Inr (append_tail s data)
      else if blk_sz s = 0 then Inl Div_by_zero
      else
        (let s1 = fill_block s (take (available s) data) in
         case write_to_queue s1 (cur_blk s1) (block_start s1 (lf_off s1 - 1)) of
           Inl e \<Rightarrow> Inl e
         | Inr s2 \<Rightarrow> append_loop (fresh_block s2) (drop (available s) data)))"
  by pat_completeness auto
termination
  by (relation "measures [\<lambda>(s, data). length data, \<lambda>(s, data). if available s = 0 then 1 else 0]")
    (auto simp: fresh_block_def fill_block_def dest!: write_to_queue_view)

declare append_loop.simps [simp del]

definition logfs_append :: "logfs \<Rightarrow> bytes \<Rightarrow> (int \<times> logfs) outcome" where
  "logfs_append s data =
     (if blk_sz s = 0 then Inl Div_by_zero
      else obind (append_loop (invalidate s) data) (\<lambda>s'. Inr (0, s')))"

subsection \<open>Reading\<close>

definition check_in_wcache :: "logfs \<Rightarrow> nat \<Rightarrow> (bytes option \<times> logfs) outcome" where
  "check_in_wcache s b =
     obind (lock s) (\<lambda>s1.
       Inr (map_option (\<lambda>u. take (blk_sz s1) (bbuf u)) (find (\<lambda>u. b = blk u) (wcache s1)), s1))"

text \<open>The block that \<open>read_mem\<close> fetches on a read-cache miss, with its return code.\<close>

definition fetch_block :: "logfs \<Rightarrow> nat \<Rightarrow> (int \<times> bytes \<times> logfs) outcome" where
  "fetch_block s b =
     (if b = block_start s (lf_off s) then Inr (0, take (blk_sz s) (cur_blk s), s)
      else obind (check_in_wcache s b) (\<lambda>(hit, s1).
        case hit of
          Some data \<Rightarrow> Inr (0, data, s1)
        | None \<Rightarrow> obind (device_read (lf_device s1) b (blk_sz s1)) (\<lambda>(rc, data). Inr (rc, data, s1))))"

text \<open>
  \<open>read_mem\<close>: the entry's \<open>blk\<close> is set before the block is fetched, and stays set when the device
  read fails. The copy to the caller must lie inside the entry's buffer.
\<close>

definition read_mem :: "logfs \<Rightarrow> nat \<Rightarrow> nat \<Rightarrow> nat \<Rightarrow> (int \<times> bytes \<times> logfs) outcome" where
  "read_mem s b off len =
     (let i = rc_index s b;
          copy = (\<lambda>s. let data = bbuf (rcache s ! i) in
                   if off - b + len \<le> blk_sz s then Inr (0, slice (off - b) len data, s) else Inl Out_of_bounds)
      in if b \<noteq> blk (rcache s ! i) then
           (let s1 = s\<lparr>rcache := (rcache s)[i := (rcache s ! i)\<lparr>blk := b\<rparr>]\<rparr> in
            obind (fetch_block s1 b) (\<lambda>(rc, data, s2).
              if rc \<noteq> 0 then Inr (-1, [], s2)
              else copy (s2\<lparr>rcache := (rcache s2)[i := (rcache s2 ! i)\<lparr>bbuf := data\<rparr>]\<rparr>)))
         else copy s)"

text \<open>The loop of \<open>logfs_read\<close> over whole blocks and the rest after it; \<open>acc\<close> is what was copied.\<close>

function read_loop :: "logfs \<Rightarrow> nat \<Rightarrow> nat \<Rightarrow> nat \<Rightarrow> bytes \<Rightarrow> (int \<times> bytes \<times> logfs) outcome" where
  "read_loop s b off left acc =
     (if blk_sz s < left then
        (if blk_sz s = 0 then Inl Div_by_zero
         else
           (case read_mem s b off (blk_sz s) of
              Inl e \<Rightarrow> Inl e
            | Inr (rc, data, s1) \<Rightarrow>
                if rc \<noteq> 0 then Inr (-1, acc, s1)
                else read_loop s1 (b + blk_sz s) (off + blk_sz s) (left - blk_sz s) (acc @ data)))
      else if left \<noteq> 0 then
        obind (read_mem s b off left) (\<lambda>(rc, data, s1).
          if rc \<noteq> 0 then Inr (-1, acc, s1) else Inr (0, acc @ data, s1))
      else Inr (0, acc, s))"
  by pat_completeness auto
termination
  by (relation "measure (\<lambda>(s, b, off, left, acc). left)") auto

declare read_loop.simps [simp del]

definition logfs_read :: "logfs \<Rightarrow> nat \<Rightarrow> nat \<Rightarrow> (int \<times> bytes \<times> logfs) outcome" where
  "logfs_read s off len =
     (if blk_sz s = 0 then Inl Div_by_zero
      else
        (let b = block_start s off;
             n = min len (b + blk_sz s - off)
         in obind (read_mem s b off n) (\<lambda>(rc, data, s1).
              if rc \<noteq> 0 then Inr (-1, [], s1)
              else read_loop s1 (b + blk_sz s) (off + n) (len - n) data)))"

end
