(* ===== verification/Logfs_Inv.thy ===== *)
theory Logfs_Inv
  imports Logfs
begin

section \<open>The log keeps what was appended\<close>

text \<open>
  The invariant of the write cache and the worker, of the read cache, and the refinement of the
  log to the plain list of the bytes appended so far.
\<close>

subsection \<open>The ring and the worker\<close>

text \<open>How far slot \<open>i\<close> is from the tail \<open>t\<close>, going round the ring.\<close>

definition ring_dist :: "nat \<Rightarrow> nat \<Rightarrow> nat" where
  "ring_dist t i = (if t \<le> i then i - t else i + WCACHE_BLOCKS - t)"

definition queued :: "logfs \<Rightarrow> nat \<Rightarrow> bool" where
  "queued s i \<longleftrightarrow> ring_dist (tail s) i < active_blks s"

definition pending :: "logfs \<Rightarrow> nat \<Rightarrow> bool" where
  "pending s i \<longleftrightarrow> queued s i \<or> map_option fst (inflight s) = Some i"

definition ring_ok :: "logfs \<Rightarrow> bool" where
  "ring_ok s \<longleftrightarrow>
     length (wcache s) = WCACHE_BLOCKS \<and> head s < WCACHE_BLOCKS \<and> tail s < WCACHE_BLOCKS \<and>
     active_blks s \<le> WCACHE_BLOCKS \<and>
     head s = (if tail s + active_blks s < WCACHE_BLOCKS then tail s + active_blks s
               else tail s + active_blks s - WCACHE_BLOCKS)"

text \<open>Every slot is empty or holds one of the first \<open>n\<close> blocks, no block twice.\<close>

definition slots_ok :: "nat \<Rightarrow> logfs \<Rightarrow> bool" where
  "slots_ok n s \<longleftrightarrow>
     (\<forall>i < WCACHE_BLOCKS. length (bbuf (wcache s ! i)) = blk_sz s \<and>
        (blk (wcache s ! i) = 3 \<or> (\<exists>b < n. blk (wcache s ! i) = b * blk_sz s))) \<and>
     (\<forall>i < WCACHE_BLOCKS. \<forall>j < WCACHE_BLOCKS.
        blk (wcache s ! i) = blk (wcache s ! j) \<longrightarrow> blk (wcache s ! i) \<noteq> 3 \<longrightarrow> i = j)"

definition worker_ok :: "logfs \<Rightarrow> bool" where
  "worker_ok s \<longleftrightarrow>
     \<not> lf_done s \<and>
     (\<forall>i < WCACHE_BLOCKS. pending s i \<longrightarrow> blk (wcache s ! i) \<noteq> 3) \<and>
     (\<forall>i buf. inflight s = Some (i, buf) \<longrightarrow>
        i < WCACHE_BLOCKS \<and> \<not> queued s i \<and> buf = bbuf (wcache s ! i))"

lemma slots_okD:
  assumes "slots_ok n s" and "i < WCACHE_BLOCKS" and "blk (wcache s ! i) \<noteq> 3"
  shows "\<exists>b < n. blk (wcache s ! i) = b * blk_sz s"
  using assms unfolding slots_ok_def by blast

lemma slots_ok_inj:
  assumes "slots_ok n s" and "i < WCACHE_BLOCKS" and "j < WCACHE_BLOCKS"
    and "blk (wcache s ! i) = blk (wcache s ! j)" and "blk (wcache s ! i) \<noteq> 3"
  shows "i = j"
  using assms unfolding slots_ok_def by blast

text \<open>A slot that is no longer pending has reached the device.\<close>

definition synced :: "logfs \<Rightarrow> bool" where
  "synced s \<longleftrightarrow>
     (\<forall>i < WCACHE_BLOCKS. blk (wcache s ! i) \<noteq> 3 \<longrightarrow> \<not> pending s i \<longrightarrow>
        slice (blk (wcache s ! i)) (blk_sz s) (dfile (lf_device s)) = bbuf (wcache s ! i))"

definition dev_ok :: "nat \<Rightarrow> logfs \<Rightarrow> bool" where
  "dev_ok n s \<longleftrightarrow>
     healthy (lf_device s) \<and> dblock (lf_device s) = blk_sz s \<and> 3 < blk_sz s \<and> n * blk_sz s \<le> dsize (lf_device s)"

definition queue_inv :: "nat \<Rightarrow> logfs \<Rightarrow> bool" where
  "queue_inv n s \<longleftrightarrow> ring_ok s \<and> slots_ok n s \<and> worker_ok s \<and> synced s \<and> dev_ok n s"

text \<open>The content of full block \<open>b\<close>: the slot that holds it, else the device.\<close>

definition block_data :: "logfs \<Rightarrow> nat \<Rightarrow> bytes" where
  "block_data s b =
     (case find (\<lambda>u. b * blk_sz s = blk u) (wcache s) of
        Some u \<Rightarrow> bbuf u
      | None \<Rightarrow> slice (b * blk_sz s) (blk_sz s) (dfile (lf_device s)))"

lemma find_wcache:
  assumes "slots_ok n s" and "ring_ok s" and "i < WCACHE_BLOCKS" and "blk (wcache s ! i) = x" and "x \<noteq> 3"
  shows "find (\<lambda>u. x = blk u) (wcache s) = Some (wcache s ! i)"
proof -
  have len: "length (wcache s) = WCACHE_BLOCKS" using assms(2) by (simp add: ring_ok_def)
  have "x \<noteq> blk (wcache s ! j)" if "j < i" for j
  proof
    assume "x = blk (wcache s ! j)"
    then have "i = j" using assms that unfolding slots_ok_def by (metis order.strict_trans)
    then show False using that by simp
  qed
  then show ?thesis
    unfolding find_Some_iff using assms(3,4) len by (intro exI [of _ i]) simp
qed

lemma block_data_slot:
  assumes "slots_ok n s" and "ring_ok s" and "i < WCACHE_BLOCKS" and "blk (wcache s ! i) = b * blk_sz s"
    and "3 < blk_sz s"
  shows "block_data s b = bbuf (wcache s ! i)"
proof -
  have "b * blk_sz s \<noteq> 3" using assms(5) by (cases b) auto
  then show ?thesis using find_wcache [OF assms(1-4)] by (simp add: block_data_def)
qed

lemma block_data_device:
  assumes "ring_ok s" and "\<And>i. i < WCACHE_BLOCKS \<Longrightarrow> blk (wcache s ! i) \<noteq> b * blk_sz s"
  shows "block_data s b = slice (b * blk_sz s) (blk_sz s) (dfile (lf_device s))"
proof -
  have "b * blk_sz s \<noteq> blk u" if "u \<in> set (wcache s)" for u
    using that assms unfolding in_set_conv_nth ring_ok_def by metis
  then have "find (\<lambda>u. b * blk_sz s = blk u) (wcache s) = None"
    by (auto simp: find_None_iff)
  then show ?thesis by (simp add: block_data_def)
qed

subsection \<open>Half-steps of the worker\<close>

lemma take_item_queued:
  assumes "ring_ok s" and "0 < active_blks s" and "\<not> lf_done s" and "i < WCACHE_BLOCKS"
  shows "queued (take_item s) i \<longleftrightarrow> queued s i \<and> i \<noteq> tail s"
proof (cases "tail s + 1 < WCACHE_BLOCKS")
  case True
  then show ?thesis using assms by (auto simp: queued_def take_item_def ring_dist_def ring_ok_def)
next
  case False
  then have "tail s + 1 = WCACHE_BLOCKS" using assms(1) by (auto simp: ring_ok_def)
  then show ?thesis using assms by (auto simp: queued_def take_item_def ring_dist_def ring_ok_def)
qed

lemma tail_queued: "ring_ok s \<Longrightarrow> 0 < active_blks s \<Longrightarrow> queued s (tail s)"
  by (simp add: queued_def ring_dist_def)

lemma take_item_inv:
  assumes inv: "queue_inv n s" and idle: "inflight s = None"
  shows "queue_inv n (take_item s) \<and> block_data (take_item s) = block_data s"
proof (cases "active_blks s = 0")
  case True
  then show ?thesis using inv by (simp add: take_item_def)
next
  case False
  let ?t = "take_item s"
  have r: "ring_ok s" and sl: "slots_ok n s" and nd: "\<not> lf_done s"
    using inv by (auto simp: queue_inv_def worker_ok_def)
  have tl: "tail s < WCACHE_BLOCKS" using r by (simp add: ring_ok_def)
  have same: "wcache ?t = wcache s" "blk_sz ?t = blk_sz s" "lf_device ?t = lf_device s" "\<not> lf_done ?t"
    "inflight ?t = Some (tail s, take (blk_sz s) (bbuf (wcache s ! tail s)))"
    using False nd by (simp_all add: take_item_def)
  have q: "queued ?t i \<longleftrightarrow> queued s i \<and> i \<noteq> tail s" if "i < WCACHE_BLOCKS" for i
    using take_item_queued [OF r _ nd that] False by simp
  have p: "pending ?t i \<longleftrightarrow> pending s i" if "i < WCACHE_BLOCKS" for i
    using q [OF that] same(5) idle tail_queued [OF r] False by (auto simp: pending_def)
  have "ring_ok ?t"
    using r False nd by (auto simp: ring_ok_def take_item_def mod_Suc)
  moreover have "slots_ok n ?t" using sl same by (simp add: slots_ok_def)
  moreover have "worker_ok ?t"
    using inv p q [OF tl] tl same sl by (auto simp: queue_inv_def worker_ok_def slots_ok_def)
  moreover have "synced ?t" using inv p same by (simp add: queue_inv_def synced_def)
  moreover have "dev_ok n ?t" using inv same by (simp add: queue_inv_def dev_ok_def)
  moreover have "block_data ?t = block_data s"
    unfolding block_data_def [abs_def] same by (rule refl)
  ultimately show ?thesis by (simp add: queue_inv_def)
qed

text \<open>The write of the block in flight puts it on the device and leaves the rest alone.\<close>

lemma write_item_inv:
  assumes inv: "queue_inv n s" and fl: "inflight s = Some (i, buf)"
  shows "\<exists>s'. write_item s i buf = Inr s' \<and> queue_inv n s' \<and> block_data s' = block_data s \<and> inflight s' = None"
proof -
  have r: "ring_ok s" and sl: "slots_ok n s" and w: "worker_ok s" and sy: "synced s" and d: "dev_ok n s"
    using inv by (auto simp: queue_inv_def)
  let ?bs = "blk_sz s" and ?dev = "lf_device s"
  have i: "i < WCACHE_BLOCKS" and nq: "\<not> queued s i" and buf: "buf = bbuf (wcache s ! i)"
    and "blk (wcache s ! i) \<noteq> 3"
    using w fl by (auto simp: worker_ok_def pending_def)
  then obtain c where c: "c < n" "blk (wcache s ! i) = c * ?bs" and lb: "length buf = ?bs"
    using sl by (auto simp: slots_ok_def)
  have bs: "3 < ?bs" "dblock ?dev = ?bs" and h: "healthy ?dev" and room: "n * ?bs \<le> dsize ?dev"
    using d by (auto simp: dev_ok_def)
  have cb: "c * ?bs + ?bs \<le> dsize ?dev"
    using c(1) room mult_le_mono1 [of "c + 1" n ?bs] by simp
  let ?dev' = "?dev\<lparr>dfile := splice (dfile ?dev) (c * ?bs) buf\<rparr>"
  let ?s' = "s\<lparr>lf_device := ?dev', inflight := None\<rparr>"
  have w': "write_item s i buf = Inr ?s'"
    using device_write_block [OF h, of c buf] cb lb bs(2) c(2) by (simp add: write_item_def)
  have cl: "c * ?bs + ?bs \<le> length (dfile ?dev)" using cb h by (simp add: healthy_def)
  have sp: "slice (b * ?bs) ?bs (dfile ?dev') = (if b = c then buf else slice (b * ?bs) ?bs (dfile ?dev))" for b
    using block_slice_splice [OF lb cl] by simp
  have "ring_ok ?s'" using r by (simp add: ring_ok_def)
  moreover have "slots_ok n ?s'" using sl by (simp add: slots_ok_def)
  moreover have "worker_ok ?s'" using w by (auto simp: worker_ok_def pending_def queued_def)
  moreover have "synced ?s'"
    unfolding synced_def
  proof (intro allI impI)
    fix j
    assume j: "j < WCACHE_BLOCKS" and "blk (wcache ?s' ! j) \<noteq> 3" and np: "\<not> pending ?s' j"
    then obtain b where b: "blk (wcache s ! j) = b * ?bs" using slots_okD [OF sl j] by auto
    have "b = c \<Longrightarrow> j = i"
      using slots_ok_inj [OF sl i j] b c(2) \<open>blk (wcache s ! i) \<noteq> 3\<close> by simp
    moreover have "j \<noteq> i \<Longrightarrow> \<not> pending s j" using np fl by (auto simp: pending_def queued_def)
    ultimately have "slice (b * ?bs) ?bs (dfile ?dev') = bbuf (wcache s ! j)"
      using sy j b c(2) \<open>blk (wcache ?s' ! j) \<noteq> 3\<close> buf bs(1) unfolding sp
      by (cases "j = i") (auto simp: synced_def)
    then show "slice (blk (wcache ?s' ! j)) (blk_sz ?s') (dfile (lf_device ?s')) = bbuf (wcache ?s' ! j)"
      using b by simp
  qed
  moreover have "dev_ok n ?s'" using d healthy_splice [OF h, of "c * ?bs" buf] cb lb by (simp add: dev_ok_def)
  moreover have "block_data ?s' b = block_data s b" for b
  proof (cases "b = c")
    case True
    have "slots_ok n ?s'" "ring_ok ?s'" using r sl by (simp_all add: ring_ok_def slots_ok_def)
    then show ?thesis
      using block_data_slot [OF sl r i, of b] block_data_slot [of n ?s' i b] i True c(2) bs(1) by simp
  next
    case False
    then show ?thesis using sp [of b] by (simp add: block_data_def split: option.split)
  qed
  ultimately show ?thesis using w' by (auto simp: queue_inv_def fun_eq_iff)
qed

lemma worker_step_inv:
  assumes "queue_inv n s"
  shows "\<exists>s'. worker_step s = Inr s' \<and> queue_inv n s' \<and> block_data s' = block_data s"
proof (cases "inflight s")
  case None
  then show ?thesis using take_item_inv [OF assms] by (simp add: worker_step_def)
next
  case (Some a)
  then show ?thesis using write_item_inv [OF assms] by (cases a) (force simp: worker_step_def)
qed

lemma worker_run_inv:
  assumes "queue_inv n s"
  shows "\<exists>s'. worker_run k s = Inr s' \<and> queue_inv n s' \<and> block_data s' = block_data s"
  using assms
proof (induction k arbitrary: s)
  case (Suc k)
  obtain s1 where "worker_step s = Inr s1" "queue_inv n s1" "block_data s1 = block_data s"
    using worker_step_inv [OF Suc.prems] by blast
  with Suc.IH [of s1] show ?case by simp
qed simp

lemma queue_inv_upd [simp]:
  "queue_inv n (s\<lparr>tick := t\<rparr>) = queue_inv n s"
  "queue_inv n (s\<lparr>cur_blk := c\<rparr>) = queue_inv n s"
  "queue_inv n (s\<lparr>cur_off := k\<rparr>) = queue_inv n s"
  "queue_inv n (s\<lparr>lf_off := k\<rparr>) = queue_inv n s"
  "queue_inv n (s\<lparr>available := k\<rparr>) = queue_inv n s"
  "queue_inv n (s\<lparr>rcache := rc\<rparr>) = queue_inv n s"
  by (simp_all add: queue_inv_def ring_ok_def slots_ok_def worker_ok_def synced_def dev_ok_def pending_def
      queued_def)

lemma block_data_upd [simp]:
  "block_data (s\<lparr>tick := t\<rparr>) = block_data s"
  "block_data (s\<lparr>cur_blk := c\<rparr>) = block_data s"
  "block_data (s\<lparr>cur_off := k\<rparr>) = block_data s"
  "block_data (s\<lparr>lf_off := k\<rparr>) = block_data s"
  "block_data (s\<lparr>available := k\<rparr>) = block_data s"
  "block_data (s\<lparr>rcache := rc\<rparr>) = block_data s"
  by (simp_all add: block_data_def fun_eq_iff split: option.split)

lemma lock_inv:
  assumes "queue_inv n s"
  shows "\<exists>s'. lock s = Inr s' \<and> queue_inv n s' \<and> block_data s' = block_data s"
  using worker_run_inv [OF assms, of "sched s (tick s)"] by (auto simp: lock_def)


subsection \<open>Handing a block to the ring\<close>

lemma worker_step_active: "worker_step s = Inr s' \<Longrightarrow> active_blks s' \<le> active_blks s"
  by (auto simp: worker_step_def take_item_def write_item_def obind_eq_Inr split: option.splits if_splits)

lemma worker_run_active: "worker_run k s = Inr s' \<Longrightarrow> active_blks s' \<le> active_blks s"
proof (induction k arbitrary: s)
  case (Suc k)
  then show ?case by (auto simp: obind_eq_Inr dest!: worker_step_active Suc.IH)
qed simp

text \<open>After the wait there is room in the ring.\<close>

lemma take_frees:
  assumes "queue_inv n s" and "inflight s = None" and "0 < active_blks s" and "worker_run (Suc k) s = Inr s'"
  shows "active_blks s' < active_blks s"
proof -
  have "worker_step s = Inr (take_item s)" using assms(2) by (simp add: worker_step_def)
  moreover have "active_blks (take_item s) = active_blks s - 1"
    using assms(1,3) by (simp add: take_item_def queue_inv_def worker_ok_def)
  ultimately show ?thesis using assms(3,4) worker_run_active [of k "take_item s" s'] by simp
qed

lemma await_slot_inv:
  assumes inv: "queue_inv n s"
  shows "\<exists>s'. await_slot s = Inr s' \<and> queue_inv n s' \<and> block_data s' = block_data s \<and>
    active_blks s' < WCACHE_BLOCKS"
proof (cases "WCACHE_BLOCKS \<le> active_blks s")
  case False
  then show ?thesis using inv by (simp add: await_slot_def)
next
  case True
  have full: "active_blks s = WCACHE_BLOCKS" "0 < WCACHE_BLOCKS"
    using True inv by (auto simp: queue_inv_def ring_ok_def cache_sizes)
  define k where "k = max (if inflight s = None then 1 else 2) (sched s (tick s))"
  obtain s1 where s1: "worker_run k s = Inr s1" "queue_inv n s1" "block_data s1 = block_data s"
    using worker_run_inv [OF inv] by blast
  have "active_blks s1 < WCACHE_BLOCKS"
  proof (cases "inflight s")
    case None
    then obtain k' where "k = Suc k'" unfolding k_def by (cases k) (auto simp: k_def)
    then show ?thesis using take_frees [OF inv None, of k' s1] s1(1) full by simp
  next
    case (Some a)
    then have "2 \<le> k" by (simp add: k_def)
    then obtain k' where k': "k = Suc (Suc k')" by (auto dest: le_Suc_ex)
    obtain i buf where "inflight s = Some (i, buf)" using Some by (cases a) auto
    from write_item_inv [OF inv this] this obtain s0
      where s0: "worker_step s = Inr s0" "queue_inv n s0" "inflight s0 = None" and "write_item s i buf = Inr s0"
      by (auto simp: worker_step_def)
    then have "active_blks s0 = active_blks s" by (auto simp: write_item_def obind_eq_Inr split: if_splits)
    moreover have "worker_run (Suc k') s0 = Inr s1" using s1(1) s0(1) k' by simp
    ultimately show ?thesis using take_frees [OF s0(2,3)] full by simp
  qed
  then show ?thesis using True s1 by (simp add: await_slot_def wait_space_def Let_def flip: k_def)
qed

lemma head_free:
  assumes "ring_ok s" and "active_blks s < WCACHE_BLOCKS"
  shows "\<not> queued s (head s)"
  using assms by (auto simp: queued_def ring_dist_def ring_ok_def split: if_splits)

lemma put_item_queued:
  assumes r: "ring_ok s" and "active_blks s < WCACHE_BLOCKS" and "i < WCACHE_BLOCKS"
    and "tail s' = tail s" and "active_blks s' = active_blks s + 1"
  shows "queued s' i \<longleftrightarrow> queued s i \<or> i = head s"
  using assms by (auto simp: queued_def ring_dist_def ring_ok_def split: if_splits)

text \<open>What the blocks hold after a block was put into the ring: the slot may have held another one, which the device has.\<close>

lemma put_item_data:
  assumes r: "ring_ok s" and sl: "slots_ok n s" and sy: "synced s" and bs: "3 < blk_sz s" and free: "\<not> pending s (head s)"
    and s': "s' = s\<lparr>wcache := (wcache s)[head s := \<lparr>blk = n * blk_sz s, bbuf = buf\<rparr>], head := (head s + 1) mod WCACHE_BLOCKS,
       active_blks := active_blks s + 1\<rparr>"
    and r': "ring_ok s'" and sl': "slots_ok (n + 1) s'" and b: "b \<le> n"
  shows "block_data s' b = (if b = n then buf else block_data s b)"
proof -
  have h: "head s < WCACHE_BLOCKS" and len: "length (wcache s) = WCACHE_BLOCKS" using r by (auto simp: ring_ok_def)
  have nth: "wcache s' ! i = (if i = head s then \<lparr>blk = n * blk_sz s, bbuf = buf\<rparr> else wcache s ! i)" if "i < WCACHE_BLOCKS" for i
    using h len that by (simp add: s' nth_list_update)
  have n3: "b * blk_sz s \<noteq> 3" for b using bs by (cases b) auto
  have sz [simp]: "blk_sz s' = blk_sz s" "lf_device s' = lf_device s" by (simp_all add: s')
  show ?thesis
  proof (cases "b = n")
    case True
    then show ?thesis using block_data_slot [OF sl' r', of "head s" b] h nth [OF h] bs by simp
  next
    case False
    show ?thesis
    proof (cases "\<exists>i < WCACHE_BLOCKS. i \<noteq> head s \<and> blk (wcache s ! i) = b * blk_sz s")
      case True
      then obtain i where i: "i < WCACHE_BLOCKS" "i \<noteq> head s" "blk (wcache s ! i) = b * blk_sz s" by blast
      then show ?thesis
        using block_data_slot [OF sl' r' i(1), of b] block_data_slot [OF sl r i(1), of b] nth [OF i(1)] bs False
        by simp
    next
      case none: False
      have "blk (wcache s' ! i) \<noteq> b * blk_sz s'" if "i < WCACHE_BLOCKS" for i
        using none nth [OF that] that False bs by auto
      from block_data_device [OF r' this]
      have new: "block_data s' b = slice (b * blk_sz s) (blk_sz s) (dfile (lf_device s))" by simp
      show ?thesis
      proof (cases "blk (wcache s ! (head s)) = b * blk_sz s")
        case True
        then have "slice (b * blk_sz s) (blk_sz s) (dfile (lf_device s)) = bbuf (wcache s ! (head s))"
          using sy free h n3 [of b] by (auto simp: synced_def)
        then show ?thesis using new False block_data_slot [OF sl r h True bs] by simp
      next
        case no: False
        then have "block_data s b = slice (b * blk_sz s) (blk_sz s) (dfile (lf_device s))"
          using block_data_device [OF r, of b] none by metis
        then show ?thesis using new False by simp
      qed
    qed
  qed
qed

lemma put_item_inv:
  assumes inv: "queue_inv n s" and room: "active_blks s < WCACHE_BLOCKS"
    and buf: "length buf = blk_sz s" and fits: "(n + 1) * blk_sz s \<le> dsize (lf_device s)"
    and nr: "map_option fst (inflight s) \<noteq> Some (head s)"
  shows "\<exists>s'. put_item s buf (n * blk_sz s) = Inr s' \<and> queue_inv (n + 1) s' \<and>
    (\<forall>b \<le> n. block_data s' b = (if b = n then buf else block_data s b))"
proof -
  have r: "ring_ok s" and sl: "slots_ok n s" and w: "worker_ok s" and sy: "synced s" and d: "dev_ok n s"
    using inv by (auto simp: queue_inv_def)
  let ?bs = "blk_sz s" and ?h = "head s"
  let ?u = "\<lparr>blk = n * ?bs, bbuf = buf\<rparr>"
  let ?s' = "s\<lparr>wcache := (wcache s)[?h := ?u], head := (?h + 1) mod WCACHE_BLOCKS,
     active_blks := active_blks s + 1\<rparr>"
  have p: "put_item s buf (n * ?bs) = Inr ?s'" using nr buf by (simp add: put_item_def)
  have bs: "3 < ?bs" using d by (simp add: dev_ok_def)
  have h: "?h < WCACHE_BLOCKS" and len: "length (wcache s) = WCACHE_BLOCKS" using r by (auto simp: ring_ok_def)
  have nth: "wcache ?s' ! i = (if i = ?h then ?u else wcache s ! i)" if "i < WCACHE_BLOCKS" for i
    using h len that by (simp add: nth_list_update)
  have n3: "b * ?bs \<noteq> 3" for b using bs by (cases b) auto
  have q: "queued ?s' i \<longleftrightarrow> queued s i \<or> i = ?h" if "i < WCACHE_BLOCKS" for i
    using put_item_queued [OF r room that] by simp
  have free: "\<not> pending s ?h" using head_free [OF r room] nr by (simp add: pending_def)
  have pe: "pending ?s' i \<longleftrightarrow> pending s i \<or> i = ?h" if "i < WCACHE_BLOCKS" for i
    using q [OF that] by (auto simp: pending_def)
  have old: "blk (wcache s ! i) \<noteq> n * ?bs" if "i < WCACHE_BLOCKS" for i
    using slots_okD [OF sl that] n3 [of n] bs by auto
  have r': "ring_ok ?s'"
    using r room by (auto simp: ring_ok_def mod_Suc split: if_splits)
  have sl': "slots_ok (n + 1) ?s'"
    unfolding slots_ok_def
  proof (intro conjI allI impI)
    fix i assume i: "i < WCACHE_BLOCKS"
    show "length (bbuf (wcache ?s' ! i)) = blk_sz ?s'"
      using sl i buf nth [OF i] by (simp add: slots_ok_def)
    show "blk (wcache ?s' ! i) = 3 \<or> (\<exists>b < n + 1. blk (wcache ?s' ! i) = b * blk_sz ?s')"
      using slots_okD [OF sl i] nth [OF i] by (auto intro: less_SucI)
  next
    fix i j assume i: "i < WCACHE_BLOCKS" and j: "j < WCACHE_BLOCKS"
      and eq: "blk (wcache ?s' ! i) = blk (wcache ?s' ! j)" "blk (wcache ?s' ! i) \<noteq> 3"
    then show "i = j"
      using slots_ok_inj [OF sl i j] nth [OF i] nth [OF j] old [OF i] old [OF j]
      by (auto split: if_splits)
  qed
  have "worker_ok ?s'"
    unfolding worker_ok_def
  proof (intro conjI allI impI)
    show "\<not> lf_done ?s'" using w by (simp add: worker_ok_def)
    show "blk (wcache ?s' ! i) \<noteq> 3" if "i < WCACHE_BLOCKS" "pending ?s' i" for i
      using that pe nth n3 w by (auto simp: worker_ok_def)
    fix i b assume fl: "inflight ?s' = Some (i, b)"
    then have i: "i < WCACHE_BLOCKS" "\<not> queued s i" "b = bbuf (wcache s ! i)" and "i \<noteq> ?h"
      using w nr by (auto simp: worker_ok_def)
    then show "i < WCACHE_BLOCKS" "\<not> queued ?s' i" "b = bbuf (wcache ?s' ! i)"
      using q [OF i(1)] nth [OF i(1)] by auto
  qed
  moreover have "synced ?s'"
    using sy pe nth by (auto simp: synced_def)
  moreover have "dev_ok (n + 1) ?s'" using d fits by (simp add: dev_ok_def)
  moreover have "block_data ?s' b = (if b = n then buf else block_data s b)" if "b \<le> n" for b
    by (rule put_item_data [OF r sl sy bs free refl r' sl' that])
  ultimately show ?thesis using p r' sl' by (auto simp: queue_inv_def)
qed


lemma worker_step_dsize: "worker_step s = Inr s' \<Longrightarrow> dsize (lf_device s') = dsize (lf_device s)"
  by (auto simp: worker_step_def take_item_def write_item_def device_write_def obind_eq_Inr
      split: option.splits if_splits)

lemma worker_run_dsize: "worker_run k s = Inr s' \<Longrightarrow> dsize (lf_device s') = dsize (lf_device s)"
proof (induction k arbitrary: s)
  case (Suc k)
  then show ?case by (auto simp: obind_eq_Inr dest!: worker_step_dsize Suc.IH)
qed simp

lemma lock_dsize: "lock s = Inr s' \<Longrightarrow> dsize (lf_device s') = dsize (lf_device s)"
  by (auto simp: lock_def obind_eq_Inr dest!: worker_run_dsize)

lemma await_slot_dsize: "await_slot s = Inr s' \<Longrightarrow> dsize (lf_device s') = dsize (lf_device s)"
  by (auto simp: await_slot_def wait_space_def Let_def obind_eq_Inr split: if_splits dest!: worker_run_dsize)

text \<open>
  A block handed to the ring is kept with all the earlier ones, whatever the schedule, unless the
  client runs into the slot the worker is still using.
\<close>

lemma write_to_queue_inv:
  assumes inv: "queue_inv n s" and buf: "length buf = blk_sz s" and fits: "(n + 1) * blk_sz s \<le> dsize (lf_device s)"
  shows "write_to_queue s buf (n * blk_sz s) = Inl Data_race \<or>
    (\<exists>s'. write_to_queue s buf (n * blk_sz s) = Inr s' \<and> queue_inv (n + 1) s' \<and>
       (\<forall>b \<le> n. block_data s' b = (if b = n then buf else block_data s b)) \<and>
       dsize (lf_device s') = dsize (lf_device s))"
proof -
  obtain s1 where s1: "lock s = Inr s1" "queue_inv n s1" "block_data s1 = block_data s"
    using lock_inv [OF inv] by blast
  obtain s2 where s2: "await_slot s1 = Inr s2" "queue_inv n s2" "block_data s2 = block_data s1"
    "active_blks s2 < WCACHE_BLOCKS"
    using await_slot_inv [OF s1(2)] by blast
  have v: "blk_sz s2 = blk_sz s" and d: "dsize (lf_device s2) = dsize (lf_device s)"
    using lock_view [OF s1(1)] await_slot_view [OF s2(1)] lock_dsize [OF s1(1)] await_slot_dsize [OF s2(1)]
    by (simp_all add: client_view_def)
  show ?thesis
  proof (cases "map_option fst (inflight s2) = Some (head s2)")
    case True
    then show ?thesis using s1(1) s2(1) by (simp add: write_to_queue_def put_item_def)
  next
    case False
    obtain s' where s': "put_item s2 buf (n * blk_sz s2) = Inr s'" "queue_inv (n + 1) s'"
      "\<forall>b \<le> n. block_data s' b = (if b = n then buf else block_data s2 b)"
      using put_item_inv [OF s2(2,4) _ _ False, of buf] buf fits v d by auto
    have "dsize (lf_device s') = dsize (lf_device s2)"
      using s'(1) by (auto simp: put_item_def split: if_splits)
    then show ?thesis using s' s1 s2 v d by (simp add: write_to_queue_def)
  qed
qed

subsection \<open>Schedules without the race\<close>

text \<open>
  A schedule is fair when it lets the worker run whenever the client takes the lock, and never
  stops it between taking a block and writing it.
\<close>

definition fair :: "logfs \<Rightarrow> bool" where
  "fair s \<longleftrightarrow> (\<forall>t. even (sched s t) \<and> 2 \<le> sched s t)"

lemma two_steps_idle:
  assumes "worker_step s = Inr s1" and "worker_step s1 = Inr s2" and "inflight s = None"
  shows "inflight s2 = None"
  using assms
  by (auto simp: worker_step_def take_item_def write_item_def obind_eq_Inr split: if_splits option.splits prod.splits)

lemma even_run_idle:
  "worker_run (2 * m) s = Inr s' \<Longrightarrow> inflight s = None \<Longrightarrow> inflight s' = None"
proof (induction m arbitrary: s)
  case (Suc m)
  then obtain s1 s2 where "worker_step s = Inr s1" "worker_step s1 = Inr s2" "worker_run (2 * m) s2 = Inr s'"
    by (auto simp: obind_eq_Inr)
  with Suc two_steps_idle show ?case by blast
qed simp

lemma fair_run_idle:
  assumes "fair s" and "worker_run (sched s (tick s)) s = Inr s1" and "inflight s = None"
  shows "inflight s1 = None \<and> fair s1"
proof -
  obtain m where m: "sched s (tick s) = 2 * m" using assms(1) unfolding fair_def by (meson evenE)
  have "inflight s1 = None" using even_run_idle [of m s s1] assms(2,3) m by simp
  moreover have "fair s1" using worker_run_view [OF assms(2)] assms(1) by (simp add: fair_def client_view_def)
  ultimately show ?thesis by simp
qed

lemma fair_max: "fair s \<Longrightarrow> max (Suc 0) (sched s t) = sched s t"
  unfolding fair_def by (simp add: max_def Suc_le_eq) (metis less_le_trans zero_less_numeral)

lemma fair_lock_idle:
  assumes "fair s" and "lock s = Inr s'" and "inflight s = None"
  shows "inflight s' = None \<and> fair s'"
proof -
  obtain s1 where "worker_run (sched s (tick s)) s = Inr s1" "s' = s1\<lparr>tick := tick s + 1\<rparr>"
    using assms(2) by (auto simp: lock_def obind_eq_Inr)
  then show ?thesis using fair_run_idle [OF assms(1) _ assms(3), of s1] by (simp add: fair_def)
qed

lemma fair_await_idle:
  assumes "fair s" and "await_slot s = Inr s'" and "inflight s = None"
  shows "inflight s' = None \<and> fair s'"
proof (cases "WCACHE_BLOCKS \<le> active_blks s")
  case False
  then show ?thesis using assms by (simp add: await_slot_def)
next
  case True
  then obtain s1 where "worker_run (sched s (tick s)) s = Inr s1" "s' = s1\<lparr>tick := tick s + 1\<rparr>"
    using assms(2,3) fair_max [OF assms(1)]
    by (auto simp: await_slot_def wait_space_def Let_def obind_eq_Inr)
  then show ?thesis using fair_run_idle [OF assms(1) _ assms(3), of s1] by (simp add: fair_def)
qed

text \<open>Under such a schedule the client never runs into the worker.\<close>

lemma fair_write_to_queue:
  assumes f: "fair s" "inflight s = None" and inv: "queue_inv n s" and buf: "length buf = blk_sz s"
    and fits: "(n + 1) * blk_sz s \<le> dsize (lf_device s)"
  obtains s' where "write_to_queue s buf (n * blk_sz s) = Inr s'" "queue_inv (n + 1) s'"
    "\<forall>b \<le> n. block_data s' b = (if b = n then buf else block_data s b)"
    "dsize (lf_device s') = dsize (lf_device s)" "inflight s' = None" "fair s'"
proof -
  obtain s1 where s1: "lock s = Inr s1" "queue_inv n s1" using lock_inv [OF inv] by blast
  obtain s2 where s2: "await_slot s1 = Inr s2" using await_slot_inv [OF s1(2)] by blast
  have i2: "inflight s2 = None \<and> fair s2"
    using fair_lock_idle [OF f(1) s1(1) f(2)] fair_await_idle [OF _ s2] by blast
  then have w: "write_to_queue s buf (n * blk_sz s) = put_item s2 buf (n * blk_sz s)"
    and nr: "put_item s2 buf (n * blk_sz s) \<noteq> Inl Data_race"
    using s1(1) s2 by (simp_all add: write_to_queue_def put_item_def)
  moreover have "inflight s' = None \<and> fair s'" if "put_item s2 buf (n * blk_sz s) = Inr s'" for s'
    using that i2 by (auto simp: put_item_def fair_def)
  ultimately show ?thesis using write_to_queue_inv [OF inv buf fits] that by auto
qed

end
