(* ===== verification/Logfs_Ref.thy ===== *)
theory Logfs_Ref
  imports Logfs_Inv
begin

section \<open>Refinement of the log to a list of bytes\<close>

text \<open>
  The abstract state of the log is the list of all bytes appended so far: \<open>logfs_append\<close> appends to
  it and \<open>logfs_read\<close> returns a slice of it, wherever the bytes are at that moment (current block,
  ring, worker, read cache or device).
\<close>

lemma length_concat_blocks:
  "\<forall>b < m. length (f b) = bs \<Longrightarrow> length (concat (map f [0..<m])) = m * bs"
  by (induction m) simp_all

lemma slice_concat_blocks:
  assumes "\<forall>b < m. length (f b) = bs" and "b < m" and "k + len \<le> bs"
  shows "slice (b * bs + k) len (concat (map f [0..<m])) = slice k len (f b)"
  using assms
proof (induction m)
  case (Suc m)
  then have len: "length (concat (map f [0..<m])) = m * bs" by (simp add: length_concat_blocks)
  show ?case
  proof (cases "b = m")
    case True
    then show ?thesis using len by (simp add: slice_append_right)
  next
    case False
    then have "b * bs + k + len \<le> m * bs"
      using Suc.prems(2,3) mult_le_mono1 [of "b + 1" m bs] by simp
    then show ?thesis using Suc False len by (simp add: slice_append_left)
  qed
qed simp

lemma slice_take: "off + len \<le> n \<Longrightarrow> slice off len (take n xs) = slice off len xs"
  by (simp add: slice_def drop_take min_def)

lemma block_div_mod:
  fixes x q r bs :: nat
  assumes "x = q * bs + r" and "r < bs"
  shows "x div bs = q" "x mod bs = r"
  using assms by simp_all

subsection \<open>The abstraction\<close>

definition full_blocks :: "logfs \<Rightarrow> nat" where
  "full_blocks s = lf_off s div blk_sz s"

definition block_at :: "logfs \<Rightarrow> nat \<Rightarrow> bytes" where
  "block_at s b = (if b = full_blocks s then cur_blk s else block_data s b)"

definition contents :: "logfs \<Rightarrow> bytes" where
  "contents s = take (lf_off s) (concat (map (block_at s) [0..<Suc (full_blocks s)]))"

definition core_inv :: "logfs \<Rightarrow> bool" where
  "core_inv s \<longleftrightarrow>
     queue_inv (full_blocks s) s \<and> length (cur_blk s) = blk_sz s \<and>
     cur_off s = lf_off s mod blk_sz s \<and> available s = blk_sz s - lf_off s mod blk_sz s"

text \<open>Every read-cache entry in use holds one of the first \<open>m\<close> blocks, at that block's index.\<close>

definition rcache_ok :: "nat \<Rightarrow> logfs \<Rightarrow> bool" where
  "rcache_ok m s \<longleftrightarrow>
     length (rcache s) = RCACHE_BLOCKS \<and>
     (\<forall>i < RCACHE_BLOCKS. blk (rcache s ! i) \<noteq> 3 \<longrightarrow>
        (\<exists>b < m. blk (rcache s ! i) = b * blk_sz s \<and> i = b mod RCACHE_BLOCKS \<and> bbuf (rcache s ! i) = block_at s b))"

definition log_inv :: "logfs \<Rightarrow> bool" where
  "log_inv s \<longleftrightarrow> core_inv s \<and> rcache_ok (Suc (full_blocks s)) s"

lemma core_invD:
  assumes "core_inv s"
  shows "ring_ok s" "slots_ok (full_blocks s) s" "dev_ok (full_blocks s) s" "3 < blk_sz s"
  using assms by (auto simp: core_inv_def queue_inv_def dev_ok_def)

lemma full_split: "lf_off s = full_blocks s * blk_sz s + lf_off s mod blk_sz s"
  by (simp add: full_blocks_def)

lemma block_data_length:
  assumes "core_inv s" and "b < full_blocks s"
  shows "length (block_data s b) = blk_sz s"
proof (cases "\<exists>i < WCACHE_BLOCKS. blk (wcache s ! i) = b * blk_sz s")
  case True
  then obtain i where "i < WCACHE_BLOCKS" "blk (wcache s ! i) = b * blk_sz s" by blast
  then show ?thesis
    using block_data_slot [of "full_blocks s" s i b] core_invD [OF assms(1)] by (simp add: slots_ok_def)
next
  case False
  have "b * blk_sz s + blk_sz s \<le> full_blocks s * blk_sz s"
    using assms(2) mult_le_mono1 [of "b + 1" "full_blocks s" "blk_sz s"] by simp
  then show ?thesis
    using False block_data_device [of s b] core_invD [OF assms(1)]
    by (auto simp: dev_ok_def healthy_def intro!: length_slice)
qed

lemma block_at_length: "core_inv s \<Longrightarrow> b < Suc (full_blocks s) \<Longrightarrow> length (block_at s b) = blk_sz s"
  by (cases "b = full_blocks s") (simp_all add: block_at_def core_inv_def block_data_length)

lemma length_contents: "core_inv s \<Longrightarrow> length (contents s) = lf_off s"
proof -
  assume c: "core_inv s"
  have "lf_off s < Suc (full_blocks s) * blk_sz s"
    using core_invD(4) [OF c] dividend_less_div_times [of "blk_sz s" "lf_off s"]
    by (simp add: full_blocks_def add.commute)
  moreover have "length (concat (map (block_at s) [0..<Suc (full_blocks s)])) = Suc (full_blocks s) * blk_sz s"
    using block_at_length [OF c] by (intro length_concat_blocks) blast
  ultimately show ?thesis unfolding contents_def by simp
qed

lemma contents_split:
  assumes "core_inv s"
  shows "contents s = concat (map (block_data s) [0..<full_blocks s]) @ take (lf_off s mod blk_sz s) (cur_blk s)"
proof -
  have m: "map (block_at s) [0..<full_blocks s] = map (block_data s) [0..<full_blocks s]"
    by (simp add: block_at_def)
  have "length (concat (map (block_data s) [0..<full_blocks s])) = full_blocks s * blk_sz s"
    using block_data_length [OF assms] by (intro length_concat_blocks) blast
  moreover have "lf_off s - full_blocks s * blk_sz s = lf_off s mod blk_sz s" "full_blocks s * blk_sz s \<le> lf_off s"
    using full_split [of s] by linarith+
  ultimately show ?thesis by (simp add: contents_def m block_at_def)
qed

lemma slice_contents:
  assumes "core_inv s" and "b < Suc (full_blocks s)" and "k + len \<le> blk_sz s"
    and "b * blk_sz s + k + len \<le> lf_off s"
  shows "slice (b * blk_sz s + k) len (contents s) = slice k len (block_at s b)"
proof -
  have "slice (b * blk_sz s + k) len (contents s) =
      slice (b * blk_sz s + k) len (concat (map (block_at s) [0..<Suc (full_blocks s)]))"
    unfolding contents_def using assms(4) by (rule slice_take)
  also have "\<dots> = slice k len (block_at s b)"
    using block_at_length [OF assms(1)] assms(2,3) by (intro slice_concat_blocks) blast+
  finally show ?thesis .
qed

subsection \<open>Appending\<close>

definition calm :: "logfs \<Rightarrow> bool" where
  "calm s \<longleftrightarrow> fair s \<and> inflight s = None"

lemma write_to_queue_cases:
  assumes "queue_inv n s" and "length buf = blk_sz s" and "(n + 1) * blk_sz s \<le> dsize (lf_device s)"
  obtains (race) "write_to_queue s buf (n * blk_sz s) = Inl Data_race" "\<not> calm s"
  | (ok) s' where "write_to_queue s buf (n * blk_sz s) = Inr s'" "queue_inv (n + 1) s'"
      "\<forall>b \<le> n. block_data s' b = (if b = n then buf else block_data s b)"
      "dsize (lf_device s') = dsize (lf_device s)" "calm s \<longrightarrow> calm s'"
proof (cases "calm s")
  case True
  then show ?thesis
    using fair_write_to_queue [OF _ _ assms] ok by (metis calm_def)
next
  case False
  then show ?thesis using write_to_queue_inv [OF assms] race ok by blast
qed

text \<open>The tail of an append that stays inside the current block.\<close>

lemma append_tail_ok:
  assumes inv: "core_inv s" "rcache_ok (full_blocks s) s" and short: "length data < available s"
  shows "core_inv (append_tail s data)" "rcache_ok (full_blocks (append_tail s data)) (append_tail s data)"
    "contents (append_tail s data) = contents s @ data"
    "calm (append_tail s data) = calm s" "lf_device (append_tail s data) = lf_device s"
    "blk_sz (append_tail s data) = blk_sz s"
proof -
  let ?t = "append_tail s data" and ?bs = "blk_sz s" and ?r = "lf_off s mod blk_sz s"
  have c: "length (cur_blk s) = ?bs" "cur_off s = ?r" "available s = ?bs - ?r" and q: "queue_inv (full_blocks s) s"
    using inv(1) by (auto simp: core_inv_def)
  have bs: "3 < ?bs" using core_invD(4) [OF inv(1)] .
  have r: "?r + length data < ?bs" using short c(3) by simp
  have l: "lf_off ?t = lf_off s + length data" "blk_sz ?t = ?bs" "lf_device ?t = lf_device s"
    "wcache ?t = wcache s" "rcache ?t = rcache s" "inflight ?t = inflight s" "sched ?t = sched s"
    "cur_off ?t = ?r + length data" "available ?t = ?bs - (?r + length data)"
    "cur_blk ?t = splice (cur_blk s) ?r data"
    using c bs by (auto simp: append_tail_def fill_block_def splice_def)
  have e: "lf_off s + length data = full_blocks s * ?bs + (?r + length data)"
    using full_split [of s] by simp
  have fb: "full_blocks ?t = full_blocks s" and md: "lf_off ?t mod ?bs = ?r + length data"
    using block_div_mod [OF e r] unfolding full_blocks_def l by simp_all
  have q': "queue_inv m ?t = queue_inv m s" for m
    by (simp add: append_tail_def fill_block_def)
  have bd: "block_data ?t = block_data s"
    by (simp add: append_tail_def fill_block_def)
  show ci: "core_inv ?t"
    unfolding core_inv_def using q q' fb md l c r by simp
  show "rcache_ok (full_blocks ?t) ?t"
    using inv(2) fb bd l by (simp add: rcache_ok_def block_at_def cong: conj_cong)
  have "take (lf_off ?t mod blk_sz ?t) (cur_blk ?t) = take ?r (cur_blk s) @ data"
    using md l c r take_splice_prefix [of ?r "cur_blk s" data] by simp
  then show "contents ?t = contents s @ data"
    using contents_split [OF ci] contents_split [OF inv(1)] fb bd by simp
  show "calm ?t = calm s" using l by (simp add: calm_def fair_def)
  show "lf_device ?t = lf_device s" "blk_sz ?t = ?bs" using l by simp_all
qed

text \<open>The part of the loop body before and after the block is queued.\<close>

lemma fill_block_ok:
  assumes inv: "core_inv s" and len: "length data = available s"
  defines "t \<equiv> fill_block s data"
  shows "lf_off t = (full_blocks s + 1) * blk_sz s" "block_start t (lf_off t - 1) = full_blocks s * blk_sz s"
    "cur_blk t = take (lf_off s mod blk_sz s) (cur_blk s) @ data" "length (cur_blk t) = blk_sz s"
    "queue_inv m t = queue_inv m s" "block_data t = block_data s" "calm t = calm s" "blk_sz t = blk_sz s"
    "rcache t = rcache s" "lf_device t = lf_device s"
proof -
  let ?bs = "blk_sz s" and ?r = "lf_off s mod blk_sz s"
  have c: "length (cur_blk s) = ?bs" "cur_off s = ?r" "available s = ?bs - ?r"
    using inv by (auto simp: core_inv_def)
  have bs: "3 < ?bs" and r: "?r < ?bs" using core_invD(4) [OF inv] by simp_all
  show off: "lf_off t = (full_blocks s + 1) * ?bs"
    using full_split [of s] len c(3) r by (simp add: t_def fill_block_def)
  have "lf_off t - 1 = full_blocks s * ?bs + (?bs - 1)" using off bs by simp
  then show "block_start t (lf_off t - 1) = full_blocks s * ?bs"
    using block_div_mod(2) [of "lf_off t - 1" "full_blocks s" ?bs "?bs - 1"] bs
    by (simp add: block_start_def t_def fill_block_def)
  show cb: "cur_blk t = take ?r (cur_blk s) @ data" "length (cur_blk t) = ?bs"
    using c len r by (simp_all add: t_def fill_block_def splice_def)
  show "queue_inv m t = queue_inv m s" "block_data t = block_data s" "calm t = calm s" "blk_sz t = ?bs"
    "rcache t = rcache s" "lf_device t = lf_device s"
    by (simp_all add: t_def fill_block_def calm_def fair_def)
qed

lemma append_block_ok:
  assumes inv: "core_inv s" "rcache_ok (full_blocks s) s" and len: "length data = available s"
    and room: "lf_off s + length data \<le> dsize (lf_device s)"
  defines "t \<equiv> fill_block s data"
  obtains (race) "write_to_queue t (cur_blk t) (block_start t (lf_off t - 1)) = Inl Data_race" "\<not> calm s"
  | (ok) s' where "write_to_queue t (cur_blk t) (block_start t (lf_off t - 1)) = Inr s'"
      "core_inv (fresh_block s')" "rcache_ok (full_blocks (fresh_block s')) (fresh_block s')"
      "contents (fresh_block s') = contents s @ data" "calm s \<longrightarrow> calm (fresh_block s')"
      "lf_off (fresh_block s') = lf_off s + length data" "dsize (lf_device (fresh_block s')) = dsize (lf_device s)"
      "blk_sz (fresh_block s') = blk_sz s"
proof -
  let ?n = "full_blocks s" and ?bs = "blk_sz s"
  note f = fill_block_ok [OF inv(1) len, folded t_def]
  have bs: "3 < ?bs" using core_invD(4) [OF inv(1)] .
  have q: "queue_inv ?n t" and lc: "length (cur_blk t) = blk_sz t" using inv(1) f by (simp_all add: core_inv_def)
  have lo: "lf_off t = lf_off s + length data" by (simp add: t_def fill_block_def)
  have fits: "(?n + 1) * blk_sz t \<le> dsize (lf_device t)" using room lo f(1,8,10) by simp
  have w: "write_to_queue t (cur_blk t) (block_start t (lf_off t - 1)) = write_to_queue t (cur_blk t) (?n * blk_sz t)"
    using f(2,8) by simp
  from q lc fits show ?thesis
  proof (cases rule: write_to_queue_cases)
    case race
    then show ?thesis using that(1) w f(7) by simp
  next
    case (ok s')
    let ?u = "fresh_block s'"
    note v = write_to_queue_view [OF ok(1)]
    have u: "blk_sz ?u = ?bs" "lf_off ?u = (?n + 1) * ?bs" "rcache ?u = rcache s" "cur_off ?u = 0"
      "available ?u = ?bs" "length (cur_blk ?u) = ?bs" "lf_device ?u = lf_device s'"
      using v f by (simp_all add: fresh_block_def)
    have fb: "full_blocks ?u = ?n + 1" and md: "lf_off ?u mod blk_sz ?u = 0"
      using u(1,2) bs block_div_mod [of "lf_off ?u" "?n + 1" ?bs 0] by (simp_all add: full_blocks_def)
    have bd: "block_data ?u = block_data s'" and qi: "queue_inv m ?u = queue_inv m s'" for m
      by (simp_all add: fresh_block_def)
    have ba: "block_data ?u b = (if b = ?n then cur_blk t else block_data s b)" if "b \<le> ?n" for b
      using ok(3) that bd f(6) by simp
    have ci: "core_inv ?u" unfolding core_inv_def using ok(2) u fb md qi by simp
    have "\<exists>b < ?n + 1. blk (rcache s ! i) = b * ?bs \<and> i = b mod RCACHE_BLOCKS \<and> bbuf (rcache s ! i) = block_at ?u b"
      if i: "i < RCACHE_BLOCKS" "blk (rcache s ! i) \<noteq> 3" for i
    proof -
      obtain b where "b < ?n" "blk (rcache s ! i) = b * ?bs" "i = b mod RCACHE_BLOCKS"
        "bbuf (rcache s ! i) = block_at s b"
        using inv(2) i by (auto simp: rcache_ok_def)
      then show ?thesis using ba [of b] fb by (intro exI [of _ b]) (simp add: block_at_def)
    qed
    then have rc: "rcache_ok (full_blocks ?u) ?u" using inv(2) fb u by (simp add: rcache_ok_def)
    have old: "map (block_data ?u) [0..<?n] = map (block_data s) [0..<?n]" using ba by simp
    have "contents ?u = concat (map (block_data s) [0..<?n]) @ cur_blk t"
      using contents_split [OF ci] fb md old ba [of ?n] by simp
    then have "contents ?u = contents s @ data" using contents_split [OF inv(1)] f(3) by simp
    moreover have "calm s \<longrightarrow> calm ?u" using ok(5) f(7) by (simp add: calm_def fair_def fresh_block_def)
    ultimately show ?thesis
      using that(2) [of s'] ok(1,4) w ci rc u lo f by simp
  qed
qed

definition appended :: "logfs \<Rightarrow> bytes \<Rightarrow> logfs \<Rightarrow> bool" where
  "appended s data s' \<longleftrightarrow>
     core_inv s' \<and> rcache_ok (full_blocks s') s' \<and> contents s' = contents s @ data \<and> (calm s \<longrightarrow> calm s') \<and>
     dsize (lf_device s') = dsize (lf_device s) \<and> blk_sz s' = blk_sz s"

lemma append_loop_ok:
  assumes "core_inv s" and "rcache_ok (full_blocks s) s" and "lf_off s + length data \<le> dsize (lf_device s)"
  shows "(append_loop s data = Inl Data_race \<and> \<not> calm s) \<or> (\<exists>s'. append_loop s data = Inr s' \<and> appended s data s')"
  using assms
proof (induction s data rule: append_loop.induct)
  case (1 s data)
  note inv = 1(2,3) and room = 1(4)
  show ?case
  proof (cases "length data < available s")
    case True
    then have "append_loop s data = Inr (append_tail s data)" by (simp add: append_loop.simps [of s])
    then show ?thesis using append_tail_ok [OF inv True] by (simp add: appended_def)
  next
    case False
    let ?d = "take (available s) data" and ?rest = "drop (available s) data"
    let ?t = "fill_block s ?d"
    have bs: "blk_sz s \<noteq> 0" using core_invD(4) [OF inv(1)] by simp
    have len: "length ?d = available s" using False by simp
    have room': "lf_off s + length ?d \<le> dsize (lf_device s)" using room False by simp
    have step: "append_loop s data =
        (case write_to_queue ?t (cur_blk ?t) (block_start ?t (lf_off ?t - 1)) of
           Inl e \<Rightarrow> Inl e | Inr s2 \<Rightarrow> append_loop (fresh_block s2) ?rest)"
      using False bs by (subst append_loop.simps) (simp add: Let_def)
    from inv len room' show ?thesis
    proof (cases rule: append_block_ok)
      case race
      then show ?thesis using step by simp
    next
      case (ok s2)
      let ?u = "fresh_block s2"
      have "lf_off ?u + length ?rest \<le> dsize (lf_device ?u)" using room len False ok(6,7) by simp
      from 1(1) [OF False bs refl ok(1) ok(2,3) this]
      have "(append_loop ?u ?rest = Inl Data_race \<and> \<not> calm ?u) \<or>
          (\<exists>s'. append_loop ?u ?rest = Inr s' \<and> appended ?u ?rest s')" .
      moreover have "appended s data s'" if "appended ?u ?rest s'" for s'
        using that ok append_take_drop_id [of "available s" data] by (simp add: appended_def)
      moreover have "append_loop s data = append_loop ?u ?rest" using step ok(1) by simp
      ultimately show ?thesis using ok(5) by metis
    qed
  qed
qed

lemma rcache_simps:
  "lf_off (s\<lparr>rcache := rc\<rparr>) = lf_off s" "blk_sz (s\<lparr>rcache := rc\<rparr>) = blk_sz s"
  "lf_device (s\<lparr>rcache := rc\<rparr>) = lf_device s" "cur_blk (s\<lparr>rcache := rc\<rparr>) = cur_blk s"
  "cur_off (s\<lparr>rcache := rc\<rparr>) = cur_off s" "available (s\<lparr>rcache := rc\<rparr>) = available s"
  "queue_inv n (s\<lparr>rcache := rc\<rparr>) = queue_inv n s" "block_data (s\<lparr>rcache := rc\<rparr>) = block_data s"
  "calm (s\<lparr>rcache := rc\<rparr>) = calm s" "full_blocks (s\<lparr>rcache := rc\<rparr>) = full_blocks s"
  "block_at (s\<lparr>rcache := rc\<rparr>) = block_at s" "contents (s\<lparr>rcache := rc\<rparr>) = contents s"
proof -
  show fb: "full_blocks (s\<lparr>rcache := rc\<rparr>) = full_blocks s" by (simp add: full_blocks_def)
  show ba: "block_at (s\<lparr>rcache := rc\<rparr>) = block_at s" by (simp add: block_at_def fun_eq_iff fb)
  show "contents (s\<lparr>rcache := rc\<rparr>) = contents s" by (simp add: contents_def ba fb)
qed (simp_all add: calm_def fair_def)

lemma invalidate_rcache: "\<exists>rc. invalidate s = s\<lparr>rcache := rc\<rparr>"
proof (cases "block_start s (lf_off s) = blk (rcache s ! rc_index s (block_start s (lf_off s)))")
  case True
  then show ?thesis by (auto simp: invalidate_def Let_def)
next
  case False
  then have "invalidate s = s\<lparr>rcache := rcache s\<rparr>" by (simp add: invalidate_def Let_def)
  then show ?thesis by blast
qed

lemma invalidate_simps [simp]:
  "lf_off (invalidate s) = lf_off s" "blk_sz (invalidate s) = blk_sz s" "lf_device (invalidate s) = lf_device s"
  "cur_blk (invalidate s) = cur_blk s" "cur_off (invalidate s) = cur_off s" "available (invalidate s) = available s"
  "queue_inv n (invalidate s) = queue_inv n s" "block_data (invalidate s) = block_data s"
  "calm (invalidate s) = calm s" "full_blocks (invalidate s) = full_blocks s"
  "block_at (invalidate s) = block_at s" "contents (invalidate s) = contents s"
proof -
  obtain rc where "invalidate s = s\<lparr>rcache := rc\<rparr>" using invalidate_rcache by blast
  then show "lf_off (invalidate s) = lf_off s" "blk_sz (invalidate s) = blk_sz s"
    "lf_device (invalidate s) = lf_device s"
    "cur_blk (invalidate s) = cur_blk s" "cur_off (invalidate s) = cur_off s" "available (invalidate s) = available s"
    "queue_inv n (invalidate s) = queue_inv n s" "block_data (invalidate s) = block_data s"
    "calm (invalidate s) = calm s" "full_blocks (invalidate s) = full_blocks s"
    "block_at (invalidate s) = block_at s" "contents (invalidate s) = contents s"
    by (simp_all only: rcache_simps)
qed

lemma invalidate_ok:
  assumes "log_inv s"
  shows "core_inv (invalidate s)" "rcache_ok (full_blocks s) (invalidate s)"
proof -
  have c: "core_inv s" and r: "rcache_ok (Suc (full_blocks s)) s" using assms by (auto simp: log_inv_def)
  show "core_inv (invalidate s)" using c by (simp add: core_inv_def)
  let ?n = "full_blocks s" and ?bs = "blk_sz s"
  have bs: "0 < ?bs" using core_invD(4) [OF c] by simp
  have st: "block_start s (lf_off s) = ?n * ?bs"
    by (simp add: block_start_def full_blocks_def minus_mod_eq_div_mult)
  have ix: "rc_index s (?n * ?bs) = ?n mod RCACHE_BLOCKS" and ixl: "?n mod RCACHE_BLOCKS < RCACHE_BLOCKS"
    using bs by (simp_all add: rc_index_def cache_sizes)
  have len: "length (rcache s) = RCACHE_BLOCKS" using r by (simp add: rcache_ok_def)
  have rc: "rcache (invalidate s) =
      (if blk (rcache s ! (?n mod RCACHE_BLOCKS)) = ?n * ?bs
       then (rcache s)[?n mod RCACHE_BLOCKS := (rcache s ! (?n mod RCACHE_BLOCKS))\<lparr>blk := 3\<rparr>] else rcache s)"
    by (simp add: invalidate_def Let_def st ix eq_commute [of "full_blocks s * blk_sz s"])
  have "\<exists>b < ?n. blk (rcache (invalidate s) ! i) = b * ?bs \<and> i = b mod RCACHE_BLOCKS \<and>
      bbuf (rcache (invalidate s) ! i) = block_at s b"
    if i: "i < RCACHE_BLOCKS" "blk (rcache (invalidate s) ! i) \<noteq> 3" for i
  proof -
    have same: "rcache (invalidate s) ! i = rcache s ! i"
      and nb: "i = ?n mod RCACHE_BLOCKS \<longrightarrow> blk (rcache s ! i) \<noteq> ?n * ?bs"
      using i len ixl unfolding rc by (auto simp: nth_list_update split: if_splits)
    then obtain b where "b < Suc ?n" "blk (rcache s ! i) = b * ?bs" "i = b mod RCACHE_BLOCKS"
      "bbuf (rcache s ! i) = block_at s b"
      using r i unfolding rcache_ok_def same by blast
    moreover then have "b \<noteq> ?n" using nb by auto
    ultimately show ?thesis unfolding same by (auto simp: less_Suc_eq)
  qed
  moreover have "length (rcache (invalidate s)) = RCACHE_BLOCKS" using len rc by simp
  ultimately show "rcache_ok ?n (invalidate s)" by (simp add: rcache_ok_def)
qed

lemma rcache_ok_mono: "rcache_ok m s \<Longrightarrow> m \<le> k \<Longrightarrow> rcache_ok k s"
  unfolding rcache_ok_def by (meson order.strict_trans2)

lemma logfs_append_ok:
  assumes "log_inv s" and "lf_off s + length data \<le> dsize (lf_device s)"
  shows "(logfs_append s data = Inl Data_race \<and> \<not> calm s) \<or>
    (\<exists>s'. logfs_append s data = Inr (0, s') \<and> log_inv s' \<and> appended s data s')"
proof -
  have bs: "blk_sz s \<noteq> 0" using assms(1) core_invD(4) [of s] by (auto simp: log_inv_def)
  have "(append_loop (invalidate s) data = Inl Data_race \<and> \<not> calm (invalidate s)) \<or>
      (\<exists>s'. append_loop (invalidate s) data = Inr s' \<and> appended (invalidate s) data s')"
    using invalidate_ok [OF assms(1)] assms(2) by (intro append_loop_ok) simp_all
  then show ?thesis
  proof
    assume "append_loop (invalidate s) data = Inl Data_race \<and> \<not> calm (invalidate s)"
    then show ?thesis using bs by (simp add: logfs_append_def)
  next
    assume "\<exists>s'. append_loop (invalidate s) data = Inr s' \<and> appended (invalidate s) data s'"
    then obtain s' where s': "append_loop (invalidate s) data = Inr s'" "appended (invalidate s) data s'" by blast
    then have "appended s data s'" by (simp add: appended_def)
    moreover then have "log_inv s'"
      using rcache_ok_mono [of "full_blocks s'" s' "Suc (full_blocks s')"] by (simp add: appended_def log_inv_def)
    ultimately show ?thesis using bs s'(1) by (simp add: logfs_append_def)
  qed
qed

subsection \<open>Reading\<close>

text \<open>What reading may change: the read cache, the device and the progress of the worker.\<close>

definition same_log :: "logfs \<Rightarrow> logfs \<Rightarrow> bool" where
  "same_log s s' \<longleftrightarrow>
     lf_off s' = lf_off s \<and> blk_sz s' = blk_sz s \<and> cur_blk s' = cur_blk s \<and> block_data s' = block_data s \<and>
     dsize (lf_device s') = dsize (lf_device s) \<and> (calm s \<longrightarrow> calm s')"

lemma same_log_refl [simp]: "same_log s s"
  by (simp add: same_log_def)

lemma same_log_trans [trans]: "same_log s t \<Longrightarrow> same_log t u \<Longrightarrow> same_log s u"
  by (simp add: same_log_def)

lemma same_log_rcache [simp]: "same_log (s\<lparr>rcache := rc\<rparr>) t = same_log s t" "same_log s (t\<lparr>rcache := rc\<rparr>) = same_log s t"
  by (simp_all add: same_log_def rcache_simps)

lemma same_log_simps:
  assumes "same_log s s'"
  shows "full_blocks s' = full_blocks s" "block_at s' = block_at s" "contents s' = contents s"
    "rc_index s' = rc_index s" "block_start s' = block_start s"
proof -
  show fb: "full_blocks s' = full_blocks s" using assms by (simp add: same_log_def full_blocks_def)
  show ba: "block_at s' = block_at s" using assms by (simp add: same_log_def block_at_def fun_eq_iff fb)
  show "contents s' = contents s" using assms by (simp add: contents_def fb ba same_log_def)
  show "rc_index s' = rc_index s" "block_start s' = block_start s"
    using assms by (simp_all add: rc_index_def block_start_def fun_eq_iff same_log_def)
qed

lemma lock_same:
  assumes "core_inv s"
  obtains s' where "lock s = Inr s'" "core_inv s'" "same_log s s'" "rcache s' = rcache s"
proof -
  obtain s' where s': "lock s = Inr s'" "queue_inv (full_blocks s) s'" "block_data s' = block_data s"
    using lock_inv [of "full_blocks s" s] assms by (auto simp: core_inv_def)
  have v: "client_view s' = client_view s" using lock_view [OF s'(1)] .
  have "calm s \<longrightarrow> calm s'" using fair_lock_idle [of s s'] s'(1) by (auto simp: calm_def)
  then have same: "same_log s s'" using s' v lock_dsize [OF s'(1)] by (simp add: same_log_def client_view_def)
  moreover have "core_inv s'"
    using assms s'(2) v same_log_simps(1) [OF same] by (simp add: core_inv_def client_view_def)
  ultimately show ?thesis using that s'(1) v by (simp add: client_view_def)
qed

lemma find_scaled_None: "find (\<lambda>u. x = blk u) us = None \<Longrightarrow> u \<in> set us \<Longrightarrow> blk u \<noteq> x"
  by (auto simp: find_None_iff)

lemma fetch_block_ok:
  assumes inv: "core_inv s" and b: "b \<le> full_blocks s"
  obtains s' where "fetch_block s (b * blk_sz s) = Inr (0, block_at s b, s')" "core_inv s'" "same_log s s'"
    "rcache s' = rcache s"
proof (cases "b = full_blocks s")
  case True
  moreover have "block_start s (lf_off s) = full_blocks s * blk_sz s"
    by (simp add: block_start_def full_blocks_def minus_mod_eq_div_mult)
  ultimately show ?thesis using that [of s] inv by (simp add: fetch_block_def block_at_def core_inv_def)
next
  case False
  have bs: "3 < blk_sz s" using core_invD(4) [OF inv] .
  have "b * blk_sz s \<noteq> block_start s (lf_off s)"
    using False bs by (simp add: block_start_def full_blocks_def minus_mod_eq_div_mult)
  then have f: "fetch_block s (b * blk_sz s) = obind (check_in_wcache s (b * blk_sz s)) (\<lambda>(hit, s1).
        case hit of Some data \<Rightarrow> Inr (0, data, s1)
        | None \<Rightarrow> obind (device_read (lf_device s1) (b * blk_sz s) (blk_sz s1)) (\<lambda>(rc, data). Inr (rc, data, s1)))"
    by (simp add: fetch_block_def)
  obtain s1 where s1: "lock s = Inr s1" "core_inv s1" "same_log s s1" "rcache s1 = rcache s"
    using lock_same [OF inv] .
  have e: "blk_sz s1 = blk_sz s" "block_data s1 = block_data s" using s1(3) by (simp_all add: same_log_def)
  have "length (block_data s b) = blk_sz s" using block_data_length [OF inv] b False by simp
  then have ld: "take (blk_sz s) (block_data s1 b) = block_data s1 b" using e by simp
  have "b * blk_sz s + blk_sz s \<le> full_blocks s * blk_sz s"
    using b False mult_le_mono1 [of "b + 1" "full_blocks s" "blk_sz s"] by simp
  then have "device_read (lf_device s1) (b * blk_sz s) (blk_sz s) =
      Inr (0, slice (b * blk_sz s) (blk_sz s) (dfile (lf_device s1)))"
    using device_read_block [of "lf_device s1" b] core_invD(3) [OF s1(2)] e same_log_simps(1) [OF s1(3)]
    by (simp add: dev_ok_def)
  then have "fetch_block s (b * blk_sz s) = Inr (0, block_data s1 b, s1)"
    using f s1(1) e(1) ld by (auto simp: check_in_wcache_def block_data_def split: option.splits)
  then show ?thesis using that [of s1] s1 e False by (simp add: block_at_def)
qed

text \<open>Storing a fetched block under its index keeps the read cache correct.\<close>

lemma rcache_store:
  assumes r: "rcache_ok m s" and b: "b < m" and e: "e = \<lparr>blk = b * blk_sz s, bbuf = block_at s b\<rparr>"
  shows "rcache_ok m (s\<lparr>rcache := (rcache s)[b mod RCACHE_BLOCKS := e]\<rparr>)"
proof -
  have "b mod RCACHE_BLOCKS < RCACHE_BLOCKS" by (simp add: cache_sizes)
  then show ?thesis
    using r b e by (auto simp: rcache_ok_def rcache_simps nth_list_update)
qed

lemma rcache_hit:
  assumes r: "rcache_ok m s" and "b < m" and "3 < blk_sz s"
    and hit: "blk (rcache s ! (b mod RCACHE_BLOCKS)) = b * blk_sz s"
  shows "bbuf (rcache s ! (b mod RCACHE_BLOCKS)) = block_at s b"
proof -
  have "b mod RCACHE_BLOCKS < RCACHE_BLOCKS" by (simp add: cache_sizes)
  moreover have "b * blk_sz s \<noteq> 3" using assms(3) by (cases b) auto
  ultimately obtain c where "b * blk_sz s = c * blk_sz s"
    "bbuf (rcache s ! (b mod RCACHE_BLOCKS)) = block_at s c"
    using r hit by (auto simp: rcache_ok_def)
  then show ?thesis using assms(3) by auto
qed

lemma core_inv_rcache [simp]: "core_inv (s\<lparr>rcache := rc\<rparr>) = core_inv s"
  by (simp add: core_inv_def rcache_simps)

lemma read_mem_ok:
  assumes inv: "log_inv s" and b: "b \<le> full_blocks s" and off: "b * blk_sz s \<le> off"
    and fits: "off - b * blk_sz s + len \<le> blk_sz s"
  obtains s' where "read_mem s (b * blk_sz s) off len = Inr (0, slice (off - b * blk_sz s) len (block_at s b), s')"
    "log_inv s'" "same_log s s'"
proof -
  let ?i = "b mod RCACHE_BLOCKS" and ?bs = "blk_sz s"
  have c: "core_inv s" and r: "rcache_ok (Suc (full_blocks s)) s" using inv by (auto simp: log_inv_def)
  have bs: "3 < ?bs" using core_invD(4) [OF c] .
  have ix: "rc_index t (b * ?bs) = ?i" if "blk_sz t = ?bs" for t using bs that by (simp add: rc_index_def)
  have il: "?i < length (rcache s)" using r by (simp add: rcache_ok_def cache_sizes)
  show thesis
  proof (cases "blk (rcache s ! ?i) = b * ?bs")
    case True
    then have "read_mem s (b * ?bs) off len = Inr (0, slice (off - b * ?bs) len (bbuf (rcache s ! ?i)), s)"
      using fits ix [of s] by (simp add: read_mem_def Let_def)
    then show ?thesis using that [of s] rcache_hit [OF r _ bs True] b inv by simp
  next
    case False
    let ?s1 = "s\<lparr>rcache := (rcache s)[?i := (rcache s ! ?i)\<lparr>blk := b * ?bs\<rparr>]\<rparr>"
    have c1: "core_inv ?s1" "b \<le> full_blocks ?s1" using c b by (simp_all add: rcache_simps)
    obtain s2 where s2: "fetch_block ?s1 (b * blk_sz ?s1) = Inr (0, block_at ?s1 b, s2)" "core_inv s2"
      "same_log ?s1 s2" "rcache s2 = rcache ?s1"
      using fetch_block_ok [OF c1] .
    let ?e = "\<lparr>blk = b * ?bs, bbuf = block_at s b\<rparr>"
    let ?s3 = "s2\<lparr>rcache := (rcache s)[?i := ?e]\<rparr>"
    have same: "same_log s ?s3" using s2(3) by simp
    have z: "blk_sz s2 = ?bs" using s2(3) by (simp add: same_log_def)
    have upd: "(rcache s2)[?i := (rcache s2 ! ?i)\<lparr>bbuf := block_at s b\<rparr>] = (rcache s)[?i := ?e]"
      using s2(4) il by (cases "rcache s ! ?i") simp
    have f: "fetch_block ?s1 (b * ?bs) = Inr (0, block_at s b, s2)" using s2(1) by (simp add: rcache_simps)
    have i2: "rc_index s (b * ?bs) = ?i" using ix by simp
    have "read_mem s (b * ?bs) off len = Inr (0, slice (off - b * ?bs) len (block_at s b), ?s3)"
      unfolding read_mem_def Let_def i2 using False f fits z il
      by (simp add: upd)
    moreover have "rcache_ok (Suc (full_blocks s)) (s\<lparr>rcache := (rcache s)[?i := ?e]\<rparr>)"
      using b by (intro rcache_store [OF r]) simp_all
    then have "rcache_ok (Suc (full_blocks ?s3)) ?s3"
      using same_log_simps(1,2) [OF same] z by (simp add: rcache_ok_def rcache_simps)
    ultimately show ?thesis using that [of ?s3] s2(2) same by (simp add: log_inv_def)
  qed
qed

lemma read_loop_ok:
  assumes "log_inv s" and "b * blk_sz s + left \<le> lf_off s" and "b \<le> full_blocks s \<or> left = 0"
  shows "\<exists>s'. read_loop s (b * blk_sz s) (b * blk_sz s) left acc =
      Inr (0, acc @ slice (b * blk_sz s) left (contents s), s') \<and> log_inv s' \<and> same_log s s'"
  using assms
proof (induction left arbitrary: s b acc rule: less_induct)
  case (less left)
  let ?bs = "blk_sz s"
  have c: "core_inv s" using less.prems(1) by (simp add: log_inv_def)
  have bs: "3 < ?bs" using core_invD(4) [OF c] .
  show ?case
  proof (cases "left = 0")
    case True
    then show ?thesis using less.prems by (subst read_loop.simps) simp
  next
    case False
    then have b: "b \<le> full_blocks s" using less.prems(3) by simp
    have sl: "slice 0 n (block_at s b) = slice (b * ?bs) n (contents s)" if "n \<le> ?bs" "n \<le> left" for n
      using slice_contents [OF c, of b 0 n] b that less.prems(2) by simp
    show ?thesis
    proof (cases "?bs < left")
      case True
      obtain s1 where s1: "read_mem s (b * ?bs) (b * ?bs) ?bs = Inr (0, slice (b * ?bs) ?bs (contents s), s1)"
        "log_inv s1" "same_log s s1"
        using read_mem_ok [OF less.prems(1) b, of "b * ?bs" ?bs] sl [of ?bs] True by auto
      have e: "blk_sz s1 = ?bs" "lf_off s1 = lf_off s" "contents s1 = contents s" "full_blocks s1 = full_blocks s"
        using s1(3) same_log_simps [OF s1(3)] by (simp_all add: same_log_def)
      have "(b + 1) * ?bs \<le> lf_off s" using less.prems(2) True by simp
      then have "b + 1 \<le> full_blocks s" unfolding full_blocks_def using bs
        by (metis div_le_mono nonzero_mult_div_cancel_right not_less_zero)
      then obtain s' where s': "read_loop s1 ((b + 1) * blk_sz s1) ((b + 1) * blk_sz s1) (left - ?bs)
            (acc @ slice (b * ?bs) ?bs (contents s)) =
          Inr (0, (acc @ slice (b * ?bs) ?bs (contents s)) @ slice ((b + 1) * blk_sz s1) (left - ?bs) (contents s1), s')"
        "log_inv s'" "same_log s1 s'"
        using less.IH [of "left - ?bs" s1 "b + 1"] less.prems(2) s1(2) e True bs by fastforce
      have "slice (b * ?bs) left (contents s) =
          slice (b * ?bs) ?bs (contents s) @ slice ((b + 1) * ?bs) (left - ?bs) (contents s)"
        using slice_split [of "b * ?bs" ?bs "left - ?bs" "contents s"] True by (simp add: add.commute)
      moreover have "read_loop s (b * ?bs) (b * ?bs) left acc =
          read_loop s1 ((b + 1) * ?bs) ((b + 1) * ?bs) (left - ?bs) (acc @ slice (b * ?bs) ?bs (contents s))"
        using True bs s1(1) by (subst read_loop.simps) (simp add: add.commute)
      ultimately show ?thesis using s' s1(3) same_log_trans [of s s1 s'] e by auto
    next
      case short: False
      obtain s1 where "read_mem s (b * ?bs) (b * ?bs) left = Inr (0, slice (b * ?bs) left (contents s), s1)"
        "log_inv s1" "same_log s s1"
        using read_mem_ok [OF less.prems(1) b, of "b * ?bs" left] sl [of left] short by auto
      then show ?thesis using short False by (subst read_loop.simps) simp
    qed
  qed
qed

lemma logfs_read_ok:
  assumes inv: "log_inv s" and fits: "off + len \<le> lf_off s"
  shows "\<exists>s'. logfs_read s off len = Inr (0, slice off len (contents s), s') \<and> log_inv s' \<and> same_log s s'"
proof -
  let ?bs = "blk_sz s"
  have c: "core_inv s" using inv by (simp add: log_inv_def)
  have bs: "3 < ?bs" using core_invD(4) [OF c] .
  define b where "b = off div ?bs"
  define n where "n = min len ((b + 1) * ?bs - off)"
  have st: "block_start s off = b * ?bs" by (simp add: block_start_def b_def minus_mod_eq_div_mult)
  have le: "b * ?bs \<le> off" and lt: "off < (b + 1) * ?bs"
    using bs dividend_less_div_times [of ?bs off] by (simp_all add: b_def add.commute)
  have bf: "b \<le> full_blocks s" unfolding b_def full_blocks_def using fits by (intro div_le_mono) simp
  have nf: "off - b * ?bs + n \<le> ?bs" using le lt unfolding n_def by simp
  obtain s1 where s1: "read_mem s (b * ?bs) off n = Inr (0, slice (off - b * ?bs) n (block_at s b), s1)"
    "log_inv s1" "same_log s s1"
    using read_mem_ok [OF inv bf le nf] .
  have sl: "slice (off - b * ?bs) n (block_at s b) = slice off n (contents s)"
    using slice_contents [OF c, of b "off - b * ?bs" n] bf nf le fits by (simp add: n_def)
  have e: "blk_sz s1 = ?bs" "lf_off s1 = lf_off s" "contents s1 = contents s" "full_blocks s1 = full_blocks s"
    using s1(3) same_log_simps [OF s1(3)] by (simp_all add: same_log_def)
  have rd: "logfs_read s off len =
      read_loop s1 ((b + 1) * ?bs) (off + n) (len - n) (slice off n (contents s))"
  proof -
    have m: "min len (b * ?bs + ?bs - off) = n" by (simp add: n_def add.commute)
    have a: "b * ?bs + ?bs = (b + 1) * ?bs" by simp
    have z: "?bs \<noteq> 0" using bs by simp
    have "logfs_read s off len = obind (read_mem s (b * ?bs) off n) (\<lambda>(rc, data, s1).
        if rc \<noteq> 0 then Inr (-1, [], s1) else read_loop s1 (b * ?bs + ?bs) (off + n) (len - n) data)"
      unfolding logfs_read_def Let_def st m if_not_P [OF z] by (rule refl)
    then show ?thesis unfolding s1(1) obind_simps split e(1) sl a by simp
  qed
  show ?thesis
  proof (cases "len \<le> (b + 1) * ?bs - off")
    case True
    then have n: "n = len" unfolding n_def by simp
    have "read_loop s1 ((b + 1) * ?bs) (off + n) 0 (slice off n (contents s)) = Inr (0, slice off n (contents s), s1)"
      by (subst read_loop.simps) simp
    then show ?thesis using rd n s1 by simp
  next
    case False
    then have n: "off + n = (b + 1) * ?bs" "n \<le> len" using lt unfolding n_def by simp_all
    have "(b + 1) * ?bs + (len - n) \<le> lf_off s" using n fits by simp
    moreover then have "b + 1 \<le> full_blocks s"
      unfolding full_blocks_def using bs by (metis add_leD1 div_le_mono nonzero_mult_div_cancel_right not_less_zero)
    ultimately obtain s' where s': "read_loop s1 ((b + 1) * blk_sz s1) ((b + 1) * blk_sz s1) (len - n)
          (slice off n (contents s)) =
        Inr (0, slice off n (contents s) @ slice ((b + 1) * blk_sz s1) (len - n) (contents s1), s')"
      "log_inv s'" "same_log s1 s'"
      using read_loop_ok [OF s1(2), of "b + 1" "len - n"] e by fastforce
    have "slice off len (contents s) = slice off n (contents s) @ slice (off + n) (len - n) (contents s)"
      using slice_split [of off n "len - n" "contents s"] n(2) by simp
    moreover have "logfs_read s off len =
        Inr (0, slice off n (contents s) @ slice (off + n) (len - n) (contents s), s')"
      using rd s'(1) unfolding e n(1) by simp
    ultimately show ?thesis using s'(2) same_log_trans [OF s1(3) s'(3)] by metis
  qed
qed

subsection \<open>Opening\<close>

lemma ring_dist_bound: "i < WCACHE_BLOCKS \<Longrightarrow> t < WCACHE_BLOCKS \<Longrightarrow> ring_dist t i < WCACHE_BLOCKS"
  by (auto simp: ring_dist_def)

lemma logfs_open_ok:
  assumes "healthy d" and "3 < dblock d" and "length junk = dblock d"
  shows "\<exists>s. logfs_open (Some d) True junk sch = Inr (Some s) \<and> log_inv s \<and> contents s = [] \<and>
    lf_off s = 0 \<and> lf_device s = d \<and> sched s = sch \<and> inflight s = None \<and> blk_sz s = dblock d"
proof -
  obtain s where s: "logfs_open (Some d) True junk sch = Inr (Some s)"
    and f: "lf_device s = d" "\<not> lf_done s" "cur_blk s = replicate (dblock d) 0" "cur_off s = 0" "lf_off s = 0"
      "blk_sz s = dblock d" "available s = dblock d" "head s = 0" "tail s = 0" "active_blks s = 0"
      "wcache s = replicate WCACHE_BLOCKS \<lparr>blk = 3, bbuf = junk\<rparr>"
      "rcache s = replicate RCACHE_BLOCKS \<lparr>blk = 3, bbuf = junk\<rparr>"
      "inflight s = None" "sched s = sch"
    by (simp add: logfs_open_def device_block_def)
  have "queue_inv 0 s"
    using f assms
    by (simp add: queue_inv_def ring_ok_def slots_ok_def worker_ok_def synced_def dev_ok_def pending_def queued_def
        cache_sizes)
  moreover have "full_blocks s = 0" using f by (simp add: full_blocks_def)
  ultimately have "log_inv s" using f by (simp add: log_inv_def core_inv_def rcache_ok_def)
  moreover have "contents s = []" using f by (simp add: contents_def)
  ultimately show ?thesis using s f by simp
qed

subsection \<open>The interface of an append-only log\<close>

text \<open>
  What the key-value layers rely on: appending extends the content, reading inside the content
  returns that part of it, and neither changes what is there or the capacity.
\<close>

locale byte_log =
  fixes inv :: "'s \<Rightarrow> bool"
    and content :: "'s \<Rightarrow> bytes"
    and capacity :: "'s \<Rightarrow> nat"
    and append_op :: "'s \<Rightarrow> bytes \<Rightarrow> (int \<times> 's) outcome"
    and read_op :: "'s \<Rightarrow> nat \<Rightarrow> nat \<Rightarrow> (int \<times> bytes \<times> 's) outcome"
  assumes append_law: "inv s \<Longrightarrow> length (content s) + length d \<le> capacity s \<Longrightarrow>
      \<exists>s'. append_op s d = Inr (0, s') \<and> inv s' \<and> content s' = content s @ d \<and> capacity s' = capacity s"
    and read_law: "inv s \<Longrightarrow> off + len \<le> length (content s) \<Longrightarrow>
      \<exists>s'. read_op s off len = Inr (0, slice off len (content s), s') \<and> inv s' \<and> content s' = content s \<and>
        capacity s' = capacity s"
begin

text \<open>What was just appended can be read back, and older parts are read as before.\<close>

lemma append_then_read:
  assumes "inv s" and "length (content s) + length d \<le> capacity s"
  obtains s' s'' where "append_op s d = Inr (0, s')"
    "read_op s' (length (content s)) (length d) = Inr (0, d, s'')" "inv s''" "content s'' = content s @ d"
proof -
  obtain s' where s': "append_op s d = Inr (0, s')" "inv s'" "content s' = content s @ d"
    using append_law [OF assms] by blast
  then have "length (content s) + length d \<le> length (content s')" by simp
  from read_law [OF s'(2) this] s' show thesis using that by (auto simp: slice_append_right)
qed

lemma append_keeps_old:
  assumes "inv s" and "length (content s) + length d \<le> capacity s" and "off + len \<le> length (content s)"
  obtains s' s'' where "append_op s d = Inr (0, s')"
    "read_op s' off len = Inr (0, slice off len (content s), s'')" "inv s''" "content s'' = content s @ d"
proof -
  obtain s' where s': "append_op s d = Inr (0, s')" "inv s'" "content s' = content s @ d"
    using append_law [OF assms(1,2)] by blast
  then have "off + len \<le> length (content s')" using assms(3) by simp
  from read_law [OF s'(2) this] s' assms(3) show thesis using that by (auto simp: slice_append_left)
qed

end

definition log_ready :: "logfs \<Rightarrow> bool" where
  "log_ready s \<longleftrightarrow> log_inv s \<and> calm s"

definition log_capacity :: "logfs \<Rightarrow> nat" where
  "log_capacity s = device_size (lf_device s)"

lemma ready_length: "log_ready s \<Longrightarrow> length (contents s) = lf_off s"
  by (simp add: log_ready_def log_inv_def length_contents)

lemma append_ready:
  assumes "log_ready s" and "length (contents s) + length d \<le> log_capacity s"
  shows "\<exists>s'. logfs_append s d = Inr (0, s') \<and> log_ready s' \<and> contents s' = contents s @ d \<and>
    log_capacity s' = log_capacity s"
proof -
  have "lf_off s + length d \<le> dsize (lf_device s)"
    using assms ready_length [OF assms(1)] by (simp add: log_capacity_def device_size_def)
  from logfs_append_ok [OF _ this] assms(1) show ?thesis
    by (auto simp: log_ready_def appended_def log_capacity_def device_size_def)
qed

lemma read_ready:
  assumes "log_ready s" and "off + len \<le> length (contents s)"
  shows "\<exists>s'. logfs_read s off len = Inr (0, slice off len (contents s), s') \<and> log_ready s' \<and>
    contents s' = contents s \<and> log_capacity s' = log_capacity s"
proof -
  have "off + len \<le> lf_off s" using assms ready_length by simp
  from logfs_read_ok [OF _ this] assms(1) obtain s' where
    s': "logfs_read s off len = Inr (0, slice off len (contents s), s')" "log_inv s'" "same_log s s'"
    by (auto simp: log_ready_def)
  have "contents s' = contents s" using same_log_simps(3) [OF s'(3)] .
  moreover have "log_capacity s' = log_capacity s" "calm s'"
    using assms(1) s'(3) by (simp_all add: same_log_def log_capacity_def device_size_def log_ready_def)
  ultimately show ?thesis using s' by (simp add: log_ready_def)
qed

interpretation dl: byte_log log_ready contents log_capacity logfs_append logfs_read
  using append_ready read_ready by unfold_locales

subsection \<open>Properties\<close>

text \<open>
  C2: on a log with room, \<open>logfs_append\<close> returns 0 and the content is the old one followed by the new
  bytes, however many blocks they fill, when the worker thread runs under a fair schedule.
\<close>

theorem logfs_append_refines:
  assumes "log_ready s" and "length (contents s) + length data \<le> log_capacity s"
  shows "\<exists>s'. logfs_append s data = Inr (0, s') \<and> log_ready s' \<and> contents s' = contents s @ data \<and>
    log_capacity s' = log_capacity s"
  by (rule append_ready [OF assms])

text \<open>
  C15: reading any range inside the content returns exactly those bytes, from whichever of the current
  block, the ring, the worker, the read cache and the device they are in, and changes no content.
\<close>

theorem logfs_read_refines:
  assumes "log_ready s" and "off + len \<le> length (contents s)"
  shows "\<exists>s'. logfs_read s off len = Inr (0, slice off len (contents s), s') \<and> log_ready s' \<and>
    contents s' = contents s \<and> log_capacity s' = log_capacity s"
  by (rule read_ready [OF assms])

text \<open>A small disk for the witnesses: two blocks of four bytes.\<close>

definition tiny_disk :: device where
  "tiny_disk = \<lparr>fd = 3, dsize = 8, dblock = 4, dfile = replicate 8 0, dio = \<lambda>_ _. True\<rparr>"

lemma tiny_open:
  "\<exists>s. logfs_open (Some tiny_disk) True [9, 9, 9, 9] (\<lambda>_. 2) = Inr (Some s) \<and> log_ready s \<and> contents s = [] \<and>
     log_capacity s = 8"
proof -
  obtain s where "logfs_open (Some tiny_disk) True [9, 9, 9, 9] (\<lambda>_. 2) = Inr (Some s)" "log_inv s"
    "contents s = []" "lf_device s = tiny_disk" "sched s = (\<lambda>_. 2)" "inflight s = None"
    using logfs_open_ok [of tiny_disk "[9, 9, 9, 9]" "\<lambda>_. 2"] by (auto simp: tiny_disk_def healthy_def)
  then show ?thesis
    by (simp add: log_ready_def calm_def fair_def log_capacity_def device_size_def tiny_disk_def)
qed

theorem logfs_append_refines_witness:
  "\<exists>s s'. logfs_open (Some tiny_disk) True [9, 9, 9, 9] (\<lambda>_. 2) = Inr (Some s) \<and>
     logfs_append s [1, 2, 3, 4, 5] = Inr (0, s') \<and> contents s' = [1, 2, 3, 4, 5]"
proof -
  obtain s where s: "logfs_open (Some tiny_disk) True [9, 9, 9, 9] (\<lambda>_. 2) = Inr (Some s)" "log_ready s"
    "contents s = []" "log_capacity s = 8"
    using tiny_open by blast
  have "length (contents s) + length [1, 2, 3, 4, 5::byte] \<le> log_capacity s" using s by simp
  from logfs_append_refines [OF s(2) this] s show ?thesis by auto
qed

theorem logfs_read_refines_witness:
  "\<exists>s s1 s2. logfs_open (Some tiny_disk) True [9, 9, 9, 9] (\<lambda>_. 2) = Inr (Some s) \<and>
     logfs_append s [1, 2, 3, 4, 5] = Inr (0, s1) \<and> logfs_read s1 2 3 = Inr (0, [3, 4, 5], s2)"
proof -
  obtain s where s: "logfs_open (Some tiny_disk) True [9, 9, 9, 9] (\<lambda>_. 2) = Inr (Some s)" "log_ready s"
    "contents s = []" "log_capacity s = 8"
    using tiny_open by blast
  obtain s1 where s1: "logfs_append s [1, 2, 3, 4, 5] = Inr (0, s1)" "log_ready s1" "contents s1 = [1, 2, 3, 4, 5]"
    using append_ready [OF s(2), of "[1, 2, 3, 4, 5]"] s by auto
  have "2 + 3 \<le> length (contents s1)" using s1(3) by simp
  from logfs_read_refines [OF s1(2) this] obtain s2 where
    "logfs_read s1 2 3 = Inr (0, slice 2 3 (contents s1), s2)" by blast
  then show ?thesis using s(1) s1 by (auto simp: slice_def)
qed

text \<open>
  C26: without any assumption on the schedule, an append with room either refines the abstract append or
  is the race between the client and the worker on a ring slot, and no assert or \<open>EXIT\<close> is reached.
\<close>

theorem logfs_append_any_schedule:
  assumes "log_inv s" and "lf_off s + length data \<le> device_size (lf_device s)"
  shows "logfs_append s data = Inl Data_race \<or>
    (\<exists>s'. logfs_append s data = Inr (0, s') \<and> log_inv s' \<and> contents s' = contents s @ data)"
  using logfs_append_ok [OF assms(1), of data] assms(2) by (auto simp: device_size_def appended_def)

theorem logfs_append_any_schedule_witness:
  "\<exists>s. logfs_open (Some tiny_disk) True [9, 9, 9, 9] (\<lambda>t. t mod 3) = Inr (Some s) \<and>
    (logfs_append s [1, 2, 3, 4, 5] = Inl Data_race \<or>
     (\<exists>s'. logfs_append s [1, 2, 3, 4, 5] = Inr (0, s') \<and> log_inv s' \<and> contents s' = [1, 2, 3, 4, 5]))"
proof -
  obtain s where s: "logfs_open (Some tiny_disk) True [9, 9, 9, 9] (\<lambda>t. t mod 3) = Inr (Some s)" "log_inv s"
    "contents s = []" "lf_device s = tiny_disk" "lf_off s = 0"
    using logfs_open_ok [of tiny_disk "[9, 9, 9, 9]" "\<lambda>t. t mod 3"] by (auto simp: tiny_disk_def healthy_def)
  then have "lf_off s + length [1, 2, 3, 4, 5::byte] \<le> device_size (lf_device s)"
    by (simp add: device_size_def tiny_disk_def)
  from logfs_append_any_schedule [OF s(2) this] s show ?thesis by auto
qed

text \<open>
  The race is real: the worker takes the first block and is stopped before writing it, the client
  queues 32 more.
\<close>

definition race_schedule :: "nat \<Rightarrow> nat" where
  "race_schedule t = (if t = 1 then 1 else 0)"

definition race_disk :: device where
  "race_disk = \<lparr>fd = 3, dsize = 400, dblock = 4, dfile = replicate 400 0, dio = \<lambda>_ _. True\<rparr>"

text \<open>
  There is a schedule of the worker under which appending 33 blocks to a fresh log on a sound
  device is a data race: the client overwrites the ring slot whose \<open>blk\<close> the worker reads without the lock.
\<close>

theorem logfs_append_can_race:
  "case logfs_open (Some race_disk) True (replicate 4 0) race_schedule of
     Inr (Some s) \<Rightarrow> (case logfs_append s (replicate 132 0) of Inl e \<Rightarrow> e = Data_race | _ \<Rightarrow> False)
   | _ \<Rightarrow> False"
  by code_simp

text \<open>The worker never looks at the current block.\<close>

lemma worker_step_cur_blk:
  "worker_step (s\<lparr>cur_blk := c\<rparr>) = obind (worker_step s) (\<lambda>s'. Inr (s'\<lparr>cur_blk := c\<rparr>))"
  by (cases "inflight s")
    (auto simp: worker_step_def take_item_def write_item_def obind_def split: sum.splits)

lemma worker_run_cur_blk:
  "worker_run n (s\<lparr>cur_blk := c\<rparr>) = obind (worker_run n s) (\<lambda>s'. Inr (s'\<lparr>cur_blk := c\<rparr>))"
proof (induction n arbitrary: s)
  case (Suc n)
  then show ?case by (cases "worker_step s") (simp_all add: worker_step_cur_blk)
qed simp

text \<open>
  \<open>logfs_close\<close> never flushes the current block: whatever bytes have been appended to it, the device
  that is closed is the same, so they are lost.
\<close>

theorem logfs_close_ignores_tail:
  "logfs_close (s\<lparr>cur_blk := c\<rparr>) = logfs_close s"
proof -
  have "worker_step (s1\<lparr>cur_blk := c, tick := k, lf_done := True\<rparr>) =
      obind (worker_step (s1\<lparr>tick := k, lf_done := True\<rparr>)) (\<lambda>s'. Inr (s'\<lparr>cur_blk := c\<rparr>))" for s1 k
  proof -
    have e: "s1\<lparr>cur_blk := c, tick := k, lf_done := True\<rparr> = s1\<lparr>tick := k, lf_done := True, cur_blk := c\<rparr>" by simp
    show ?thesis by (simp only: e worker_step_cur_blk)
  qed
  then show ?thesis
    by (auto simp: logfs_close_def lock_def worker_run_cur_blk obind_def split: sum.splits)
qed

lemma fetch_block_view:
  assumes "fetch_block s b = Inr (rc, data, s')"
  shows "client_view s' = client_view s"
proof (cases "b = block_start s (lf_off s)")
  case True
  then show ?thesis using assms by (simp add: fetch_block_def)
next
  case False
  then obtain hit where "check_in_wcache s b = Inr (hit, s')"
    using assms by (auto simp: fetch_block_def obind_eq_Inr split: option.splits)
  then show ?thesis by (auto simp: check_in_wcache_def obind_eq_Inr dest: lock_view)
qed

text \<open>
  When \<open>read_mem\<close> cannot fetch a block it returns -1 but leaves the block's number in the read cache:
  the next \<open>read_mem\<close> of that block succeeds, with the bytes the cache entry happened to hold.
\<close>

theorem read_mem_poisons_cache:
  assumes "b \<noteq> blk (rcache s ! rc_index s b)" and "rc_index s b < length (rcache s)"
    and "fetch_block (s\<lparr>rcache := (rcache s)[rc_index s b := (rcache s ! rc_index s b)\<lparr>blk := b\<rparr>]\<rparr>) b = Inr (rc, data, s2)"
    and "rc \<noteq> 0" and "off - b + len \<le> blk_sz s"
  shows "read_mem s b off len = Inr (-1, [], s2) \<and>
    read_mem s2 b off len = Inr (0, slice (off - b) len (bbuf (rcache s ! rc_index s b)), s2)"
proof -
  let ?i = "rc_index s b"
  let ?s1 = "s\<lparr>rcache := (rcache s)[?i := (rcache s ! ?i)\<lparr>blk := b\<rparr>]\<rparr>"
  have f: "rcache s2 = rcache ?s1" "blk_sz s2 = blk_sz s"
    using fetch_block_view [OF assms(3)] by (simp_all add: client_view_def)
  then have "rc_index s2 b = ?i" "blk (rcache s2 ! ?i) = b" "bbuf (rcache s2 ! ?i) = bbuf (rcache s ! ?i)"
    using assms(2) by (simp_all add: rc_index_def)
  then have second: "read_mem s2 b off len = Inr (0, slice (off - b) len (bbuf (rcache s ! ?i)), s2)"
    using assms(5) f(2) by (simp add: read_mem_def)
  have "read_mem s b off len = Inr (-1, [], s2)"
    unfolding read_mem_def Let_def if_P [OF assms(1)] assms(3) using assms(4) by simp
  then show ?thesis using second by simp
qed

theorem read_mem_poisons_cache_witness:
  "\<exists>s s'. logfs_open (Some (tiny_disk\<lparr>dio := \<lambda>_ _. False\<rparr>)) True [9, 8, 7, 6] (\<lambda>_. 0) = Inr (Some s) \<and>
     read_mem s 4 5 2 = Inr (-1, [], s') \<and> read_mem s' 4 5 2 = Inr (0, [8, 7], s')"
proof -
  let ?d = "tiny_disk\<lparr>dio := \<lambda>_ _. False\<rparr>"
  obtain s where s: "logfs_open (Some ?d) True [9, 8, 7, 6] (\<lambda>_. 0) = Inr (Some s)"
    and f: "blk_sz s = 4" "lf_off s = 0" "lf_device s = ?d" "sched s = (\<lambda>_. 0)"
      "wcache s = replicate 32 \<lparr>blk = 3, bbuf = [9, 8, 7, 6]\<rparr>"
      "rcache s = replicate 256 \<lparr>blk = 3, bbuf = [9, 8, 7, 6]\<rparr>"
    by (simp add: logfs_open_def device_block_def tiny_disk_def cache_sizes)
  have i: "rc_index s 4 = 1" using f by (simp add: rc_index_def cache_sizes)
  let ?s1 = "s\<lparr>rcache := (rcache s)[rc_index s 4 := (rcache s ! rc_index s 4)\<lparr>blk := 4\<rparr>]\<rparr>"
  have "device_read ?d 4 4 = Inr (-1, [])"
    by (simp add: device_read_def check_transfer_def transfer_completes_def tiny_disk_def)
  moreover have "check_in_wcache ?s1 4 = Inr (None, ?s1\<lparr>tick := tick s + 1\<rparr>)"
  proof -
    have "find (\<lambda>u. 4 = blk u) (wcache ?s1) = None" using f(5) by (simp add: find_None_iff)
    then show ?thesis using f(4) by (simp add: check_in_wcache_def lock_def)
  qed
  ultimately have "fetch_block ?s1 4 = Inr (-1, [], ?s1\<lparr>tick := tick s + 1\<rparr>)"
    using f(1-3) by (simp add: fetch_block_def block_start_def)
  from read_mem_poisons_cache [OF _ _ this, of 5 2] s f i show ?thesis by (auto simp: slice_def)
qed

end
