(* ===== verification/Kvraw.thy ===== *)
theory Kvraw
  imports Logfs_Ref
begin

section \<open>Records on the log (\<open>project-4/kvraw.c\<close>)\<close>

text \<open>
  A record is a packed header of 16 bytes (mark \<open>KV\<close>, the offset of the previous record of the
  chain, key length, value length), the key and the value. Sums of offsets are taken
  modulo \<open>2 ^ 64\<close>, as \<open>uint64_t\<close>. A buffer the caller passes for a value is \<open>bytes option\<close>,
  \<open>None\<close> for a null pointer; what is copied into it overwrites its beginning.
\<close>

subsection \<open>State and header\<close>

record kvraw =
  ksize :: nat
  klog :: logfs

record meta =
  mark0 :: byte
  mark1 :: byte
  m_off :: nat
  m_klen :: nat
  m_vlen :: nat

definition META_LEN :: nat where "META_LEN = 16"

definition encode_meta :: "meta \<Rightarrow> bytes" where
  "encode_meta m = [mark0 m, mark1 m] @ le_bytes 8 (m_off m) @ le_bytes 2 (m_klen m) @ le_bytes 4 (m_vlen m)"

definition decode_meta :: "bytes \<Rightarrow> meta" where
  "decode_meta bs =
     \<lparr>mark0 = bs ! 0, mark1 = bs ! 1, m_off = le_val (slice 2 8 bs), m_klen = le_val (slice 10 2 bs),
      m_vlen = le_val (slice 12 4 bs)\<rparr>"

definition KEY_OFF :: "nat \<Rightarrow> nat" where
  "KEY_OFF off = add64 off META_LEN"

definition VAL_OFF :: "nat \<Rightarrow> meta \<Rightarrow> nat" where
  "VAL_OFF off m = add64 (KEY_OFF off) (m_klen m)"

definition has_mark :: "meta \<Rightarrow> bool" where
  "has_mark m \<longleftrightarrow> mark0 m = 75 \<and> mark1 m = 86"

definition blank_meta :: meta where
  "blank_meta = \<lparr>mark0 = 0, mark1 = 0, m_off = 0, m_klen = 0, m_vlen = 0\<rparr>"

subsection \<open>Operations\<close>

definition read_meta :: "kvraw \<Rightarrow> nat \<Rightarrow> (int \<times> meta \<times> kvraw) outcome" where
  "read_meta kv off =
     (if ksize kv < add64 off META_LEN then Inr (-1, blank_meta, kv)
      else obind (logfs_read (klog kv) off META_LEN) (\<lambda>(rc, bs, log).
        let kv' = kv\<lparr>klog := log\<rparr> in
        if rc \<noteq> 0 then Inr (-1, blank_meta, kv')
        else
          (let m = decode_meta bs in
           if \<not> has_mark m \<or> ksize kv < add64 (add64 (add64 off META_LEN) (m_klen m)) (m_vlen m)
           then Inr (-1, m, kv')
           else Inr (0, m, kv'))))"

text \<open>\<open>memcpy\<close> of \<open>bs\<close> to a caller's buffer.\<close>

definition copy_out :: "bytes option \<Rightarrow> bytes \<Rightarrow> bytes option outcome" where
  "copy_out buf bs =
     (case buf of
        None \<Rightarrow> if bs = [] then Inr None else Inl Null_deref
      | Some b \<Rightarrow> if length bs \<le> length b then Inr (Some (splice b 0 bs)) else Inl Out_of_bounds)"

text \<open>
  \<open>kvraw_lookup\<close>: \<open>klen\<close>, \<open>vlen\<close> and \<open>off\<close> are the in/out parameters; the result holds the key bytes
  read, the value buffer, and the three parameters as they are set. When it fails they keep the
  values they had (the buffers are then not used by any caller).
\<close>

definition kvraw_lookup :: "kvraw \<Rightarrow> nat \<Rightarrow> bytes option \<Rightarrow> nat \<Rightarrow> nat \<Rightarrow>
    (int \<times> (bytes \<times> nat) \<times> (bytes option \<times> nat) \<times> nat \<times> kvraw) outcome" where
  "kvraw_lookup kv klen val vlen off =
     (if vlen \<noteq> 0 \<and> val = None then Inl Assert_failed
      else if off = 0 then Inl Assert_failed
      else obind (read_meta kv off) (\<lambda>(rc, m, kv1).
        if rc \<noteq> 0 then Inr (-1, ([], klen), (val, vlen), off, kv1)
        else obind (logfs_read (klog kv1) (KEY_OFF off) (min (m_klen m) klen)) (\<lambda>(rc, key, log).
          let kv2 = kv1\<lparr>klog := log\<rparr> in
          if rc \<noteq> 0 then Inr (-1, ([], klen), (val, vlen), off, kv2)
          else obind (logfs_read (klog kv2) (VAL_OFF off m) (min (m_vlen m) vlen)) (\<lambda>(rc, data, log).
            let kv3 = kv2\<lparr>klog := log\<rparr> in
            if rc \<noteq> 0 then Inr (-1, ([], klen), (val, vlen), off, kv3)
            else obind (copy_out val data) (\<lambda>val'.
              Inr (0, (key, m_klen m), (val', m_vlen m), m_off m, kv3))))))"

text \<open>
  \<open>kvraw_append\<close>: \<open>off\<close> is the in/out parameter, the previous record on the way in and the new one on
  the way out.
\<close>

definition new_meta :: "bytes \<Rightarrow> bytes \<Rightarrow> nat \<Rightarrow> meta" where
  "new_meta key val off =
     \<lparr>mark0 = 75, mark1 = 86, m_off = off, m_klen = length key mod 2 ^ 16, m_vlen = length val mod 2 ^ 32\<rparr>"

definition kvraw_append :: "kvraw \<Rightarrow> bytes \<Rightarrow> bytes \<Rightarrow> nat \<Rightarrow> (int \<times> nat \<times> kvraw) outcome" where
  "kvraw_append kv key val off =
     (if key = [] \<or> 0xffff < length key then Inl Assert_failed
      else if 0xffffffff < length val then Inl Assert_failed
      else
        (let m = new_meta key val off in
         obind (logfs_append (klog kv) (encode_meta m)) (\<lambda>(rc, log1).
           if rc \<noteq> 0 then Inr (-1, off, kv\<lparr>klog := log1\<rparr>)
           else obind (logfs_append log1 (take (m_klen m) key)) (\<lambda>(rc, log2).
             if rc \<noteq> 0 then Inr (-1, off, kv\<lparr>klog := log2\<rparr>)
             else obind (logfs_append log2 (take (m_vlen m) val)) (\<lambda>(rc, log3).
               if rc \<noteq> 0 then Inr (-1, off, kv\<lparr>klog := log3\<rparr>)
               else Inr (0, ksize kv,
                      \<lparr>ksize = add64 (ksize kv) (META_LEN + m_klen m + m_vlen m), klog = log3\<rparr>))))))"

text \<open>
  \<open>kvraw_close\<close>, on the pointer that \<open>logfs_open\<close> returned: \<open>logfs_close\<close> begins with \<open>logfs->done = 1\<close>
  and does not check for a null pointer.
\<close>

definition kvraw_close :: "logfs option \<Rightarrow> device outcome" where
  "kvraw_close log = (case log of None \<Rightarrow> Inl Null_deref | Some l \<Rightarrow> logfs_close l)"

text \<open>
  \<open>kvraw_open\<close>: \<open>mem\<close> says whether \<open>malloc\<close> succeeds, the other parameters are those of \<open>logfs_open\<close>.
  The first record, at offset 0, has a key and a value of one zero byte each.
\<close>

definition kvraw_open :: "string \<Rightarrow> bool \<Rightarrow> device option \<Rightarrow> bool \<Rightarrow> bytes \<Rightarrow> (nat \<Rightarrow> nat) \<Rightarrow>
    kvraw option outcome" where
  "kvraw_open pathname mem dev pth junk sch =
     (if pathname = [] then Inl Assert_failed
      else if \<not> mem then Inr None
      else obind (logfs_open dev pth junk sch) (\<lambda>log.
        case log of
          None \<Rightarrow> obind (kvraw_close None) (\<lambda>_. Inr None)
        | Some l \<Rightarrow>
            obind (kvraw_append \<lparr>ksize = 0, klog = l\<rparr> [0] [0] 0) (\<lambda>(rc, off, kv).
              if rc \<noteq> 0 then obind (kvraw_close (Some (klog kv))) (\<lambda>_. Inr None)
              else Inr (Some kv))))"

subsection \<open>The header round trip\<close>

lemma length_encode_meta [simp]: "length (encode_meta m) = META_LEN"
  by (simp add: encode_meta_def META_LEN_def)

lemma decode_encode_meta:
  assumes "m_off m < 2 ^ 64" and "m_klen m < 2 ^ 16" and "m_vlen m < 2 ^ 32"
  shows "decode_meta (encode_meta m) = m"
proof -
  let ?bs = "encode_meta m"
  have "slice 2 8 ?bs = le_bytes 8 (m_off m)"
    by (simp add: encode_meta_def slice_def)
  moreover have "slice 10 2 ?bs = le_bytes 2 (m_klen m)"
    by (simp add: encode_meta_def slice_def)
  moreover have "slice 12 4 ?bs = le_bytes 4 (m_vlen m)"
    by (simp add: encode_meta_def slice_def)
  moreover have "?bs ! 0 = mark0 m" "?bs ! 1 = mark1 m" by (simp_all add: encode_meta_def)
  ultimately show ?thesis
    using assms by (simp add: decode_meta_def le_val_le_bytes)
qed

subsection \<open>What is on the log\<close>

definition kv_bytes :: "kvraw \<Rightarrow> bytes" where
  "kv_bytes kv = contents (klog kv)"

definition kv_capacity :: "kvraw \<Rightarrow> nat" where
  "kv_capacity kv = log_capacity (klog kv)"

definition kv_ready :: "kvraw \<Rightarrow> bool" where
  "kv_ready kv \<longleftrightarrow> log_ready (klog kv) \<and> ksize kv = length (kv_bytes kv) \<and> ksize kv \<le> kv_capacity kv"

text \<open>The record that starts at an offset: previous offset, key, value.\<close>

definition record_at :: "bytes \<Rightarrow> nat \<Rightarrow> (nat \<times> bytes \<times> bytes) option" where
  "record_at bs off =
     (let m = decode_meta (slice off META_LEN bs) in
      if off + META_LEN \<le> length bs \<and> has_mark m \<and> off + META_LEN + m_klen m + m_vlen m \<le> length bs
      then Some (m_off m, slice (off + META_LEN) (m_klen m) bs, slice (off + META_LEN + m_klen m) (m_vlen m) bs)
      else None)"

definition record_bytes :: "bytes \<Rightarrow> bytes \<Rightarrow> nat \<Rightarrow> bytes" where
  "record_bytes key val off = encode_meta (new_meta key val off) @ key @ val"

lemma length_record_bytes [simp]: "length (record_bytes key val off) = META_LEN + length key + length val"
  by (simp add: record_bytes_def)

lemma record_at_prefix:
  assumes "record_at bs off = Some r"
  shows "record_at (bs @ rest) off = Some r"
  using assms by (auto simp: record_at_def Let_def slice_append_left split: if_splits)

lemma record_at_new:
  assumes "off < 2 ^ 64" and "length key < 2 ^ 16" and "length val < 2 ^ 32"
  shows "record_at (bs @ record_bytes key val off) (length bs) = Some (off, key, val)"
proof -
  have "slice (length bs) META_LEN (bs @ record_bytes key val off) = encode_meta (new_meta key val off)"
    by (simp add: slice_append_right record_bytes_def slice_append_left)
  moreover have "decode_meta (encode_meta (new_meta key val off)) = new_meta key val off"
    using assms by (intro decode_encode_meta) (simp_all add: new_meta_def)
  moreover have "m_klen (new_meta key val off) = length key" "m_vlen (new_meta key val off) = length val"
    "m_off (new_meta key val off) = off" "has_mark (new_meta key val off)"
    using assms by (simp_all add: new_meta_def has_mark_def)
  ultimately show ?thesis
    by (simp add: record_at_def Let_def slice_append_right record_bytes_def slice_append_left)
qed

lemma kv_ready_cap: "kv_ready kv \<Longrightarrow> kv_capacity kv < 2 ^ 64"
  by (simp add: kv_ready_def log_ready_def log_inv_def core_inv_def queue_inv_def dev_ok_def healthy_def
      kv_capacity_def log_capacity_def device_size_def)

lemma kvraw_append_ok:
  assumes r: "kv_ready kv" and key: "key \<noteq> []" "length key < 2 ^ 16" and val: "length val < 2 ^ 32"
    and room: "ksize kv + META_LEN + length key + length val \<le> kv_capacity kv"
  shows "\<exists>kv'. kvraw_append kv key val off = Inr (0, ksize kv, kv') \<and> kv_ready kv' \<and>
    kv_bytes kv' = kv_bytes kv @ record_bytes key val off \<and> kv_capacity kv' = kv_capacity kv"
proof -
  let ?m = "new_meta key val off"
  have l: "log_ready (klog kv)" and sz: "ksize kv = length (contents (klog kv))"
    and cap: "kv_capacity kv = log_capacity (klog kv)"
    using r by (simp_all add: kv_ready_def kv_bytes_def kv_capacity_def)
  have m: "m_klen ?m = length key" "m_vlen ?m = length val" using key val by (simp_all add: new_meta_def)
  obtain l1 where l1: "logfs_append (klog kv) (encode_meta ?m) = Inr (0, l1)" "log_ready l1"
    "contents l1 = contents (klog kv) @ encode_meta ?m" "log_capacity l1 = log_capacity (klog kv)"
    using dl.append_law [OF l, of "encode_meta ?m"] room sz cap by auto
  obtain l2 where l2: "logfs_append l1 key = Inr (0, l2)" "log_ready l2"
    "contents l2 = contents l1 @ key" "log_capacity l2 = log_capacity l1"
    using dl.append_law [OF l1(2), of key] room sz cap l1(3,4) by auto
  obtain l3 where l3: "logfs_append l2 val = Inr (0, l3)" "log_ready l3"
    "contents l3 = contents l2 @ val" "log_capacity l3 = log_capacity l2"
    using dl.append_law [OF l2(2), of val] room sz cap l1(3,4) l2(3,4) by auto
  let ?kv = "\<lparr>ksize = add64 (ksize kv) (META_LEN + length key + length val), klog = l3\<rparr>"
  have s: "add64 (ksize kv) (META_LEN + length key + length val) = ksize kv + META_LEN + length key + length val"
    using room kv_ready_cap [OF r] by (subst add64_small) (simp_all add: add.assoc)
  have "kvraw_append kv key val off = Inr (0, ksize kv, ?kv)"
    using key val l1(1) l2(1) l3(1) m by (simp add: kvraw_append_def Let_def)
  moreover have b: "contents l3 = contents (klog kv) @ record_bytes key val off"
    using l1(3) l2(3) l3(3) by (simp add: record_bytes_def)
  moreover have "kv_ready ?kv"
    using l3(2,4) l2(4) l1(4) b s sz room cap by (simp add: kv_ready_def kv_bytes_def kv_capacity_def)
  ultimately show ?thesis
    using l1(4) l2(4) l3(4) by (simp add: kv_bytes_def kv_capacity_def)
qed

lemma kvraw_read:
  assumes "kv_ready kv" and "off + len \<le> ksize kv"
  obtains log where "logfs_read (klog kv) off len = Inr (0, slice off len (kv_bytes kv), log)"
    "kv_ready (kv\<lparr>klog := log\<rparr>)" "kv_bytes (kv\<lparr>klog := log\<rparr>) = kv_bytes kv"
    "kv_capacity (kv\<lparr>klog := log\<rparr>) = kv_capacity kv"
proof -
  obtain log where "logfs_read (klog kv) off len = Inr (0, slice off len (contents (klog kv)), log)"
    "log_ready log" "contents log = contents (klog kv)" "log_capacity log = log_capacity (klog kv)"
    using dl.read_law [of "klog kv" off len] assms by (auto simp: kv_ready_def kv_bytes_def)
  then show ?thesis using that assms(1) by (simp add: kv_ready_def kv_bytes_def kv_capacity_def)
qed

lemma record_atD:
  assumes "kv_ready kv" and "record_at (kv_bytes kv) off = Some (prev, key, val)"
  defines "m \<equiv> decode_meta (slice off META_LEN (kv_bytes kv))"
  shows "has_mark m" "m_off m = prev" "m_klen m = length key" "m_vlen m = length val"
    "off + META_LEN + length key + length val \<le> ksize kv" "ksize kv < 2 ^ 64"
    "slice (off + META_LEN) (length key) (kv_bytes kv) = key"
    "slice (off + META_LEN + length key) (length val) (kv_bytes kv) = val"
proof -
  have sz: "ksize kv = length (kv_bytes kv)" "ksize kv < 2 ^ 64"
    using assms(1) kv_ready_cap [OF assms(1)] by (simp_all add: kv_ready_def)
  have d: "has_mark m" "m_off m = prev" "off + META_LEN + m_klen m + m_vlen m \<le> length (kv_bytes kv)"
    "key = slice (off + META_LEN) (m_klen m) (kv_bytes kv)"
    "val = slice (off + META_LEN + m_klen m) (m_vlen m) (kv_bytes kv)"
    using assms(2) unfolding m_def record_at_def Let_def by (auto split: if_splits)
  then have l: "length key = m_klen m" "length val = m_vlen m" by (simp_all add: length_slice)
  show "has_mark m" "m_off m = prev" "m_klen m = length key" "m_vlen m = length val"
    "off + META_LEN + length key + length val \<le> ksize kv" "ksize kv < 2 ^ 64"
    "slice (off + META_LEN) (length key) (kv_bytes kv) = key"
    "slice (off + META_LEN + length key) (length val) (kv_bytes kv) = val"
    using d l sz by simp_all
qed

lemma slice_min: "slice off n xs = ys \<Longrightarrow> slice off (min n k) xs = take k ys"
  by (auto simp: slice_def min.commute)

lemma read_meta_ok:
  assumes r: "kv_ready kv" and rec: "record_at (kv_bytes kv) off = Some (prev, key, val)"
  obtains kv' where "read_meta kv off = Inr (0, decode_meta (slice off META_LEN (kv_bytes kv)), kv')"
    "kv_ready kv'" "kv_bytes kv' = kv_bytes kv" "kv_capacity kv' = kv_capacity kv" "ksize kv' = ksize kv"
proof -
  note d = record_atD [OF r rec]
  have a: "add64 off META_LEN = off + META_LEN"
    "add64 (off + META_LEN) (length key) = off + META_LEN + length key"
    "add64 (off + META_LEN + length key) (length val) = off + META_LEN + length key + length val"
    using d(5,6) by (auto intro!: add64_small)
  have fits: "off + META_LEN \<le> ksize kv" using d(5) by simp
  obtain log where log: "logfs_read (klog kv) off META_LEN = Inr (0, slice off META_LEN (kv_bytes kv), log)"
    "kv_ready (kv\<lparr>klog := log\<rparr>)" "kv_bytes (kv\<lparr>klog := log\<rparr>) = kv_bytes kv"
    "kv_capacity (kv\<lparr>klog := log\<rparr>) = kv_capacity kv"
    using kvraw_read [OF r fits] .
  have "read_meta kv off = Inr (0, decode_meta (slice off META_LEN (kv_bytes kv)), kv\<lparr>klog := log\<rparr>)"
    using log(1) a d(1,3,4,5) fits by (simp add: read_meta_def Let_def)
  then show ?thesis using that log by simp
qed

text \<open>What a lookup of a record writes to the caller's buffer.\<close>

definition fits_buffer :: "bytes option \<Rightarrow> bytes \<Rightarrow> bool" where
  "fits_buffer buf bs \<longleftrightarrow> (case buf of None \<Rightarrow> bs = [] | Some b \<Rightarrow> length bs \<le> length b)"

definition put_bytes :: "bytes option \<Rightarrow> bytes \<Rightarrow> bytes option" where
  "put_bytes buf bs = map_option (\<lambda>b. splice b 0 bs) buf"

lemma copy_out_ok: "fits_buffer buf bs \<Longrightarrow> copy_out buf bs = Inr (put_bytes buf bs)"
  by (auto simp: copy_out_def fits_buffer_def put_bytes_def split: option.splits)

lemma kvraw_lookup_ok:
  assumes r: "kv_ready kv" and rec: "record_at (kv_bytes kv) off = Some (prev, key, val)" and off: "off \<noteq> 0"
    and vl: "vlen = 0 \<or> buf \<noteq> None" and fits: "fits_buffer buf (take vlen val)"
  obtains kv' where "kvraw_lookup kv klen buf vlen off =
      Inr (0, (take klen key, length key), (put_bytes buf (take vlen val), length val), prev, kv')"
    "kv_ready kv'" "kv_bytes kv' = kv_bytes kv" "kv_capacity kv' = kv_capacity kv" "ksize kv' = ksize kv"
proof -
  note d = record_atD [OF r rec]
  let ?m = "decode_meta (slice off META_LEN (kv_bytes kv))"
  obtain kv1 where kv1: "read_meta kv off = Inr (0, ?m, kv1)"
    "kv_ready kv1" "kv_bytes kv1 = kv_bytes kv" "kv_capacity kv1 = kv_capacity kv" "ksize kv1 = ksize kv"
    using read_meta_ok [OF r rec] .
  have a: "KEY_OFF off = off + META_LEN" "VAL_OFF off ?m = off + META_LEN + length key"
    using d(3,5,6) by (auto simp: KEY_OFF_def VAL_OFF_def add64_small)
  have "off + META_LEN + min (length key) klen \<le> ksize kv1" using d(5) kv1(5) by simp
  then obtain l2 where l2: "logfs_read (klog kv1) (off + META_LEN) (min (length key) klen) =
      Inr (0, slice (off + META_LEN) (min (length key) klen) (kv_bytes kv1), l2)"
    "kv_ready (kv1\<lparr>klog := l2\<rparr>)" "kv_bytes (kv1\<lparr>klog := l2\<rparr>) = kv_bytes kv1"
    "kv_capacity (kv1\<lparr>klog := l2\<rparr>) = kv_capacity kv1"
    using kvraw_read [OF kv1(2)] by metis
  let ?kv2 = "kv1\<lparr>klog := l2\<rparr>"
  have "off + META_LEN + length key + min (length val) vlen \<le> ksize ?kv2" using d(5) kv1(5) by simp
  then obtain l3 where l3: "logfs_read l2 (off + META_LEN + length key) (min (length val) vlen) =
      Inr (0, slice (off + META_LEN + length key) (min (length val) vlen) (kv_bytes ?kv2), l3)"
    "kv_ready (?kv2\<lparr>klog := l3\<rparr>)" "kv_bytes (?kv2\<lparr>klog := l3\<rparr>) = kv_bytes ?kv2"
    "kv_capacity (?kv2\<lparr>klog := l3\<rparr>) = kv_capacity ?kv2"
    using kvraw_read [OF l2(2), of "off + META_LEN + length key" "min (length val) vlen"] by auto
  have ks: "slice (off + META_LEN) (min (length key) klen) (kv_bytes kv1) = take klen key"
    using slice_min [OF d(7)] kv1(3) by simp
  have vs: "slice (off + META_LEN + length key) (min (length val) vlen) (kv_bytes ?kv2) = take vlen val"
    using slice_min [OF d(8)] kv1(3) l2(3) by simp
  have "kvraw_lookup kv klen buf vlen off =
      Inr (0, (take klen key, length key), (put_bytes buf (take vlen val), length val), prev, ?kv2\<lparr>klog := l3\<rparr>)"
    using vl off kv1(1) d(2,3,4) a l2(1) l3(1) ks vs copy_out_ok [OF fits]
    by (simp add: kvraw_lookup_def Let_def)
  then show ?thesis using that kv1 l2 l3 by simp
qed

lemma kvraw_open_ok:
  assumes d: "healthy d" "3 < dblock d" "18 \<le> dsize d" and j: "length junk = dblock d"
    and f: "\<forall>t. even (sch t) \<and> 2 \<le> sch t" and p: "pathname \<noteq> []"
  shows "\<exists>kv. kvraw_open pathname True (Some d) True junk sch = Inr (Some kv) \<and> kv_ready kv \<and>
    kv_bytes kv = record_bytes [0] [0] 0 \<and> kv_capacity kv = dsize d"
proof -
  obtain l where l: "logfs_open (Some d) True junk sch = Inr (Some l)" "log_inv l" "contents l = []"
    "lf_device l = d" "sched l = sch" "inflight l = None"
    using logfs_open_ok [OF d(1,2) j] by blast
  let ?kv = "\<lparr>ksize = 0, klog = l\<rparr>"
  have c: "kv_capacity ?kv = dsize d" using l by (simp add: kv_capacity_def log_capacity_def device_size_def)
  have "log_ready l" using l f by (simp add: log_ready_def calm_def fair_def)
  then have "kv_ready ?kv" using l by (simp add: kv_ready_def kv_bytes_def)
  moreover have "ksize ?kv + META_LEN + length [0::byte] + length [0::byte] \<le> kv_capacity ?kv"
    using c d(3) by (simp add: META_LEN_def)
  ultimately obtain kv' where "kvraw_append ?kv [0] [0] 0 = Inr (0, 0, kv')" "kv_ready kv'"
    "kv_bytes kv' = kv_bytes ?kv @ record_bytes [0] [0] 0" "kv_capacity kv' = kv_capacity ?kv"
    using kvraw_append_ok [of ?kv "[0]" "[0]" 0] by auto
  then show ?thesis using l(1,3) p c by (simp add: kvraw_open_def kv_bytes_def)
qed

subsection \<open>Properties\<close>

text \<open>
  C27: the record that \<open>kvraw_append\<close> wrote is found by \<open>kvraw_lookup\<close> at the offset it returned, with
  its key, value, lengths and link, each cut to the lengths the caller asked for.
\<close>

theorem kvraw_append_then_lookup:
  assumes "kv_ready kv" and "0 < ksize kv" and "key \<noteq> []" and "length key < 2 ^ 16" and "length val < 2 ^ 32"
    and "off < 2 ^ 64" and "ksize kv + META_LEN + length key + length val \<le> kv_capacity kv"
    and "vlen \<le> length buf"
  shows "\<exists>kv' kv''. kvraw_append kv key val off = Inr (0, ksize kv, kv') \<and>
    kvraw_lookup kv' klen (Some buf) vlen (ksize kv) =
      Inr (0, (take klen key, length key), (Some (splice buf 0 (take vlen val)), length val), off, kv'')"
proof -
  obtain kv' where kv': "kvraw_append kv key val off = Inr (0, ksize kv, kv')" "kv_ready kv'"
    "kv_bytes kv' = kv_bytes kv @ record_bytes key val off"
    using kvraw_append_ok [OF assms(1,3,4,5,7)] by blast
  have rec: "record_at (kv_bytes kv') (ksize kv) = Some (off, key, val)"
    using record_at_new [OF assms(6,4,5), of "kv_bytes kv"] kv'(3) assms(1) by (simp add: kv_ready_def)
  have "fits_buffer (Some buf) (take vlen val)" using assms(8) by (simp add: fits_buffer_def)
  then obtain kv'' where "kvraw_lookup kv' klen (Some buf) vlen (ksize kv) =
      Inr (0, (take klen key, length key), (put_bytes (Some buf) (take vlen val), length val), off, kv'')"
    using kvraw_lookup_ok [OF kv'(2) rec, of vlen "Some buf" klen] assms(2) by auto
  then show ?thesis using kv'(1) by (simp add: put_bytes_def)
qed

definition small_disk :: device where
  "small_disk = \<lparr>fd = 3, dsize = 64, dblock = 8, dfile = replicate 64 0, dio = \<lambda>_ _. True\<rparr>"

lemma small_open:
  "\<exists>kv. kvraw_open ''disk'' True (Some small_disk) True (replicate 8 0) (\<lambda>_. 2) = Inr (Some kv) \<and>
     kv_ready kv \<and> kv_bytes kv = record_bytes [0] [0] 0 \<and> kv_capacity kv = 64 \<and> ksize kv = 18"
proof -
  obtain kv where kv: "kvraw_open ''disk'' True (Some small_disk) True (replicate 8 0) (\<lambda>_. 2) = Inr (Some kv)"
    "kv_ready kv" "kv_bytes kv = record_bytes [0] [0] 0" "kv_capacity kv = 64"
    using kvraw_open_ok [of small_disk "replicate 8 0" "\<lambda>_. 2" "''disk''"]
    by (auto simp: small_disk_def healthy_def)
  then have "ksize kv = 18" by (simp add: kv_ready_def META_LEN_def)
  with kv show ?thesis by blast
qed

theorem kvraw_append_then_lookup_witness:
  "\<exists>kv kv' kv''. kvraw_open ''disk'' True (Some small_disk) True (replicate 8 0) (\<lambda>_. 2) = Inr (Some kv) \<and>
     kvraw_append kv [65, 66] [1, 2, 3] 0 = Inr (0, 18, kv') \<and>
     kvraw_lookup kv' 8 (Some [9, 9, 9, 9]) 4 18 = Inr (0, ([65, 66], 2), (Some [1, 2, 3, 9], 3), 0, kv'')"
proof -
  obtain kv where kv: "kvraw_open ''disk'' True (Some small_disk) True (replicate 8 0) (\<lambda>_. 2) = Inr (Some kv)"
    "kv_ready kv" "kv_capacity kv = 64" "ksize kv = 18"
    using small_open by blast
  have "ksize kv + META_LEN + length [65, 66::byte] + length [1, 2, 3::byte] \<le> kv_capacity kv"
    using kv by (simp add: META_LEN_def)
  from kvraw_append_then_lookup [OF kv(2) _ _ _ _ _ this, of 0 4 "[9, 9, 9, 9]" 8] kv show ?thesis
    by (auto simp: splice_def)
qed

text \<open>
  \<open>kvraw_open\<close> of a path whose device cannot be opened does not return an error: its clean-up calls
  \<open>logfs_close\<close> on a null pointer.
\<close>

theorem kvraw_open_bad_device:
  "kvraw_open (c # cs) True None pth junk sch = Inl Null_deref"
  by (simp add: kvraw_open_def logfs_open_def kvraw_close_def)

end
