(* ===== verification/Index.thy ===== *)
theory Index
  imports Prelude
begin

unbundle bit_operations_syntax

section \<open>The in-memory hash index (\<open>project-4/index.c\<close>)\<close>

text \<open>
  An open-addressing table from 64-bit hashes to log offsets. Linear probing computes
  \<open>(key + i) % capacity\<close> on \<open>uint64_t\<close>, so \<open>key + i\<close> wraps at \<open>2 ^ 64\<close>: \<^term>\<open>x :: 64 word\<close> keeps
  that. Sizes and offsets are \<^typ>\<open>nat\<close> (they are bounded by memory and by the device).
  Whether \<open>malloc\<close> succeeds is the parameter \<open>mok\<close>, a predicate on the requested size.
  The pointer into \<open>maps\<close> that the code returns is the slot number here.
\<close>

subsection \<open>State\<close>

record slot =
  s_key :: "64 word"
  s_off :: nat

record index =
  isize :: nat
  capacity :: nat
  maps :: "slot list"

abbreviation empty_slot :: slot where
  "empty_slot \<equiv> \<lparr>s_key = 0, s_off = 0\<rparr>"

subsection \<open>The hash function\<close>

definition rotl :: "64 word \<Rightarrow> nat \<Rightarrow> 64 word" where
  "rotl x n = (push_bit n x OR drop_bit (64 - n) x)"

type_synonym hash_state = "64 word \<times> 64 word \<times> 64 word \<times> 64 word"

text \<open>
  The four kinds of line of the loop body, such as \<open>d ^= c; c = (c << n) | (c >> (64 - n)); d += c;\<close>
  on the four variables \<open>(a, b, c, d)\<close>.
\<close>

fun line_dc :: "nat \<Rightarrow> hash_state \<Rightarrow> hash_state" where
  "line_dc n (a, b, c, d) = (a, b, rotl c n, (d XOR c) + rotl c n)"

fun line_ad :: "nat \<Rightarrow> hash_state \<Rightarrow> hash_state" where
  "line_ad n (a, b, c, d) = ((a XOR d) + rotl d n, b, c, rotl d n)"

fun line_ba :: "nat \<Rightarrow> hash_state \<Rightarrow> hash_state" where
  "line_ba n (a, b, c, d) = (rotl a n, (b XOR a) + rotl a n, c, d)"

fun line_cb :: "nat \<Rightarrow> hash_state \<Rightarrow> hash_state" where
  "line_cb n (a, b, c, d) = (a, rotl b n, (c XOR b) + rotl b n, d)"

text \<open>The four additions at the top of the body, for \<open>p[i]\<close>: a signed \<open>char\<close> widened to \<open>uint64_t\<close>.\<close>

fun absorb :: "byte \<Rightarrow> hash_state \<Rightarrow> hash_state" where
  "absorb p (a, b, c, d) =
     (a + scast p * 592821132889, b + scast p * 963726515729,
      c + scast p * 1765037224331, d + scast p * 2428095424619)"

definition hash_round :: "byte \<Rightarrow> hash_state \<Rightarrow> hash_state" where
  "hash_round p st =
     line_ba 63 (line_ad 25 (line_dc 32 (line_cb 54 (line_ba 47 (line_ad 9 (line_dc 28
       (line_cb 51 (line_ba 26 (line_ad 52 (line_dc 15 (absorb p st)))))))))))"

fun hash_sum :: "hash_state \<Rightarrow> 64 word" where
  "hash_sum (a, b, c, d) = a + b + c + d"

definition hash_init :: "bytes \<Rightarrow> hash_state" where
  "hash_init buf = (let z = word_of_nat (length buf) * 414507281407 in (z, z, z, z))"

definition hash :: "bytes \<Rightarrow> 64 word" where
  "hash buf = hash_sum (fold hash_round buf (hash_init buf))"

text \<open>\<open>key = key ? key : (key + 1)\<close>: zero marks a free slot, so it is not a key.\<close>

definition hash_key :: "bytes \<Rightarrow> 64 word" where
  "hash_key buf = (let key = hash buf in if key \<noteq> 0 then key else key + 1)"

subsection \<open>Probing\<close>

definition probe :: "index \<Rightarrow> 64 word \<Rightarrow> nat \<Rightarrow> nat" where
  "probe ix key i = unat (key + word_of_nat i) mod capacity ix"

definition create :: "(nat \<Rightarrow> bool) \<Rightarrow> nat \<Rightarrow> index option" where
  "create mok cap =
     (if mok (cap * 16)
      then Some \<lparr>isize = 0, capacity = cap, maps = replicate cap empty_slot\<rparr>
      else None)"

text \<open>The loop of \<open>update()\<close> from the counter value \<open>i\<close> on.\<close>

function update_from :: "index \<Rightarrow> 64 word \<Rightarrow> nat \<Rightarrow> (nat \<times> index) outcome" where
  "update_from ix key i =
     (if i < capacity ix then
        let j = probe ix key i in
        if s_key (maps ix ! j) = 0 then
          Inr (j, ix\<lparr>maps := (maps ix)[j := \<lparr>s_key = key, s_off = 0\<rparr>], isize := isize ix + 1\<rparr>)
        else if s_key (maps ix ! j) = key then
          Inr (j, ix\<lparr>maps := (maps ix)[j := (maps ix ! j)\<lparr>s_key := key\<rparr>]\<rparr>)
        else update_from ix key (Suc i)
      else Inl Exit_called)"
  by pat_completeness auto
termination
  by (relation "measure (\<lambda>(ix, key, i). capacity ix - i)") auto

text \<open>The assignment \<open>*ref = v\<close> through the pointer to slot \<open>j\<close>.\<close>

definition set_off :: "index \<Rightarrow> nat \<Rightarrow> nat \<Rightarrow> index" where
  "set_off ix j v = ix\<lparr>maps := (maps ix)[j := (maps ix ! j)\<lparr>s_off := v\<rparr>]\<rparr>"

text \<open>The loop of \<open>grow()\<close> that re-inserts the old slots into the new table.\<close>

fun rehash :: "slot list \<Rightarrow> index \<Rightarrow> index outcome" where
  "rehash [] ix = Inr ix"
| "rehash (s # ss) ix =
     (if s_key s \<noteq> 0 then
        obind (update_from ix (s_key s) 0) (\<lambda>(j, ix'). rehash ss (set_off ix' j (s_off s)))
      else rehash ss ix)"

text \<open>
  \<open>LOAD < load\<close> with \<open>LOAD = 0.70\<close>: the quotient of the two integers as doubles exceeds
  \<open>0.70\<close> exactly when \<open>7 * capacity < 10 * size\<close> (both are far below \<open>2 ^ 49\<close>, so the two
  sides never round together unless they are equal).
\<close>

definition over_load :: "index \<Rightarrow> bool" where
  "over_load ix = (if capacity ix \<noteq> 0 then 7 * capacity ix < 10 * isize ix else True)"

definition grow :: "(nat \<Rightarrow> bool) \<Rightarrow> index \<Rightarrow> (int \<times> index) outcome" where
  "grow mok ix =
     (if over_load ix then
        (case create mok ((capacity ix + 97) * 3 div 2) of
           None \<Rightarrow> Inr (-1, ix)
         | Some ix' \<Rightarrow> obind (rehash (maps ix) ix') (\<lambda>ix''. Inr (0, ix'')))
      else Inr (0, ix))"

definition index_open :: index where
  "index_open = \<lparr>isize = 0, capacity = 0, maps = []\<rparr>"

text \<open>\<open>index_update\<close>: the slot of the key, inserted if need be; \<open>None\<close> is the \<open>NULL\<close> result.\<close>

definition index_update :: "(nat \<Rightarrow> bool) \<Rightarrow> index \<Rightarrow> bytes \<Rightarrow> (nat option \<times> index) outcome" where
  "index_update mok ix key =
     (if key = [] then Inl Assert_failed
      else obind (grow mok ix) (\<lambda>(rc, ix').
        if rc \<noteq> 0 then Inr (None, ix')
        else obind (update_from ix' (hash_key key) 0) (\<lambda>(j, ix''). Inr (Some j, ix''))))"

text \<open>The loop of \<open>index_lookup\<close> from the counter value \<open>i\<close> on.\<close>

function find_from :: "index \<Rightarrow> 64 word \<Rightarrow> nat \<Rightarrow> nat option" where
  "find_from ix key i =
     (if i < capacity ix then
        let j = probe ix key i in
        if s_key (maps ix ! j) = 0 then None
        else if s_key (maps ix ! j) = key then Some j
        else find_from ix key (Suc i)
      else None)"
  by pat_completeness auto
termination
  by (relation "measure (\<lambda>(ix, key, i). capacity ix - i)") auto

definition index_lookup :: "index \<Rightarrow> bytes \<Rightarrow> nat option outcome" where
  "index_lookup ix key =
     (if key = [] then Inl Assert_failed else Inr (find_from ix (hash_key key) 0))"

declare update_from.simps [simp del] find_from.simps [simp del]

subsection \<open>Invariant and abstraction\<close>

text \<open>
  The table is well formed when \<open>size\<close> counts the used slots and looking up the key of any
  used slot finds that slot. It stands for the map from keys to offsets.
\<close>

definition used :: "slot list \<Rightarrow> slot list" where
  "used ss = filter (\<lambda>s. s_key s \<noteq> 0) ss"

definition index_ok :: "index \<Rightarrow> bool" where
  "index_ok ix \<longleftrightarrow>
     length (maps ix) = capacity ix \<and> isize ix = length (used (maps ix)) \<and>
     (\<forall>j < capacity ix. s_key (maps ix ! j) \<noteq> 0 \<longrightarrow> find_from ix (s_key (maps ix ! j)) 0 = Some j)"

definition imap :: "index \<Rightarrow> 64 word \<Rightarrow> nat option" where
  "imap ix key = map_option (\<lambda>j. s_off (maps ix ! j)) (find_from ix key 0)"

lemma probe_less: "0 < capacity ix \<Longrightarrow> probe ix key i < capacity ix"
  by (simp add: probe_def)

lemma find_from_Some:
  "find_from ix key i = Some j \<Longrightarrow> j < capacity ix \<and> s_key (maps ix ! j) = key \<and> key \<noteq> 0"
proof (induction ix key i rule: find_from.induct)
  case (1 ix key i)
  have "i < capacity ix \<Longrightarrow> probe ix key i < capacity ix" by (simp add: probe_less)
  with 1 show ?case
    by (auto simp: find_from.simps [of ix key i] Let_def split: if_splits)
qed

text \<open>Filling a free slot keeps every successful lookup.\<close>

lemma find_from_fill:
  assumes "find_from ix key i = Some j'" and "s_key (maps ix ! j) = 0"
  shows "find_from (ix\<lparr>maps := (maps ix)[j := s], isize := n\<rparr>) key i = Some j'"
  using assms
proof (induction ix key i rule: find_from.induct)
  case (1 ix key i)
  let ?ix = "ix\<lparr>maps := (maps ix)[j := s], isize := n\<rparr>"
  have pr: "probe ?ix key i = probe ix key i" by (simp add: probe_def)
  from "1.prems" have "i < capacity ix" and "s_key (maps ix ! probe ix key i) \<noteq> 0"
    by (auto simp: find_from.simps [of ix key i] Let_def split: if_splits)
  moreover from this(2) "1.prems"(2) have "probe ix key i \<noteq> j" by auto
  ultimately show ?case
    using "1.IH" "1.prems"
    by (auto simp: find_from.simps [of ix key i] find_from.simps [of ?ix key i] Let_def pr
        split: if_splits)
qed

text \<open>Overwriting an offset changes no lookup.\<close>

lemma s_key_set_off [simp]: "s_key (maps (set_off ix j v) ! k) = s_key (maps ix ! k)"
  by (cases "j = k"; cases "j < length (maps ix)") (simp_all add: set_off_def list_update_beyond)

lemma set_off_simps [simp]:
  "capacity (set_off ix j v) = capacity ix" "isize (set_off ix j v) = isize ix"
  "length (maps (set_off ix j v)) = length (maps ix)"
  by (simp_all add: set_off_def)

lemma s_off_set_off:
  "j < length (maps ix) \<Longrightarrow> s_off (maps (set_off ix j v) ! k) = (if k = j then v else s_off (maps ix ! k))"
  by (simp add: set_off_def)

lemma find_from_set_off [simp]: "find_from (set_off ix j v) key i = find_from ix key i"
proof (induction ix key i rule: find_from.induct)
  case (1 ix key i)
  have "capacity (set_off ix j v) = capacity ix" "probe (set_off ix j v) = probe ix"
    by (simp_all add: set_off_def probe_def fun_eq_iff)
  then show ?case
    using "1.IH" by (simp add: find_from.simps [of ix key i] find_from.simps [of "set_off ix j v" key i]
        Let_def)
qed


subsection \<open>Insertion of a key\<close>

text \<open>
  The update loop either stops at the slot that a lookup finds and changes nothing, or fills
  the first free slot of the probe sequence, which the lookup then finds.
\<close>

lemma update_from_spec:
  assumes "update_from ix key i = Inr (j, ix')" and "length (maps ix) = capacity ix" and "key \<noteq> 0"
  shows "(find_from ix key i = Some j \<and> ix' = ix) \<or>
    (find_from ix key i = None \<and> j < capacity ix \<and> s_key (maps ix ! j) = 0 \<and>
     ix' = ix\<lparr>maps := (maps ix)[j := \<lparr>s_key = key, s_off = 0\<rparr>], isize := isize ix + 1\<rparr> \<and>
     find_from ix' key i = Some j)"
  using assms
proof (induction ix key i rule: update_from.induct)
  case (1 ix key i)
  let ?j = "probe ix key i"
  note unf = update_from.simps [of ix key i] find_from.simps [of ix key i] Let_def
  have i: "i < capacity ix" using "1.prems"(1) by (simp add: unf split: if_splits)
  have pl: "?j < capacity ix" using i by (simp add: probe_less)
  consider (free) "s_key (maps ix ! ?j) = 0" | (hit) "s_key (maps ix ! ?j) = key" "s_key (maps ix ! ?j) \<noteq> 0"
    | (next_slot) "s_key (maps ix ! ?j) \<noteq> 0" "s_key (maps ix ! ?j) \<noteq> key" by blast
  then show ?case
  proof cases
    case free
    with "1.prems" i pl show ?thesis
      by (auto simp: unf find_from.simps [of "ix\<lparr>maps := M, isize := n\<rparr>" for M n] probe_def)
  next
    case hit
    with "1.prems" i show ?thesis by (auto simp: unf)
  next
    case next_slot
    with "1.prems" i have rec: "update_from ix key (Suc i) = Inr (j, ix')" by (simp add: unf)
    from next_slot i have ff: "find_from ix key i = find_from ix key (Suc i)" by (simp add: unf)
    have keep: "find_from ix' key i = find_from ix' key (Suc i)"
      if "s_key (maps ix ! j) = 0" "j < capacity ix"
        "ix' = ix\<lparr>maps := (maps ix)[j := \<lparr>s_key = key, s_off = 0\<rparr>], isize := isize ix + 1\<rparr>"
    proof -
      have "?j \<noteq> j" using that(1) next_slot by auto
      moreover have "probe ix' key i = ?j" "capacity ix' = capacity ix"
        using that(3) by (simp_all add: probe_def)
      ultimately show ?thesis using that next_slot i
        by (subst find_from.simps) (simp add: Let_def)
    qed
    from "1.IH" [OF i refl next_slot rec] "1.prems"(2,3) ff keep show ?thesis by auto
  qed
qed

lemma used_update_free:
  assumes "j < length ss" and "s_key (ss ! j) = 0" and "s_key s \<noteq> 0"
  shows "length (used (ss[j := s])) = length (used ss) + 1"
proof -
  have "used ss = used (take j ss @ ss ! j # drop (Suc j) ss)"
    by (simp add: id_take_nth_drop [OF assms(1), symmetric])
  then show ?thesis
    using assms by (simp add: upd_conv_take_nth_drop used_def)
qed

text \<open>A lookup in a well-formed table finds exactly the slots that hold the key.\<close>

lemma find_from_iff:
  assumes "index_ok ix"
  shows "find_from ix key 0 = Some j \<longleftrightarrow> j < capacity ix \<and> s_key (maps ix ! j) = key \<and> key \<noteq> 0"
  using assms find_from_Some [of ix key 0 j] by (auto simp: index_ok_def)

lemma index_ok_fill:
  assumes ok: "index_ok ix" and j: "j < capacity ix" "s_key (maps ix ! j) = 0" and "key \<noteq> 0"
    and ix': "ix' = ix\<lparr>maps := (maps ix)[j := \<lparr>s_key = key, s_off = v\<rparr>], isize := isize ix + 1\<rparr>"
    and new: "find_from ix' key 0 = Some j" and old: "find_from ix key 0 = None"
  shows "index_ok ix'"
proof -
  have len: "length (maps ix) = capacity ix" using ok by (simp add: index_ok_def)
  have "find_from ix' (s_key (maps ix' ! k)) 0 = Some k"
    if k: "k < capacity ix" and nz: "s_key (maps ix' ! k) \<noteq> 0" for k
  proof (cases "k = j")
    case True
    then show ?thesis using new j len ix' by simp
  next
    case False
    then have "find_from ix (s_key (maps ix ! k)) 0 = Some k"
      using ok k nz ix' by (simp add: index_ok_def)
    then show ?thesis using False find_from_fill j(2) ix' by (simp add: find_from_fill)
  qed
  then show ?thesis
    using ok ix' j assms(4) len by (simp add: index_ok_def used_update_free)
qed

lemma imap_None_iff: "imap ix key = None \<longleftrightarrow> find_from ix key 0 = None"
  by (simp add: imap_def)

lemma imap_Some_iff:
  assumes "index_ok ix"
  shows "imap ix key = Some v \<longleftrightarrow>
    (\<exists>j < capacity ix. s_key (maps ix ! j) = key \<and> key \<noteq> 0 \<and> s_off (maps ix ! j) = v)"
  using find_from_iff [OF assms, of key] by (auto simp: imap_def)


text \<open>
  \<open>update\<close> finds or inserts the key: the table stays well formed, an old key keeps its offset, a
  new one gets 0, and every other key keeps what it had.
\<close>

lemma update_from_imap:
  assumes ok: "index_ok ix" and key: "key \<noteq> 0" and upd: "update_from ix key 0 = Inr (j, ix')"
  shows "index_ok ix'" and "find_from ix' key 0 = Some j" and "capacity ix' = capacity ix"
    and "imap ix' = (imap ix)(key \<mapsto> (case imap ix key of None \<Rightarrow> 0 | Some v \<Rightarrow> v))"
    and "isize ix' = isize ix + (if imap ix key = None then 1 else 0)"
proof -
  have len: "length (maps ix) = capacity ix" using ok by (simp add: index_ok_def)
  consider (hit) "find_from ix key 0 = Some j" "ix' = ix"
    | (new) "find_from ix key 0 = None" "j < capacity ix" "s_key (maps ix ! j) = 0"
      "ix' = ix\<lparr>maps := (maps ix)[j := \<lparr>s_key = key, s_off = 0\<rparr>], isize := isize ix + 1\<rparr>"
      "find_from ix' key 0 = Some j"
    using update_from_spec [OF upd len key] by metis
  then have "index_ok ix' \<and> find_from ix' key 0 = Some j \<and> capacity ix' = capacity ix \<and>
     imap ix' = (imap ix)(key \<mapsto> (case imap ix key of None \<Rightarrow> 0 | Some v \<Rightarrow> v)) \<and>
     isize ix' = isize ix + (if imap ix key = None then 1 else 0)"
  proof cases
    case hit
    then show ?thesis using ok by (auto simp: imap_def fun_eq_iff)
  next
    case new
    have ok': "index_ok ix'" by (rule index_ok_fill [OF ok new(2,3) key new(4,5,1)])
    have "imap ix' k = imap ix k" if k: "k \<noteq> key" for k
    proof (cases "imap ix k")
      case (Some v)
      then obtain i where "find_from ix k 0 = Some i" "i \<noteq> j" "v = s_off (maps ix ! i)"
        using new(3) find_from_Some [of ix k 0] by (auto simp: imap_def)
      then show ?thesis using Some new(3,4) by (simp add: find_from_fill imap_def)
    next
      case None
      have "find_from ix' k 0 = None"
      proof (rule ccontr)
        assume "find_from ix' k 0 \<noteq> None"
        then obtain i where "i < capacity ix'" "s_key (maps ix' ! i) = k" "k \<noteq> 0"
          using find_from_Some by fastforce
        then have "find_from ix k 0 = Some i"
          using new(2,4) len k find_from_iff [OF ok, of k i] by (auto simp: nth_list_update split: if_splits)
        with None show False by (simp add: imap_def)
      qed
      then show ?thesis using None by (simp add: imap_def)
    qed
    moreover have "imap ix' key = Some 0" using new(2,4,5) len by (simp add: imap_def)
    ultimately show ?thesis using ok' new(1,4,5) by (auto simp: imap_def fun_eq_iff)
  qed
  then show "index_ok ix'" "find_from ix' key 0 = Some j" "capacity ix' = capacity ix"
    "imap ix' = (imap ix)(key \<mapsto> (case imap ix key of None \<Rightarrow> 0 | Some v \<Rightarrow> v))"
    "isize ix' = isize ix + (if imap ix key = None then 1 else 0)"
    by blast+
qed

lemma used_set_off: "length (used (maps (set_off ix j v))) = length (used (maps ix))"
proof -
  have "map s_key (maps (set_off ix j v)) = map s_key (maps ix)"
    by (rule nth_equalityI) simp_all
  moreover have "length (used ss) = length (filter (\<lambda>k. k \<noteq> 0) (map s_key ss))" for ss
    by (induction ss) (auto simp: used_def)
  ultimately show ?thesis by metis
qed

text \<open>Writing through the returned pointer updates the map at that key.\<close>

lemma set_off_imap:
  assumes ok: "index_ok ix" and find: "find_from ix key 0 = Some j"
  shows "index_ok (set_off ix j v)" and "imap (set_off ix j v) = (imap ix)(key \<mapsto> v)"
    and "isize (set_off ix j v) = isize ix" and "capacity (set_off ix j v) = capacity ix"
proof -
  show "isize (set_off ix j v) = isize ix" "capacity (set_off ix j v) = capacity ix" by simp_all
  show "index_ok (set_off ix j v)"
    using ok by (simp add: index_ok_def used_set_off)
  have j: "j < length (maps ix)" "s_key (maps ix ! j) = key"
    using ok find_from_Some [OF find] by (auto simp: index_ok_def)
  have ne: "find_from ix k 0 \<noteq> Some j" if "k \<noteq> key" for k
    using that j(2) find_from_Some [of ix k 0 j] by auto
  show "imap (set_off ix j v) = (imap ix)(key \<mapsto> v)"
  proof
    fix k
    show "imap (set_off ix j v) k = ((imap ix)(key \<mapsto> v)) k"
      using find j(1) ne [of k]
      by (cases "find_from ix k 0") (auto simp: imap_def s_off_set_off)
  qed
qed


subsection \<open>Growing the table\<close>

definition pairs :: "slot list \<Rightarrow> (64 word \<times> nat) list" where
  "pairs ss = map (\<lambda>s. (s_key s, s_off s)) (used ss)"

lemma pairs_simps [simp]:
  "pairs [] = []"
  "pairs (s # ss) = (if s_key s \<noteq> 0 then (s_key s, s_off s) # pairs ss else pairs ss)"
  by (simp_all add: pairs_def used_def)

lemma zero_not_in_pairs: "0 \<notin> fst ` set (pairs ss)"
  by (induction ss) auto

lemma pairs_conv: "(k, v) \<in> set (pairs ss) \<longleftrightarrow> (\<exists>j < length ss. s_key (ss ! j) = k \<and> k \<noteq> 0 \<and> s_off (ss ! j) = v)"
  by (auto simp: pairs_def used_def in_set_conv_nth)

lemma index_ok_distinct:
  assumes "index_ok ix"
  shows "distinct (map fst (pairs (maps ix)))"
proof -
  have len: "length (maps ix) = capacity ix" using assms by (simp add: index_ok_def)
  have inj: "i = j" if "i < length (maps ix)" "j < length (maps ix)"
    "s_key (maps ix ! i) = s_key (maps ix ! j)" "s_key (maps ix ! i) \<noteq> 0" for i j
  proof -
    have "find_from ix (s_key (maps ix ! i)) 0 = Some i" "find_from ix (s_key (maps ix ! i)) 0 = Some j"
      using find_from_iff [OF assms] that len by auto
    then show ?thesis by simp
  qed
  have "distinct (map s_key (used ss))"
    if "\<And>i j. i < length ss \<Longrightarrow> j < length ss \<Longrightarrow> s_key (ss ! i) = s_key (ss ! j) \<Longrightarrow>
      s_key (ss ! i) \<noteq> 0 \<Longrightarrow> i = j" for ss
    using that
  proof (induction ss)
    case Nil
    then show ?case by (simp add: used_def)
  next
    case (Cons s ss)
    have "distinct (map s_key (used ss))"
    proof (rule Cons.IH)
      fix i j
      assume "i < length ss" "j < length ss" "s_key (ss ! i) = s_key (ss ! j)" "s_key (ss ! i) \<noteq> 0"
      then show "i = j" using Cons.prems [of "Suc i" "Suc j"] by simp
    qed
    moreover have "s_key s \<notin> s_key ` set (used ss)" if "s_key s \<noteq> 0"
    proof
      assume "s_key s \<in> s_key ` set (used ss)"
      then obtain i where "i < length ss" "s_key (ss ! i) = s_key s"
        by (auto simp: used_def in_set_conv_nth)
      with Cons.prems [of 0 "Suc i"] that show False by simp
    qed
    ultimately show ?case by (auto simp: used_def)
  qed
  then have "distinct (map s_key (used (maps ix)))" using inj by blast
  then show ?thesis by (simp add: pairs_def comp_def)
qed

lemma imap_pairs:
  assumes "index_ok ix"
  shows "imap ix = map_of (pairs (maps ix))"
proof
  fix k
  have "imap ix k = Some v \<longleftrightarrow> map_of (pairs (maps ix)) k = Some v" for v
    using imap_Some_iff [OF assms, of k v] map_of_eq_Some_iff [OF index_ok_distinct [OF assms]]
      pairs_conv [of k v "maps ix"] assms by (simp add: index_ok_def)
  then show "imap ix k = map_of (pairs (maps ix)) k" by (metis not_None_eq)
qed

lemma rehash_imap:
  assumes "rehash ss ix = Inr ix'" and "index_ok ix"
    and "distinct (map fst (pairs ss))" and "\<forall>k \<in> fst ` set (pairs ss). imap ix k = None"
  shows "index_ok ix' \<and> imap ix' = imap ix ++ map_of (pairs ss) \<and> capacity ix' = capacity ix \<and>
    isize ix' = isize ix + length (used ss)"
  using assms
proof (induction ss arbitrary: ix)
  case Nil
  then show ?case by (simp add: used_def)
next
  case (Cons s ss)
  show ?case
  proof (cases "s_key s = 0")
    case True
    with Cons show ?thesis by (simp add: used_def)
  next
    case False
    with Cons.prems obtain j ix1 where u: "update_from ix (s_key s) 0 = Inr (j, ix1)"
      and r: "rehash ss (set_off ix1 j (s_off s)) = Inr ix'"
      by (auto simp: obind_eq_Inr)
    note up = update_from_imap [OF Cons.prems(2) False u]
    note so = set_off_imap [OF up(1,2), of "s_off s"]
    have eq: "imap (set_off ix1 j (s_off s)) = (imap ix)(s_key s \<mapsto> s_off s)"
      by (simp add: so up(4))
    have none: "imap ix (s_key s) = None" and notin: "s_key s \<notin> fst ` set (pairs ss)"
      using Cons.prems(3,4) False by auto
    have "\<forall>k \<in> fst ` set (pairs ss). imap (set_off ix1 j (s_off s)) k = None"
      using Cons.prems(4) False notin eq by force
    with Cons.IH [OF r so(1)] Cons.prems(3) False
    have "index_ok ix'" "imap ix' = imap (set_off ix1 j (s_off s)) ++ map_of (pairs ss)"
      "capacity ix' = capacity ix1" "isize ix' = isize ix1 + length (used ss)"
      by auto
    moreover have "(imap ix)(s_key s \<mapsto> s_off s) ++ map_of (pairs ss) = imap ix ++ map_of (pairs (s # ss))"
      using False notin by (simp add: map_add_upd_left dom_map_of_conv_image_fst)
    ultimately have "imap ix' = imap ix ++ map_of (pairs (s # ss))" using eq by metis
    moreover have "capacity ix' = capacity ix" "isize ix' = isize ix + length (used (s # ss))"
      using \<open>capacity ix' = capacity ix1\<close> \<open>isize ix' = isize ix1 + length (used ss)\<close>
        up(3,5) none False by (simp_all add: used_def)
    ultimately show ?thesis using \<open>index_ok ix'\<close> by blast
  qed
qed


lemma create_ok:
  assumes "create mok cap = Some ix"
  shows "index_ok ix" "imap ix = Map.empty" "capacity ix = cap" "isize ix = 0"
proof -
  have ix: "ix = \<lparr>isize = 0, capacity = cap, maps = replicate cap empty_slot\<rparr>"
    using assms by (auto simp: create_def split: if_splits)
  then show "capacity ix = cap" "isize ix = 0" by simp_all
  show "index_ok ix" using ix by (simp add: index_ok_def used_def)
  have "find_from ix k 0 = None" for k
    by (subst find_from.simps) (simp add: ix Let_def probe_def)
  then show "imap ix = Map.empty" by (simp add: imap_def fun_eq_iff)
qed

text \<open>
  Growing keeps the map and makes room: afterwards at most seventy per cent of the slots are
  used, so at least one is free.
\<close>

lemma used_le_length: "length (used ss) \<le> length ss"
  by (simp add: used_def)

lemma le_twice_div2: "(n::nat) \<le> 2 * (n div 2) + 1"
  by arith

lemma grow_imap:
  assumes ok: "index_ok ix" and gr: "grow mok ix = Inr (rc, ix')"
  shows "index_ok ix'" and "imap ix' = imap ix" and "isize ix' = isize ix"
    and "rc = 0 \<Longrightarrow> 10 * isize ix' \<le> 7 * capacity ix' \<and> 0 < capacity ix'"
proof -
  have "index_ok ix' \<and> imap ix' = imap ix \<and> isize ix' = isize ix \<and>
     (rc = 0 \<longrightarrow> 10 * isize ix' \<le> 7 * capacity ix' \<and> 0 < capacity ix')"
  proof (cases "over_load ix")
    case False
    then show ?thesis using ok gr by (auto simp: grow_def over_load_def split: if_splits)
  next
    case True
    show ?thesis
    proof (cases "create mok ((capacity ix + 97) * 3 div 2)")
      case None
      then show ?thesis using ok gr True by (auto simp: grow_def)
    next
      case (Some ix0)
      note cr = create_ok [OF Some]
      have "rehash (maps ix) ix0 = Inr ix'" "rc = 0"
        using gr True Some by (auto simp: grow_def obind_eq_Inr)
      from rehash_imap [OF this(1) cr(1) index_ok_distinct [OF ok]] cr(2)
      have "index_ok ix'" "imap ix' = Map.empty ++ map_of (pairs (maps ix))"
        "capacity ix' = (capacity ix + 97) * 3 div 2" "isize ix' = length (used (maps ix))"
        using cr(3,4) by auto
      moreover have "isize ix \<le> capacity ix" "isize ix = length (used (maps ix))"
        using ok used_le_length [of "maps ix"] by (auto simp: index_ok_def)
      moreover have "10 * u \<le> 7 * ((c + 97) * 3 div 2)" if "u \<le> c" for u c :: nat
      proof -
        have "(c + 97) * 3 \<le> 2 * ((c + 97) * 3 div 2) + 1" by (rule le_twice_div2)
        then have "(c + 97) * 3 \<le> 2 * q + 1" if "q = (c + 97) * 3 div 2" for q
          using that by simp
        with \<open>u \<le> c\<close> have "10 * u \<le> 7 * q" if "q = (c + 97) * 3 div 2" for q
          using that by fastforce
        then show ?thesis by simp
      qed
      ultimately show ?thesis by (simp add: imap_pairs [OF ok])
    qed
  qed
  then show "index_ok ix'" "imap ix' = imap ix" "isize ix' = isize ix"
    "rc = 0 \<Longrightarrow> 10 * isize ix' \<le> 7 * capacity ix' \<and> 0 < capacity ix'" by auto
qed

subsection \<open>When the update loop finds a slot\<close>

text \<open>
  \<open>key + i\<close> does not wrap for a key at most \<open>2 ^ 64 - capacity\<close>: then the probe sequence visits
  every slot, so the loop reaches a free one and never runs into \<open>EXIT\<close>.
\<close>

definition no_wrap :: "nat \<Rightarrow> 64 word \<Rightarrow> bool" where
  "no_wrap cap key \<longleftrightarrow> unat key + cap \<le> 2 ^ 64"

lemma probe_no_wrap:
  assumes "no_wrap (capacity ix) key" and "i < capacity ix"
  shows "probe ix key i = (unat key + i) mod capacity ix"
proof -
  have "unat key + i < 2 ^ 64" using assms by (simp add: no_wrap_def)
  then show ?thesis by (simp add: probe_def unat_word_ariths unat_of_nat take_bit_eq_mod)
qed

lemma probe_surj:
  assumes "no_wrap (capacity ix) key" and "j < capacity ix"
  shows "\<exists>i < capacity ix. probe ix key i = j"
proof -
  let ?c = "capacity ix" and ?k = "unat key"
  let ?i = "(j + (?c - ?k mod ?c)) mod ?c"
  have "?i < ?c" using assms(2) by simp
  moreover have "(?k + ?i) mod ?c = (?k mod ?c + (j + (?c - ?k mod ?c))) mod ?c"
    by (simp add: mod_simps)
  moreover have "?k mod ?c + (j + (?c - ?k mod ?c)) = j + ?c"
    using assms(2) mod_less_divisor [of ?c ?k] by linarith
  ultimately show ?thesis
    using probe_no_wrap [OF assms(1)] assms(2) by (metis mod_add_self2 mod_less)
qed

lemma update_from_Inl:
  "update_from ix key i = Inl e \<Longrightarrow>
     \<forall>i' < capacity ix. i \<le> i' \<longrightarrow> s_key (maps ix ! probe ix key i') \<noteq> 0"
proof (induction ix key i rule: update_from.induct)
  case (1 ix key i)
  show ?case
  proof (cases "i < capacity ix")
    case True
    with "1.prems" have nz: "s_key (maps ix ! probe ix key i) \<noteq> 0"
      and "s_key (maps ix ! probe ix key i) \<noteq> key" and "update_from ix key (Suc i) = Inl e"
      by (auto simp: update_from.simps [of ix key i] Let_def split: if_splits)
    with "1.IH" [OF True refl] show ?thesis
      by (metis Suc_leI le_neq_implies_less)
  qed auto
qed

lemma update_from_no_exit:
  assumes "index_ok ix" and "isize ix < capacity ix" and "no_wrap (capacity ix) key"
  shows "\<exists>r. update_from ix key 0 = Inr r"
proof (rule ccontr)
  assume "\<not> ?thesis"
  then obtain e where "update_from ix key 0 = Inl e" by (meson Inl_Inr_False obj_sumE)
  then have "\<forall>j < capacity ix. s_key (maps ix ! j) \<noteq> 0"
    using probe_surj [OF assms(3)] update_from_Inl by (metis le0)
  then have "used (maps ix) = maps ix"
    using assms(1) by (auto simp: used_def index_ok_def in_set_conv_nth intro!: filter_True)
  then show False using assms(1,2) by (simp add: index_ok_def)
qed


lemma rehash_no_exit:
  assumes "index_ok ix" and "isize ix + length (used ss) < capacity ix"
    and "\<forall>k \<in> fst ` set (pairs ss). no_wrap (capacity ix) k"
  shows "\<exists>ix'. rehash ss ix = Inr ix'"
  using assms
proof (induction ss arbitrary: ix)
  case Nil
  then show ?case by simp
next
  case (Cons s ss)
  show ?case
  proof (cases "s_key s = 0")
    case True
    with Cons show ?thesis by (simp add: used_def)
  next
    case False
    have "no_wrap (capacity ix) (s_key s)" "isize ix < capacity ix"
      using Cons.prems False by auto
    with update_from_no_exit [OF Cons.prems(1)] obtain j ix1
      where u: "update_from ix (s_key s) 0 = Inr (j, ix1)" by fastforce
    note up = update_from_imap [OF Cons.prems(1) False u]
    have "isize ix1 + length (used ss) < capacity ix1"
      using Cons.prems(2) False up(3,5) by (simp add: used_def split: if_splits)
    then show ?thesis
      using Cons.IH [of "set_off ix1 j (s_off s)"] set_off_imap(1) [OF up(1,2)] Cons.prems(3) False u up(3)
      by simp
  qed
qed

text \<open>The capacity \<open>grow\<close> leaves behind.\<close>

definition grown_capacity :: "index \<Rightarrow> nat" where
  "grown_capacity ix = (if over_load ix then (capacity ix + 97) * 3 div 2 else capacity ix)"

text \<open>
  No probe sequence of the table wraps: neither that of the new key nor, when the table is
  rebuilt, that of a stored key.
\<close>

definition probes_fit :: "index \<Rightarrow> 64 word \<Rightarrow> bool" where
  "probes_fit ix key \<longleftrightarrow>
     no_wrap (grown_capacity ix) key \<and> (\<forall>k \<in> dom (imap ix). no_wrap (grown_capacity ix) k)"

lemma grow_capacity:
  assumes ok: "index_ok ix" and gr: "grow mok ix = Inr (0, ix')"
  shows "capacity ix' = grown_capacity ix"
proof (cases "over_load ix")
  case True
  then obtain ix0 where "create mok ((capacity ix + 97) * 3 div 2) = Some ix0"
    and r: "rehash (maps ix) ix0 = Inr ix'"
    using gr by (auto simp: grow_def obind_eq_Inr split: option.splits)
  note cr = create_ok [OF this(1)]
  from rehash_imap [OF r cr(1) index_ok_distinct [OF ok]] cr True show ?thesis
    by (simp add: grown_capacity_def)
qed (use gr in \<open>simp add: grow_def grown_capacity_def\<close>)

lemma grow_total:
  assumes ok: "index_ok ix" and mem: "\<And>n. mok n" and fit: "probes_fit ix key"
  shows "\<exists>ix'. grow mok ix = Inr (0, ix')"
proof (cases "over_load ix")
  case False
  then show ?thesis by (simp add: grow_def)
next
  case True
  let ?c = "(capacity ix + 97) * 3 div 2"
  obtain ix0 where ix0: "create mok ?c = Some ix0" using mem by (simp add: create_def)
  note cr = create_ok [OF this]
  have "isize ix0 + length (used (maps ix)) < capacity ix0"
    using cr(3,4) used_le_length [of "maps ix"] ok by (simp add: index_ok_def)
  moreover have "\<forall>k \<in> fst ` set (pairs (maps ix)). no_wrap (capacity ix0) k"
    using fit cr(3) True
    by (simp add: probes_fit_def grown_capacity_def imap_pairs [OF ok] dom_map_of_conv_image_fst)
  ultimately obtain ix' where "rehash (maps ix) ix0 = Inr ix'"
    using rehash_no_exit [OF cr(1)] by blast
  then show ?thesis using True ix0 by (simp add: grow_def)
qed

lemma hash_key_nonzero: "hash_key key \<noteq> 0"
  by (simp add: hash_key_def Let_def)

text \<open>How much an update can change: the capacity is that of \<open>grow\<close>, and at most the key's hash is new.\<close>

lemma isize_dom:
  assumes ok: "index_ok ix"
  shows "isize ix = card (dom (imap ix))"
proof -
  have "length (used (maps ix)) = length (pairs (maps ix))" by (simp add: pairs_def)
  also have "\<dots> = card (fst ` set (pairs (maps ix)))"
    using index_ok_distinct [OF ok] by (metis distinct_card length_map list.set_map)
  finally show ?thesis using ok by (simp add: index_ok_def imap_pairs [OF ok] dom_map_of_conv_image_fst)
qed

lemma dom_imap_set_off [simp]: "dom (imap (set_off ix j v)) = dom (imap ix)"
  by (auto simp: imap_def dom_def)

subsection \<open>The interface the store relies on\<close>

text \<open>
  A reference map hands out, for a key, a reference to a cell that holds a number; a missing
  cell is made and holds 0. Reading and writing go through the reference. The locale states the
  laws; \<open>fits\<close> is the condition under which an update is sure to return a reference.
\<close>

locale ref_map =
  fixes ok :: "'i \<Rightarrow> bool"
    and cells :: "'i \<Rightarrow> 'h \<Rightarrow> nat option"
    and key_of :: "'k \<Rightarrow> 'h"
    and valid :: "'k \<Rightarrow> bool"
    and fits :: "'i \<Rightarrow> 'k \<Rightarrow> bool"
    and make_ref :: "'i \<Rightarrow> 'k \<Rightarrow> (nat option \<times> 'i) outcome"
    and find_ref :: "'i \<Rightarrow> 'k \<Rightarrow> nat option outcome"
    and read_ref :: "'i \<Rightarrow> nat \<Rightarrow> nat"
    and write_ref :: "'i \<Rightarrow> nat \<Rightarrow> nat \<Rightarrow> 'i"
  assumes make_ok: "ok i \<Longrightarrow> valid k \<Longrightarrow> make_ref i k = Inr (ro, i') \<Longrightarrow> ok i'"
    and make_some: "ok i \<Longrightarrow> valid k \<Longrightarrow> make_ref i k = Inr (Some r, i') \<Longrightarrow>
      cells i' = (cells i)(key_of k \<mapsto> (case cells i (key_of k) of None \<Rightarrow> 0 | Some v \<Rightarrow> v)) \<and>
      find_ref i' k = Inr (Some r)"
    and make_none: "ok i \<Longrightarrow> valid k \<Longrightarrow> make_ref i k = Inr (None, i') \<Longrightarrow> i' = i"
    and make_total: "ok i \<Longrightarrow> valid k \<Longrightarrow> fits i k \<Longrightarrow> \<exists>r i'. make_ref i k = Inr (Some r, i')"
    and find_law: "ok i \<Longrightarrow> valid k \<Longrightarrow>
      \<exists>r. find_ref i k = Inr r \<and> cells i (key_of k) = map_option (read_ref i) r"
    and write_law: "ok i \<Longrightarrow> valid k \<Longrightarrow> find_ref i k = Inr (Some r) \<Longrightarrow>
      ok (write_ref i r v) \<and> cells (write_ref i r v) = (cells i)(key_of k \<mapsto> v)"
begin

lemma made_ref_reads:
  assumes "ok i" and "valid k" and "make_ref i k = Inr (Some r, i')"
  shows "read_ref i' r = (case cells i (key_of k) of None \<Rightarrow> 0 | Some v \<Rightarrow> v)"
  using make_some [OF assms] make_ok [OF assms] find_law [of i' k] assms(2) by auto

lemma make_then_write:
  assumes "ok i" and "valid k" and "make_ref i k = Inr (Some r, i')"
  shows "ok (write_ref i' r v) \<and> cells (write_ref i' r v) = (cells i)(key_of k \<mapsto> v)"
  using make_some [OF assms] make_ok [OF assms] write_law [of i' k r v] assms(2) by auto

end

definition slot_off :: "index \<Rightarrow> nat \<Rightarrow> nat" where
  "slot_off ix j = s_off (maps ix ! j)"

lemma index_update_cases:
  assumes ok: "index_ok ix" and key: "key \<noteq> []" and upd: "index_update mok ix key = Inr (r, ix')"
  shows "index_ok ix'"
    and "r = None \<Longrightarrow> ix' = ix"
    and "r = Some j \<Longrightarrow> find_from ix' (hash_key key) 0 = Some j \<and> imap ix' =
      (imap ix)(hash_key key \<mapsto> (case imap ix (hash_key key) of None \<Rightarrow> 0 | Some v \<Rightarrow> v))"
proof -
  obtain rc ix1 where gr: "grow mok ix = Inr (rc, ix1)"
    and rest: "(if rc \<noteq> 0 then Inr (None, ix1)
        else obind (update_from ix1 (hash_key key) 0) (\<lambda>(j, ix''). Inr (Some j, ix''))) = Inr (r, ix')"
    using upd key by (auto simp: index_update_def obind_eq_Inr)
  note g = grow_imap [OF ok gr]
  have rc: "ix1 = ix" if "rc \<noteq> 0"
    using gr that by (auto simp: grow_def obind_eq_Inr split: if_splits option.splits)
  have step: "index_ok ix' \<and> find_from ix' (hash_key key) 0 = Some j \<and> imap ix' =
      (imap ix)(hash_key key \<mapsto> (case imap ix (hash_key key) of None \<Rightarrow> 0 | Some v \<Rightarrow> v))"
    if "rc = 0" "update_from ix1 (hash_key key) 0 = Inr (j, ix')" for j
    using update_from_imap [OF g(1) hash_key_nonzero that(2)] g(2) by simp
  show "index_ok ix'" using rest g(1) step by (auto simp: obind_eq_Inr split: if_splits)
  show "ix' = ix" if "r = None" using rest rc that by (auto simp: obind_eq_Inr split: if_splits)
  show "find_from ix' (hash_key key) 0 = Some j \<and> imap ix' =
      (imap ix)(hash_key key \<mapsto> (case imap ix (hash_key key) of None \<Rightarrow> 0 | Some v \<Rightarrow> v))"
    if "r = Some j" using rest step that by (auto simp: obind_eq_Inr split: if_splits)
qed

lemma index_update_shape:
  assumes ok: "index_ok ix" and key: "key \<noteq> []" and upd: "index_update mok ix key = Inr (r, ix')"
  shows "capacity ix' \<in> {capacity ix, grown_capacity ix}" and "dom (imap ix') \<subseteq> insert (hash_key key) (dom (imap ix))"
proof -
  obtain rc ix1 where gr: "grow mok ix = Inr (rc, ix1)"
    and rest: "(if rc \<noteq> 0 then Inr (None, ix1)
        else obind (update_from ix1 (hash_key key) 0) (\<lambda>(j, ix''). Inr (Some j, ix''))) = Inr (r, ix')"
    using upd key by (auto simp: index_update_def obind_eq_Inr)
  show "dom (imap ix') \<subseteq> insert (hash_key key) (dom (imap ix))"
    using index_update_cases(2,3) [OF assms] by (cases r) auto
  show "capacity ix' \<in> {capacity ix, grown_capacity ix}"
  proof (cases "rc = 0")
    case True
    then obtain j where "update_from ix1 (hash_key key) 0 = Inr (j, ix')" using rest by (auto simp: obind_eq_Inr)
    from update_from_imap(3) [OF grow_imap(1) [OF ok gr] hash_key_nonzero this] show ?thesis
      using grow_capacity [OF ok] gr True by simp
  next
    case False
    then show ?thesis using index_update_cases(2) [OF assms] rest by auto
  qed
qed

interpretation ix: ref_map index_ok imap hash_key "\<lambda>k. k \<noteq> []"
  "\<lambda>ix k. (\<forall>n. mok n) \<and> probes_fit ix (hash_key k)" "index_update mok" index_lookup slot_off set_off
  for mok
proof unfold_locales
  fix i :: index and k :: bytes and r i'
  assume a: "index_ok i" "k \<noteq> []"
  show "index_update mok i k = Inr (r, i') \<Longrightarrow> index_ok i'"
    by (rule index_update_cases(1) [OF a])
  show "index_update mok i k = Inr (None, i') \<Longrightarrow> i' = i"
    by (rule index_update_cases(2) [OF a _ refl])
  show "\<exists>r. index_lookup i k = Inr r \<and> imap i (hash_key k) = map_option (slot_off i) r"
    using a by (simp add: index_lookup_def imap_def slot_off_def [abs_def])
next
  fix i :: index and k :: bytes and r i'
  assume "index_ok i" "k \<noteq> []" "index_update mok i k = Inr (Some r, i')"
  from index_update_cases(3) [OF this refl] this(2)
  show "imap i' = (imap i)(hash_key k \<mapsto> (case imap i (hash_key k) of None \<Rightarrow> 0 | Some v \<Rightarrow> v)) \<and>
    index_lookup i' k = Inr (Some r)"
    by (simp add: index_lookup_def)
next
  fix i :: index and k :: bytes
  assume a: "index_ok i" "k \<noteq> []" "(\<forall>n. mok n) \<and> probes_fit i (hash_key k)"
  then obtain i1 where gr: "grow mok i = Inr (0, i1)" using grow_total by blast
  note g = grow_imap [OF a(1) gr]
  have "no_wrap (capacity i1) (hash_key k)"
    using a(3) grow_capacity [OF a(1) gr] by (simp add: probes_fit_def)
  then obtain j i' where "update_from i1 (hash_key k) 0 = Inr (j, i')"
    using update_from_no_exit [OF g(1)] g(4) by fastforce
  then show "\<exists>r i'. index_update mok i k = Inr (Some r, i')"
    using gr a(2) by (simp add: index_update_def)
next
  fix i :: index and k :: bytes and r v :: nat
  assume "index_ok i" "k \<noteq> []" "index_lookup i k = Inr (Some r)"
  then show "index_ok (set_off i r v) \<and> imap (set_off i r v) = (imap i)(hash_key k \<mapsto> v)"
    using set_off_imap [of i "hash_key k" r v] by (simp add: index_lookup_def)
qed


subsection \<open>Properties\<close>

lemma index_ok_open: "index_ok index_open" "imap index_open = Map.empty"
  by (simp_all add: index_open_def index_ok_def used_def imap_def fun_eq_iff find_from.simps)

lemmas hash_eval = hash_key_def hash_def hash_init_def hash_round_def rotl_def Let_def

lemma hash_key_one: "hash_key [1] = 10863495015613792254"
  by (simp add: hash_eval)

lemma probes_fit_one: "probes_fit index_open (hash_key [1])"
  by (simp add: probes_fit_def index_ok_open grown_capacity_def over_load_def hash_key_one no_wrap_def)
    (simp add: index_open_def)

text \<open>
  C17: \<open>index_update\<close> keeps the table well formed, returns the slot that \<open>index_lookup\<close> then
  finds for the key, leaves every other key alone, and an assignment through the returned
  pointer stores the offset of exactly this key, also when the table was rebuilt by \<open>grow\<close>.
\<close>

theorem index_update_refines:
  assumes "index_ok ix" and "key \<noteq> []" and "index_update mok ix key = Inr (Some r, ix')"
  shows "index_ok ix' \<and> index_lookup ix' key = Inr (Some r) \<and>
    imap ix' = (imap ix)(hash_key key \<mapsto> (case imap ix (hash_key key) of None \<Rightarrow> 0 | Some v \<Rightarrow> v)) \<and>
    index_ok (set_off ix' r v) \<and> imap (set_off ix' r v) = (imap ix)(hash_key key \<mapsto> v)"
  using ix.make_ok [OF assms] ix.make_some [OF assms] ix.make_then_write [OF assms] by simp

theorem index_update_refines_witness:
  "\<exists>r ix'. index_update (\<lambda>_. True) index_open [1] = Inr (Some r, ix') \<and>
     index_lookup ix' [1] = Inr (Some r) \<and> imap (set_off ix' r 7) = [hash_key [1] \<mapsto> 7]"
proof -
  obtain r ix' where "index_update (\<lambda>_. True) index_open [1] = Inr (Some r, ix')"
    using ix.make_total [of index_open "[1]" "\<lambda>_. True"] index_ok_open probes_fit_one by auto
  with index_update_refines [OF index_ok_open(1) _ this, of 7] show ?thesis
    by (auto simp: index_ok_open)
qed

text \<open>
  When memory is available and no probe sequence wraps at \<open>2 ^ 64\<close>, \<open>index_update\<close> always
  comes back with a slot: the table is never full, because \<open>grow\<close> keeps the load at or below
  seventy per cent, and so the loop of \<open>update\<close> never runs into \<open>EXIT\<close>.
\<close>

theorem index_update_total:
  assumes "index_ok ix" and "key \<noteq> []" and "\<And>n. mok n" and "probes_fit ix (hash_key key)"
  shows "\<exists>r ix'. index_update mok ix key = Inr (Some r, ix')"
  using ix.make_total [of ix key mok] assms by simp

theorem index_update_total_witness:
  "\<exists>r ix'. index_update (\<lambda>_. True) index_open [1] = Inr (Some r, ix')"
  by (rule index_update_total) (simp_all add: index_ok_open probes_fit_one)

lemma update_from_stuck:
  "(\<And>i'. i \<le> i' \<Longrightarrow> i' < capacity ix \<Longrightarrow> s_key (maps ix ! probe ix key i') \<notin> {0, key}) \<Longrightarrow>
     update_from ix key i = Inl Exit_called"
proof (induction ix key i rule: update_from.induct)
  case (1 ix key i)
  show ?case
  proof (cases "i < capacity ix")
    case True
    with "1.prems" [of i] have "s_key (maps ix ! probe ix key i) \<notin> {0, key}" by simp
    with "1.IH" [OF True refl] "1.prems" True show ?thesis
      by (simp add: update_from.simps [of ix key i] Let_def)
  qed (simp add: update_from.simps)
qed

text \<open>
  A table of capacity 363, one that \<open>grow\<close> makes, with 214 of its slots used.
\<close>

definition crowded :: index where
  "crowded = \<lparr>isize = 214, capacity = 363,
     maps = map (\<lambda>j. \<lparr>s_key = word_of_nat (363 + j), s_off = 0\<rparr>) [0..<214] @ replicate 149 empty_slot\<rparr>"

lemma crowded_key: "j < 363 \<Longrightarrow> s_key (maps crowded ! j) = (if j < 214 then word_of_nat (363 + j) else 0)"
  by (simp add: crowded_def nth_append)

lemma unat_small: "(n::nat) < 1000 \<Longrightarrow> unat (word_of_nat n :: 64 word) = n"
  by (simp add: unat_of_nat)

lemma small_nonzero: "0 < (n::nat) \<Longrightarrow> n < 1000 \<Longrightarrow> (word_of_nat n :: 64 word) \<noteq> 0"
  using unat_small [of n] by auto

lemma crowded_ok: "index_ok crowded"
proof -
  have "length (used (maps crowded)) = 214"
  proof -
    have "word_of_nat (363 + j) \<noteq> (0 :: 64 word)" if "j < 214" for j
      using small_nonzero [of "363 + j"] that by simp
    then have "used (map (\<lambda>j. \<lparr>s_key = word_of_nat (363 + j), s_off = 0\<rparr>) [0..<214]) =
        map (\<lambda>j. \<lparr>s_key = word_of_nat (363 + j), s_off = 0\<rparr>) [0..<214]"
      unfolding used_def by (intro filter_True) (simp del: of_nat_add upt_rec_numeral)
    moreover have "used (replicate 149 empty_slot) = []" by (simp add: used_def)
    ultimately show ?thesis
      by (simp add: crowded_def used_def del: of_nat_add upt_rec_numeral)
  qed
  moreover have "find_from crowded (s_key (maps crowded ! j)) 0 = Some j"
    if "j < 363" "s_key (maps crowded ! j) \<noteq> 0" for j
  proof -
    have j: "j < 214" using that by (auto simp: crowded_key split: if_splits)
    then have "probe crowded (word_of_nat (363 + j)) 0 = j"
      using unat_small [of "363 + j"] by (simp add: probe_def crowded_def)
    then show ?thesis using that j
      by (subst find_from.simps) (simp add: Let_def crowded_key, simp add: crowded_def)
  qed
  ultimately show ?thesis by (simp add: index_ok_def) (simp add: crowded_def)
qed

lemma crowded_probe: "i < 363 \<Longrightarrow> probe crowded (- 149) i = (if i < 149 then 65 + i else i - 149)"
proof -
  assume i: "i < 363"
  have "unat (- 149 + word_of_nat i :: 64 word) = (if i < 149 then 2 ^ 64 - 149 + i else i - 149)"
  proof (cases "i < 149")
    case True
    have "(- 149 + word_of_nat i :: 64 word) = word_of_nat (2 ^ 64 - 149 + i)" by simp
    moreover have "2 ^ 64 - 149 + i < 2 ^ 64" using True by simp
    ultimately show ?thesis using True by (simp only: unat_of_nat) simp
  next
    case False
    have "(- 149 + word_of_nat i :: 64 word) = word_of_nat (i - 149)" using False by simp
    then show ?thesis using False i unat_small [of "i - 149"] by simp
  qed
  moreover have "(2 ^ 64 - 149 + i) mod 363 = 65 + i" if "i < 149"
  proof -
    have "(2 ^ 64 - 149 + i) mod 363 = ((2 ^ 64 - 149) mod 363 + i) mod 363"
      by (rule mod_add_left_eq [symmetric])
    then show ?thesis using that by simp
  qed
  ultimately show ?thesis using i by (simp add: probe_def crowded_def)
qed

text \<open>
  When \<open>key + i\<close> does wrap at \<open>2 ^ 64\<close>, the probe sequence misses slots: in a well-formed table
  that is 59 per cent full (so \<open>grow\<close> leaves it alone), \<open>update\<close> ends in \<open>EXIT\<close> although 149
  slots are free.
\<close>

theorem update_wrap_exit:
  "index_ok crowded \<and> \<not> over_load crowded \<and> update_from crowded (- 149) 0 = Inl Exit_called"
proof -
  have "update_from crowded (- 149) 0 = Inl Exit_called"
  proof (rule update_from_stuck)
    fix i :: nat assume "i < capacity crowded"
    then have i: "i < 363" by (simp add: crowded_def)
    then have "s_key (maps crowded ! probe crowded (- 149) i) = word_of_nat (363 + probe crowded (- 149) i)"
      "probe crowded (- 149) i < 214"
      by (auto simp: crowded_probe crowded_key)
    moreover have "(word_of_nat n :: 64 word) \<noteq> - 149" if "n < 1000" for n
    proof
      assume "(word_of_nat n :: 64 word) = - 149"
      then have "unat (word_of_nat n :: 64 word) = unat (- 149 :: 64 word)" by simp
      then show False using unat_small [OF that] that by simp
    qed
    ultimately show "s_key (maps crowded ! probe crowded (- 149) i) \<notin> {0, - 149}"
      using small_nonzero [of "363 + probe crowded (- 149) i"] by (simp del: of_nat_add)
  qed
  then show ?thesis using crowded_ok by (simp add: over_load_def) (simp add: crowded_def)
qed

end
