(* ===== verification/Kvdb.thy ===== *)
theory Kvdb
  imports Kvraw Index
begin

section \<open>The key-value store (\<open>project-4/kvdb.c\<close>)\<close>

text \<open>
  The index maps the hash of a key to the newest record of a chain on the log; all keys with that
  hash are on the chain, a record with an empty value marks a removed key. Walking the chain is a
  loop that ends only because links point backwards, so it is a partial function: \<open>None\<close> is a loop
  that does not end, and that it ends is proved from the invariant.
\<close>

subsection \<open>State\<close>

record kvdb =
  db_size :: nat
  db_waste :: nat
  db_raw :: kvraw
  db_index :: index

datatype mode = Remove | Insert | Update | Replace

definition KVDB_MAX_KEY_LEN :: nat where "KVDB_MAX_KEY_LEN = 0xffff"
definition KVDB_MAX_VAL_LEN :: nat where "KVDB_MAX_VAL_LEN = 0xffffffff"

subsection \<open>Walking a chain\<close>

text \<open>
  The loop of \<open>chain_lookup\<close>. \<open>off\<close> is \<open>*off\<close> and \<open>o'\<close> is \<open>off_\<close>. The stack buffer has 256 bytes, but
  \<open>sizeof (key_)\<close> in the comparisons is the size of a pointer, 8. \<open>mok n\<close> says whether \<open>malloc (n)\<close>
  succeeds.
\<close>

partial_function (option) chain_loop :: "(nat \<Rightarrow> bool) \<Rightarrow> kvraw \<Rightarrow> bytes \<Rightarrow> bytes option \<Rightarrow> nat \<Rightarrow> nat \<Rightarrow> nat \<Rightarrow>
    (int \<times> (bytes option \<times> nat) \<times> nat \<times> kvraw) outcome option" where
  "chain_loop mok kv key val vlen off o' =
     (if o' = 0 then Some (Inr (0, (val, vlen), off, kv))
      else
        (case kvraw_lookup kv (min (length key) 256) val vlen o' of
           Inl e \<Rightarrow> Some (Inl e)
         | Inr (rc, (k, klen), (val1, vlen1), prev, kv1) \<Rightarrow>
             if rc \<noteq> 0 then Some (Inr (-1, (val1, vlen), off, kv1))
             else if klen \<noteq> length key \<or> take (min (length key) 8) k \<noteq> take (min (length key) 8) key
             then chain_loop mok kv1 key val1 vlen prev prev
             else if 8 < klen then
               (if \<not> mok klen then Some (Inr (-1, (val1, vlen), off, kv1))
                else
                  (case kvraw_lookup kv1 klen val1 0 off of
                     Inl e \<Rightarrow> Some (Inl e)
                   | Inr (rc2, (k2, klen2), (val2, vlen2), prev2, kv2) \<Rightarrow>
                       if rc2 \<noteq> 0 then Some (Inr (-1, (val2, vlen), off, kv2))
                       else if take (length key) k2 = key then Some (Inr (0, (val2, vlen2), off, kv2))
                       else chain_loop mok kv2 key val2 vlen prev2 prev2))
             else if take (length key) k = key then Some (Inr (0, (val1, vlen1), off, kv1))
             else chain_loop mok kv1 key val1 vlen prev prev))"

definition chain_lookup :: "(nat \<Rightarrow> bool) \<Rightarrow> kvraw \<Rightarrow> bytes \<Rightarrow> bytes option \<Rightarrow> nat \<Rightarrow> nat \<Rightarrow>
    (int \<times> (bytes option \<times> nat) \<times> nat \<times> kvraw) outcome option" where
  "chain_lookup mok kv key val vlen off = chain_loop mok kv key val vlen off off"

subsection \<open>Operations\<close>

text \<open>\<open>kvraw_append\<close> with \<open>ref\<close>, the slot of the index, as the in/out offset.\<close>

definition append_ref :: "kvdb \<Rightarrow> nat \<Rightarrow> bytes \<Rightarrow> bytes \<Rightarrow> (int \<times> kvdb) outcome" where
  "append_ref db r key data =
     obind (kvraw_append (db_raw db) key data (slot_off (db_index db) r)) (\<lambda>(rc, off, kv).
       Inr (if rc \<noteq> 0 then -1 else 0, db\<lparr>db_raw := kv, db_index := set_off (db_index db) r off\<rparr>))"

definition grow_size :: "kvdb \<Rightarrow> kvdb" where "grow_size db = db\<lparr>db_size := inc64 (db_size db)\<rparr>"
definition shrink_size :: "kvdb \<Rightarrow> kvdb" where "shrink_size db = db\<lparr>db_size := dec64 (db_size db)\<rparr>"
definition add_waste :: "kvdb \<Rightarrow> kvdb" where "add_waste db = db\<lparr>db_waste := inc64 (db_waste db)\<rparr>"

text \<open>
  The part of \<open>mutate\<close> after the chain lookup, for each mode; \<open>found\<close> is \<open>off && val_len_\<close>. \<open>Update\<close>
  counts before it appends, the others after. The flag in the result says whether the function gets to
  the assignment of \<open>*val_len\<close>.
\<close>

definition count_after :: "int \<Rightarrow> kvdb \<Rightarrow> (kvdb \<Rightarrow> kvdb) \<Rightarrow> int \<times> kvdb" where
  "count_after rc db f = (if rc \<noteq> 0 then (-1, db) else (0, f db))"

fun mutate_mode :: "mode \<Rightarrow> bool \<Rightarrow> kvdb \<Rightarrow> nat \<Rightarrow> bytes \<Rightarrow> bytes \<Rightarrow> (int \<times> kvdb) outcome" where
  "mutate_mode Remove found db r key data =
     (if \<not> found then Inr (1, db)
      else obind (append_ref db r key []) (\<lambda>(rc, db'). Inr (count_after rc db' (add_waste \<circ> shrink_size))))"
| "mutate_mode Insert found db r key data =
     (if found then Inr (1, db)
      else obind (append_ref db r key data) (\<lambda>(rc, db'). Inr (count_after rc db' grow_size)))"
| "mutate_mode Update found db r key data =
     obind (append_ref (if found then add_waste db else grow_size db) r key data) (\<lambda>(rc, db').
       Inr (count_after rc db' id))"
| "mutate_mode Replace found db r key data =
     (if \<not> found then Inr (1, db)
      else obind (append_ref db r key data) (\<lambda>(rc, db'). Inr (count_after rc db' add_waste)))"

text \<open>
  \<open>mutate\<close>: \<open>val\<close> is the memory the pointer \<open>val\<close> points to, \<open>vlen\<close> that of \<open>val_len\<close> (\<open>None\<close> for null
  pointers). \<open>Remove\<close> writes the old value and its length there, the other modes read the new value.
\<close>

definition mutate :: "(nat \<Rightarrow> bool) \<Rightarrow> kvdb \<Rightarrow> bytes \<Rightarrow> bytes option \<Rightarrow> nat option \<Rightarrow> mode \<Rightarrow>
    (int \<times> (bytes option \<times> nat option) \<times> kvdb) outcome option" where
  "mutate mok db key val vlen mode =
     lbind (Some (index_update mok (db_index db) key)) (\<lambda>(ref, ix).
       case ref of
         None \<Rightarrow> Some (Inr (-1, (val, vlen), db\<lparr>db_index := ix\<rparr>))
       | Some r \<Rightarrow>
           let out = (mode = Remove \<and> vlen \<noteq> None);
               buf = (if out then val else None);
               n = (if out then the vlen else 0)
           in lbind (chain_lookup mok (db_raw db) key buf n (slot_off ix r)) (\<lambda>(rc, (buf', n'), off, kv).
                let db1 = db\<lparr>db_index := ix, db_raw := kv\<rparr>;
                    val' = (if out then buf' else val)
                in if rc \<noteq> 0 then Some (Inr (-1, (val', vlen), db1))
                   else lbind (Some (mutate_mode mode (off \<noteq> 0 \<and> n' \<noteq> 0) db1 r key
                                 (case (val, vlen) of (Some b, Some m) \<Rightarrow> take m b | _ \<Rightarrow> [])))
                     (\<lambda>(rc, db2). Some (Inr (rc, (val', if out \<and> rc = 0 then Some n' else vlen), db2)))))"

definition kvdb_open :: "string \<Rightarrow> bool \<Rightarrow> bool \<Rightarrow> bool \<Rightarrow> device option \<Rightarrow> bool \<Rightarrow> bytes \<Rightarrow> (nat \<Rightarrow> nat) \<Rightarrow>
    kvdb option outcome" where
  "kvdb_open pathname mem mem_raw mem_ix dev pth junk sch =
     (if pathname = [] then Inl Assert_failed
      else if \<not> mem then Inr None
      else obind (kvraw_open pathname mem_raw dev pth junk sch) (\<lambda>kv.
        case kv of
          None \<Rightarrow> Inr None
        | Some kv \<Rightarrow>
            if \<not> mem_ix then obind (kvraw_close (Some (klog kv))) (\<lambda>_. Inr None)
            else Inr (Some \<lparr>db_size = 0, db_waste = 0, db_raw = kv, db_index = index_open\<rparr>)))"

definition kvdb_close :: "kvdb \<Rightarrow> device outcome" where
  "kvdb_close db = kvraw_close (Some (klog (db_raw db)))"

definition key_checked :: "bytes \<Rightarrow> bool" where
  "key_checked key \<longleftrightarrow> key \<noteq> [] \<and> length key \<le> KVDB_MAX_KEY_LEN"

definition kvdb_remove :: "(nat \<Rightarrow> bool) \<Rightarrow> kvdb \<Rightarrow> bytes \<Rightarrow> bytes option \<Rightarrow> nat option \<Rightarrow>
    (int \<times> (bytes option \<times> nat option) \<times> kvdb) outcome option" where
  "kvdb_remove mok db key val vlen =
     (if \<not> key_checked key then Some (Inl Assert_failed)
      else if vlen = Some 0 \<and> val = None then Some (Inl Assert_failed)
      else mutate mok db key val vlen Remove)"

text \<open>The three operations that store a value have the same asserts.\<close>

definition store :: "(nat \<Rightarrow> bool) \<Rightarrow> kvdb \<Rightarrow> bytes \<Rightarrow> bytes \<Rightarrow> mode \<Rightarrow> (int \<times> kvdb) outcome option" where
  "store mok db key val mode =
     (if \<not> key_checked key then Some (Inl Assert_failed)
      else if val = [] \<or> KVDB_MAX_VAL_LEN < length val then Some (Inl Assert_failed)
      else lbind (mutate mok db key (Some val) (Some (length val)) mode) (\<lambda>(rc, _, db'). Some (Inr (rc, db'))))"

definition kvdb_insert :: "(nat \<Rightarrow> bool) \<Rightarrow> kvdb \<Rightarrow> bytes \<Rightarrow> bytes \<Rightarrow> (int \<times> kvdb) outcome option" where
  "kvdb_insert mok db key val = store mok db key val Insert"

definition kvdb_update :: "(nat \<Rightarrow> bool) \<Rightarrow> kvdb \<Rightarrow> bytes \<Rightarrow> bytes \<Rightarrow> (int \<times> kvdb) outcome option" where
  "kvdb_update mok db key val = store mok db key val Update"

definition kvdb_replace :: "(nat \<Rightarrow> bool) \<Rightarrow> kvdb \<Rightarrow> bytes \<Rightarrow> bytes \<Rightarrow> (int \<times> kvdb) outcome option" where
  "kvdb_replace mok db key val = store mok db key val Replace"

definition kvdb_lookup :: "(nat \<Rightarrow> bool) \<Rightarrow> kvdb \<Rightarrow> bytes \<Rightarrow> bytes option \<Rightarrow> nat option \<Rightarrow>
    (int \<times> (bytes option \<times> nat option) \<times> kvdb) outcome option" where
  "kvdb_lookup mok db key val vlen =
     (if \<not> key_checked key then Some (Inl Assert_failed)
      else if vlen \<noteq> None \<and> vlen \<noteq> Some 0 \<and> val = None then Some (Inl Assert_failed)
      else lbind (Some (index_lookup (db_index db) key)) (\<lambda>ref.
        case ref of
          None \<Rightarrow> Some (Inr (1, (val, vlen), db))
        | Some r \<Rightarrow>
            if slot_off (db_index db) r = 0 then Some (Inr (1, (val, vlen), db))
            else
              let buf = (if vlen = None then None else val);
                  n = (case vlen of None \<Rightarrow> 0 | Some n \<Rightarrow> n)
              in lbind (chain_lookup mok (db_raw db) key buf n (slot_off (db_index db) r))
                   (\<lambda>(rc, (buf', n'), off, kv).
                     let db' = db\<lparr>db_raw := kv\<rparr>; val' = (if vlen = None then val else buf')
                     in if rc \<noteq> 0 then Some (Inr (-1, (val', vlen), db'))
                        else if off = 0 \<or> n' = 0 then Some (Inr (1, (val', vlen), db'))
                        else Some (Inr (0, (val', map_option (\<lambda>_. n') vlen), db')))))"

definition kvdb_size :: "kvdb \<Rightarrow> nat" where "kvdb_size db = db_size db"
definition kvdb_waste :: "kvdb \<Rightarrow> nat" where "kvdb_waste db = db_waste db"

end
