(* ===== verification/Kvdb_Ref.thy ===== *)
theory Kvdb_Ref
  imports Kvdb
begin

section \<open>The store refines a map\<close>

text \<open>
  The abstract state of the store is a map from keys to values. The four mutations and the lookup
  act on it as their names say, with the return codes of the header file, and \<open>kvdb_size\<close> is
  the number of its keys.
\<close>

subsection \<open>Chains\<close>

inductive chain :: "bytes \<Rightarrow> nat \<Rightarrow> (nat \<times> bytes \<times> bytes) list \<Rightarrow> bool" where
  chain_end: "chain bs 0 []"
| chain_link: "off \<noteq> 0 \<Longrightarrow> record_at bs off = Some (prev, k, v) \<Longrightarrow> prev < off \<Longrightarrow> chain bs prev es \<Longrightarrow>
    chain bs off ((off, k, v) # es)"

inductive_cases chain_NilE: "chain bs off []"
inductive_cases chain_ConsE: "chain bs off (e # es)"

text \<open>The same, computed.\<close>

function records :: "bytes \<Rightarrow> nat \<Rightarrow> (nat \<times> bytes \<times> bytes) list" where
  "records bs off =
     (if off = 0 then []
      else (case record_at bs off of
        None \<Rightarrow> []
      | Some (prev, k, v) \<Rightarrow> (off, k, v) # (if prev < off then records bs prev else [])))"
  by pat_completeness auto
termination
  by (relation "measure snd") auto

declare records.simps [simp del]

lemma records_0 [simp]: "records bs 0 = []"
  by (simp add: records.simps [of bs 0])

lemma chain_records: "chain bs off es \<Longrightarrow> records bs off = es"
proof (induction rule: chain.induct)
  case (chain_link off bs prev k v es)
  then show ?case by (simp add: records.simps [of bs off])
qed simp

lemma chain_prefix: "chain bs off es \<Longrightarrow> chain (bs @ rest) off es"
proof (induction rule: chain.induct)
  case (chain_link off bs prev k v es)
  then show ?case using record_at_prefix by (metis chain.chain_link)
qed (rule chain_end)

lemma chain_positive: "chain bs off es \<Longrightarrow> (o', k, v) \<in> set es \<Longrightarrow> o' \<noteq> 0 \<and> o' \<le> off"
  by (induction rule: chain.induct) auto

definition entry :: "(nat \<times> bytes \<times> bytes) list \<Rightarrow> bytes \<Rightarrow> (nat \<times> bytes) option" where
  "entry es key = map_option (\<lambda>(off, k, v). (off, v)) (find (\<lambda>(off, k, v). k = key) es)"

lemma entry_simps [simp]:
  "entry [] key = None"
  "entry ((off, k, v) # es) key = (if k = key then Some (off, v) else entry es key)"
  by (simp_all add: entry_def)

lemma entry_positive: "chain bs off es \<Longrightarrow> entry es key = Some (o', v) \<Longrightarrow> o' \<noteq> 0"
  by (induction rule: chain.induct) (auto split: if_splits)

subsection \<open>Walking a chain\<close>

text \<open>The caller's buffer can take the number of bytes asked for.\<close>

definition buf_ok :: "bytes option \<Rightarrow> nat \<Rightarrow> bool" where
  "buf_ok buf n \<longleftrightarrow> (case buf of None \<Rightarrow> n = 0 | Some b \<Rightarrow> n \<le> length b)"

definition buf_holds :: "bytes option \<Rightarrow> bytes \<Rightarrow> bool" where
  "buf_holds buf bs \<longleftrightarrow> (case buf of None \<Rightarrow> True | Some b \<Rightarrow> take (length bs) b = bs)"

definition same_buf :: "bytes option \<Rightarrow> bytes option \<Rightarrow> bool" where
  "same_buf a b \<longleftrightarrow> map_option length a = map_option length b"

lemma buf_ok_fits: "buf_ok buf n \<Longrightarrow> fits_buffer buf (take n v)"
  by (auto simp: buf_ok_def fits_buffer_def split: option.splits)

lemma buf_ok_vlen: "buf_ok buf n \<Longrightarrow> n = 0 \<or> buf \<noteq> None"
  by (auto simp: buf_ok_def)

lemma put_bytes_same: "buf_ok buf n \<Longrightarrow> same_buf (put_bytes buf (take n v)) buf"
  by (cases buf) (auto simp: buf_ok_def same_buf_def put_bytes_def)

lemma put_bytes_holds: "buf_ok buf n \<Longrightarrow> buf_holds (put_bytes buf (take n v)) (take n v)"
  by (cases buf) (auto simp: buf_ok_def buf_holds_def put_bytes_def splice_def min_def)

lemma put_bytes_Nil [simp]: "put_bytes buf [] = buf"
  by (cases buf) (simp_all add: put_bytes_def splice_def)

lemma buf_ok_same: "same_buf a b \<Longrightarrow> buf_ok a n = buf_ok b n"
  by (cases a; cases b) (auto simp: same_buf_def buf_ok_def)

lemma buf_ok_0: "buf_ok buf 0"
  by (simp add: buf_ok_def split: option.split)

text \<open>The result of a chain lookup: the newest record with the key, or offset 0.\<close>

definition walk_result :: "bytes \<Rightarrow> bytes option \<Rightarrow> nat \<Rightarrow> (nat \<times> bytes \<times> bytes) list \<Rightarrow>
    (int \<times> (bytes option \<times> nat) \<times> nat \<times> kvraw) \<Rightarrow> bool" where
  "walk_result key buf n es res =
     (case res of (rc, (buf', n'), off, kv) \<Rightarrow>
        rc = 0 \<and> same_buf buf' buf \<and>
        (case entry es key of
           None \<Rightarrow> off = 0 \<and> n' = n
         | Some (o', v) \<Rightarrow> off = o' \<and> n' = length v \<and> buf_holds buf' (take n v)))"

definition same_kv :: "kvraw \<Rightarrow> kvraw \<Rightarrow> bool" where
  "same_kv kv kv' \<longleftrightarrow>
     kv_ready kv' \<and> kv_bytes kv' = kv_bytes kv \<and> kv_capacity kv' = kv_capacity kv \<and> ksize kv' = ksize kv"

lemma same_buf_trans: "same_buf a b \<Longrightarrow> same_buf b c \<Longrightarrow> same_buf a c"
  by (simp add: same_buf_def)

lemma walk_result_skip:
  assumes "walk_result key buf1 n es res" and "k \<noteq> key" and "same_buf buf1 buf"
  shows "walk_result key buf n ((off, k, v) # es) res"
  using assms same_buf_trans [OF _ assms(3)] by (auto simp: walk_result_def split: prod.splits)

lemma chain_loop_ok:
  assumes "chain bs off es" and "kv_ready kv" and "kv_bytes kv = bs" and "buf_ok buf n" and "\<And>m. mok m"
  shows "\<exists>buf' n' off' kv'. chain_loop mok kv key buf n off off = Some (Inr (0, (buf', n'), off', kv')) \<and>
    walk_result key buf n es (0, (buf', n'), off', kv') \<and> same_kv kv kv'"
  using assms(1-4)
proof (induction arbitrary: kv buf rule: chain.induct)
  case (chain_end bs)
  then show ?case by (subst chain_loop.simps) (simp add: walk_result_def same_kv_def same_buf_def)
next
  case (chain_link off bs prev k v es)
  note r = chain_link.prems(1) and b = chain_link.prems(3)
  have rec: "record_at (kv_bytes kv) off = Some (prev, k, v)" using chain_link.hyps(2) chain_link.prems(2) by simp
  let ?buf1 = "put_bytes buf (take n v)"
  obtain kv1 where kv1: "kvraw_lookup kv (min (length key) 256) buf n off =
      Inr (0, (take (min (length key) 256) k, length k), (?buf1, length v), prev, kv1)"
    "kv_ready kv1" "kv_bytes kv1 = kv_bytes kv" "kv_capacity kv1 = kv_capacity kv" "ksize kv1 = ksize kv"
    using kvraw_lookup_ok [OF r rec chain_link.hyps(1) buf_ok_vlen [OF b] buf_ok_fits [OF b]] .
  have sb: "same_buf ?buf1 buf" and bh: "buf_holds ?buf1 (take n v)" and b1: "buf_ok ?buf1 n"
    using put_bytes_same [OF b] put_bytes_holds [OF b] b buf_ok_same [of ?buf1 buf n] by blast+
  have next1: "?case" if "k \<noteq> key" "chain_loop mok kv key buf n off off = chain_loop mok kv2 key ?buf1 n prev prev"
    "kv_ready kv2" "kv_bytes kv2 = kv_bytes kv" "kv_capacity kv2 = kv_capacity kv" "ksize kv2 = ksize kv" for kv2
  proof -
    have "kv_bytes kv2 = bs" using that(4) chain_link.prems(2) by simp
    from chain_link.IH [OF that(3) this b1] obtain buf' n' off' kv' where
      "chain_loop mok kv2 key ?buf1 n prev prev = Some (Inr (0, (buf', n'), off', kv'))"
      "walk_result key ?buf1 n es (0, (buf', n'), off', kv')" "same_kv kv2 kv'" by blast
    then show ?thesis
      using walk_result_skip [OF _ that(1) sb] that(2,4-6) by (auto simp: same_kv_def)
  qed
  let ?far = "length k \<noteq> length key \<or> take (min (length key) 8) (take (min (length key) 256) k) \<noteq> take (min (length key) 8) key"
  show ?case
  proof (cases ?far)
    case True
    have "min (min (length key) 8) (min (length key) 256) = min (length key) 8" by simp
    with True have "k \<noteq> key" by auto
    moreover have "chain_loop mok kv key buf n off off = chain_loop mok kv1 key ?buf1 n prev prev"
      using True kv1(1) chain_link.hyps(1) by (subst chain_loop.simps) simp
    ultimately show ?thesis using next1 kv1 by blast
  next
    case near: False
    show ?thesis
    proof (cases "8 < length k")
      case long: True
      have rec1: "record_at (kv_bytes kv1) off = Some (prev, k, v)" using rec kv1(3) by simp
      have "fits_buffer ?buf1 (take 0 v)" using buf_ok_fits [OF buf_ok_0] .
      from kvraw_lookup_ok [OF kv1(2) rec1 chain_link.hyps(1) _ this, of "length k"]
      obtain kv2 where kv2: "kvraw_lookup kv1 (length k) ?buf1 0 off =
          Inr (0, (k, length k), (?buf1, length v), prev, kv2)"
        "kv_ready kv2" "kv_bytes kv2 = kv_bytes kv1" "kv_capacity kv2 = kv_capacity kv1" "ksize kv2 = ksize kv1"
        by auto
      have step: "chain_loop mok kv key buf n off off =
          (if take (length key) k = key then Some (Inr (0, (?buf1, length v), off, kv2))
           else chain_loop mok kv2 key ?buf1 n prev prev)"
        using near long kv1(1) kv2(1) chain_link.hyps(1) assms(5) by (subst chain_loop.simps) simp
      have eq: "take (length key) k = key \<longleftrightarrow> k = key" using near by auto
      show ?thesis
      proof (cases "k = key")
        case True
        then show ?thesis using step kv1 kv2 sb bh by (simp add: walk_result_def same_kv_def)
      next
        case False
        then show ?thesis using next1 [of kv2] step eq kv1 kv2 by simp
      qed
    next
      case short: False
      have eq: "take (length key) (take (min (length key) 256) k) = key \<longleftrightarrow> k = key"
        using near short by auto
      have step: "chain_loop mok kv key buf n off off =
          (if take (length key) (take (min (length key) 256) k) = key then Some (Inr (0, (?buf1, length v), off, kv1))
           else chain_loop mok kv1 key ?buf1 n prev prev)"
        using near short kv1(1) chain_link.hyps(1) by (subst chain_loop.simps) simp
      show ?thesis
      proof (cases "k = key")
        case True
        then show ?thesis using step eq kv1 sb bh by (simp add: walk_result_def same_kv_def)
      next
        case False
        then show ?thesis using next1 [of kv1] step eq kv1 by simp
      qed
    qed
  qed
qed

subsection \<open>The invariant of the store and its map\<close>

definition chains_ok :: "bytes \<Rightarrow> (64 word \<Rightarrow> nat option) \<Rightarrow> bool" where
  "chains_ok bs m \<longleftrightarrow>
     (\<forall>h off. m h = Some off \<longrightarrow>
        chain bs off (records bs off) \<and> (\<forall>(o', k, v) \<in> set (records bs off). hash_key k = h))"

definition key_map :: "bytes \<Rightarrow> (64 word \<Rightarrow> nat option) \<Rightarrow> bytes \<Rightarrow> bytes option" where
  "key_map bs m key =
     (case m (hash_key key) of
        None \<Rightarrow> None
      | Some off \<Rightarrow>
          (case entry (records bs off) key of None \<Rightarrow> None | Some (o', v) \<Rightarrow> if v = [] then None else Some v))"

definition db_map :: "kvdb \<Rightarrow> bytes \<Rightarrow> bytes option" where
  "db_map db = key_map (kv_bytes (db_raw db)) (imap (db_index db))"

definition db_ok :: "kvdb \<Rightarrow> bool" where
  "db_ok db \<longleftrightarrow>
     kv_ready (db_raw db) \<and> 0 < ksize (db_raw db) \<and> index_ok (db_index db) \<and>
     chains_ok (kv_bytes (db_raw db)) (imap (db_index db)) \<and>
     finite (dom (db_map db)) \<and> db_size db = card (dom (db_map db)) \<and>
     db_size db < ksize (db_raw db) \<and> db_waste db < ksize (db_raw db)"

lemma records_prefix: "chain bs off (records bs off) \<Longrightarrow> records (bs @ rest) off = records bs off"
  using chain_records chain_prefix by blast

text \<open>Making an empty cell for a hash changes no key.\<close>

lemma empty_cell:
  assumes "chains_ok bs m" and "m h = None \<or> m h = Some off" and "off = (case m h of None \<Rightarrow> 0 | Some v \<Rightarrow> v)"
  shows "chains_ok bs (m(h \<mapsto> off)) \<and> key_map bs (m(h \<mapsto> off)) = key_map bs m"
proof (cases "m h")
  case None
  then have "off = 0" using assms(3) by simp
  then show ?thesis using assms(1) None
    by (auto simp: chains_ok_def key_map_def fun_eq_iff intro: chain_end split: option.splits)
next
  case (Some v)
  then have "m(h \<mapsto> off) = m" using assms(2) by (auto simp: fun_eq_iff)
  then show ?thesis using assms(1) by simp
qed

text \<open>A record appended at the head of the chain of its key's hash sets that key and no other.\<close>

lemma new_record:
  assumes ok: "chains_ok bs m" and off: "off = (case m (hash_key key) of None \<Rightarrow> 0 | Some v \<Rightarrow> v)"
    and pos: "0 < length bs" "length bs < 2 ^ 64" and len: "length key < 2 ^ 16" "length data < 2 ^ 32"
    and below: "off < length bs"
  shows "chains_ok (bs @ record_bytes key data off) (m(hash_key key \<mapsto> length bs)) \<and>
    key_map (bs @ record_bytes key data off) (m(hash_key key \<mapsto> length bs)) =
      (key_map bs m)(key := if data = [] then None else Some data)"
proof -
  let ?h = "hash_key key" and ?bs = "bs @ record_bytes key data off" and ?n = "length bs"
  let ?es = "records bs off" and ?m = "m(hash_key key \<mapsto> length bs)"
  have c: "chain bs off ?es" and hk: "\<forall>(o', k, v) \<in> set ?es. hash_key k = ?h"
    using ok off by (auto simp: chains_ok_def chain_end split: option.splits)
  have rec: "record_at ?bs ?n = Some (off, key, data)" using record_at_new [of off key data bs] below pos(2) len by simp
  have "chain ?bs off ?es" using chain_prefix [OF c] .
  then have cn: "chain ?bs ?n ((?n, key, data) # ?es)" using chain_link [OF _ rec below] pos(1) by simp
  have rn: "records ?bs ?n = (?n, key, data) # ?es" using chain_records [OF cn] .
  have old: "records ?bs v = records bs v" "chain ?bs v (records bs v)" if "m h = Some v" for h v
    using ok that records_prefix chain_prefix by (auto simp: chains_ok_def)
  have "chains_ok ?bs ?m"
    unfolding chains_ok_def
  proof (intro allI impI conjI)
    fix h v assume "?m h = Some v"
    then show "chain ?bs v (records ?bs v)" "\<forall>(o', k, v) \<in> set (records ?bs v). hash_key k = h"
      using cn rn hk old [of h v] ok by (auto simp: chains_ok_def split: if_splits)
  qed
  moreover have "key_map ?bs ?m k = ((key_map bs m)(key := if data = [] then None else Some data)) k" for k
  proof (cases "hash_key k = ?h")
    case True
    then have "key_map bs m k = (case entry ?es k of None \<Rightarrow> None | Some (o', v) \<Rightarrow> if v = [] then None else Some v)"
      using off by (auto simp: key_map_def split: option.splits)
    then show ?thesis using True rn by (simp add: key_map_def)
  next
    case False
    then have "key_map ?bs ?m k = key_map bs m k" using old by (auto simp: key_map_def split: option.split)
    then show ?thesis using False by auto
  qed
  ultimately show ?thesis by auto
qed

subsection \<open>The specification\<close>

fun spec_op :: "mode \<Rightarrow> bytes \<Rightarrow> bytes \<Rightarrow> (bytes \<Rightarrow> bytes option) \<Rightarrow> int \<times> (bytes \<Rightarrow> bytes option)" where
  "spec_op Remove k v m = (if m k = None then (1, m) else (0, m(k := None)))"
| "spec_op Insert k v m = (if m k \<noteq> None then (1, m) else (0, m(k \<mapsto> v)))"
| "spec_op Update k v m = (0, m(k \<mapsto> v))"
| "spec_op Replace k v m = (if m k = None then (1, m) else (0, m(k \<mapsto> v)))"

text \<open>How many records an operation makes obsolete.\<close>

fun spec_waste :: "mode \<Rightarrow> bool \<Rightarrow> nat" where
  "spec_waste Insert present = 0"
| "spec_waste mode present = (if present then 1 else 0)"

text \<open>The condition under which an operation has the memory and the room on the device it needs.\<close>

definition op_fits :: "(nat \<Rightarrow> bool) \<Rightarrow> kvdb \<Rightarrow> bytes \<Rightarrow> bytes \<Rightarrow> bool" where
  "op_fits mok db key data \<longleftrightarrow>
     (\<forall>n. mok n) \<and> probes_fit (db_index db) (hash_key key) \<and> key_checked key \<and>
     length data \<le> KVDB_MAX_VAL_LEN \<and>
     ksize (db_raw db) + META_LEN + length key + length data \<le> kv_capacity (db_raw db)"

text \<open>The first part of \<open>mutate\<close>: the slot and the walk.\<close>

definition found_at :: "kvdb \<Rightarrow> bytes \<Rightarrow> (nat \<times> bytes) option" where
  "found_at db key =
     (case imap (db_index db) (hash_key key) of
        None \<Rightarrow> None | Some off \<Rightarrow> entry (records (kv_bytes (db_raw db)) off) key)"

lemma db_map_found:
  "db_map db key = (case found_at db key of None \<Rightarrow> None | Some (o', v) \<Rightarrow> if v = [] then None else Some v)"
  by (simp add: db_map_def key_map_def found_at_def split: option.split)

definition db_core :: "kvdb \<Rightarrow> bool" where
  "db_core db \<longleftrightarrow>
     kv_ready (db_raw db) \<and> 0 < ksize (db_raw db) \<and> index_ok (db_index db) \<and>
     chains_ok (kv_bytes (db_raw db)) (imap (db_index db))"

definition cell :: "kvdb \<Rightarrow> bytes \<Rightarrow> nat" where
  "cell db key = (case imap (db_index db) (hash_key key) of None \<Rightarrow> 0 | Some v \<Rightarrow> v)"

lemma cell_chain:
  assumes "db_core db"
  shows "chain (kv_bytes (db_raw db)) (cell db key) (records (kv_bytes (db_raw db)) (cell db key))"
    "entry (records (kv_bytes (db_raw db)) (cell db key)) key = found_at db key"
    "cell db key < ksize (db_raw db)"
proof -
  let ?bs = "kv_bytes (db_raw db)"
  show c: "chain ?bs (cell db key) (records ?bs (cell db key))"
    using assms by (auto simp: db_core_def chains_ok_def cell_def chain_end split: option.split)
  show "entry (records ?bs (cell db key)) key = found_at db key"
    by (simp add: cell_def found_at_def split: option.split)
  from c show "cell db key < ksize (db_raw db)"
    using assms by (cases rule: chain.cases)
      (auto simp: db_core_def kv_ready_def record_at_def META_LEN_def Let_def split: if_splits)
qed

lemma slot_ready:
  assumes core: "db_core db" and fits: "op_fits mok db key data"
  obtains r ix where "index_update mok (db_index db) key = Inr (Some r, ix)" "index_ok ix"
    "slot_off ix r = cell db key" "imap ix = (imap (db_index db))(hash_key key \<mapsto> cell db key)"
    "\<And>v. index_ok (set_off ix r v) \<and> imap (set_off ix r v) = (imap (db_index db))(hash_key key \<mapsto> v)"
proof -
  have i: "index_ok (db_index db)" and k: "key \<noteq> []" and f: "(\<forall>n. mok n) \<and> probes_fit (db_index db) (hash_key key)"
    using core fits by (auto simp: db_core_def op_fits_def key_checked_def)
  obtain r ix where u: "index_update mok (db_index db) key = Inr (Some r, ix)"
    using ix.make_total [OF i k f] by blast
  show ?thesis
    using that [OF u ix.make_ok [OF i k u]] ix.made_ref_reads [OF i k u] ix.make_some [OF i k u]
      ix.make_then_write [OF i k u] by (simp add: cell_def)
qed

text \<open>Appending a record through the slot.\<close>

lemma append_ref_ok:
  assumes core: "db_core db" and fits: "op_fits mok db key data"
    and kv: "same_kv (db_raw db) (db_raw db1)"
    and slot: "slot_off (db_index db1) r = cell db key"
      "\<And>v. index_ok (set_off (db_index db1) r v) \<and>
         imap (set_off (db_index db1) r v) = (imap (db_index db))(hash_key key \<mapsto> v)"
  obtains db2 where "append_ref db1 r key data = Inr (0, db2)" "db_core db2"
    "db_map db2 = (db_map db)(key := if data = [] then None else Some data)"
    "db_size db2 = db_size db1" "db_waste db2 = db_waste db1"
    "ksize (db_raw db2) = ksize (db_raw db) + META_LEN + length key + length data"
    "kv_capacity (db_raw db2) = kv_capacity (db_raw db)" "ksize (db_raw db2) < 2 ^ 64"
    "imap (db_index db2) = (imap (db_index db))(hash_key key \<mapsto> ksize (db_raw db))"
proof -
  let ?bs = "kv_bytes (db_raw db)"
  have key: "key \<noteq> []" "length key < 2 ^ 16" "length data < 2 ^ 32"
    using fits by (simp_all add: op_fits_def key_checked_def KVDB_MAX_KEY_LEN_def KVDB_MAX_VAL_LEN_def)
  have r: "kv_ready (db_raw db1)" "kv_bytes (db_raw db1) = ?bs" "ksize (db_raw db1) = ksize (db_raw db)"
    "kv_capacity (db_raw db1) = kv_capacity (db_raw db)"
    using kv by (simp_all add: same_kv_def)
  have sz: "ksize (db_raw db) = length ?bs" "0 < length ?bs" "length ?bs < 2 ^ 64"
    using core kv_ready_cap [of "db_raw db"] by (auto simp: db_core_def kv_ready_def)
  have room: "ksize (db_raw db1) + META_LEN + length key + length data \<le> kv_capacity (db_raw db1)"
    using fits r by (simp add: op_fits_def)
  obtain kv2 where kv2: "kvraw_append (db_raw db1) key data (cell db key) = Inr (0, ksize (db_raw db1), kv2)"
    "kv_ready kv2" "kv_bytes kv2 = ?bs @ record_bytes key data (cell db key)"
    "kv_capacity kv2 = kv_capacity (db_raw db1)"
    using kvraw_append_ok [OF r(1) key room, of "cell db key"] r(2) by auto
  let ?db2 = "db1\<lparr>db_raw := kv2, db_index := set_off (db_index db1) r (length ?bs)\<rparr>"
  have a: "append_ref db1 r key data = Inr (0, ?db2)"
    using kv2(1) slot(1) r(3) sz(1) by (simp add: append_ref_def)
  have c: "chains_ok ?bs (imap (db_index db))" using core by (simp add: db_core_def)
  have n: "chains_ok (kv_bytes kv2) ((imap (db_index db))(hash_key key \<mapsto> length ?bs))"
    "key_map (kv_bytes kv2) ((imap (db_index db))(hash_key key \<mapsto> length ?bs)) =
      (key_map ?bs (imap (db_index db)))(key := if data = [] then None else Some data)"
    using new_record [OF c, of "cell db key" key data] cell_chain(3) [OF core, of key] sz key(2,3) kv2(3)
    by (simp_all add: cell_def)
  have k2: "ksize kv2 = length ?bs + META_LEN + length key + length data"
    using kv2(2,3) by (simp add: kv_ready_def)
  show ?thesis
  proof (rule that [OF a])
    show "db_core ?db2" using kv2(2) n(1) slot(2) k2 sz by (simp add: db_core_def)
    show "db_map ?db2 = (db_map db)(key := if data = [] then None else Some data)"
      using n(2) slot(2) by (simp add: db_map_def)
    show "ksize (db_raw ?db2) < 2 ^ 64" using kv_ready_cap [OF kv2(2)] kv2(2) by (simp add: kv_ready_def)
  qed (use k2 kv2(4) r(4) sz(1) slot(2) in simp_all)
qed

text \<open>The walk from the slot.\<close>

lemma slot_walk:
  assumes core: "db_core db" and mem: "\<And>n. mok n" and b: "buf_ok buf n"
  obtains buf' n' off kv where "chain_lookup mok (db_raw db) key buf n (cell db key) = Some (Inr (0, (buf', n'), off, kv))"
    "same_kv (db_raw db) kv" "same_buf buf' buf"
    "off \<noteq> 0 \<and> n' \<noteq> 0 \<longleftrightarrow> db_map db key \<noteq> None"
    "\<And>v. db_map db key = Some v \<Longrightarrow> n' = length v \<and> buf_holds buf' (take n v)"
proof -
  have ready: "kv_ready (db_raw db)" using core by (simp add: db_core_def)
  obtain buf' n' off kv where w: "chain_loop mok (db_raw db) key buf n (cell db key) (cell db key) =
      Some (Inr (0, (buf', n'), off, kv))"
    "walk_result key buf n (records (kv_bytes (db_raw db)) (cell db key)) (0, (buf', n'), off, kv)"
    "same_kv (db_raw db) kv"
    using chain_loop_ok [where mok = mok and key = key, OF cell_chain(1) [OF core, of key] ready refl b mem] by blast
  have e: "entry (records (kv_bytes (db_raw db)) (cell db key)) key = found_at db key"
    using cell_chain(2) [OF core] .
  have p: "found_at db key = Some (o', v) \<Longrightarrow> o' \<noteq> 0" for o' v
    using entry_positive [OF cell_chain(1) [OF core], of key] e by simp
  show ?thesis
  proof (rule that)
    show "chain_lookup mok (db_raw db) key buf n (cell db key) = Some (Inr (0, (buf', n'), off, kv))"
      using w(1) by (simp add: chain_lookup_def)
    show "same_kv (db_raw db) kv" by (fact w(3))
    show "same_buf buf' buf" using w(2) by (simp add: walk_result_def)
    show "off \<noteq> 0 \<and> n' \<noteq> 0 \<longleftrightarrow> db_map db key \<noteq> None"
      using w(2) e p by (auto simp: walk_result_def db_map_found split: option.splits)
    show "n' = length v \<and> buf_holds buf' (take n v)" if "db_map db key = Some v" for v
      using w(2) e that by (auto simp: walk_result_def db_map_found split: option.splits if_splits)
  qed
qed

text \<open>The second part of \<open>mutate\<close>.\<close>

lemma card_dom_upd:
  "finite (dom m) \<Longrightarrow> card (dom (m(k \<mapsto> v))) = (if m k = None then card (dom m) + 1 else card (dom m))"
  by (auto simp: domIff insert_absorb)

lemma card_dom_del:
  "finite (dom m) \<Longrightarrow> m k \<noteq> None \<Longrightarrow> card (dom (m(k := None))) = card (dom m) - 1 \<and> 0 < card (dom m)"
  by (auto simp: domIff card_gt_0_iff)

lemma db_ok_core: "db_ok db \<Longrightarrow> db_core db"
  by (simp add: db_ok_def db_core_def)

definition stored :: "mode \<Rightarrow> bytes \<Rightarrow> bytes" where
  "stored mode data = (if mode = Remove then [] else data)"

text \<open>
  The state between the two parts: the slot \<open>r\<close> of the key is there, and nothing has changed yet. \<open>stored_ok\<close> is what storing does, with any
  counters: the code counts before or after, and not in every mode.
\<close>

definition slot_ready :: "kvdb \<Rightarrow> kvdb \<Rightarrow> nat \<Rightarrow> bytes \<Rightarrow> bool" where
  "slot_ready db db1 r key \<longleftrightarrow>
     same_kv (db_raw db) (db_raw db1) \<and> db_size db1 = db_size db \<and> db_waste db1 = db_waste db \<and>
     slot_off (db_index db1) r = cell db key \<and>
     (\<forall>v. index_ok (set_off (db_index db1) r v) \<and> imap (set_off (db_index db1) r v) = (imap (db_index db))(hash_key key \<mapsto> v)) \<and>
     index_ok (db_index db1) \<and> imap (db_index db1) = (imap (db_index db))(hash_key key \<mapsto> cell db key)"

lemma refused_ok:
  assumes ok: "db_ok db" and r: "slot_ready db db1 r key"
  shows "db_ok db1" and "db_map db1 = db_map db" and "db_waste db1 = db_waste db"
    and "ksize (db_raw db1) = ksize (db_raw db)" and "kv_capacity (db_raw db1) = kv_capacity (db_raw db)"
proof -
  have "chains_ok (kv_bytes (db_raw db)) ((imap (db_index db))(hash_key key \<mapsto> cell db key)) \<and>
      key_map (kv_bytes (db_raw db)) ((imap (db_index db))(hash_key key \<mapsto> cell db key)) = db_map db"
    using empty_cell [of "kv_bytes (db_raw db)" "imap (db_index db)" "hash_key key" "cell db key"] db_ok_core [OF ok]
    by (auto simp: db_core_def db_map_def cell_def split: option.split)
  then show "db_ok db1" and "db_map db1 = db_map db" and "db_waste db1 = db_waste db"
    and "ksize (db_raw db1) = ksize (db_raw db)" and "kv_capacity (db_raw db1) = kv_capacity (db_raw db)"
    using ok r by (auto simp: db_ok_def db_map_def same_kv_def slot_ready_def)
qed

lemma counters_fit: "db_ok db \<Longrightarrow> inc64 (db_size db) = db_size db + 1 \<and> inc64 (db_waste db) = db_waste db + 1"
  using kv_ready_cap [of "db_raw db"] inc64_small [of "db_size db" "ksize (db_raw db)"] inc64_small [of "db_waste db" "ksize (db_raw db)"]
  by (auto simp: db_ok_def db_core_def kv_ready_def)

lemma stored_ok:
  assumes ok: "db_ok db" and fits: "op_fits mok db key (stored mode data)" and ne: "mode = Remove \<or> data \<noteq> []"
    and r: "slot_ready db db1 r key"
  obtains db2 where "append_ref (db1\<lparr>db_size := x, db_waste := y\<rparr>) r key (stored mode data) = Inr (0, db2)"
    "db_map db2 = (db_map db)(key := if mode = Remove then None else Some data)" "db_size db2 = x" "db_waste db2 = y"
    "ksize (db_raw db2) = ksize (db_raw db) + META_LEN + length key + length (stored mode data)"
    "kv_capacity (db_raw db2) = kv_capacity (db_raw db)"
    "\<And>x y. x = card (dom (db_map db2)) \<Longrightarrow> y \<le> db_waste db + 1 \<Longrightarrow>
       db_ok (db2\<lparr>db_size := x, db_waste := y\<rparr>) \<and> db_map (db2\<lparr>db_size := x, db_waste := y\<rparr>) = db_map db2"
proof -
  have "same_kv (db_raw db) (db_raw (db1\<lparr>db_size := x, db_waste := y\<rparr>))" using r by (simp add: slot_ready_def)
  from append_ref_ok [OF db_ok_core [OF ok] fits this, of r] r obtain db2 where a:
    "append_ref (db1\<lparr>db_size := x, db_waste := y\<rparr>) r key (stored mode data) = Inr (0, db2)" "db_core db2"
    "db_map db2 = (db_map db)(key := if stored mode data = [] then None else Some (stored mode data))"
    "db_size db2 = x" "db_waste db2 = y"
    "ksize (db_raw db2) = ksize (db_raw db) + META_LEN + length key + length (stored mode data)"
    "kv_capacity (db_raw db2) = kv_capacity (db_raw db)" by (auto simp: slot_ready_def)
  have m: "db_map db2 = (db_map db)(key := if mode = Remove then None else Some data)" using a(3) ne by (auto simp: stored_def)
  have fin: "finite (dom (db_map db))" and sz: "card (dom (db_map db)) < ksize (db_raw db)" "db_waste db < ksize (db_raw db)"
    using ok by (simp_all add: db_ok_def)
  have "card (dom (db_map db2)) \<le> card (dom (db_map db)) + 1"
    unfolding m using fin card_dom_upd [OF fin, of key data] card_Diff1_le [of "dom (db_map db)" key] by auto
  then have big: "card (dom (db_map db2)) < ksize (db_raw db2)" "db_waste db + 1 < ksize (db_raw db2)"
    using sz a(6) by (simp_all add: META_LEN_def)
  have "finite (dom (db_map db2))" unfolding m using fin by auto
  then have "db_ok (db2\<lparr>db_size := x, db_waste := y\<rparr>) \<and> db_map (db2\<lparr>db_size := x, db_waste := y\<rparr>) = db_map db2"
    if "x = card (dom (db_map db2))" "y \<le> db_waste db + 1" for x y
    using that a(2) big by (simp add: db_ok_def db_core_def db_map_def)
  with that a m show thesis by blast
qed

lemma mutate_mode_ok:
  assumes ok: "db_ok db" and fits: "op_fits mok db key (stored mode data)" and ne: "mode = Remove \<or> data \<noteq> []"
    and r: "slot_ready db db1 r key"
  shows "\<exists>rc db'. mutate_mode mode (db_map db key \<noteq> None) db1 r key data = Inr (rc, db') \<and> db_ok db' \<and>
    (rc, db_map db') = spec_op mode key data (db_map db) \<and>
    db_waste db' = db_waste db + (if rc = 0 then spec_waste mode (db_map db key \<noteq> None) else 0) \<and>
    ksize (db_raw db') \<le> ksize (db_raw db) + META_LEN + length key + length (stored mode data) \<and>
    kv_capacity (db_raw db') = kv_capacity (db_raw db)"
proof -
  let ?p = "db_map db key \<noteq> None"
  have fin: "finite (dom (db_map db))" and size: "db_size db = card (dom (db_map db))" using ok by (simp_all add: db_ok_def)
  have cnt: "db_size db1 = db_size db" "db_waste db1 = db_waste db" using r by (simp_all add: slot_ready_def)
  have same: "db1\<lparr>db_size := db_size db, db_waste := db_waste db\<rparr> = db1" unfolding cnt [symmetric] by simp
  have whole: "db2\<lparr>db_size := x, db_waste := y\<rparr> = db2" if "db_size db2 = x" "db_waste db2 = y" for db2 x y using that by auto
  note inc = counters_fit [OF ok] and upd = card_dom_upd [OF fin, of key data] and del = card_dom_del [OF fin, of key]
  obtain db2 where a: "append_ref db1 r key (stored mode data) = Inr (0, db2)"
    "db_map db2 = (db_map db)(key := if mode = Remove then None else Some data)" "db_size db2 = db_size db" "db_waste db2 = db_waste db"
    "ksize (db_raw db2) = ksize (db_raw db) + META_LEN + length key + length (stored mode data)"
    "kv_capacity (db_raw db2) = kv_capacity (db_raw db)"
    "\<And>x y. x = card (dom (db_map db2)) \<Longrightarrow> y \<le> db_waste db + 1 \<Longrightarrow>
       db_ok (db2\<lparr>db_size := x, db_waste := y\<rparr>) \<and> db_map (db2\<lparr>db_size := x, db_waste := y\<rparr>) = db_map db2"
    using stored_ok [OF ok fits ne r, where x = "db_size db" and y = "db_waste db"] same by metis
  consider (refused) "mode = Remove \<or> mode = Replace" "\<not> ?p" | (present) "mode = Insert" ?p
    | (later) "mode = Remove \<or> mode = Replace" ?p | (insert) "mode = Insert" "\<not> ?p" | (update) "mode = Update"
    by (cases mode) auto
  then show ?thesis
  proof cases
    case later
    let ?db' = "db2\<lparr>db_size := if mode = Remove then db_size db - 1 else db_size db, db_waste := db_waste db + 1\<rparr>"
    have "mutate_mode mode ?p db1 r key data = Inr (0, ?db')"
      using later a(1,3,4) inc del size
      by (auto simp: count_after_def add_waste_def shrink_size_def dec64_def stored_def)
    moreover have "db_ok ?db' \<and> db_map ?db' = db_map db2" by (rule a(7)) (use later a(2) size del upd in auto)
    ultimately show ?thesis using later a(2,5,6) by auto
  next
    case insert
    let ?db' = "db2\<lparr>db_size := db_size db + 1, db_waste := db_waste db\<rparr>"
    have "mutate_mode mode ?p db1 r key data = Inr (0, ?db')"
      using insert a(1,3,4) inc by (simp add: count_after_def grow_size_def stored_def)
    moreover have "db_ok ?db' \<and> db_map ?db' = db_map db2" by (rule a(7)) (use insert a(2) size upd in auto)
    ultimately show ?thesis using insert a(2,5,6) by auto
  next
    case update
    let ?x = "if ?p then db_size db else db_size db + 1" and ?y = "if ?p then db_waste db + 1 else db_waste db"
    obtain db2 where b: "append_ref (db1\<lparr>db_size := ?x, db_waste := ?y\<rparr>) r key (stored mode data) = Inr (0, db2)"
      "db_map db2 = (db_map db)(key := if mode = Remove then None else Some data)" "db_size db2 = ?x" "db_waste db2 = ?y"
      "ksize (db_raw db2) = ksize (db_raw db) + META_LEN + length key + length (stored mode data)"
      "kv_capacity (db_raw db2) = kv_capacity (db_raw db)"
      "\<And>x y. x = card (dom (db_map db2)) \<Longrightarrow> y \<le> db_waste db + 1 \<Longrightarrow>
         db_ok (db2\<lparr>db_size := x, db_waste := y\<rparr>) \<and> db_map (db2\<lparr>db_size := x, db_waste := y\<rparr>) = db_map db2"
      using stored_ok [OF ok fits ne r, where x = ?x and y = ?y] by metis
    have "(if ?p then add_waste db1 else grow_size db1) = db1\<lparr>db_size := ?x, db_waste := ?y\<rparr>"
      using cnt inc by (simp add: add_waste_def grow_size_def)
    then have "mutate_mode mode ?p db1 r key data = Inr (0, db2)"
      using update b(1) by (simp add: count_after_def stored_def)
    moreover have "db_ok (db2\<lparr>db_size := ?x, db_waste := ?y\<rparr>)" using b(7) [of ?x ?y] update b(2) size upd by auto
    then have "db_ok db2" using whole [OF b(3,4)] by simp
    ultimately show ?thesis using update b(2,4,5,6) by auto
  qed (use refused_ok [OF ok r] in \<open>auto intro!: exI [of _ 1]\<close>)
qed

text \<open>What \<open>mutate\<close> does as a whole. \<open>done_op\<close> says that the state has moved as the specification does.\<close>

definition done_op :: "mode \<Rightarrow> bytes \<Rightarrow> bytes \<Rightarrow> kvdb \<Rightarrow> int \<Rightarrow> kvdb \<Rightarrow> bool" where
  "done_op mode key data db rc db' \<longleftrightarrow>
     db_ok db' \<and> (rc, db_map db') = spec_op mode key data (db_map db) \<and>
     db_waste db' = db_waste db + (if rc = 0 then spec_waste mode (db_map db key \<noteq> None) else 0) \<and>
     ksize (db_raw db') \<le> ksize (db_raw db) + META_LEN + length key + length (stored mode data) \<and>
     kv_capacity (db_raw db') = kv_capacity (db_raw db)"

lemma mutate_ok:
  fixes data
  assumes ok: "db_ok db" and fits: "op_fits mok db key (stored mode data)" and ne: "mode = Remove \<or> data \<noteq> []"
    and d: "data = (case (val, vlen) of (Some b, Some m) \<Rightarrow> take m b | _ \<Rightarrow> [])"
    and b: "mode = Remove \<longrightarrow> (case vlen of None \<Rightarrow> True | Some n \<Rightarrow> buf_ok val n)"
  shows "\<exists>rc val' vlen' db'. mutate mok db key val vlen mode = Some (Inr (rc, (val', vlen'), db')) \<and>
    done_op mode key data db rc db' \<and> (mode = Remove \<longrightarrow> same_buf val' val \<and> (vlen' = None) = (vlen = None)) \<and>
    (\<forall>v n. mode = Remove \<longrightarrow> db_map db key = Some v \<longrightarrow> vlen = Some n \<longrightarrow>
       vlen' = Some (length v) \<and> same_buf val' val \<and> buf_holds val' (take n v))"
proof -
  have c: "db_core db" using ok by (rule db_ok_core)
  have mem: "\<And>n. mok n" using fits by (simp add: op_fits_def)
  obtain r ix where ix: "index_update mok (db_index db) key = Inr (Some r, ix)" "index_ok ix"
    "slot_off ix r = cell db key" "imap ix = (imap (db_index db))(hash_key key \<mapsto> cell db key)"
    "\<And>v. index_ok (set_off ix r v) \<and> imap (set_off ix r v) = (imap (db_index db))(hash_key key \<mapsto> v)"
    using slot_ready [OF c fits] by blast
  define out where "out \<longleftrightarrow> mode = Remove \<and> vlen \<noteq> None"
  define buf where "buf = (if out then val else None)"
  define n where "n = (if out then the vlen else 0)"
  have bo: "buf_ok buf n"
    using b by (auto simp: out_def buf_def n_def buf_ok_0)
  obtain buf' n' off kv where w: "chain_lookup mok (db_raw db) key buf n (cell db key) =
      Some (Inr (0, (buf', n'), off, kv))" "same_kv (db_raw db) kv" "same_buf buf' buf"
    "off \<noteq> 0 \<and> n' \<noteq> 0 \<longleftrightarrow> db_map db key \<noteq> None"
    "\<And>v. db_map db key = Some v \<Longrightarrow> n' = length v \<and> buf_holds buf' (take n v)"
    using slot_walk [where mok = mok and key = key, OF c mem bo] by blast
  let ?db1 = "db\<lparr>db_index := ix, db_raw := kv\<rparr>"
  have kv1: "same_kv (db_raw db) (db_raw ?db1)" using w(2) by simp
  have mode_ok: "\<exists>rc db'. mutate_mode mode (db_map db key \<noteq> None) ?db1 r key data = Inr (rc, db') \<and>
      done_op mode key data db rc db'"
    unfolding done_op_def
    by (rule mutate_mode_ok [OF ok fits ne]) (use kv1 ix in \<open>simp add: slot_ready_def\<close>)
  obtain rc db' where m: "mutate_mode mode (db_map db key \<noteq> None) ?db1 r key data = Inr (rc, db')"
    "done_op mode key data db rc db'" using mode_ok by blast
  have d': "data = (case val of None \<Rightarrow> [] | Some b \<Rightarrow> case vlen of None \<Rightarrow> [] | Some m \<Rightarrow> take m b)"
    using d by simp
  have "mutate mok db key val vlen mode =
      Some (Inr (rc, (if out then buf' else val, if out \<and> rc = 0 then Some n' else vlen), db'))"
    unfolding mutate_def ix(1) lbind_simps split option.case Let_def out_def [symmetric] buf_def [symmetric]
      n_def [symmetric] ix(3) w(1) w(4) d' [symmetric] m(1) by simp
  moreover have "rc = 0" if "mode = Remove" "db_map db key = Some v" for v
    using m(2) that by (simp add: done_op_def)
  ultimately show ?thesis
    using m(2) w(3,5) by (auto simp: out_def buf_def n_def same_buf_def)
qed

text \<open>The operations.\<close>

lemma store_ok:
  assumes "db_ok db" and "op_fits mok db key val" and "val \<noteq> []" and "mode \<noteq> Remove"
  shows "\<exists>rc db'. store mok db key val mode = Some (Inr (rc, db')) \<and> done_op mode key val db rc db'"
proof -
  have "op_fits mok db key (stored mode val)" using assms(2,4) by (simp add: stored_def)
  from mutate_ok [OF assms(1) this, of "Some val" "Some (length val)"] assms(3,4)
  obtain rc out db' where "mutate mok db key (Some val) (Some (length val)) mode = Some (Inr (rc, out, db'))"
    "done_op mode key val db rc db'" by auto
  then show ?thesis using assms(2,3) by (auto simp: store_def op_fits_def)
qed

lemma remove_ok:
  assumes "db_ok db" and "op_fits mok db key []" and b: "case vlen of None \<Rightarrow> True | Some n \<Rightarrow> buf_ok val n \<and> val \<noteq> None"
  shows "\<exists>rc val' vlen' db'. kvdb_remove mok db key val vlen = Some (Inr (rc, (val', vlen'), db')) \<and>
    done_op Remove key [] db rc db' \<and> same_buf val' val \<and> (vlen' = None) = (vlen = None) \<and>
    (\<forall>v n. db_map db key = Some v \<longrightarrow> vlen = Some n \<longrightarrow>
       vlen' = Some (length v) \<and> same_buf val' val \<and> buf_holds val' (take n v))"
proof -
  let ?data = "case (val, vlen) of (Some b, Some m) \<Rightarrow> take m b | _ \<Rightarrow> []"
  have "op_fits mok db key (stored Remove ?data)" using assms(2) by (simp add: stored_def)
  from mutate_ok [OF assms(1) this _ refl] b
  obtain rc val' vlen' db' where "mutate mok db key val vlen Remove = Some (Inr (rc, (val', vlen'), db'))"
    "done_op Remove key ?data db rc db'" "same_buf val' val" "(vlen' = None) = (vlen = None)"
    "\<forall>v n. db_map db key = Some v \<longrightarrow> vlen = Some n \<longrightarrow>
       vlen' = Some (length v) \<and> same_buf val' val \<and> buf_holds val' (take n v)"
    by (auto split: option.splits)
  moreover have "kvdb_remove mok db key val vlen = mutate mok db key val vlen Remove"
    using assms(2) b by (auto simp: kvdb_remove_def op_fits_def split: option.splits)
  ultimately show ?thesis by (auto simp: done_op_def stored_def)
qed

lemma lookup_ok:
  assumes ok: "db_ok db" and mem: "\<And>n. mok n" and key: "key_checked key"
    and b: "case vlen of None \<Rightarrow> True | Some n \<Rightarrow> buf_ok val n"
  shows "\<exists>rc val' vlen' db'. kvdb_lookup mok db key val vlen = Some (Inr (rc, (val', vlen'), db')) \<and>
    db_ok db' \<and> db_map db' = db_map db \<and> db_size db' = db_size db \<and> db_waste db' = db_waste db \<and>
    db_index db' = db_index db \<and> same_kv (db_raw db) (db_raw db') \<and> same_buf val' val \<and>
    (case db_map db key of
       None \<Rightarrow> rc = 1 \<and> vlen' = vlen
     | Some v \<Rightarrow> rc = 0 \<and> vlen' = map_option (\<lambda>_. length v) vlen \<and>
         (vlen \<noteq> None \<longrightarrow> same_buf val' val \<and> buf_holds val' (take (the vlen) v)))"
proof -
  have c: "db_core db" using ok by (rule db_ok_core)
  have i: "index_ok (db_index db)" and k: "key \<noteq> []" using c key by (auto simp: db_core_def key_checked_def)
  have self: "same_kv (db_raw db) (db_raw db)" using c by (simp add: same_kv_def db_core_def)
  obtain ref where ref: "index_lookup (db_index db) key = Inr ref"
    "imap (db_index db) (hash_key key) = map_option (slot_off (db_index db)) ref"
    using ix.find_law [OF i k] by blast
  have chk: "\<not> (vlen \<noteq> None \<and> vlen \<noteq> Some 0 \<and> val = None)" using b by (auto simp: buf_ok_def split: option.splits)
  show ?thesis
  proof (cases "cell db key = 0")
    case True
    have "found_at db key = None" using cell_chain(2) [OF c, of key] True by simp
    then have "db_map db key = None" by (simp add: db_map_found)
    moreover have "kvdb_lookup mok db key val vlen = Some (Inr (1, (val, vlen), db))"
      using ref True key chk by (auto simp: kvdb_lookup_def cell_def split: option.splits)
    ultimately show ?thesis using ok self by (simp add: same_buf_def)
  next
    case False
    then obtain r where r: "ref = Some r" "slot_off (db_index db) r = cell db key"
      using ref by (auto simp: cell_def split: option.splits)
    define buf where "buf = (if vlen = None then None else val)"
    define n where "n = (case vlen of None \<Rightarrow> 0 | Some n \<Rightarrow> n)"
    have bo: "buf_ok buf n" using b by (auto simp: buf_def n_def buf_ok_0 split: option.splits)
    obtain buf' n' off kv where w: "chain_lookup mok (db_raw db) key buf n (cell db key) =
        Some (Inr (0, (buf', n'), off, kv))" "same_kv (db_raw db) kv" "same_buf buf' buf"
      "off \<noteq> 0 \<and> n' \<noteq> 0 \<longleftrightarrow> db_map db key \<noteq> None"
      "\<And>v. db_map db key = Some v \<Longrightarrow> n' = length v \<and> buf_holds buf' (take n v)"
      using slot_walk [where mok = mok and key = key, OF c mem bo] by blast
    let ?db' = "db\<lparr>db_raw := kv\<rparr>"
    have m: "db_map ?db' = db_map db" using w(2) by (simp add: db_map_def same_kv_def)
    then have "db_ok ?db'" using ok w(2) by (simp add: db_ok_def same_kv_def)
    moreover have "kvdb_lookup mok db key val vlen = Some (Inr (
        if db_map db key = None then 1 else 0,
        (if vlen = None then val else buf', if db_map db key = None then vlen else map_option (\<lambda>_. n') vlen), ?db'))"
      using key chk ref(1) r False w(1,4)
      by (auto simp: kvdb_lookup_def Let_def simp flip: buf_def n_def)
    moreover have "same_buf (if vlen = None then val else buf') val" using w(3) by (simp add: buf_def same_buf_def)
    ultimately show ?thesis using m w(2,3,5) by (auto simp: buf_def n_def split: option.split)
  qed
qed

subsection \<open>The interface of a key-value store\<close>

text \<open>
  A store keeps a map; \<open>put\<close> runs one of the mutations, \<open>get\<close> reads a key into a buffer. The laws
  are the refinement; from them follow the facts a user of the store reasons with.
\<close>

locale kv_store =
  fixes ok :: "'s \<Rightarrow> bool"
    and view :: "'s \<Rightarrow> bytes \<Rightarrow> bytes option"
    and put_fits :: "'s \<Rightarrow> bytes \<Rightarrow> bytes \<Rightarrow> bool"
    and get_fits :: "'s \<Rightarrow> bytes \<Rightarrow> bool"
    and put :: "mode \<Rightarrow> 's \<Rightarrow> bytes \<Rightarrow> bytes \<Rightarrow> (int \<times> 's) outcome option"
    and get :: "'s \<Rightarrow> bytes \<Rightarrow> bytes \<Rightarrow> (int \<times> (bytes option \<times> nat option) \<times> 's) outcome option"
  assumes put_law: "ok s \<Longrightarrow> put_fits s k v \<Longrightarrow> mode \<noteq> Remove \<Longrightarrow> v \<noteq> [] \<Longrightarrow>
      \<exists>rc s'. put mode s k v = Some (Inr (rc, s')) \<and> ok s' \<and> (rc, view s') = spec_op mode k v (view s)"
    and remove_law: "ok s \<Longrightarrow> put_fits s k [] \<Longrightarrow>
      \<exists>rc s'. put Remove s k [] = Some (Inr (rc, s')) \<and> ok s' \<and> (rc, view s') = spec_op Remove k [] (view s)"
    and get_law: "ok s \<Longrightarrow> get_fits s k \<Longrightarrow> \<exists>rc buf' n' s'. get s k b = Some (Inr (rc, (buf', n'), s')) \<and> ok s' \<and>
        view s' = view s \<and>
        (case view s k of
           None \<Rightarrow> rc = 1
         | Some v \<Rightarrow> rc = 0 \<and> n' = Some (length v) \<and>
             (\<exists>b'. buf' = Some b' \<and> length b' = length b \<and> take (min (length b) (length v)) b' = take (length b) v))"
    and fits_after: "put mode s k v = Some (Inr (rc, s')) \<Longrightarrow> put_fits s k v \<Longrightarrow> get_fits s' j = get_fits s j"
begin

text \<open>An updated key reads back as the new value, any other key as before.\<close>

lemma update_then_get:
  assumes "ok s" and "put_fits s k v" and "v \<noteq> []" and "get_fits s k" and "length v \<le> length b"
  obtains s' b' s'' where "put Update s k v = Some (Inr (0, s'))"
    "get s' k b = Some (Inr (0, (Some b', Some (length v)), s''))" "take (length v) b' = v"
proof -
  obtain rc s' where p: "put Update s k v = Some (Inr (rc, s'))" "ok s'"
    "(rc, view s') = spec_op Update k v (view s)"
    using put_law [OF assms(1,2), of Update] assms(3) by auto
  then have "get_fits s' k" "view s' k = Some v" "rc = 0" using fits_after assms(2,4) by auto
  then show ?thesis using get_law [OF p(2), of k b] p(1) that assms(5) by auto
qed

lemma update_frame:
  assumes "ok s" and "put_fits s k v" and "v \<noteq> []" and "j \<noteq> k"
  obtains s' where "put Update s k v = Some (Inr (0, s'))" "view s' j = view s j"
  using put_law [OF assms(1,2), of Update] assms(3,4) by auto

lemma removed_is_gone:
  assumes "ok s" and "put_fits s k []" and "view s k \<noteq> None" and "get_fits s k"
  obtains s' b' n s'' where "put Remove s k [] = Some (Inr (0, s'))" "get s' k b = Some (Inr (1, (b', n), s''))"
proof -
  obtain rc s' where p: "put Remove s k [] = Some (Inr (rc, s'))" "ok s'"
    "(rc, view s') = spec_op Remove k [] (view s)"
    using remove_law [OF assms(1,2)] by auto
  then have "get_fits s' k" "view s' k = None" "rc = 0" using fits_after assms(2,3,4) by auto
  then show ?thesis using get_law [OF p(2), of k b] p(1) that by auto
qed

end

text \<open>The store's operations in that shape.\<close>

definition put_op :: "(nat \<Rightarrow> bool) \<Rightarrow> mode \<Rightarrow> kvdb \<Rightarrow> bytes \<Rightarrow> bytes \<Rightarrow> (int \<times> kvdb) outcome option" where
  "put_op mok mode db key val =
     (case mode of
        Remove \<Rightarrow> lbind (kvdb_remove mok db key None None) (\<lambda>(rc, _, db'). Some (Inr (rc, db')))
      | Insert \<Rightarrow> kvdb_insert mok db key val
      | Update \<Rightarrow> kvdb_update mok db key val
      | Replace \<Rightarrow> kvdb_replace mok db key val)"

definition get_op :: "(nat \<Rightarrow> bool) \<Rightarrow> kvdb \<Rightarrow> bytes \<Rightarrow> bytes \<Rightarrow>
    (int \<times> (bytes option \<times> nat option) \<times> kvdb) outcome option" where
  "get_op mok db key buf = kvdb_lookup mok db key (Some buf) (Some (length buf))"

lemma put_op_ok:
  assumes "db_ok db" and "op_fits mok db key val" and "val \<noteq> []" and "mode \<noteq> Remove"
  shows "\<exists>rc db'. put_op mok mode db key val = Some (Inr (rc, db')) \<and> done_op mode key val db rc db'"
  using store_ok [OF assms] assms(4)
  by (cases mode) (simp_all add: put_op_def kvdb_insert_def kvdb_update_def kvdb_replace_def)

lemma remove_op_ok:
  assumes "db_ok db" and "op_fits mok db key []"
  shows "\<exists>rc db'. put_op mok Remove db key [] = Some (Inr (rc, db')) \<and> done_op Remove key [] db rc db'"
  using remove_ok [OF assms, of None None] by (auto simp: put_op_def)

lemma lookup_buf_ok:
  assumes "db_ok db" and "\<And>m. mok m" and "key_checked key" and "n \<le> length buf"
  shows "\<exists>rc buf' n' db'. kvdb_lookup mok db key (Some buf) (Some n) = Some (Inr (rc, (buf', n'), db')) \<and>
    db_ok db' \<and> db_map db' = db_map db \<and> db_size db' = db_size db \<and> db_waste db' = db_waste db \<and>
    (case db_map db key of
       None \<Rightarrow> rc = 1 \<and> n' = Some n
     | Some v \<Rightarrow> rc = 0 \<and> n' = Some (length v) \<and>
         (\<exists>b. buf' = Some b \<and> length b = length buf \<and> take (min n (length v)) b = take n v))"
proof -
  have "case Some n of None \<Rightarrow> True | Some n \<Rightarrow> buf_ok (Some buf) n" using assms(4) by (simp add: buf_ok_def)
  from lookup_ok [where mok = mok, OF assms(1-3) this] obtain rc val' vlen' db' where
    l: "kvdb_lookup mok db key (Some buf) (Some n) = Some (Inr (rc, (val', vlen'), db'))"
    "db_ok db'" "db_map db' = db_map db" "db_size db' = db_size db" "db_waste db' = db_waste db"
    and r: "case db_map db key of
       None \<Rightarrow> rc = 1 \<and> vlen' = Some n
     | Some v \<Rightarrow> rc = 0 \<and> vlen' = map_option (\<lambda>_. length v) (Some n) \<and>
         (Some n \<noteq> None \<longrightarrow> same_buf val' (Some buf) \<and> buf_holds val' (take (the (Some n)) v))"
    by blast
  show ?thesis
  proof (cases "db_map db key")
    case None
    then show ?thesis using l r by simp
  next
    case (Some v)
    then obtain b where "val' = Some b" using r by (auto simp: same_buf_def)
    then show ?thesis using l r Some by (simp add: same_buf_def buf_holds_def min.commute)
  qed
qed

interpretation kv: kv_store db_ok db_map "\<lambda>db key data. op_fits mok db key data"
  "\<lambda>db key. (\<forall>n. mok n) \<and> key_checked key" "put_op mok" "get_op mok"
  for mok
proof unfold_locales
  fix s :: kvdb and k v :: bytes and md :: mode
  assume "db_ok s" "op_fits mok s k v" "md \<noteq> Remove" "v \<noteq> []"
  then show "\<exists>rc s'. put_op mok md s k v = Some (Inr (rc, s')) \<and> db_ok s' \<and> (rc, db_map s') = spec_op md k v (db_map s)"
    using put_op_ok unfolding done_op_def by blast
next
  fix s :: kvdb and k :: bytes
  assume "db_ok s" "op_fits mok s k []"
  then show "\<exists>rc s'. put_op mok Remove s k [] = Some (Inr (rc, s')) \<and> db_ok s' \<and>
      (rc, db_map s') = spec_op Remove k [] (db_map s)"
    using remove_op_ok unfolding done_op_def by blast
next
  fix s :: kvdb and k b :: bytes
  assume "db_ok s" "(\<forall>n. mok n) \<and> key_checked k"
  then show "\<exists>rc buf' n' s'. get_op mok s k b = Some (Inr (rc, (buf', n'), s')) \<and> db_ok s' \<and> db_map s' = db_map s \<and>
      (case db_map s k of None \<Rightarrow> rc = 1
       | Some v \<Rightarrow> rc = 0 \<and> n' = Some (length v) \<and>
           (\<exists>b'. buf' = Some b' \<and> length b' = length b \<and> take (min (length b) (length v)) b' = take (length b) v))"
    using lookup_buf_ok [of s mok k "length b" b] by (cases "db_map s k") (auto simp: get_op_def)
qed simp

subsection \<open>Properties\<close>

text \<open>
  C1: with memory and room on the device, \<open>kvdb_insert\<close>, \<open>kvdb_update\<close> and \<open>kvdb_replace\<close> end, return the
  code and make the change to the map that their specification says (insert refuses a present key,
  replace an absent one), keep the invariant, and count the overwritten record as waste.
\<close>

theorem kvdb_store_refines:
  assumes "db_ok db" and "op_fits mok db key val" and "val \<noteq> []"
  shows "(\<exists>rc db'. kvdb_insert mok db key val = Some (Inr (rc, db')) \<and> done_op Insert key val db rc db') \<and>
    (\<exists>rc db'. kvdb_update mok db key val = Some (Inr (rc, db')) \<and> done_op Update key val db rc db') \<and>
    (\<exists>rc db'. kvdb_replace mok db key val = Some (Inr (rc, db')) \<and> done_op Replace key val db rc db')"
  using store_ok [OF assms] by (simp add: kvdb_insert_def kvdb_update_def kvdb_replace_def)

text \<open>
  C16: \<open>kvdb_remove\<close> ends, refuses an absent key with +1, and otherwise takes the key out of the map, counts
  one waste, and hands the removed value (cut to the caller's buffer) and its full length back.
\<close>

theorem kvdb_remove_refines:
  assumes "db_ok db" and "op_fits mok db key []" and "n \<le> length buf"
  shows "\<exists>rc buf' n' db'. kvdb_remove mok db key (Some buf) (Some n) = Some (Inr (rc, (Some buf', Some n'), db')) \<and>
    done_op Remove key [] db rc db' \<and> length buf' = length buf \<and>
    (\<forall>v. db_map db key = Some v \<longrightarrow> n' = length v \<and> take (min n (length v)) buf' = take n v)"
proof -
  have "case Some n of None \<Rightarrow> True | Some n \<Rightarrow> buf_ok (Some buf) n \<and> Some buf \<noteq> None"
    using assms(3) by (simp add: buf_ok_def)
  from remove_ok [OF assms(1,2) this] obtain rc val' vlen' db' where
    m: "kvdb_remove mok db key (Some buf) (Some n) = Some (Inr (rc, (val', vlen'), db'))"
    "done_op Remove key [] db rc db'" "same_buf val' (Some buf)" "(vlen' = None) = (Some n = None)"
    "\<forall>v n'. db_map db key = Some v \<longrightarrow> Some n = Some n' \<longrightarrow>
       vlen' = Some (length v) \<and> same_buf val' (Some buf) \<and> buf_holds val' (take n' v)"
    by blast
  then obtain buf' n' where "val' = Some buf'" "vlen' = Some n'" by (auto simp: same_buf_def)
  then show ?thesis using m by (auto simp: same_buf_def buf_holds_def min.commute)
qed

text \<open>
  C13: \<open>kvdb_lookup\<close> ends (the chain is finite), returns +1 exactly for the keys that are not in the map, and
  otherwise the stored value, cut to the caller's buffer, with its full length; nothing is changed.
\<close>

theorem kvdb_lookup_refines:
  assumes "db_ok db" and "\<And>m. mok m" and "key_checked key" and "n \<le> length buf"
  shows "\<exists>rc buf' n' db'. kvdb_lookup mok db key (Some buf) (Some n) = Some (Inr (rc, (buf', n'), db')) \<and>
    db_ok db' \<and> db_map db' = db_map db \<and> kvdb_size db' = kvdb_size db \<and> kvdb_waste db' = kvdb_waste db \<and>
    (case db_map db key of
       None \<Rightarrow> rc = 1 \<and> n' = Some n
     | Some v \<Rightarrow> rc = 0 \<and> n' = Some (length v) \<and>
         (\<exists>b. buf' = Some b \<and> length b = length buf \<and> take (min n (length v)) b = take n v))"
  using lookup_buf_ok [of db mok, OF assms] by (simp add: kvdb_size_def kvdb_waste_def)

text \<open>
  \<open>kvdb_size\<close> is the number of keys in the map, in every state of the invariant.
\<close>

theorem kvdb_size_counts_keys:
  assumes "db_ok db"
  shows "finite {key. db_map db key \<noteq> None} \<and> kvdb_size db = card {key. db_map db key \<noteq> None}"
  using assms by (simp add: db_ok_def kvdb_size_def dom_def)

lemma db_open_ok:
  assumes "kvraw_open pathname True dev pth junk sch = Inr (Some kv)" and "kv_ready kv" and "0 < ksize kv"
    and "pathname \<noteq> []"
  shows "\<exists>db. kvdb_open pathname True True True dev pth junk sch = Inr (Some db) \<and> db_ok db \<and>
    db_map db = (\<lambda>_. None) \<and> db_raw db = kv \<and> db_index db = index_open \<and> db_waste db = 0"
  using assms
  by (auto simp: kvdb_open_def db_ok_def db_map_def key_map_def chains_ok_def index_ok_open fun_eq_iff dom_def)

text \<open>
  A store opened on a sound device with room for the first record is empty and satisfies the invariant.
\<close>

theorem kvdb_open_empty:
  assumes "healthy d" and "3 < dblock d" and "18 \<le> dsize d" and "length junk = dblock d"
    and "\<forall>t. even (sch t) \<and> 2 \<le> sch t" and "pathname \<noteq> []"
  shows "\<exists>db. kvdb_open pathname True True True (Some d) True junk sch = Inr (Some db) \<and> db_ok db \<and>
    db_map db = (\<lambda>_. None) \<and> kvdb_size db = 0 \<and> kvdb_waste db = 0"
proof -
  obtain kv where kv: "kvraw_open pathname True (Some d) True junk sch = Inr (Some kv)" "kv_ready kv"
    "kv_bytes kv = record_bytes [0] [0] 0"
    using kvraw_open_ok [OF assms] by blast
  then have "0 < ksize kv" by (simp add: kv_ready_def META_LEN_def)
  from db_open_ok [OF kv(1,2) this assms(6)] show ?thesis
    by (auto simp: kvdb_size_def kvdb_waste_def db_ok_def)
qed

theorem kvdb_open_empty_witness:
  "\<exists>db. kvdb_open ''disk'' True True True (Some small_disk) True (replicate 8 0) (\<lambda>_. 2) = Inr (Some db) \<and>
     db_ok db \<and> kvdb_size db = 0"
  using kvdb_open_empty [of small_disk "replicate 8 0" "\<lambda>_. 2" "''disk''"]
  by (auto simp: small_disk_def healthy_def)

text \<open>A store for the witnesses.\<close>

lemma small_store:
  "\<exists>db. kvdb_open ''disk'' True True True (Some small_disk) True (replicate 8 0) (\<lambda>_. 2) = Inr (Some db) \<and>
     db_ok db \<and> db_map db = (\<lambda>_. None) \<and> op_fits (\<lambda>_. True) db [1] [7, 8] \<and> op_fits (\<lambda>_. True) db [1] []"
proof -
  obtain kv where kv: "kvraw_open ''disk'' True (Some small_disk) True (replicate 8 0) (\<lambda>_. 2) = Inr (Some kv)"
    "kv_ready kv" "kv_capacity kv = 64" "ksize kv = 18"
    using small_open by blast
  then obtain db where "kvdb_open ''disk'' True True True (Some small_disk) True (replicate 8 0) (\<lambda>_. 2) = Inr (Some db)"
    "db_ok db" "db_map db = (\<lambda>_. None)" "db_raw db = kv" "db_index db = index_open"
    using db_open_ok by force
  then show ?thesis
    using kv probes_fit_one
    by (simp add: op_fits_def key_checked_def KVDB_MAX_KEY_LEN_def KVDB_MAX_VAL_LEN_def META_LEN_def)
qed

theorem kvdb_store_refines_witness:
  "\<exists>db db'. kvdb_open ''disk'' True True True (Some small_disk) True (replicate 8 0) (\<lambda>_. 2) = Inr (Some db) \<and>
     kvdb_insert (\<lambda>_. True) db [1] [7, 8] = Some (Inr (0, db')) \<and> db_map db' = [[1] \<mapsto> [7, 8]]"
proof -
  obtain db where db: "kvdb_open ''disk'' True True True (Some small_disk) True (replicate 8 0) (\<lambda>_. 2) = Inr (Some db)"
    "db_ok db" "db_map db = (\<lambda>_. None)" "op_fits (\<lambda>_. True) db [1] [7, 8]"
    using small_store by blast
  from kvdb_store_refines [OF db(2,4)] db(1,3) show ?thesis by (auto simp: done_op_def)
qed

theorem kvdb_remove_refines_witness:
  "\<exists>db db' b n. kvdb_open ''disk'' True True True (Some small_disk) True (replicate 8 0) (\<lambda>_. 2) = Inr (Some db) \<and>
     kvdb_remove (\<lambda>_. True) db [1] (Some [0, 0]) (Some 2) = Some (Inr (1, (Some b, Some n), db'))"
proof -
  obtain db where db: "kvdb_open ''disk'' True True True (Some small_disk) True (replicate 8 0) (\<lambda>_. 2) = Inr (Some db)"
    "db_ok db" "db_map db = (\<lambda>_. None)" "op_fits (\<lambda>_. True) db [1] []"
    using small_store by blast
  from kvdb_remove_refines [OF db(2,4), of 2 "[0, 0]"] db(1,3) show ?thesis by (auto simp: done_op_def)
qed

lemma stored_one:
  "\<exists>db. db_ok db \<and> db_map db = [[1] \<mapsto> [7, 8]]"
proof -
  obtain db where db: "db_ok db" "db_map db = (\<lambda>_. None)" "op_fits (\<lambda>_. True) db [1] [7, 8]"
    using small_store by blast
  from store_ok [OF db(1,3), of Update] db(2) show ?thesis by (auto simp: done_op_def)
qed

theorem kvdb_lookup_refines_witness:
  "\<exists>db db' b. db_map db = [[1] \<mapsto> [7, 8]] \<and>
     kvdb_lookup (\<lambda>_. True) db [1] (Some [0, 0, 0]) (Some 3) = Some (Inr (0, (Some b, Some 2), db')) \<and> take 2 b = [7, 8]"
proof -
  obtain db where db: "db_ok db" "db_map db = [[1] \<mapsto> [7, 8]]" using stored_one by blast
  from kvdb_lookup_refines [OF db(1), of "\<lambda>_. True" "[1]" 3 "[0, 0, 0]"] db(2) show ?thesis
    by (auto simp: key_checked_def KVDB_MAX_KEY_LEN_def numeral_2_eq_2 numeral_3_eq_3)
qed

theorem kvdb_size_counts_keys_witness:
  "\<exists>db. db_map db = [[1] \<mapsto> [7, 8]] \<and> kvdb_size db = 1"
proof -
  obtain db where db: "db_ok db" "db_map db = [[1] \<mapsto> [7, 8]]" using stored_one by blast
  then have "{key. db_map db key \<noteq> None} = {[1]}" by auto
  then show ?thesis using kvdb_size_counts_keys [OF db(1)] db(2) by auto
qed

text \<open>
  After \<open>kvdb_update\<close> of a key, \<open>kvdb_lookup\<close> with a large enough buffer returns the new value.
\<close>

theorem kvdb_update_then_lookup:
  assumes "db_ok db" and "op_fits mok db key val" and "val \<noteq> []" and "length val \<le> length buf"
  shows "\<exists>db' buf' db''. kvdb_update mok db key val = Some (Inr (0, db')) \<and>
    kvdb_lookup mok db' key (Some buf) (Some (length buf)) = Some (Inr (0, (Some buf', Some (length val)), db'')) \<and>
    take (length val) buf' = val"
proof -
  have "(\<forall>n. mok n) \<and> key_checked key" using assms(2) by (simp add: op_fits_def)
  from kv.update_then_get [of db mok key val, OF assms(1-3) this assms(4)] obtain db' b db'' where
    "put_op mok Update db key val = Some (Inr (0, db'))"
    "get_op mok db' key buf = Some (Inr (0, (Some b, Some (length val)), db''))" "take (length val) b = val" .
  then show ?thesis by (simp add: put_op_def get_op_def)
qed

theorem kvdb_update_then_lookup_witness:
  "\<exists>db db' b db''. kvdb_open ''disk'' True True True (Some small_disk) True (replicate 8 0) (\<lambda>_. 2) = Inr (Some db) \<and>
     kvdb_update (\<lambda>_. True) db [1] [7, 8] = Some (Inr (0, db')) \<and>
     kvdb_lookup (\<lambda>_. True) db' [1] (Some [0, 0, 0]) (Some 3) = Some (Inr (0, (Some b, Some 2), db'')) \<and>
     take 2 b = [7, 8]"
proof -
  obtain db where db: "kvdb_open ''disk'' True True True (Some small_disk) True (replicate 8 0) (\<lambda>_. 2) = Inr (Some db)"
    "db_ok db" "op_fits (\<lambda>_. True) db [1] [7, 8]"
    using small_store by blast
  from kvdb_update_then_lookup [OF db(2,3), of "[0, 0, 0]"] db(1) show ?thesis
    by (auto simp: numeral_2_eq_2 numeral_3_eq_3)
qed

text \<open>
  \<open>kvdb_remove\<close> stops at an assert when it is asked for no value bytes (\<open>*val_len\<close> is 0 and \<open>val\<close> is
  null), where \<open>kvdb_lookup\<close> accepts the same arguments.
\<close>

theorem kvdb_remove_assert_inverted:
  "key_checked key \<Longrightarrow> kvdb_remove mok db key None (Some 0) = Some (Inl Assert_failed) \<and>
   kvdb_lookup mok (db\<lparr>db_index := index_open\<rparr>) key None (Some 0) = Some (Inr (1, (None, Some 0), db\<lparr>db_index := index_open\<rparr>))"
  by (simp add: kvdb_remove_def kvdb_lookup_def index_lookup_def key_checked_def index_open_def find_from.simps)

theorem kvdb_remove_assert_inverted_witness:
  "\<forall>mok db. kvdb_remove mok db [1] None (Some 0) = Some (Inl Assert_failed)"
  using kvdb_remove_assert_inverted [of "[1]"] by (simp add: key_checked_def KVDB_MAX_KEY_LEN_def)

end
