(* ===== verification/System.thy ===== *)
theory System
  imports Prelude
begin

section \<open>The helpers of the programs (\<open>system.c\<close>)\<close>

text \<open>
  Each project has a copy of these functions. What the system calls answer is a parameter: \<open>gettimeofday\<close>, \<open>nanosleep\<close>,
  \<open>sysconf\<close>; \<open>unlink\<close> takes the file out of a map from paths, and \<open>vsnprintf\<close> is given as the text it makes.
\<close>

subsection \<open>Time\<close>

text \<open>\<open>ref_time\<close>: \<open>None\<close> is a call of \<open>gettimeofday\<close> that fails, else seconds and microseconds; \<open>uint64_t\<close> wraps.\<close>

definition ref_time :: "(int \<times> int) option \<Rightarrow> 64 word" where
  "ref_time tv = (case tv of None \<Rightarrow> 0 | Some (sec, usec) \<Rightarrow> word_of_int sec * 1000000 + word_of_int usec)"

text \<open>
  A call of \<open>nanosleep\<close> asks for seconds and nanoseconds. It returns 0, or is interrupted and has written the time left to
  \<open>out\<close>, or fails without writing it. \<open>ns k req\<close> is the answer to the \<open>k\<close>-th call, with the nanoseconds that passed.
\<close>

type_synonym timespec = "int \<times> int"

datatype nap = Slept | Interrupted timespec | Refused

type_synonym nanosleep = "nat \<Rightarrow> timespec \<Rightarrow> nat \<times> nap"

text \<open>The loop of \<open>us_sleep\<close>: \<open>req\<close> and \<open>out\<close> are the variables \<open>in\<close> and \<open>out\<close>, \<open>t\<close> is the time that has passed.\<close>

partial_function (option) nap_loop :: "nanosleep \<Rightarrow> nat \<Rightarrow> nat \<Rightarrow> timespec \<Rightarrow> timespec option \<Rightarrow> nat outcome option" where
  "nap_loop ns k t req out =
     (case ns k req of
        (dt, Slept) \<Rightarrow> Some (Inr (t + dt))
      | (dt, Interrupted left) \<Rightarrow> nap_loop ns (k + 1) (t + dt) left (Some left)
      | (dt, Refused) \<Rightarrow>
          (case out of None \<Rightarrow> Some (Inl Uninit_read) | Some left \<Rightarrow> nap_loop ns (k + 1) (t + dt) left (Some left)))"

definition us_sleep :: "nanosleep \<Rightarrow> nat \<Rightarrow> nat outcome option" where
  "us_sleep ns us = nap_loop ns 0 0 (int (us div 1000000), int (us mod 1000000) * 1000) None"

subsection \<open>Files, strings, pages\<close>

definition file_delete :: "string \<Rightarrow> (string \<rightharpoonup> 'f) \<Rightarrow> (string \<rightharpoonup> 'f)" where
  "file_delete pathname fs = (if pathname = [] then fs else fs(pathname := None))"

text \<open>\<open>safe_sprintf\<close> of a text into \<open>len\<close> bytes, which must also hold the zero.\<close>

definition safe_sprintf :: "nat \<Rightarrow> string \<Rightarrow> string outcome" where
  "safe_sprintf len text = (if len \<le> length text then Inl Exit_called else Inr text)"

definition safe_strlen :: "string option \<Rightarrow> nat" where
  "safe_strlen s = (case s of None \<Rightarrow> 0 | Some s \<Rightarrow> length s)"

definition page_size :: "int \<Rightarrow> nat outcome" where
  "page_size sysconf = (if sysconf \<le> 0 then Inl Exit_called else Inr (nat sysconf))"

definition memory_align :: "nat \<Rightarrow> nat \<Rightarrow> nat outcome" where
  "memory_align p n =
     (if n = 0 then Inl Div_by_zero
      else let r = p mod n in Inr (if r \<noteq> 0 then p + (n - r) else p))"

subsection \<open>Facts\<close>

lemma ref_time_elapsed:
  "ref_time (Some (s2, u2)) - ref_time (Some (s1, u1)) = word_of_int ((s2 * 1000000 + u2) - (s1 * 1000000 + u1))"
  by (simp add: ref_time_def)

text \<open>
  What \<open>nanosleep\<close> documents, for a request with a proper number of nanoseconds: it is not refused, returns 0 only when the time has
  passed, and when interrupted the time left is proper and makes up the rest.
\<close>

definition proper_time :: "timespec \<Rightarrow> bool" where
  "proper_time ts \<longleftrightarrow> 0 \<le> fst ts \<and> 0 \<le> snd ts \<and> snd ts < 10 ^ 9"

definition nanos :: "timespec \<Rightarrow> nat" where
  "nanos ts = nat (fst ts * 10 ^ 9 + snd ts)"

definition nanosleep_works :: "nanosleep \<Rightarrow> bool" where
  "nanosleep_works ns \<longleftrightarrow> (\<forall>k req. proper_time req \<longrightarrow>
     (case ns k req of
        (dt, Slept) \<Rightarrow> nanos req \<le> dt
      | (dt, Interrupted left) \<Rightarrow> proper_time left \<and> nanos req \<le> dt + nanos left
      | (dt, Refused) \<Rightarrow> False))"

text \<open>After \<open>n\<close> calls no signal comes any more.\<close>

definition quiet_after :: "nat \<Rightarrow> nanosleep \<Rightarrow> bool" where
  "quiet_after n ns \<longleftrightarrow> (\<forall>k req. n \<le> k \<longrightarrow> proper_time req \<longrightarrow> snd (ns k req) = Slept)"

lemma nanosleep_worksD:
  assumes "nanosleep_works ns" and "proper_time req" and "ns k req = (dt, r)"
  shows "case r of Slept \<Rightarrow> nanos req \<le> dt | Interrupted left \<Rightarrow> proper_time left \<and> nanos req \<le> dt + nanos left | Refused \<Rightarrow> False"
proof -
  note assms(1) [unfolded nanosleep_works_def, rule_format, OF assms(2), of k]
  then show ?thesis by (simp add: assms(3))
qed

lemma nap_loop_sleeps:
  assumes "nanosleep_works ns" and "quiet_after n ns" and "proper_time req" and "n \<le> k + m"
  shows "\<exists>t'. nap_loop ns k t req out = Some (Inr t') \<and> t + nanos req \<le> t'"
  using assms(3,4)
proof (induction m arbitrary: k t req out)
  case 0
  obtain dt r where ns: "ns k req = (dt, r)" by (cases "ns k req")
  have "snd (ns k req) = Slept" using assms(2) [unfolded quiet_after_def, rule_format, OF _ 0(1)] 0(2) by simp
  with ns have r: "r = Slept" by simp
  have "nanos req \<le> dt" using nanosleep_worksD [OF assms(1) 0(1) ns] r by simp
  then show ?case using ns r by (subst nap_loop.simps) simp
next
  case (Suc m)
  obtain dt r where ns: "ns k req = (dt, r)" by (cases "ns k req")
  note w = nanosleep_worksD [OF assms(1) Suc.prems(1) ns]
  show ?case
  proof (cases r)
    case Slept
    with ns w show ?thesis by (subst nap_loop.simps) simp
  next
    case (Interrupted left)
    with w have left: "proper_time left" "nanos req \<le> dt + nanos left" by simp_all
    from Suc.IH [OF left(1), of "k + 1" "t + dt" "Some left"] Suc.prems(2)
    obtain t' where "nap_loop ns (k + 1) (t + dt) left (Some left) = Some (Inr t')" "t + dt + nanos left \<le> t'" by auto
    with ns left(2) Interrupted show ?thesis by (subst nap_loop.simps) simp
  next
    case Refused
    with w show ?thesis by simp
  qed
qed

lemma nanos_us: "proper_time (int (us div 1000000), int (us mod 1000000) * 1000)"
  "nanos (int (us div 1000000), int (us mod 1000000) * 1000) = us * 1000"
proof -
  have "us mod 1000000 < 1000000" by simp
  then show "proper_time (int (us div 1000000), int (us mod 1000000) * 1000)" by (simp add: proper_time_def)
  have "int us = int (us div 1000000) * 1000000 + int (us mod 1000000)"
    by (metis div_mult_mod_eq of_nat_add of_nat_mult of_nat_numeral)
  then have "int (us div 1000000) * 10 ^ 9 + int (us mod 1000000) * 1000 = int (us * 1000)" by simp
  then show "nanos (int (us div 1000000), int (us mod 1000000) * 1000) = us * 1000" by (simp add: nanos_def)
qed

lemma memory_align_range:
  assumes "0 < n"
  obtains q where "memory_align p n = Inr q" "p \<le> q" "q < p + n" "n dvd q"
proof -
  have r: "p mod n < n" "p = n * (p div n) + p mod n" using assms by simp_all
  show thesis
  proof (cases "p mod n = 0")
    case True
    then show thesis using that [of p] assms by (auto simp: memory_align_def)
  next
    case False
    have "p + (n - p mod n) = n * (p div n) + n" using r by linarith
    then have "n dvd p + (n - p mod n)" by (metis dvd_add dvd_refl dvd_triv_left)
    moreover have "memory_align p n = Inr (p + (n - p mod n))" using assms False by (simp add: memory_align_def Let_def)
    ultimately show thesis using that [of "p + (n - p mod n)"] r(1) False by linarith
  qed
qed

lemma aligned_gap:
  fixes m n q :: nat
  assumes "n dvd q" and "n dvd m" and "q < p + n" and "p \<le> m"
  shows "q \<le> m"
proof (rule ccontr)
  assume "\<not> q \<le> m"
  then have "n dvd q - m" "0 < q - m" using assms by (simp_all add: dvd_diff_nat)
  then have "n \<le> q - m" by (rule dvd_imp_le)
  with assms(3,4) \<open>\<not> q \<le> m\<close> show False by linarith
qed

subsection \<open>Properties\<close>

text \<open>
  C38: when \<open>nanosleep\<close> does what it documents and only finitely many calls are interrupted, \<open>us_sleep\<close> returns, not before
  the time asked for has passed, however the signals come.
\<close>

theorem us_sleep_sleeps:
  assumes "nanosleep_works ns" and "quiet_after n ns"
  shows "\<exists>t. us_sleep ns us = Some (Inr t) \<and> us * 1000 \<le> t"
  using nap_loop_sleeps [OF assms nanos_us(1), of 0 n 0 us None] by (simp add: us_sleep_def nanos_us(2))

theorem us_sleep_sleeps_witness:
  "\<exists>t. us_sleep (\<lambda>k req. if k < 3 then (0, Interrupted req) else (nanos req, Slept)) 500000 = Some (Inr t) \<and> 500000000 \<le> t"
proof -
  let ?ns = "\<lambda>k req. if k < 3 then (0, Interrupted req) else (nanos req, Slept)"
  have "nanosleep_works ?ns" by (simp add: nanosleep_works_def)
  moreover have "quiet_after 3 ?ns" by (simp add: quiet_after_def)
  ultimately show ?thesis using us_sleep_sleeps [of ?ns 3 500000] by simp
qed

text \<open>
  \<open>memory_align\<close> gives the least multiple of \<open>n\<close> from \<open>p\<close> on, less than \<open>n\<close> above it, so that a block of \<open>n\<close> bytes at
  the result lies inside the \<open>2 * n\<close> bytes that the callers allocate at \<open>p\<close>.
\<close>

theorem memory_align_least:
  assumes "0 < n"
  shows "\<exists>q. memory_align p n = Inr q \<and> p \<le> q \<and> q + n < p + 2 * n \<and> n dvd q \<and> (\<forall>m. p \<le> m \<and> n dvd m \<longrightarrow> q \<le> m)"
proof -
  obtain q where "memory_align p n = Inr q" "p \<le> q" "q < p + n" "n dvd q" by (rule memory_align_range [OF assms])
  then show ?thesis using aligned_gap [of n q _ p] by auto
qed

theorem memory_align_least_witness:
  "\<exists>q. memory_align 4097 4096 = Inr q \<and> 4096 dvd q \<and> 4097 \<le> q \<and> q \<le> 8192"
proof -
  from memory_align_least [of 4096 4097] obtain q where q: "memory_align 4097 4096 = Inr q" "4097 \<le> q" "4096 dvd q"
    "\<forall>m. 4097 \<le> m \<and> 4096 dvd m \<longrightarrow> q \<le> m" by auto
  have "(4096 :: nat) dvd 8192" by simp
  with q show ?thesis by auto
qed

end
