(* ===== verification/Driver.thy ===== *)
theory Driver
  imports Kvdb_Ref System
begin

section \<open>The tests of the key-value store (\<open>project-4/main.c\<close>)\<close>

text \<open>
  Each test opens the store, makes a chain of calls whose results it compares, closes the store, and returns 0 when no
  comparison failed. A comparison is a disjunct of a condition of the source: it is true when the test has failed, and then
  the disjuncts after it are not evaluated. What the program needs of its surroundings is in the record \<open>env\<close>: whether
  \<open>malloc\<close> succeeds, the log's uninitialised memory and the schedule of its worker, and uninitialised arrays.
\<close>

record env =
  e_mok :: "nat \<Rightarrow> bool"
  e_open :: "bool \<times> bool \<times> bool"
  e_pth :: bool
  e_junk :: bytes
  e_sch :: "nat \<Rightarrow> nat"
  e_array :: "nat \<Rightarrow> bytes"

text \<open>The variables of a test: the store, the buffer for values, and the length that goes with it.\<close>

record bench =
  b_db :: kvdb
  b_val :: bytes
  b_len :: nat

type_synonym check = "bench \<Rightarrow> (bool \<times> bench) outcome option"

definition c_string :: "string \<Rightarrow> bytes" where "c_string s = bytes_of s @ [0]"

subsection \<open>Comparisons\<close>

definition store_differs :: "(kvdb \<Rightarrow> bytes \<Rightarrow> bytes \<Rightarrow> (int \<times> kvdb) outcome option) \<Rightarrow> bytes \<Rightarrow> bytes \<Rightarrow> int \<Rightarrow> check" where
  "store_differs f key data rc b =
     lbind (f (b_db b) key data) (\<lambda>(rc', db). Some (Inr (rc' \<noteq> rc, b\<lparr>b_db := db\<rparr>)))"

text \<open>\<open>kvdb_lookup\<close> and \<open>kvdb_remove\<close> into the buffer, and \<open>kvdb_lookup\<close> with a null pointer for the buffer.\<close>

definition read_differs :: "(kvdb \<Rightarrow> bytes \<Rightarrow> bytes option \<Rightarrow> nat option \<Rightarrow>
    (int \<times> (bytes option \<times> nat option) \<times> kvdb) outcome option) \<Rightarrow> bytes \<Rightarrow> int \<Rightarrow> check" where
  "read_differs f key rc b =
     lbind (f (b_db b) key (Some (b_val b)) (Some (b_len b))) (\<lambda>(rc', (val, n), db).
       Some (Inr (rc' \<noteq> rc, \<lparr>b_db = db, b_val = the val, b_len = the n\<rparr>)))"

definition null_differs :: "(nat \<Rightarrow> bool) \<Rightarrow> bytes \<Rightarrow> bool \<Rightarrow> int \<Rightarrow> check" where
  "null_differs mok key with_len rc b =
     lbind (kvdb_lookup mok (b_db b) key None (if with_len then Some (b_len b) else None)) (\<lambda>(rc', (val, n), db).
       Some (Inr (rc' \<noteq> rc, b\<lparr>b_db := db, b_len := (if with_len then the n else b_len b)\<rparr>)))"

definition length_differs :: "bytes \<Rightarrow> check" where
  "length_differs data b = Some (Inr (length data \<noteq> b_len b, b))"

text \<open>\<open>memcmp (data, val, val_len)\<close>\<close>

definition bytes_differ :: "bytes \<Rightarrow> check" where
  "bytes_differ data b =
     (if b_len b \<le> length data \<and> b_len b \<le> length (b_val b)
      then Some (Inr (take (b_len b) data \<noteq> take (b_len b) (b_val b), b))
      else Some (Inl Out_of_bounds))"

definition size_differs :: "nat \<Rightarrow> check" where
  "size_differs n b = Some (Inr (n \<noteq> kvdb_size (b_db b), b))"

definition waste_differs :: "nat \<Rightarrow> check" where
  "waste_differs n b = Some (Inr (n \<noteq> kvdb_waste (b_db b), b))"

text \<open>A chain of \<open>||\<close>.\<close>

fun any_differs :: "check list \<Rightarrow> check" where
  "any_differs [] b = Some (Inr (False, b))"
| "any_differs (c # cs) b = lbind (c b) (\<lambda>(bad, b). if bad then Some (Inr (True, b)) else any_differs cs b)"

text \<open>
  A test is a list of conditions, each with an assignment to \<open>val_len\<close> before it; when one is true the store is closed and
  the test returns -1. The result has the device, for the next test.
\<close>

fun run_groups :: "(nat option \<times> check list) list \<Rightarrow> bench \<Rightarrow> (int \<times> device) outcome option" where
  "run_groups [] b = lbind (Some (kvdb_close (b_db b))) (\<lambda>d. Some (Inr (0, d)))"
| "run_groups ((n, cs) # gs) b =
     lbind (any_differs cs (case n of None \<Rightarrow> b | Some n \<Rightarrow> b\<lparr>b_len := n\<rparr>)) (\<lambda>(bad, b).
       if bad then lbind (Some (kvdb_close (b_db b))) (\<lambda>d. Some (Inr (-1, d))) else run_groups gs b)"

definition open_store :: "env \<Rightarrow> string \<Rightarrow> device \<Rightarrow> kvdb option outcome" where
  "open_store e pathname d =
     (case e_open e of (m1, m2, m3) \<Rightarrow> kvdb_open pathname m1 m2 m3 (Some d) (e_pth e) (e_junk e) (e_sch e))"

subsection \<open>\<open>basic_logic\<close>\<close>

definition KEY :: bytes where "KEY = c_string ''KEY''"
definition VAL1 :: bytes where "VAL1 = c_string ''VAL''"
definition VAL2 :: bytes where "VAL2 = c_string ''val2''"
definition VAL3 :: bytes where "VAL3 = c_string ''val2VAL''"

text \<open>Store, lookup, insert again, lookup: the three conditions of this form differ in the operation and the value.\<close>

definition stored_checks :: "(nat \<Rightarrow> bool) \<Rightarrow> (kvdb \<Rightarrow> bytes \<Rightarrow> bytes \<Rightarrow> (int \<times> kvdb) outcome option) \<Rightarrow> bytes \<Rightarrow> nat \<Rightarrow> check list" where
  "stored_checks mok f data waste =
     [store_differs f KEY data 0, read_differs (kvdb_lookup mok) KEY 0, length_differs data, bytes_differ data,
      store_differs (kvdb_insert mok) KEY data 1, read_differs (kvdb_lookup mok) KEY 0, length_differs data, bytes_differ data,
      size_differs 1, waste_differs waste]"

definition basic_groups :: "(nat \<Rightarrow> bool) \<Rightarrow> (nat option \<times> check list) list" where
  "basic_groups mok =
     [(None, [size_differs 0, waste_differs 0]),
      (Some 0, [null_differs mok KEY False 1, null_differs mok KEY True 1, read_differs (kvdb_lookup mok) KEY 1,
                size_differs 0, waste_differs 0]),
      (None, [store_differs (kvdb_replace mok) KEY VAL1 1, size_differs 0, waste_differs 0]),
      (Some 32, stored_checks mok (kvdb_insert mok) VAL1 0),
      (Some 32, stored_checks mok (kvdb_replace mok) VAL2 1),
      (Some 32, stored_checks mok (kvdb_update mok) VAL3 2),
      (Some 32, [read_differs (kvdb_lookup mok) KEY 0, length_differs VAL3, bytes_differ VAL3, size_differs 1, waste_differs 2]),
      (Some 32, [read_differs (kvdb_remove mok) KEY 0, length_differs VAL3, bytes_differ VAL3,
                 read_differs (kvdb_lookup mok) KEY 1, size_differs 0, waste_differs 3])]"

definition basic_logic :: "env \<Rightarrow> string \<Rightarrow> device \<Rightarrow> (int \<times> device) outcome option" where
  "basic_logic e pathname d =
     lbind (Some (open_store e pathname d)) (\<lambda>r. case r of
       None \<Rightarrow> Some (Inr (-1, d))
     | Some db \<Rightarrow> run_groups (basic_groups (e_mok e)) \<lparr>b_db = db, b_val = e_array e 32, b_len = 0\<rparr>)"

subsection \<open>\<open>heavy_rewrite\<close>\<close>

text \<open>The rounds of its loop are the conditions, one after the other.\<close>

definition rewrite_round :: "(nat \<Rightarrow> bool) \<Rightarrow> nat \<Rightarrow> check list" where
  "rewrite_round mok i =
     (case safe_sprintf 64 (''v'' @ digits i) of
        Inl e \<Rightarrow> [\<lambda>b. Some (Inl e)]
      | Inr s \<Rightarrow>
          [store_differs (kvdb_update mok) KEY (c_string s) 0, read_differs (kvdb_lookup mok) KEY 0,
           length_differs (c_string s), bytes_differ (c_string s), size_differs 1, waste_differs i])"

definition heavy_rewrite :: "env \<Rightarrow> string \<Rightarrow> device \<Rightarrow> (int \<times> device) outcome option" where
  "heavy_rewrite e pathname d =
     lbind (Some (open_store e pathname d)) (\<lambda>r. case r of
       None \<Rightarrow> Some (Inr (-1, d))
     | Some db \<Rightarrow>
         run_groups (map (\<lambda>i. (Some 64, rewrite_round (e_mok e) i)) [0 ..< 9876])
           \<lparr>b_db = db, b_val = e_array e 64, b_len = 0\<rparr>)"

subsection \<open>\<open>read_write\<close>\<close>

text \<open>
  \<open>rnd s k\<close> is the \<open>k\<close>-th number that \<open>rand\<close> gives after \<open>srand (s)\<close>. \<open>mk_object\<close> fills the key and the value with one byte,
  and writes the number of the object (without its terminating zero) at 16 bytes from the end.
\<close>

definition MIN_LEN :: nat where "MIN_LEN = 16"

definition mk_object :: "(nat \<Rightarrow> nat \<Rightarrow> nat) \<Rightarrow> nat \<Rightarrow> nat \<Rightarrow> nat \<Rightarrow> char \<Rightarrow> (bytes \<times> bytes) outcome" where
  "mk_object rnd key_len val_len i code =
     (if \<not> (MIN_LEN < key_len \<and> MIN_LEN < val_len) then Inl Assert_failed
      else
        let h = add64 (rnd (i + 100) 0 * 2 ^ 32) (rnd (i + 100) 1);
            kn = MIN_LEN + h mod (key_len - MIN_LEN);
            vn = MIN_LEN + h mod (val_len - MIN_LEN);
            fill = (\<lambda>n. replicate n (word_of_nat (h mod 256)))
        in obind (safe_sprintf MIN_LEN (''k'' @ digits i)) (\<lambda>k.
           obind (safe_sprintf MIN_LEN (code # digits i)) (\<lambda>v.
             Inr (splice (fill kn) (kn - MIN_LEN) (bytes_of k), splice (fill vn) (vn - MIN_LEN) (bytes_of v)))))"

definition insert_round :: "(nat \<Rightarrow> bool) \<Rightarrow> (nat \<Rightarrow> nat \<Rightarrow> nat) \<Rightarrow> nat \<Rightarrow> nat \<Rightarrow> nat \<Rightarrow> check list" where
  "insert_round mok rnd K V i =
     (case mk_object rnd K V i CHR ''i'' of
        Inl e \<Rightarrow> [\<lambda>b. Some (Inl e)]
      | Inr (key, val) \<Rightarrow>
          [store_differs (kvdb_insert mok) key val 0, read_differs (kvdb_lookup mok) key 0, length_differs val, bytes_differ val,
           size_differs (i + 1), waste_differs 0])"

definition lookup_round :: "(nat \<Rightarrow> bool) \<Rightarrow> (nat \<Rightarrow> nat \<Rightarrow> nat) \<Rightarrow> nat \<Rightarrow> nat \<Rightarrow> nat \<Rightarrow> nat \<Rightarrow> check list" where
  "lookup_round mok rnd N K V j =
     (case mk_object rnd K V j CHR ''i'' of
        Inl e \<Rightarrow> [\<lambda>b. Some (Inl e)]
      | Inr (key, val) \<Rightarrow>
          [read_differs (kvdb_lookup mok) key 0, length_differs val, bytes_differ val, size_differs N, waste_differs 0])"

text \<open>
  The objects looked up: \<open>j = rand () % N\<close> continues the numbers of the last \<open>mk_object\<close>, which has used two of them. (C leaves
  open which of the two calls of \<open>rand\<close> in \<open>mk_object\<close> comes first; here it is the left one.)
\<close>

fun lookup_order :: "(nat \<Rightarrow> nat \<Rightarrow> nat) \<Rightarrow> nat \<Rightarrow> nat \<Rightarrow> nat \<Rightarrow> nat list" where
  "lookup_order rnd N 0 i = []"
| "lookup_order rnd N (Suc n) i = (let j = rnd (i + 100) 2 mod N in j # lookup_order rnd N n j)"

definition read_write :: "env \<Rightarrow> bool \<times> bool \<times> bool \<Rightarrow> (nat \<Rightarrow> nat \<Rightarrow> nat) \<Rightarrow> string \<Rightarrow> device \<Rightarrow> nat \<Rightarrow> nat \<Rightarrow> nat \<Rightarrow>
    (int \<times> device) outcome option" where
  "read_write e mem rnd pathname d N K V =
     lbind (Some (open_store e pathname d)) (\<lambda>r. case r of
       None \<Rightarrow> Some (Inr (-1, d))
     | Some db \<Rightarrow>
         if mem \<noteq> (True, True, True) then lbind (Some (kvdb_close db)) (\<lambda>d. Some (Inr (-1, d)))
         else
           run_groups
             (map (\<lambda>i. (Some V, insert_round (e_mok e) rnd K V i)) [0 ..< N] @
              map (\<lambda>j. (Some V, lookup_round (e_mok e) rnd N K V j)) (lookup_order rnd N N (N - 1)))
             \<lparr>b_db = db, b_val = e_array e V, b_len = 0\<rparr>)"

definition read_write_large where "read_write_large e mem rnd pathname d = read_write e mem rnd pathname d 1234 1234 1234"
definition read_write_small where "read_write_small e mem rnd pathname d = read_write e mem rnd pathname d 1234 123 123"
definition read_write_single where "read_write_single e mem rnd pathname d = read_write e mem rnd pathname d 1 23 23"

subsection \<open>\<open>main\<close>\<close>

text \<open>Each test with its surroundings; the result is the exit code and the lines printed.\<close>

fun run_tests :: "(string \<times> (device \<Rightarrow> (int \<times> device) outcome option)) list \<Rightarrow> device \<Rightarrow> (string \<times> bool) list outcome option" where
  "run_tests [] d = Some (Inr [])"
| "run_tests ((name, t) # ts) d =
     lbind (t d) (\<lambda>(rc, d). lbind (run_tests ts d) (\<lambda>out. Some (Inr ((name, rc = 0) # out))))"

definition project4_main :: "(nat \<Rightarrow> env) \<Rightarrow> (nat \<Rightarrow> bool \<times> bool \<times> bool) \<Rightarrow> (nat \<Rightarrow> nat \<Rightarrow> nat) \<Rightarrow> string list \<Rightarrow> device \<Rightarrow>
    (int \<times> (string \<times> bool) list) outcome option" where
  "project4_main e mem rnd args d =
     (case args of
        [pathname] \<Rightarrow>
          lbind (run_tests
            [(''basic_logic'', basic_logic (e 0) pathname),
             (''read_write_single'', read_write_single (e 1) (mem 1) rnd pathname),
             (''read_write_large'', read_write_large (e 2) (mem 2) rnd pathname),
             (''read_write_small'', read_write_small (e 3) (mem 3) rnd pathname),
             (''heavy_rewrite'', heavy_rewrite (e 4) pathname)] d) (\<lambda>out. Some (Inr (0, out)))
      | _ \<Rightarrow> Some (Inr (-1, [])))"

end
