(* ===== verification/Driver_Rules.thy ===== *)
theory Driver_Rules
  imports Driver
begin

section \<open>Rules for the tests of the store\<close>

text \<open>
  From the refinement of the store follows a rule for each comparison of the tests: what holds of the store and the buffer when
  it comes out false. A test passes because these rules chain. The tests use a finite set of keys that is known beforehand, and
  this bounds the index; the device keeps its geometry, so that the next test can open it again.
\<close>

subsection \<open>The block size never changes\<close>

lemma write_to_queue_blk: "write_to_queue s buf b = Inr s' \<Longrightarrow> blk_sz s' = blk_sz s"
  by (simp add: write_to_queue_view)

lemma append_loop_blk: "append_loop s data = Inr s' \<Longrightarrow> blk_sz s' = blk_sz s"
proof (induction s data rule: append_loop.induct)
  case (1 s data)
  show ?case
  proof (cases "length data < available s")
    case True
    then show ?thesis using "1.prems" by (auto simp: append_loop.simps [of s data] append_tail_def fill_block_def)
  next
    case False
    let ?s1 = "fill_block s (take (available s) data)"
    have b: "blk_sz s \<noteq> 0" using "1.prems" False by (cases "blk_sz s = 0") (simp_all add: append_loop.simps [of s data])
    then obtain s2 where s2: "write_to_queue ?s1 (cur_blk ?s1) (block_start ?s1 (lf_off ?s1 - 1)) = Inr s2"
      "append_loop (fresh_block s2) (drop (available s) data) = Inr s'"
      using "1.prems" False by (auto simp: append_loop.simps [of s data] Let_def split: sum.splits)
    have "blk_sz s2 = blk_sz s" using write_to_queue_blk [OF s2(1)] by (simp add: fill_block_def)
    then show ?thesis using "1.IH" [OF False b refl s2] by (simp add: fresh_block_def)
  qed
qed

lemma logfs_append_blk: "logfs_append s data = Inr (rc, s') \<Longrightarrow> blk_sz s' = blk_sz s"
  by (auto simp: logfs_append_def obind_eq_Inr invalidate_def Let_def dest!: append_loop_blk split: if_splits)

lemma lock_blk: "lock s = Inr s' \<Longrightarrow> blk_sz s' = blk_sz s"
  using lock_view [of s s'] by (simp add: client_view_def)

lemma fetch_block_blk: "fetch_block s b = Inr (rc, data, s') \<Longrightarrow> blk_sz s' = blk_sz s"
  by (auto simp: fetch_block_def check_in_wcache_def obind_eq_Inr split: if_splits option.splits dest!: lock_blk)

lemma read_mem_blk:
  assumes "read_mem s b off len = Inr (rc, data, s')"
  shows "blk_sz s' = blk_sz s"
proof (cases "b \<noteq> blk (rcache s ! rc_index s b)")
  case False
  then show ?thesis using assms by (simp add: read_mem_def Let_def split: if_splits)
next
  case True
  define s1 where "s1 = s\<lparr>rcache := (rcache s)[rc_index s b := (rcache s ! rc_index s b)\<lparr>blk := b\<rparr>]\<rparr>"
  obtain rc1 d1 s2 where f: "fetch_block s1 b = Inr (rc1, d1, s2)"
    using assms True by (auto simp: read_mem_def Let_def s1_def [symmetric] obind_eq_Inr)
  have "blk_sz s2 = blk_sz s" using fetch_block_blk [OF f] by (simp add: s1_def)
  moreover have "blk_sz s' = blk_sz s2"
    using assms True f by (auto simp: read_mem_def Let_def s1_def [symmetric] split: if_splits)
  ultimately show ?thesis by simp
qed

lemma read_loop_blk: "read_loop s b off left acc = Inr (rc, data, s') \<Longrightarrow> blk_sz s' = blk_sz s"
proof (induction s b off left acc rule: read_loop.induct)
  case (1 s b off left acc)
  show ?case
  proof (cases "blk_sz s < left \<and> blk_sz s \<noteq> 0")
    case True
    then obtain rc1 d1 s1 where r: "read_mem s b off (blk_sz s) = Inr (rc1, d1, s1)"
      using "1.prems" by (auto simp: read_loop.simps [of s b] split: sum.splits)
    note b1 = read_mem_blk [OF this]
    show ?thesis
    proof (cases "rc1 = 0")
      case rc: True
      have "read_loop s1 (b + blk_sz s) (off + blk_sz s) (left - blk_sz s) (acc @ d1) = Inr (rc, data, s')"
        using "1.prems" True r rc by (simp add: read_loop.simps [of s b])
      then show ?thesis using "1.IH" [OF _ _ r refl refl] True rc b1 by simp
    next
      case False
      then show ?thesis using "1.prems" True r b1 by (simp add: read_loop.simps [of s b])
    qed
  next
    case False
    then show ?thesis
      using "1.prems" by (auto simp: read_loop.simps [of s b] obind_eq_Inr split: if_splits dest!: read_mem_blk)
  qed
qed

lemma logfs_read_blk: "logfs_read s off len = Inr (rc, data, s') \<Longrightarrow> blk_sz s' = blk_sz s"
  by (auto simp: logfs_read_def Let_def obind_eq_Inr split: if_splits dest!: read_mem_blk read_loop_blk)

abbreviation kv_blk :: "kvraw \<Rightarrow> nat" where "kv_blk kv \<equiv> blk_sz (klog kv)"

lemma read_meta_blk: "read_meta kv off = Inr (rc, m, kv') \<Longrightarrow> kv_blk kv' = kv_blk kv"
  by (auto simp: read_meta_def Let_def obind_eq_Inr split: if_splits dest!: logfs_read_blk)

lemma kvraw_lookup_blk: "kvraw_lookup kv klen val vlen off = Inr (rc, k, v, prev, kv') \<Longrightarrow> kv_blk kv' = kv_blk kv"
  by (auto simp: kvraw_lookup_def Let_def obind_eq_Inr split: if_splits dest!: logfs_read_blk read_meta_blk)

lemma kvraw_append_blk: "kvraw_append kv key val off = Inr (rc, off', kv') \<Longrightarrow> kv_blk kv' = kv_blk kv"
  by (auto simp: kvraw_append_def Let_def obind_eq_Inr split: if_splits dest!: logfs_append_blk)

definition keeps_blk :: "nat \<Rightarrow> (int \<times> (bytes option \<times> nat) \<times> nat \<times> kvraw) outcome \<Rightarrow> bool" where
  "keeps_blk n r \<longleftrightarrow> (case r of Inl e \<Rightarrow> True | Inr (rc, v, off, kv) \<Rightarrow> kv_blk kv = n)"

lemma chain_loop_blk: "chain_loop mok kv key val vlen off o' = Some r \<Longrightarrow> keeps_blk (kv_blk kv) r"
proof (erule chain_loop.raw_induct [where P = "\<lambda>mok kv key val vlen off o' r. keeps_blk (kv_blk kv) r", rotated])
  fix loop mok kv key val vlen off o' r
  assume IH: "\<And>mok kv key val vlen off o' r. loop mok kv key val vlen off o' = Some r \<Longrightarrow> keeps_blk (kv_blk kv) r"
    and body: "(if o' = 0 then Some (Inr (0, (val, vlen), off, kv))
      else
        (case kvraw_lookup kv (min (length key) 256) val vlen o' of
           Inl e \<Rightarrow> Some (Inl e)
         | Inr (rc, (k, klen), (val1, vlen1), prev, kv1) \<Rightarrow>
             if rc \<noteq> 0 then Some (Inr (-1, (val1, vlen), off, kv1))
             else if klen \<noteq> length key \<or> take (min (length key) 8) k \<noteq> take (min (length key) 8) key
             then loop mok kv1 key val1 vlen prev prev
             else if 8 < klen then
               (if \<not> mok klen then Some (Inr (-1, (val1, vlen), off, kv1))
                else
                  (case kvraw_lookup kv1 klen val1 0 off of
                     Inl e \<Rightarrow> Some (Inl e)
                   | Inr (rc2, (k2, klen2), (val2, vlen2), prev2, kv2) \<Rightarrow>
                       if rc2 \<noteq> 0 then Some (Inr (-1, (val2, vlen), off, kv2))
                       else if take (length key) k2 = key then Some (Inr (0, (val2, vlen2), off, kv2))
                       else loop mok kv2 key val2 vlen prev2 prev2))
             else if take (length key) k = key then Some (Inr (0, (val1, vlen1), off, kv1))
             else loop mok kv1 key val1 vlen prev prev)) = Some r"
  show "keeps_blk (kv_blk kv) r"
  proof (cases "o' = 0 \<or> (\<exists>e. kvraw_lookup kv (min (length key) 256) val vlen o' = Inl e)")
    case True
    then show ?thesis using body by (auto simp: keeps_blk_def split: if_splits)
  next
    case False
    then obtain rc1 k klen val1 vlen1 prev kv1
      where l: "kvraw_lookup kv (min (length key) 256) val vlen o' = Inr (rc1, (k, klen), (val1, vlen1), prev, kv1)"
      by (metis old.sum.exhaust surj_pair)
    note b1 = kvraw_lookup_blk [OF l]
    have again: "loop mok kv1 key val1 vlen prev prev = Some r \<Longrightarrow> keeps_blk (kv_blk kv) r"
      using IH b1 by metis
    show ?thesis
    proof (cases "kvraw_lookup kv1 (length key) val1 0 off")
      case (Inl e)
      then show ?thesis using body l b1 False again by (auto simp: keeps_blk_def split: if_splits)
    next
      case (Inr x)
      obtain rc2 k2 klen2 val2 vlen2 prev2 kv2 where x: "x = (rc2, (k2, klen2), (val2, vlen2), prev2, kv2)" by (metis surj_pair)
      note b2 = kvraw_lookup_blk [OF Inr [unfolded x]]
      have "loop mok kv2 key val2 vlen prev2 prev2 = Some r \<Longrightarrow> keeps_blk (kv_blk kv) r" using IH b1 b2 by metis
      then show ?thesis using body l b1 b2 False again by (auto simp: Inr x keeps_blk_def split: if_splits)
    qed
  qed
qed

lemma chain_lookup_blk: "chain_lookup mok kv key val vlen off = Some (Inr (rc, v, off', kv')) \<Longrightarrow> kv_blk kv' = kv_blk kv"
  by (auto simp: chain_lookup_def keeps_blk_def dest: chain_loop_blk)

abbreviation db_blk :: "kvdb \<Rightarrow> nat" where "db_blk db \<equiv> kv_blk (db_raw db)"

lemma mutate_mode_blk: "mutate_mode mode found db r key data = Inr (rc, db') \<Longrightarrow> db_blk db' = db_blk db"
  by (cases mode)
    (auto simp: append_ref_def count_after_def obind_eq_Inr add_waste_def shrink_size_def grow_size_def split: if_splits dest!: kvraw_append_blk)

lemma mutate_blk: "mutate mok db key val vlen mode = Some (Inr (rc, out, db')) \<Longrightarrow> db_blk db' = db_blk db"
  unfolding mutate_def lbind_eq_Inr
  by (auto simp: lbind_eq_Inr Let_def simp del: mutate_mode.simps split: option.splits if_splits
      dest!: mutate_mode_blk chain_lookup_blk)

lemma kvdb_lookup_blk: "kvdb_lookup mok db key val vlen = Some (Inr (rc, out, db')) \<Longrightarrow> db_blk db' = db_blk db"
  unfolding kvdb_lookup_def
  by (auto simp: lbind_eq_Inr Let_def split: option.splits if_splits dest!: chain_lookup_blk)

subsection \<open>A table with few keys\<close>

text \<open>The capacity that a table with at most \<open>n\<close> keys does not exceed: it grows by half and 97 from a load above 0.7.\<close>

definition table_bound :: "nat \<Rightarrow> nat" where
  "table_bound n = (10 * n div 7 + 97) * 3 div 2"

definition few_keys :: "bytes set \<Rightarrow> index \<Rightarrow> bool" where
  "few_keys ks ix \<longleftrightarrow> dom (imap ix) \<subseteq> hash_key ` ks \<and> capacity ix \<le> table_bound (card ks)"

lemma few_keys_grown:
  assumes ok: "index_ok ix" and few: "few_keys ks ix" and fin: "finite ks"
  shows "grown_capacity ix \<le> table_bound (card ks)"
proof (cases "over_load ix")
  case True
  have "isize ix \<le> card (hash_key ` ks)"
    unfolding isize_dom [OF ok] using few fin by (intro card_mono) (auto simp: few_keys_def)
  also have "\<dots> \<le> card ks" by (rule card_image_le [OF fin])
  finally have "7 * capacity ix \<le> 10 * card ks" using True by (auto simp: over_load_def split: if_splits)
  then have "capacity ix \<le> 10 * card ks div 7" by linarith
  then have "(capacity ix + 97) * 3 div 2 \<le> (10 * card ks div 7 + 97) * 3 div 2" by (intro div_le_mono) simp
  then show ?thesis using True by (simp add: grown_capacity_def table_bound_def)
next
  case False
  then show ?thesis using few by (simp add: grown_capacity_def few_keys_def)
qed

lemma no_wrap_less: "no_wrap cap k \<Longrightarrow> cap' \<le> cap \<Longrightarrow> no_wrap cap' k"
  by (simp add: no_wrap_def)

lemma few_keys_fits:
  assumes "index_ok ix" and "few_keys ks ix" and "finite ks" and "\<forall>k \<in> ks. no_wrap (table_bound (card ks)) (hash_key k)" and "key \<in> ks"
  shows "probes_fit ix (hash_key key)"
  using assms(2,4,5) no_wrap_less [OF _ few_keys_grown [OF assms(1-3)]] by (auto simp: probes_fit_def few_keys_def)

lemma few_keys_update:
  assumes "index_ok ix" and "key \<noteq> []" and "index_update mok ix key = Inr (r, ix')" and "few_keys ks ix" and "finite ks" and "key \<in> ks"
  shows "few_keys ks ix'"
  using index_update_shape [OF assms(1-3)] few_keys_grown [OF assms(1,4,5)] assms(4,6) by (auto simp: few_keys_def)

lemma few_keys_set_off: "few_keys ks (set_off ix r v) = few_keys ks ix"
  by (simp add: few_keys_def)

definition written :: "index \<Rightarrow> index \<Rightarrow> bool" where
  "written ix ix' \<longleftrightarrow> ix' = ix \<or> (\<exists>r v. ix' = set_off ix r v)"

lemma written_simps [simp]: "written ix ix" "written ix (set_off ix r v)"
  by (auto simp: written_def)

lemma mutate_mode_index: "mutate_mode mode found db r key data = Inr (rc, db') \<Longrightarrow> written (db_index db) (db_index db')"
  by (cases mode) (auto simp: append_ref_def count_after_def obind_eq_Inr add_waste_def shrink_size_def grow_size_def split: if_splits)

lemma mutate_few_keys:
  assumes "mutate mok db key val vlen mode = Some (Inr (rc, out, db'))" and "index_ok (db_index db)" and "key \<noteq> []"
    and "few_keys ks (db_index db)" and "finite ks" and "key \<in> ks"
  shows "few_keys ks (db_index db')"
proof -
  obtain r ix where ix: "index_update mok (db_index db) key = Inr (r, ix)" "written ix (db_index db')"
    using assms(1) unfolding mutate_def lbind_eq_Inr
    by (auto simp: lbind_eq_Inr Let_def simp del: mutate_mode.simps split: option.splits if_splits dest!: mutate_mode_index)
  have "few_keys ks ix" by (rule few_keys_update [OF assms(2,3) ix(1) assms(4-6)])
  then show ?thesis using ix(2) few_keys_set_off by (auto simp: written_def)
qed

subsection \<open>A store on few keys\<close>

text \<open>
  The surroundings of a test: its keys, whether \<open>malloc\<close> succeeds, the block size and the size of the device, and the size of
  the buffer for values.
\<close>

record trial =
  u_keys :: "bytes set"
  u_mok :: "nat \<Rightarrow> bool"
  u_block :: nat
  u_disk :: nat
  u_buf :: nat

definition usable :: "trial \<Rightarrow> bool" where
  "usable u \<longleftrightarrow> finite (u_keys u) \<and> (\<forall>n. u_mok u n) \<and>
     (\<forall>k \<in> u_keys u. key_checked k \<and> no_wrap (table_bound (card (u_keys u))) (hash_key k))"

definition stocked :: "trial \<Rightarrow> kvdb \<Rightarrow> (bytes \<rightharpoonup> bytes) \<Rightarrow> nat \<Rightarrow> nat \<Rightarrow> bool" where
  "stocked u db m w room \<longleftrightarrow>
     db_ok db \<and> few_keys (u_keys u) (db_index db) \<and> db_map db = m \<and> kvdb_waste db = w \<and>
     ksize (db_raw db) + room \<le> kv_capacity (db_raw db) \<and> db_blk db = u_block u \<and> kv_capacity (db_raw db) = u_disk u"

definition record_room :: "bytes \<Rightarrow> bytes \<Rightarrow> nat" where
  "record_room key data = META_LEN + length key + length data"

lemma stocked_fits:
  assumes "stocked u db m w room" and "usable u" and "key \<in> u_keys u" and "record_room key data \<le> room" and "length data \<le> KVDB_MAX_VAL_LEN"
  shows "op_fits (u_mok u) db key data"
  using assms few_keys_fits [of "db_index db" "u_keys u" key]
  by (simp add: stocked_def usable_def op_fits_def record_room_def db_ok_def)

lemma stocked_size: "stocked u db m w room \<Longrightarrow> kvdb_size db = card (dom m)"
  by (auto simp: stocked_def db_ok_def kvdb_size_def)

text \<open>The code of a storing operation for a key that is or is not there, and what it makes of the map and the waste.\<close>

definition stored_code :: "mode \<Rightarrow> bool \<Rightarrow> int" where
  "stored_code mode present = (case mode of Insert \<Rightarrow> if present then 1 else 0 | Update \<Rightarrow> 0 | _ \<Rightarrow> if present then 0 else 1)"

lemma stocked_done:
  assumes "stocked u db m w room" and "done_op mode key data db rc db'" and "record_room key (stored mode data) + room' \<le> room"
    and "few_keys (u_keys u) (db_index db')" and "db_blk db' = db_blk db"
  shows "stocked u db' (if rc = 0 then m(key := if mode = Remove then None else Some data) else m)
      (if rc = 0 then w + spec_waste mode (m key \<noteq> None) else w) room' \<and>
    rc = stored_code mode (m key \<noteq> None)"
  using assms by (cases mode; cases "m key") (auto simp: stocked_def done_op_def record_room_def kvdb_waste_def stored_code_def fun_eq_iff)

lemma stocked_store:
  assumes s: "stocked u db m w room" and u: "usable u" and k: "key \<in> u_keys u" and d: "data \<noteq> []" "length data \<le> KVDB_MAX_VAL_LEN"
    and room: "record_room key data + room' \<le> room" and m: "mode \<noteq> Remove"
  shows "\<exists>rc db'. store (u_mok u) db key data mode = Some (Inr (rc, db')) \<and>
    stocked u db' (if rc = 0 then m(key \<mapsto> data) else m) (if rc = 0 then w + spec_waste mode (m key \<noteq> None) else w) room' \<and>
    rc = stored_code mode (m key \<noteq> None)"
proof -
  have ok: "db_ok db" "index_ok (db_index db)" "few_keys (u_keys u) (db_index db)" "finite (u_keys u)" "key \<noteq> []"
    using s u k by (auto simp: stocked_def db_ok_def usable_def key_checked_def)
  have f: "op_fits (u_mok u) db key data" using stocked_fits [OF s u k _ d(2)] room by simp
  obtain rc db' where r: "store (u_mok u) db key data mode = Some (Inr (rc, db'))" "done_op mode key data db rc db'"
    using store_ok [OF ok(1) f d(1) m] by blast
  obtain out where mu: "mutate (u_mok u) db key (Some data) (Some (length data)) mode = Some (Inr (rc, out, db'))"
    using r(1) by (auto simp: store_def lbind_eq_Inr split: if_splits)
  have "record_room key (stored mode data) + room' \<le> room" using room m by (simp add: stored_def)
  note moved = stocked_done [OF s r(2) this mutate_few_keys [OF mu ok(2,5,3,4) k] mutate_blk [OF mu]]
  have "stocked u db' (if rc = 0 then m(key \<mapsto> data) else m) (if rc = 0 then w + spec_waste mode (m key \<noteq> None) else w) room'"
    using conjunct1 [OF moved] m by (cases "rc = 0") simp_all
  then show ?thesis using r(1) conjunct2 [OF moved] by blast
qed

lemma stocked_remove:
  assumes s: "stocked u db m w room" and u: "usable u" and k: "key \<in> u_keys u" and v: "m key = Some v"
    and room: "record_room key [] + room' \<le> room" and n: "length v \<le> n" "n \<le> length buf"
  shows "\<exists>buf' db'. kvdb_remove (u_mok u) db key (Some buf) (Some n) = Some (Inr (0, (Some buf', Some (length v)), db')) \<and>
    stocked u db' (m(key := None)) (w + 1) room' \<and> length buf' = length buf \<and> take (length v) buf' = v"
proof -
  have ok: "db_ok db" "index_ok (db_index db)" "few_keys (u_keys u) (db_index db)" "finite (u_keys u)" "key \<noteq> []"
    and mk: "db_map db key = Some v"
    using s u k v by (auto simp: stocked_def db_ok_def usable_def key_checked_def)
  have f: "op_fits (u_mok u) db key []" using stocked_fits [OF s u k] room by simp
  obtain rc buf' n' db' where r: "kvdb_remove (u_mok u) db key (Some buf) (Some n) = Some (Inr (rc, (Some buf', Some n'), db'))"
    "done_op Remove key [] db rc db'" "length buf' = length buf" "n' = length v \<and> take (min n (length v)) buf' = take n v"
    using kvdb_remove_refines [OF ok(1) f n(2)] mk by blast
  have mu: "mutate (u_mok u) db key (Some buf) (Some n) Remove = Some (Inr (rc, (Some buf', Some n'), db'))"
    using r(1) by (auto simp: kvdb_remove_def split: if_splits)
  have "record_room key (stored Remove []) + room' \<le> room" using room by (simp add: stored_def)
  from stocked_done [OF s r(2) this mutate_few_keys [OF mu ok(2,5,3,4) k] mutate_blk [OF mu]] r(1,3,4) n v
  show ?thesis by (auto simp: min.absorb2 stored_code_def)
qed

lemma stocked_lookup:
  assumes s: "stocked u db m w room" and u: "usable u" and k: "key \<in> u_keys u" and b: "case vlen of None \<Rightarrow> True | Some n \<Rightarrow> buf_ok val n"
  shows "\<exists>val' vlen' db'. kvdb_lookup (u_mok u) db key val vlen = Some (Inr (if m key = None then 1 else 0, (val', vlen'), db')) \<and>
    stocked u db' m w room \<and> same_buf val' val \<and>
    (case m key of None \<Rightarrow> vlen' = vlen
     | Some x \<Rightarrow> vlen' = map_option (\<lambda>_. length x) vlen \<and> (vlen \<noteq> None \<longrightarrow> buf_holds val' (take (the vlen) x)))"
proof -
  have ok: "db_ok db" and m: "db_map db key = m key" and mem: "\<And>n. u_mok u n" and kc: "key_checked key"
    using s u k by (auto simp: stocked_def usable_def)
  from lookup_ok [of db "u_mok u", OF ok mem kc b] obtain rc val' vlen' db' where
    l: "kvdb_lookup (u_mok u) db key val vlen = Some (Inr (rc, (val', vlen'), db'))"
    "db_ok db'" "db_map db' = db_map db" "db_size db' = db_size db" "db_waste db' = db_waste db"
    "db_index db' = db_index db" "same_kv (db_raw db) (db_raw db')" "same_buf val' val"
    "case db_map db key of
       None \<Rightarrow> rc = 1 \<and> vlen' = vlen
     | Some v \<Rightarrow> rc = 0 \<and> vlen' = map_option (\<lambda>_. length v) vlen \<and>
         (vlen \<noteq> None \<longrightarrow> same_buf val' val \<and> buf_holds val' (take (the vlen) v))" by blast
  then show ?thesis using s m kvdb_lookup_blk [OF l(1)]
    by (cases "m key") (auto simp: stocked_def kvdb_waste_def same_kv_def)
qed

subsection \<open>Rules for the comparisons\<close>

text \<open>
  \<open>st\<close>: the store has the map \<open>m\<close>; the buffer begins with \<open>dat\<close>, and \<open>val_len\<close> is \<open>n\<close>. \<open>passes\<close>: a comparison comes out false,
  and the state after it is as stated.
\<close>

definition st :: "trial \<Rightarrow> (bytes \<rightharpoonup> bytes) \<Rightarrow> nat \<Rightarrow> nat \<Rightarrow> nat \<Rightarrow> bytes \<Rightarrow> bench \<Rightarrow> bool" where
  "st u m w room n dat b \<longleftrightarrow>
     stocked u (b_db b) m w room \<and> length (b_val b) = u_buf u \<and> b_len b = n \<and> take (length dat) (b_val b) = dat"

definition passes :: "check \<Rightarrow> (bench \<Rightarrow> bool) \<Rightarrow> (bench \<Rightarrow> bool) \<Rightarrow> bool" where
  "passes c P Q \<longleftrightarrow> (\<forall>b. P b \<longrightarrow> (\<exists>b'. c b = Some (Inr (False, b')) \<and> Q b'))"

lemma passesI: "(\<And>b. P b \<Longrightarrow> \<exists>b'. c b = Some (Inr (False, b')) \<and> Q b') \<Longrightarrow> passes c P Q"
  by (simp add: passes_def)

lemma passes_Nil: "passes (any_differs []) P P"
  by (simp add: passes_def)

lemma passes_Cons: "passes c P Q \<Longrightarrow> passes (any_differs cs) Q R \<Longrightarrow> passes (any_differs (c # cs)) P R"
  unfolding passes_def by fastforce

lemma passes_length: "passes (length_differs dat) (st u m w room (length dat) dat') (st u m w room (length dat) dat')"
  by (simp add: passes_def length_differs_def st_def)

lemma passes_bytes: "passes (bytes_differ dat) (st u m w room (length dat) dat) (st u m w room (length dat) dat)"
proof (rule passesI)
  fix b
  assume s: "st u m w room (length dat) dat b"
  then have t: "take (length dat) (b_val b) = dat" "b_len b = length dat" by (simp_all add: st_def)
  then have "length dat \<le> length (b_val b)" by (metis length_take min.cobounded1)
  then show "\<exists>b'. bytes_differ dat b = Some (Inr (False, b')) \<and> st u m w room (length dat) dat b'"
    using s t by (simp add: bytes_differ_def)
qed

lemma passes_size: "k = card (dom m) \<Longrightarrow> passes (size_differs k) (st u m w room n dat) (st u m w room n dat)"
  unfolding passes_def by (auto simp: size_differs_def st_def dest!: stocked_size)

lemma passes_waste: "passes (waste_differs w) (st u m w room n dat) (st u m w room n dat)"
  by (auto simp: passes_def waste_differs_def st_def stocked_def)

definition storable :: "bytes \<Rightarrow> bool" where
  "storable data \<longleftrightarrow> data \<noteq> [] \<and> length data \<le> KVDB_MAX_VAL_LEN"

lemma passes_store:
  assumes "usable u" and "key \<in> u_keys u" and "storable data" and "record_room key data + room' \<le> room" and "mode \<noteq> Remove"
    and "rc = stored_code mode (m key \<noteq> None)"
    and "m' = (if rc = 0 then m(key \<mapsto> data) else m)" and "w' = (if rc = 0 then w + spec_waste mode (m key \<noteq> None) else w)"
  shows "passes (store_differs (\<lambda>db key data. store (u_mok u) db key data mode) key data rc) (st u m w room n dat)
    (st u m' w' room' n dat)"
proof (rule passesI)
  fix b
  assume s: "st u m w room n dat b"
  then have "stocked u (b_db b) m w room" by (simp add: st_def)
  from stocked_store [OF this assms(1,2) _ _ assms(4,5)] assms(3) obtain db' where
    "store (u_mok u) (b_db b) key data mode = Some (Inr (rc, db'))" "stocked u db' m' w' room'"
    unfolding assms(7,8) using assms(6) by (auto simp: storable_def)
  with s show "\<exists>b'. store_differs (\<lambda>db key data. store (u_mok u) db key data mode) key data rc b = Some (Inr (False, b')) \<and>
      st u m' w' room' n dat b'"
    by (auto simp: store_differs_def st_def)
qed

lemma store_mode:
  "kvdb_insert mok = (\<lambda>db key data. store mok db key data Insert)" "kvdb_update mok = (\<lambda>db key data. store mok db key data Update)"
  "kvdb_replace mok = (\<lambda>db key data. store mok db key data Replace)"
  by (simp_all add: fun_eq_iff kvdb_insert_def kvdb_update_def kvdb_replace_def)

text \<open>What the three operations give for a key that is absent or present.\<close>

lemma passes_insert_new:
  "usable u \<Longrightarrow> key \<in> u_keys u \<Longrightarrow> storable data \<Longrightarrow> record_room key data + room' \<le> room \<Longrightarrow> m key = None \<Longrightarrow>
   passes (store_differs (kvdb_insert (u_mok u)) key data 0) (st u m w room n dat) (st u (m(key \<mapsto> data)) w room' n dat)"
  unfolding store_mode by (rule passes_store) (simp_all add: stored_code_def)

lemma passes_insert_old:
  "usable u \<Longrightarrow> key \<in> u_keys u \<Longrightarrow> storable data \<Longrightarrow> record_room key data + room' \<le> room \<Longrightarrow> m key = Some x \<Longrightarrow>
   passes (store_differs (kvdb_insert (u_mok u)) key data 1) (st u m w room n dat) (st u m w room' n dat)"
  unfolding store_mode by (rule passes_store) (simp_all add: stored_code_def)

lemma passes_replace_none:
  "usable u \<Longrightarrow> key \<in> u_keys u \<Longrightarrow> storable data \<Longrightarrow> record_room key data + room' \<le> room \<Longrightarrow> m key = None \<Longrightarrow>
   passes (store_differs (kvdb_replace (u_mok u)) key data 1) (st u m w room n dat) (st u m w room' n dat)"
  unfolding store_mode by (rule passes_store) (simp_all add: stored_code_def)

lemma passes_replace_old:
  "usable u \<Longrightarrow> key \<in> u_keys u \<Longrightarrow> storable data \<Longrightarrow> record_room key data + room' \<le> room \<Longrightarrow> m key = Some x \<Longrightarrow> w' = Suc w \<Longrightarrow>
   passes (store_differs (kvdb_replace (u_mok u)) key data 0) (st u m w room n dat) (st u (m(key \<mapsto> data)) w' room' n dat)"
  unfolding store_mode by (rule passes_store) (simp_all add: stored_code_def)

lemma passes_update_new:
  "usable u \<Longrightarrow> key \<in> u_keys u \<Longrightarrow> storable data \<Longrightarrow> record_room key data + room' \<le> room \<Longrightarrow> m key = None \<Longrightarrow>
   passes (store_differs (kvdb_update (u_mok u)) key data 0) (st u m w room n dat) (st u (m(key \<mapsto> data)) w room' n dat)"
  unfolding store_mode by (rule passes_store) (simp_all add: stored_code_def)

lemma passes_update_old:
  "usable u \<Longrightarrow> key \<in> u_keys u \<Longrightarrow> storable data \<Longrightarrow> record_room key data + room' \<le> room \<Longrightarrow> m key = Some x \<Longrightarrow> w' = Suc w \<Longrightarrow>
   passes (store_differs (kvdb_update (u_mok u)) key data 0) (st u m w room n dat) (st u (m(key \<mapsto> data)) w' room' n dat)"
  unfolding store_mode by (rule passes_store) (simp_all add: stored_code_def)

lemma passes_hit:
  assumes "usable u" and "key \<in> u_keys u" and "m key = Some x" and "length x \<le> n" and "n \<le> u_buf u"
  shows "passes (read_differs (kvdb_lookup (u_mok u)) key 0) (st u m w room n dat) (st u m w room (length x) x)"
proof (rule passesI)
  fix b
  assume s: "st u m w room n dat b"
  then have "stocked u (b_db b) m w room" by (simp add: st_def)
  from stocked_lookup [where vlen = "Some n" and val = "Some (b_val b)", OF this assms(1,2)] s assms(3,5) obtain val' db' where
    "kvdb_lookup (u_mok u) (b_db b) key (Some (b_val b)) (Some n) = Some (Inr (0, (val', Some (length x)), db'))"
    "stocked u db' m w room" "same_buf val' (Some (b_val b))" "buf_holds val' (take n x)"
    by (auto simp: buf_ok_def st_def)
  with s assms(4) show "\<exists>b'. read_differs (kvdb_lookup (u_mok u)) key 0 b = Some (Inr (False, b')) \<and> st u m w room (length x) x b'"
    by (auto simp: read_differs_def st_def same_buf_def buf_holds_def)
qed

lemma passes_miss:
  assumes "usable u" and "key \<in> u_keys u" and "m key = None" and "n \<le> u_buf u"
  shows "passes (read_differs (kvdb_lookup (u_mok u)) key 1) (st u m w room n dat) (st u m w room n [])"
proof (rule passesI)
  fix b
  assume s: "st u m w room n dat b"
  then have "stocked u (b_db b) m w room" by (simp add: st_def)
  from stocked_lookup [where vlen = "Some n" and val = "Some (b_val b)", OF this assms(1,2)] s assms(3,4) obtain val' db' where
    "kvdb_lookup (u_mok u) (b_db b) key (Some (b_val b)) (Some n) = Some (Inr (1, (val', Some n), db'))"
    "stocked u db' m w room" "same_buf val' (Some (b_val b))"
    by (auto simp: buf_ok_def st_def)
  with s show "\<exists>b'. read_differs (kvdb_lookup (u_mok u)) key 1 b = Some (Inr (False, b')) \<and> st u m w room n [] b'"
    by (auto simp: read_differs_def st_def same_buf_def)
qed

lemma passes_null:
  assumes "usable u" and "key \<in> u_keys u" and "m key = None" and "n = 0"
  shows "passes (null_differs (u_mok u) key with_len 1) (st u m w room n dat) (st u m w room n dat)"
proof (rule passesI)
  fix b
  assume s: "st u m w room n dat b"
  then have "stocked u (b_db b) m w room" by (simp add: st_def)
  from stocked_lookup [where vlen = "if with_len then Some (b_len b) else None" and val = None, OF this assms(1,2)] s assms(3,4)
  obtain val' db' where
    "kvdb_lookup (u_mok u) (b_db b) key None (if with_len then Some (b_len b) else None) =
      Some (Inr (1, (val', if with_len then Some (b_len b) else None), db'))" "stocked u db' m w room"
    by (cases with_len) (auto simp: buf_ok_def st_def)
  with s show "\<exists>b'. null_differs (u_mok u) key with_len 1 b = Some (Inr (False, b')) \<and> st u m w room n dat b'"
    by (auto simp: null_differs_def st_def)
qed

lemma passes_remove:
  assumes "usable u" and "key \<in> u_keys u" and "m key = Some x" and "record_room key [] + room' \<le> room" and "length x \<le> n"
    and "n \<le> u_buf u" and "w' = Suc w"
  shows "passes (read_differs (kvdb_remove (u_mok u)) key 0) (st u m w room n dat) (st u (m(key := None)) w' room' (length x) x)"
proof (rule passesI)
  fix b
  assume s: "st u m w room n dat b"
  then have "stocked u (b_db b) m w room" by (simp add: st_def)
  from stocked_remove [OF this assms(1-5), of "b_val b"] s assms(6) obtain buf' db' where
    "kvdb_remove (u_mok u) (b_db b) key (Some (b_val b)) (Some n) = Some (Inr (0, (Some buf', Some (length x)), db'))"
    "stocked u db' (m(key := None)) (w + 1) room'" "length buf' = length (b_val b)" "take (length x) buf' = x"
    by (auto simp: st_def)
  with s show "\<exists>b'. read_differs (kvdb_remove (u_mok u)) key 0 b = Some (Inr (False, b')) \<and>
      st u (m(key := None)) w' room' (length x) x b'"
    using assms(7) by (auto simp: read_differs_def st_def)
qed

subsection \<open>Chains of conditions\<close>

text \<open>The device that a test leaves behind is as sound as before and has the same geometry.\<close>

definition sound_disk :: "trial \<Rightarrow> device \<Rightarrow> bool" where
  "sound_disk u d \<longleftrightarrow> healthy d \<and> dblock d = u_block u \<and> dsize d = u_disk u"

definition groups_pass :: "trial \<Rightarrow> (nat option \<times> check list) list \<Rightarrow> (bench \<Rightarrow> bool) \<Rightarrow> bool" where
  "groups_pass u gs P \<longleftrightarrow> (\<forall>b. P b \<longrightarrow> (\<exists>d. run_groups gs b = Some (Inr (0, d)) \<and> sound_disk u d))"

lemma kvdb_close_ok:
  assumes "stocked u db m w room"
  shows "\<exists>d. kvdb_close db = Inr d \<and> sound_disk u d"
proof -
  let ?l = "klog (db_raw db)"
  have l: "log_ready ?l" using assms by (simp add: stocked_def db_ok_def kv_ready_def)
  then have c: "core_inv ?l" by (simp add: log_ready_def log_inv_def)
  obtain l1 where l1: "lock ?l = Inr l1" "same_log ?l l1" "core_inv l1" using lock_same [OF c] by blast
  have i: "inflight l1 = None" using fair_lock_idle [OF _ l1(1)] l by (simp add: log_ready_def calm_def)
  then have "worker_step (l1\<lparr>lf_done := True\<rparr>) = Inr (take_item (l1\<lparr>lf_done := True\<rparr>))" by (simp add: worker_step_def)
  moreover have "lf_device (take_item (l1\<lparr>lf_done := True\<rparr>)) = lf_device l1" by (simp add: take_item_def)
  moreover have "sound_disk u (lf_device l1)"
    using core_invD(3) [OF l1(3)] l1(2) assms
    by (simp add: sound_disk_def dev_ok_def same_log_def stocked_def kv_capacity_def log_capacity_def device_size_def)
  ultimately show ?thesis using l1(1) by (simp add: kvdb_close_def kvraw_close_def logfs_close_def)
qed

lemma groups_pass_Nil: "groups_pass u [] (st u m w room n dat)"
  unfolding groups_pass_def
  by (auto simp: st_def dest!: kvdb_close_ok)

lemma groups_pass_Some:
  assumes "passes (any_differs cs) (st u m w room k dat) Q" and "groups_pass u gs Q"
  shows "groups_pass u ((Some k, cs) # gs) (st u m w room n dat)"
  unfolding groups_pass_def
proof (intro allI impI)
  fix b
  assume "st u m w room n dat b"
  then have "st u m w room k dat (b\<lparr>b_len := k\<rparr>)" by (simp add: st_def)
  with assms obtain b' d where
    "any_differs cs (b\<lparr>b_len := k\<rparr>) = Some (Inr (False, b'))" "run_groups gs b' = Some (Inr (0, d))" "sound_disk u d"
    unfolding passes_def groups_pass_def by blast
  then show "\<exists>d. run_groups ((Some k, cs) # gs) b = Some (Inr (0, d)) \<and> sound_disk u d" by simp
qed

lemma groups_pass_None:
  assumes "passes (any_differs cs) P Q" and "groups_pass u gs Q"
  shows "groups_pass u ((None, cs) # gs) P"
  using assms unfolding groups_pass_def passes_def by fastforce

subsection \<open>Opening\<close>

definition env_ok :: "env \<Rightarrow> device \<Rightarrow> bool" where
  "env_ok e d \<longleftrightarrow>
     e_open e = (True, True, True) \<and> e_pth e \<and> length (e_junk e) = dblock d \<and> (\<forall>t. even (e_sch e t) \<and> 2 \<le> e_sch e t) \<and>
     (\<forall>n. e_mok e n) \<and> (\<forall>n. length (e_array e n) = n) \<and> healthy d \<and> 3 < dblock d"

lemma env_ok_again: "env_ok e d \<Longrightarrow> healthy d' \<Longrightarrow> dblock d' = dblock d \<Longrightarrow> env_ok e d'"
  by (simp add: env_ok_def)

definition on_disk :: "bytes set \<Rightarrow> env \<Rightarrow> device \<Rightarrow> nat \<Rightarrow> trial" where
  "on_disk ks e d n = \<lparr>u_keys = ks, u_mok = e_mok e, u_block = dblock d, u_disk = dsize d, u_buf = n\<rparr>"

lemma on_disk_simps [simp]:
  "u_keys (on_disk ks e d n) = ks" "u_mok (on_disk ks e d n) = e_mok e" "u_block (on_disk ks e d n) = dblock d"
  "u_disk (on_disk ks e d n) = dsize d" "u_buf (on_disk ks e d n) = n"
  by (simp_all add: on_disk_def)

lemma kvraw_open_blk: "kvraw_open pathname True (Some d) True junk sch = Inr (Some kv) \<Longrightarrow> kv_blk kv = dblock d"
  by (auto simp: kvraw_open_def logfs_open_def obind_eq_Inr device_block_def split: if_splits dest!: kvraw_append_blk)

lemma open_store_stocked:
  assumes "env_ok e d" and "18 + room \<le> dsize d" and "pathname \<noteq> []"
  shows "\<exists>db. open_store e pathname d = Inr (Some db) \<and> stocked (on_disk ks e d n) db (\<lambda>_. None) 0 room"
proof -
  obtain kv where kv: "kvraw_open pathname True (Some d) True (e_junk e) (e_sch e) = Inr (Some kv)" "kv_ready kv"
    "kv_bytes kv = record_bytes [0] [0] 0" "kv_capacity kv = dsize d" "kv_blk kv = dblock d"
    using kvraw_open_ok [of d "e_junk e" "e_sch e" pathname] assms by (auto simp: env_ok_def dest: kvraw_open_blk)
  then have k: "ksize kv = 18" by (simp add: kv_ready_def META_LEN_def)
  then obtain db where "kvdb_open pathname True True True (Some d) True (e_junk e) (e_sch e) = Inr (Some db)" "db_ok db"
    "db_map db = (\<lambda>_. None)" "db_raw db = kv" "db_index db = index_open" "db_waste db = 0"
    using db_open_ok [OF kv(1,2) _ assms(3)] by auto
  then show ?thesis
    using k kv(4,5) assms(1,2) index_ok_open
    by (auto simp: open_store_def env_ok_def stocked_def few_keys_def kvdb_waste_def index_open_def)
qed

end
