(* ===== verification/Driver_Ref.thy ===== *)
theory Driver_Ref
  imports Driver_Rules
begin

section \<open>The tests pass\<close>

text \<open>
  The tests \<open>basic_logic\<close> and \<open>heavy_rewrite\<close> on their one key, \<open>read_write\<close> on its numbered objects, and the program that runs them
  one after the other on the same device.
\<close>

subsection \<open>One key\<close>

definition at_key :: "bytes option \<Rightarrow> bytes \<rightharpoonup> bytes" where
  "at_key v = (\<lambda>_. None)(KEY := v)"

lemma at_key_simps [simp]:
  "at_key v KEY = v" "(at_key v)(KEY := w) = at_key w" "card (dom (at_key v)) = (if v = None then 0 else 1)"
  by (simp_all add: at_key_def)

lemma at_key_None: "at_key None = (\<lambda>_. None)"
  by (simp add: at_key_def fun_eq_iff)

text \<open>The hash of the key, round by round.\<close>

lemma hash_KEY_rounds:
  "hash_round 75 (hash_init [75, 69, 89, 0]) =
     (3851306475111245848, 13017892073297439529, 8713652512122414635, 3732152846656028600)"
  "hash_round 69 (3851306475111245848, 13017892073297439529, 8713652512122414635, 3732152846656028600) =
     (9954625331081390384, 17995640354291422096, 11510151388718912246, 13522922139680004152)"
  "hash_round 89 (9954625331081390384, 17995640354291422096, 11510151388718912246, 13522922139680004152) =
     (9733592216402154319, 16101736235567563639, 6078376202284959481, 11610529669532531255)"
  "hash_round 0 (9733592216402154319, 16101736235567563639, 6078376202284959481, 11610529669532531255) =
     (9236858241917548556, 14965178957114894147, 8693459429371535848, 3143195666868288881)"
  by (simp_all add: hash_round_def hash_init_def Let_def rotl_def)

lemma table_bound_one: "table_bound (Suc 0) = 147"
  by (simp add: table_bound_def)

lemma usable_KEY:
  assumes "env_ok e d"
  shows "usable (on_disk {KEY} e d n)"
proof -
  have k: "KEY = [75, 69, 89, 0]" by (simp add: KEY_def c_string_def bytes_of_def)
  have "hash_key KEY = 17591948221562715816" by (simp add: k hash_key_def hash_def hash_KEY_rounds)
  then show ?thesis
    using assms by (simp add: usable_def env_ok_def no_wrap_def key_checked_def k KVDB_MAX_KEY_LEN_def table_bound_one)
qed

abbreviation on_key :: "env \<Rightarrow> device \<Rightarrow> nat \<Rightarrow> trial" where "on_key e d n \<equiv> on_disk {KEY} e d n"

text \<open>The rules for a store with at most this key.\<close>

lemmas key_insert_new = passes_insert_new [where m = "at_key None" and key = KEY and u = "on_key e d n" for e d n, OF usable_KEY, simplified]
lemmas key_insert_old = passes_insert_old [where m = "at_key (Some x)" and x = x and key = KEY and u = "on_key e d n" for x e d n, OF usable_KEY, simplified]
lemmas key_replace_none = passes_replace_none [where m = "at_key None" and key = KEY and u = "on_key e d n" for e d n, OF usable_KEY, simplified]
lemmas key_replace_old = passes_replace_old [where m = "at_key (Some x)" and x = x and key = KEY and u = "on_key e d n" for x e d n, OF usable_KEY, simplified]
lemmas key_update_new = passes_update_new [where m = "at_key None" and key = KEY and u = "on_key e d n" for e d n, OF usable_KEY, simplified]
lemmas key_update_old = passes_update_old [where m = "at_key (Some x)" and x = x and key = KEY and u = "on_key e d n" for x e d n, OF usable_KEY, simplified]
lemmas key_hit = passes_hit [where m = "at_key (Some x)" and x = x and key = KEY and u = "on_key e d sz" for x e d sz, OF usable_KEY, simplified]
lemmas key_miss = passes_miss [where m = "at_key None" and key = KEY and u = "on_key e d sz" for e d sz, OF usable_KEY, simplified]
lemmas key_null = passes_null [where m = "at_key None" and key = KEY and u = "on_key e d sz" for e d sz, OF usable_KEY, simplified]
lemmas key_remove = passes_remove [where m = "at_key (Some x)" and x = x and key = KEY and u = "on_key e d sz" for x e d sz, OF usable_KEY, simplified]
lemmas key_size_0 = passes_size [where m = "at_key None" and k = 0, simplified]
lemmas key_size_1 = passes_size [where m = "at_key (Some x)" and k = 1 for x, simplified]

lemmas chain_rules = passes_Cons [OF passes_length] passes_Cons [OF passes_bytes] passes_Cons [OF passes_waste] passes_Nil

subsection \<open>The chains of \<open>basic_logic\<close>\<close>

lemma stored_checks_pass:
  assumes store: "passes (store_differs f KEY data 0) (st (on_key e d 32) m w room 32 dat) (st (on_key e d 32) (at_key (Some data)) w' room1 32 dat)"
    and e: "env_ok e d" and data: "storable data" "length data \<le> 32" and room: "record_room KEY data + room2 \<le> room1"
  shows "passes (any_differs (stored_checks (e_mok e) f data w')) (st (on_key e d 32) m w room 32 dat)
    (st (on_key e d 32) (at_key (Some data)) w' room2 (length data) data)"
  unfolding stored_checks_def
  by (rule passes_Cons [OF store] passes_Cons [OF key_hit [OF e data(2) order_refl]] passes_Cons [OF key_insert_old [OF e data(1) room]]
      passes_Cons [OF key_hit [OF e order_refl data(2)]] passes_Cons [OF key_size_1 [folded One_nat_def]] chain_rules)+

lemma test_values:
  "storable VAL1" "storable VAL2" "storable VAL3" "length VAL1 = 4" "length VAL2 = 5" "length VAL3 = 8" "length KEY = 4"
  by (simp_all add: storable_def VAL1_def VAL2_def VAL3_def KEY_def c_string_def bytes_of_def KVDB_MAX_VAL_LEN_def)

lemma room_KEY: "record_room KEY data = 20 + length data"
  by (simp add: record_room_def META_LEN_def test_values)

lemma basic_groups_pass:
  assumes e: "env_ok e d"
  shows "groups_pass (on_key e d 32) (basic_groups (e_mok e)) (st (on_key e d 32) (at_key None) 0 (8 * 28) n [])"
proof -
  let ?st = "st (on_key e d 32)" and ?mok = "e_mok e"
  have "passes (read_differs (kvdb_remove ?mok) KEY 0) (?st (at_key (Some VAL3)) 2 28 32 dat) (?st (at_key None) 3 0 (length VAL3) VAL3)" for dat
    by (rule key_remove [OF e]) (simp_all add: room_KEY test_values)
  note remove = passes_Cons [OF this]
  have "passes (read_differs (kvdb_lookup ?mok) KEY 1) (?st (at_key None) 3 0 (length VAL3) VAL3) (?st (at_key None) 3 0 (length VAL3) [])"
    by (rule key_miss [OF e]) (simp add: test_values)
  note gone = passes_Cons [OF this]
  have g8: "groups_pass (on_key e d 32) [(Some 32, [read_differs (kvdb_remove ?mok) KEY 0, length_differs VAL3, bytes_differ VAL3,
      read_differs (kvdb_lookup ?mok) KEY 1, size_differs 0, waste_differs 3])] (?st (at_key (Some VAL3)) 2 28 m dat)" for m dat
    by (rule groups_pass_Some [OF _ groups_pass_Nil] remove gone passes_Cons [OF key_size_0] chain_rules)+
  have "passes (read_differs (kvdb_lookup ?mok) KEY 0) (?st (at_key (Some VAL3)) 2 28 32 dat) (?st (at_key (Some VAL3)) 2 28 (length VAL3) VAL3)" for dat
    by (rule key_hit [OF e]) (simp_all add: test_values)
  note hit = passes_Cons [OF this]
  have g7: "groups_pass (on_key e d 32) ((Some 32, [read_differs (kvdb_lookup ?mok) KEY 0, length_differs VAL3, bytes_differ VAL3, size_differs 1,
      waste_differs 2]) # gs) (?st (at_key (Some VAL3)) 2 28 m dat)"
    if "\<And>m dat. groups_pass (on_key e d 32) gs (?st (at_key (Some VAL3)) 2 28 m dat)" for gs m dat
    by (rule groups_pass_Some [OF _ that] hit passes_Cons [OF key_size_1 [folded One_nat_def]] chain_rules)+
  have s6: "passes (any_differs (stored_checks ?mok (kvdb_update ?mok) VAL3 2)) (?st (at_key (Some VAL2)) 1 (3 * 28) 32 dat)
      (?st (at_key (Some VAL3)) 2 28 (length VAL3) VAL3)" for dat
    by (rule stored_checks_pass [OF key_update_old [OF e, where room' = "2 * 28"] e]) (simp_all add: room_KEY test_values)
  have s5: "passes (any_differs (stored_checks ?mok (kvdb_replace ?mok) VAL2 1)) (?st (at_key (Some VAL1)) 0 (5 * 28) 32 dat)
      (?st (at_key (Some VAL2)) 1 (3 * 28) (length VAL2) VAL2)" for dat
    by (rule stored_checks_pass [OF key_replace_old [OF e, where room' = "4 * 28"] e]) (simp_all add: room_KEY test_values)
  have s4: "passes (any_differs (stored_checks ?mok (kvdb_insert ?mok) VAL1 0)) (?st (at_key None) 0 (7 * 28) 32 dat)
      (?st (at_key (Some VAL1)) 0 (5 * 28) (length VAL1) VAL1)" for dat
    by (rule stored_checks_pass [OF key_insert_new [OF e, where room' = "6 * 28"] e]) (simp_all add: room_KEY test_values)
  have s3: "passes (store_differs (kvdb_replace ?mok) KEY VAL1 1) (?st (at_key None) 0 (8 * 28) n dat) (?st (at_key None) 0 (7 * 28) n dat)" for n dat
    by (rule key_replace_none [OF e]) (simp_all add: room_KEY test_values)
  have s2: "passes (null_differs ?mok KEY with_len 1) (?st (at_key None) 0 (8 * 28) 0 dat) (?st (at_key None) 0 (8 * 28) 0 dat)" for with_len dat
    by (rule key_null [OF e, where n = 0, simplified])
  have s1: "passes (read_differs (kvdb_lookup ?mok) KEY 1) (?st (at_key None) 0 (8 * 28) 0 dat) (?st (at_key None) 0 (8 * 28) 0 [])" for dat
    by (rule key_miss [OF e]) simp
  show ?thesis
    unfolding basic_groups_def
    by (rule groups_pass_None [OF _ groups_pass_Some [OF _ groups_pass_None [OF _ groups_pass_Some [OF s4 groups_pass_Some [OF s5
          groups_pass_Some [OF s6 g7 [OF g8]]]]]]]
        passes_Cons [OF key_size_0] passes_Cons [OF s1] passes_Cons [OF s2] passes_Cons [OF s3] chain_rules)+
qed

lemma basic_logic_run:
  assumes e: "env_ok e d" and "242 \<le> dsize d" and "pathname \<noteq> []"
  shows "\<exists>d'. basic_logic e pathname d = Some (Inr (0, d')) \<and> sound_disk (on_key e d 32) d'"
proof -
  obtain db where db: "open_store e pathname d = Inr (Some db)" "stocked (on_key e d 32) db (at_key None) 0 (8 * 28)"
    using open_store_stocked [OF e _ assms(3), of "8 * 28" "{KEY}" 32] assms(2) by (auto simp: at_key_None)
  then have "st (on_key e d 32) (at_key None) 0 (8 * 28) 0 [] \<lparr>b_db = db, b_val = e_array e 32, b_len = 0\<rparr>"
    using e by (simp add: st_def env_ok_def)
  then show ?thesis using basic_groups_pass [OF e, of 0] db(1) by (simp add: basic_logic_def groups_pass_def)
qed

subsection \<open>The rounds of \<open>heavy_rewrite\<close>\<close>

text \<open>A round appends a record of at most 26 bytes, and makes the one before waste.\<close>

definition rewrite_value :: "nat \<Rightarrow> bytes" where "rewrite_value i = c_string (''v'' @ digits i)"

lemma rewrite_value_facts:
  assumes "i < 10000"
  shows "storable (rewrite_value i)" and "length (rewrite_value i) \<le> 6" and "length (rewrite_value i) \<le> 64"
    and "record_room KEY (rewrite_value i) + k * 26 \<le> Suc k * 26"
    and "rewrite_round mok i = [store_differs (kvdb_update mok) KEY (rewrite_value i) 0, read_differs (kvdb_lookup mok) KEY 0,
      length_differs (rewrite_value i), bytes_differ (rewrite_value i), size_differs 1, waste_differs i]"
  using digits_length [OF assms]
  by (simp_all add: storable_def rewrite_value_def c_string_def bytes_of_def KVDB_MAX_VAL_LEN_def room_KEY rewrite_round_def safe_sprintf_def)

lemma rewrite_round_passes:
  assumes e: "env_ok e d" and i: "i < 10000"
    and store: "passes (store_differs (kvdb_update (e_mok e)) KEY (rewrite_value i) 0) (st (on_key e d 64) m w (Suc k * 26) 64 dat)
      (st (on_key e d 64) (at_key (Some (rewrite_value i))) i (k * 26) 64 dat)"
  shows "passes (any_differs (rewrite_round (e_mok e) i)) (st (on_key e d 64) m w (Suc k * 26) 64 dat)
    (st (on_key e d 64) (at_key (Some (rewrite_value i))) i (k * 26) (length (rewrite_value i)) (rewrite_value i))"
  unfolding rewrite_value_facts(5) [OF i]
  by (rule passes_Cons [OF store] passes_Cons [OF key_hit [OF e rewrite_value_facts(3) [OF i] order_refl]]
      passes_Cons [OF key_size_1 [folded One_nat_def]] chain_rules)+

lemma rewrite_groups_pass:
  assumes e: "env_ok e d" and "i + k \<le> 9999"
  shows "groups_pass (on_key e d 64) (map (\<lambda>i. (Some 64, rewrite_round (e_mok e) i)) [Suc i ..< Suc i + k])
    (st (on_key e d 64) (at_key (Some x)) i (k * 26) n dat)"
  using assms(2)
proof (induction k arbitrary: i x n dat)
  case 0
  then show ?case by (simp add: groups_pass_Nil)
next
  case (Suc k)
  have i: "Suc i < 10000" using Suc.prems by simp
  note fact = rewrite_value_facts [OF i]
  note round = rewrite_round_passes [OF e i key_update_old [OF e fact(1) fact(4) refl]]
  have "groups_pass (on_key e d 64) (map (\<lambda>i. (Some 64, rewrite_round (e_mok e) i)) [Suc (Suc i) ..< Suc (Suc i) + k])
      (st (on_key e d 64) (at_key (Some (rewrite_value (Suc i)))) (Suc i) (k * 26) m dat')" for m dat'
    by (rule Suc.IH) (use Suc.prems in simp)
  moreover have "[Suc i ..< Suc i + Suc k] = Suc i # [Suc (Suc i) ..< Suc (Suc i) + k]"
    using upt_conv_Cons [of "Suc i" "Suc i + Suc k"] by (simp del: upt_Suc)
  ultimately show ?case using groups_pass_Some [OF round] by (simp del: upt_Suc)
qed

lemma all_rounds: "(0::nat) # [Suc 0 ..< Suc 0 + 9875] = [0 ..< 9876]"
  using upt_conv_Cons [of 0 9876] unfolding add_Suc by (simp del: upt_Suc upt_rec_numeral)

lemma heavy_rewrite_run:
  assumes e: "env_ok e d" and "18 + 9876 * 26 \<le> dsize d" and "pathname \<noteq> []"
  shows "\<exists>d'. heavy_rewrite e pathname d = Some (Inr (0, d')) \<and> sound_disk (on_key e d 64) d'"
proof -
  let ?group = "\<lambda>i. (Some 64, rewrite_round (e_mok e) i)" and ?u = "on_key e d 64"
  obtain db where db: "open_store e pathname d = Inr (Some db)" "stocked ?u db (at_key None) 0 (Suc 9875 * 26)"
    using open_store_stocked [OF e _ assms(3), of "9876 * 26" "{KEY}" 64] assms(2) by (auto simp: at_key_None)
  have zero: "(0::nat) < 10000" by simp
  note fact = rewrite_value_facts [OF zero]
  note round = rewrite_round_passes [OF e zero key_update_new [OF e fact(1) fact(4)]]
  have "groups_pass ?u (map ?group [Suc 0 ..< Suc 0 + 9875])
      (st ?u (at_key (Some (rewrite_value 0))) 0 (9875 * 26) (length (rewrite_value 0)) (rewrite_value 0))"
    by (rule rewrite_groups_pass [OF e]) simp
  from groups_pass_Some [OF round this]
  have "groups_pass ?u (map ?group (0 # [Suc 0 ..< Suc 0 + 9875])) (st ?u (at_key None) 0 (Suc 9875 * 26) 0 [])"
    unfolding list.map .
  then have g: "groups_pass ?u (map ?group [0 ..< 9876]) (st ?u (at_key None) 0 (Suc 9875 * 26) 0 [])" unfolding all_rounds .
  have "st ?u (at_key None) 0 (Suc 9875 * 26) 0 [] \<lparr>b_db = db, b_val = e_array e 64, b_len = 0\<rparr>"
    using db(2) e by (simp add: st_def env_ok_def)
  with g obtain d' where
    "run_groups (map ?group [0 ..< 9876]) \<lparr>b_db = db, b_val = e_array e 64, b_len = 0\<rparr> = Some (Inr (0, d'))" "sound_disk ?u d'"
    unfolding groups_pass_def by blast
  then show ?thesis unfolding heavy_rewrite_def db(1) lbind_simps option.case by blast
qed

subsection \<open>The objects of \<open>read_write\<close>\<close>

definition object :: "(nat \<Rightarrow> nat \<Rightarrow> nat) \<Rightarrow> nat \<Rightarrow> nat \<Rightarrow> nat \<Rightarrow> bytes \<times> bytes" where
  "object rnd K V i = (case mk_object rnd K V i CHR ''i'' of Inl e \<Rightarrow> ([], []) | Inr kv \<Rightarrow> kv)"

abbreviation object_key where "object_key rnd K V i \<equiv> fst (object rnd K V i)"
abbreviation object_val where "object_val rnd K V i \<equiv> snd (object rnd K V i)"

text \<open>
  What the test needs of \<open>rand\<close>: the \<open>N\<close> keys are different (a number may run into the fill byte after it), and none has a hash so
  close to \<open>2 ^ 64\<close> that its probes wrap around.
\<close>

definition good_objects :: "(nat \<Rightarrow> nat \<Rightarrow> nat) \<Rightarrow> nat \<Rightarrow> nat \<Rightarrow> nat \<Rightarrow> bool" where
  "good_objects rnd N K V \<longleftrightarrow>
     distinct (map (object_key rnd K V) [0 ..< N]) \<and>
     list_all (\<lambda>i. no_wrap (table_bound N) (hash_key (object_key rnd K V i))) [0 ..< N]"

definition sizes_ok :: "nat \<Rightarrow> nat \<Rightarrow> nat \<Rightarrow> bool" where
  "sizes_ok N K V \<longleftrightarrow> N \<le> 10000 \<and> 16 < K \<and> K \<le> 65536 \<and> 16 < V \<and> V \<le> 65536"

lemma mk_object_ok:
  assumes "sizes_ok N K V" and "i < N"
  shows "mk_object rnd K V i CHR ''i'' = Inr (object rnd K V i)"
    and "object_key rnd K V i \<noteq> []" and "length (object_key rnd K V i) < K"
    and "object_val rnd K V i \<noteq> []" and "length (object_val rnd K V i) < V"
proof -
  have i: "length (digits i) \<le> 4" using assms by (intro digits_length) (simp add: sizes_ok_def)
  let ?h = "add64 (rnd (i + 100) 0 * 2 ^ 32) (rnd (i + 100) 1)"
  let ?kn = "MIN_LEN + ?h mod (K - MIN_LEN)" and ?vn = "MIN_LEN + ?h mod (V - MIN_LEN)"
  have len: "MIN_LEN \<le> ?kn" "?kn < K" "MIN_LEN \<le> ?vn" "?vn < V"
    using assms(1) mod_less_divisor [of "K - MIN_LEN" ?h] mod_less_divisor [of "V - MIN_LEN" ?h] unfolding sizes_ok_def MIN_LEN_def
    by linarith+
  obtain key val where m: "mk_object rnd K V i CHR ''i'' = Inr (key, val)" "length key = ?kn" "length val = ?vn"
    using i assms(1) by (auto simp: mk_object_def safe_sprintf_def bytes_of_def Let_def sizes_ok_def MIN_LEN_def)
  then show "mk_object rnd K V i CHR ''i'' = Inr (object rnd K V i)" by (simp add: object_def)
  show "object_key rnd K V i \<noteq> []" "length (object_key rnd K V i) < K" "object_val rnd K V i \<noteq> []" "length (object_val rnd K V i) < V"
    using m len by (auto simp: object_def MIN_LEN_def)
qed

text \<open>The map after \<open>n\<close> insertions.\<close>

fun objects :: "(nat \<Rightarrow> nat \<Rightarrow> nat) \<Rightarrow> nat \<Rightarrow> nat \<Rightarrow> nat \<Rightarrow> bytes \<rightharpoonup> bytes" where
  "objects rnd K V 0 = (\<lambda>_. None)"
| "objects rnd K V (Suc n) = (objects rnd K V n)(object_key rnd K V n \<mapsto> object_val rnd K V n)"

lemma dom_objects: "dom (objects rnd K V n) = object_key rnd K V ` {..< n}"
  by (induction n) (simp_all add: lessThan_Suc del: fun_upd_apply)

lemma objects_facts:
  assumes "good_objects rnd N K V" and "n \<le> N"
  shows "card (dom (objects rnd K V n)) = n" and "\<And>i. i < n \<Longrightarrow> objects rnd K V n (object_key rnd K V i) = Some (object_val rnd K V i)"
    and "\<And>i. n \<le> i \<Longrightarrow> i < N \<Longrightarrow> objects rnd K V n (object_key rnd K V i) = None"
proof -
  have inj: "inj_on (object_key rnd K V) {..< N}"
    using assms(1) by (simp add: good_objects_def distinct_map atLeast0LessThan)
  then have same: "object_key rnd K V i = object_key rnd K V j \<longleftrightarrow> i = j" if "i < N" "j < N" for i j
    using that by (auto simp: inj_on_def)
  have "inj_on (object_key rnd K V) {..< n}" by (rule inj_on_subset [OF inj]) (use assms(2) in auto)
  then show "card (dom (objects rnd K V n)) = n" by (simp add: dom_objects card_image)
  show "objects rnd K V n (object_key rnd K V i) = None" if "n \<le> i" "i < N" for i
  proof -
    have "object_key rnd K V i \<notin> dom (objects rnd K V n)" unfolding dom_objects using same that by fastforce
    then show ?thesis by (simp add: domIff)
  qed
  show "objects rnd K V n (object_key rnd K V i) = Some (object_val rnd K V i)" if "i < n" for i
    using assms(2) that
  proof (induction n)
    case (Suc n)
    show ?case
    proof (cases "i = n")
      case False
      then have "i < n" "object_key rnd K V i \<noteq> object_key rnd K V n" using Suc.prems same by auto
      then show ?thesis using Suc by simp
    qed simp
  qed simp
qed

definition object_keys :: "(nat \<Rightarrow> nat \<Rightarrow> nat) \<Rightarrow> nat \<Rightarrow> nat \<Rightarrow> nat \<Rightarrow> bytes set" where
  "object_keys rnd N K V = object_key rnd K V ` {..< N}"

lemma usable_objects:
  assumes "env_ok e d" and "sizes_ok N K V" and "good_objects rnd N K V"
  shows "usable (on_disk (object_keys rnd N K V) e d n)"
proof -
  have "inj_on (object_key rnd K V) {..< N}" using assms(3) by (simp add: good_objects_def distinct_map atLeast0LessThan)
  then have c: "card (object_keys rnd N K V) = N" by (simp add: object_keys_def card_image)
  have k: "key_checked (object_key rnd K V i)" if "i < N" for i
    using mk_object_ok(2,3) [OF assms(2) that, of rnd] assms(2) by (simp add: key_checked_def KVDB_MAX_KEY_LEN_def sizes_ok_def)
  have w: "no_wrap (table_bound N) (hash_key (object_key rnd K V i))" if "i < N" for i
    using assms(3) that by (simp add: good_objects_def list_all_iff)
  have "finite (object_keys rnd N K V)" by (simp add: object_keys_def)
  moreover have "\<forall>n. e_mok e n" using assms(1) by (simp add: env_ok_def)
  ultimately show ?thesis using k w by (auto simp: usable_def c) (auto simp: object_keys_def)
qed


subsection \<open>The rounds of \<open>read_write\<close>\<close>

definition object_room :: "nat \<Rightarrow> nat \<Rightarrow> nat" where "object_room K V = META_LEN + K + V"

abbreviation on_objects where "on_objects rnd N K V e d \<equiv> on_disk (object_keys rnd N K V) e d V"

lemma round_facts:
  assumes "sizes_ok N K V" and "i < N"
  shows "object_key rnd K V i \<in> object_keys rnd N K V" and "storable (object_val rnd K V i)" and "length (object_val rnd K V i) \<le> V"
    and "record_room (object_key rnd K V i) (object_val rnd K V i) + k * object_room K V \<le> Suc k * object_room K V"
    and "insert_round mok rnd K V i =
      [store_differs (kvdb_insert mok) (object_key rnd K V i) (object_val rnd K V i) 0,
       read_differs (kvdb_lookup mok) (object_key rnd K V i) 0, length_differs (object_val rnd K V i), bytes_differ (object_val rnd K V i),
       size_differs (Suc i), waste_differs 0]"
    and "lookup_round mok rnd N K V i =
      [read_differs (kvdb_lookup mok) (object_key rnd K V i) 0, length_differs (object_val rnd K V i), bytes_differ (object_val rnd K V i),
       size_differs N, waste_differs 0]"
  using mk_object_ok [OF assms, of rnd] assms
  by (auto simp: object_keys_def storable_def sizes_ok_def KVDB_MAX_VAL_LEN_def record_room_def object_room_def
      insert_round_def lookup_round_def split: prod.split)

lemma insert_round_passes:
  assumes e: "env_ok e d" and s: "sizes_ok N K V" and g: "good_objects rnd N K V" and i: "i < N"
  shows "passes (any_differs (insert_round (e_mok e) rnd K V i))
    (st (on_objects rnd N K V e d) (objects rnd K V i) 0 (Suc k * object_room K V) V dat)
    (st (on_objects rnd N K V e d) (objects rnd K V (Suc i)) 0 (k * object_room K V)
      (length (object_val rnd K V i)) (object_val rnd K V i))"
proof -
  let ?u = "on_objects rnd N K V e d" and ?key = "object_key rnd K V i" and ?val = "object_val rnd K V i"
  note u = usable_objects [OF e s g, of V] and f = round_facts [OF s i, where rnd = rnd]
  have key: "?key \<in> u_keys ?u" using f(1) by simp
  have "passes (store_differs (kvdb_insert (u_mok ?u)) ?key ?val 0) (st ?u (objects rnd K V i) 0 (Suc k * object_room K V) V dat)
      (st ?u ((objects rnd K V i)(?key \<mapsto> ?val)) 0 (k * object_room K V) V dat)"
    by (rule passes_insert_new [OF u key f(2,4)]) (use objects_facts(3) [OF g _ order_refl i] i in simp)
  then have store: "passes (store_differs (kvdb_insert (e_mok e)) ?key ?val 0) (st ?u (objects rnd K V i) 0 (Suc k * object_room K V) V dat)
      (st ?u (objects rnd K V (Suc i)) 0 (k * object_room K V) V dat)"
    by simp
  have hit: "passes (read_differs (kvdb_lookup (u_mok ?u)) ?key 0) (st ?u (objects rnd K V (Suc i)) 0 (k * object_room K V) V dat)
      (st ?u (objects rnd K V (Suc i)) 0 (k * object_room K V) (length ?val) ?val)"
    by (rule passes_hit [OF u key]) (use f(3) in simp_all)
  have "Suc i = card (dom (objects rnd K V (Suc i)))" using objects_facts(1) [OF g, of "Suc i"] i by simp
  note size = passes_size [OF this]
  show ?thesis
    unfolding f(5)
    by (rule passes_Cons [OF store] passes_Cons [OF hit [simplified on_disk_simps]] passes_Cons [OF size] chain_rules)+
qed

lemma lookup_round_passes:
  assumes e: "env_ok e d" and s: "sizes_ok N K V" and g: "good_objects rnd N K V" and i: "i < N"
  shows "passes (any_differs (lookup_round (e_mok e) rnd N K V i))
    (st (on_objects rnd N K V e d) (objects rnd K V N) 0 room V dat)
    (st (on_objects rnd N K V e d) (objects rnd K V N) 0 room (length (object_val rnd K V i)) (object_val rnd K V i))"
proof -
  let ?u = "on_objects rnd N K V e d" and ?key = "object_key rnd K V i" and ?val = "object_val rnd K V i"
  note u = usable_objects [OF e s g, of V] and f = round_facts [OF s i, where rnd = rnd]
  have key: "?key \<in> u_keys ?u" using f(1) by simp
  have hit: "passes (read_differs (kvdb_lookup (u_mok ?u)) ?key 0) (st ?u (objects rnd K V N) 0 room V dat)
      (st ?u (objects rnd K V N) 0 room (length ?val) ?val)"
    by (rule passes_hit [OF u key]) (use f(3) objects_facts(2) [OF g order_refl i] in simp_all)
  have "N = card (dom (objects rnd K V N))" using objects_facts(1) [OF g, of N] by simp
  note size = passes_size [OF this]
  show ?thesis
    unfolding f(6)
    by (rule passes_Cons [OF hit [simplified on_disk_simps]] passes_Cons [OF size] chain_rules)+
qed

lemma lookup_groups_pass:
  assumes e: "env_ok e d" and s: "sizes_ok N K V" and g: "good_objects rnd N K V" and "\<forall>j \<in> set js. j < N"
  shows "groups_pass (on_objects rnd N K V e d) (map (\<lambda>j. (Some V, lookup_round (e_mok e) rnd N K V j)) js)
    (st (on_objects rnd N K V e d) (objects rnd K V N) 0 room n dat)"
  using assms(4)
proof (induction js arbitrary: n dat)
  case (Cons j js)
  then have j: "j < N" by simp
  from groups_pass_Some [OF lookup_round_passes [OF e s g j] Cons.IH] Cons.prems show ?case by simp
qed (simp add: groups_pass_Nil)

lemma lookup_order_less: "0 < N \<Longrightarrow> \<forall>j \<in> set (lookup_order rnd N n i). j < N"
  by (induction n arbitrary: i) (auto simp: Let_def)

lemma insert_groups_pass:
  assumes e: "env_ok e d" and s: "sizes_ok N K V" and g: "good_objects rnd N K V"
    and rest: "\<And>n dat. groups_pass (on_objects rnd N K V e d) gs (st (on_objects rnd N K V e d) (objects rnd K V N) 0 0 n dat)"
    and "i + k = N"
  shows "groups_pass (on_objects rnd N K V e d) (map (\<lambda>i. (Some V, insert_round (e_mok e) rnd K V i)) [i ..< N] @ gs)
    (st (on_objects rnd N K V e d) (objects rnd K V i) 0 (k * object_room K V) n dat)"
  using assms(5)
proof (induction k arbitrary: i n dat)
  case 0
  then show ?case using rest by simp
next
  case (Suc k)
  then have i: "i < N" by simp
  have "groups_pass (on_objects rnd N K V e d) (map (\<lambda>i. (Some V, insert_round (e_mok e) rnd K V i)) [Suc i ..< N] @ gs)
      (st (on_objects rnd N K V e d) (objects rnd K V (Suc i)) 0 (k * object_room K V) m dat')" for m dat'
    by (rule Suc.IH) (use Suc.prems in simp)
  from groups_pass_Some [OF insert_round_passes [OF e s g i] this] show ?case
    using upt_conv_Cons [OF i] by (simp del: upt_Suc objects.simps mult_Suc)
qed

lemma read_write_run:
  assumes e: "env_ok e d" and s: "sizes_ok N K V" and g: "good_objects rnd N K V" and n: "0 < N"
    and room: "18 + N * object_room K V \<le> dsize d" and "pathname \<noteq> []"
  shows "\<exists>d'. read_write e (True, True, True) rnd pathname d N K V = Some (Inr (0, d')) \<and> sound_disk (on_objects rnd N K V e d) d'"
proof -
  let ?u = "on_objects rnd N K V e d"
  obtain db where db: "open_store e pathname d = Inr (Some db)" "stocked ?u db (objects rnd K V 0) 0 (N * object_room K V)"
    using open_store_stocked [OF e room assms(6), of "object_keys rnd N K V" V] by auto
  then have s0: "st ?u (objects rnd K V 0) 0 (N * object_room K V) 0 [] \<lparr>b_db = db, b_val = e_array e V, b_len = 0\<rparr>"
    using e by (simp add: st_def env_ok_def)
  note look = lookup_groups_pass [OF e s g lookup_order_less [OF n]]
  show ?thesis
    using insert_groups_pass [OF e s g look, of 0 N] s0 db(1) by (simp add: read_write_def groups_pass_def)
qed

subsection \<open>The program\<close>

lemma sound_disk_same: "sound_disk (on_disk ks e d n) d' \<Longrightarrow> healthy d' \<and> dblock d' = dblock d \<and> dsize d' = dsize d"
  by (simp add: sound_disk_def)

text \<open>
  With a sound device, memory, fair schedules, room for the largest test, and object keys without collisions and wrap-around, the
  five tests pass one after the other on the same device, and \<open>main\<close> returns 0.
\<close>

theorem project4_main_passes:
  assumes e: "\<And>k. env_ok (e k) d" and mem: "\<And>k. mem k = (True, True, True)" and p: "pathname \<noteq> []"
    and room: "18 + 1234 * object_room 1234 1234 \<le> dsize d"
    and g: "good_objects rnd 1 23 23" "good_objects rnd 1234 1234 1234" "good_objects rnd 1234 123 123"
  shows "project4_main e mem rnd [pathname] d = Some (Inr (0,
    [(''basic_logic'', True), (''read_write_single'', True), (''read_write_large'', True), (''read_write_small'', True),
     (''heavy_rewrite'', True)]))"
proof -
  have big: "3063000 < dsize d" using room by (simp add: object_room_def META_LEN_def)
  obtain d1 where d1: "basic_logic (e 0) pathname d = Some (Inr (0, d1))" "healthy d1 \<and> dblock d1 = dblock d \<and> dsize d1 = dsize d"
    using basic_logic_run [OF e _ p, of 0] big by (auto simp: sound_disk_def)
  have e1: "env_ok (e 1) d1" and s1: "sizes_ok 1 23 23" and r1: "18 + 1 * object_room 23 23 \<le> dsize d1"
    using env_ok_again [OF e] d1(2) big by (simp_all add: sizes_ok_def object_room_def META_LEN_def)
  obtain d2 where r: "read_write (e 1) (True, True, True) rnd pathname d1 1 23 23 = Some (Inr (0, d2))"
    "sound_disk (on_objects rnd 1 23 23 (e 1) d1) d2"
    using read_write_run [OF e1 s1 g(1) _ r1 p] by auto
  then have d2: "read_write (e 1) (True, True, True) rnd pathname d1 1 23 23 = Some (Inr (0, d2))"
    "healthy d2 \<and> dblock d2 = dblock d \<and> dsize d2 = dsize d"
    using sound_disk_same [OF r(2)] d1(2) by simp_all
  have e2: "env_ok (e 2) d2" and s2: "sizes_ok 1234 1234 1234" and r2: "18 + 1234 * object_room 1234 1234 \<le> dsize d2"
    using env_ok_again [OF e] d2(2) room by (simp_all add: sizes_ok_def)
  obtain d3 where r: "read_write (e 2) (True, True, True) rnd pathname d2 1234 1234 1234 = Some (Inr (0, d3))"
    "sound_disk (on_objects rnd 1234 1234 1234 (e 2) d2) d3"
    using read_write_run [OF e2 s2 g(2) _ r2 p] by auto
  then have d3: "read_write (e 2) (True, True, True) rnd pathname d2 1234 1234 1234 = Some (Inr (0, d3))"
    "healthy d3 \<and> dblock d3 = dblock d \<and> dsize d3 = dsize d"
    using sound_disk_same [OF r(2)] d2(2) by simp_all
  have e3: "env_ok (e 3) d3" and s3: "sizes_ok 1234 123 123" and r3: "18 + 1234 * object_room 123 123 \<le> dsize d3"
    using env_ok_again [OF e] d3(2) big by (simp_all add: sizes_ok_def object_room_def META_LEN_def)
  obtain d4 where r: "read_write (e 3) (True, True, True) rnd pathname d3 1234 123 123 = Some (Inr (0, d4))"
    "sound_disk (on_objects rnd 1234 123 123 (e 3) d3) d4"
    using read_write_run [OF e3 s3 g(3) _ r3 p] by auto
  then have d4: "read_write (e 3) (True, True, True) rnd pathname d3 1234 123 123 = Some (Inr (0, d4))"
    "healthy d4 \<and> dblock d4 = dblock d \<and> dsize d4 = dsize d"
    using sound_disk_same [OF r(2)] d3(2) by simp_all
  have e4: "env_ok (e 4) d4" and r4: "18 + 9876 * 26 \<le> dsize d4"
    using env_ok_again [OF e] d4(2) big by simp_all
  obtain d5 where d5: "heavy_rewrite (e 4) pathname d4 = Some (Inr (0, d5))" using heavy_rewrite_run [OF e4 r4 p] by blast
  show ?thesis
    using d2(1) d3(1) d4(1) d5
    by (simp add: project4_main_def read_write_single_def read_write_large_def read_write_small_def d1(1) mem)
qed

subsection \<open>Properties\<close>

text \<open>
  On a sound device with a block size above 3 and room for nine small records, with memory and a fair schedule of the
  log's worker, the test \<open>basic_logic\<close> returns 0: every call gives the code, the value, the size and the waste that the
  test expects, across insertion, replacement, update and removal of a key.
\<close>

theorem basic_logic_passes:
  assumes "env_ok e d" and "242 \<le> dsize d" and "pathname \<noteq> []"
  shows "\<exists>d'. basic_logic e pathname d = Some (Inr (0, d'))"
  using basic_logic_run [OF assms] by blast

text \<open>
  With room for its 9876 records, \<open>heavy_rewrite\<close> returns 0: each update is read back, there is one key throughout, and
  after \<open>i\<close> updates of a stored key \<open>i\<close> records are waste.
\<close>

theorem heavy_rewrite_passes:
  assumes "env_ok e d" and "18 + 9876 * 26 \<le> dsize d" and "pathname \<noteq> []"
  shows "\<exists>d'. heavy_rewrite e pathname d = Some (Inr (0, d'))"
  using heavy_rewrite_run [OF assms] by blast


subsection \<open>Witnesses\<close>

definition test_disk :: "nat \<Rightarrow> device" where
  "test_disk n = \<lparr>fd = 3, dsize = n, dblock = 8, dfile = replicate n 0, dio = \<lambda>_ _. True\<rparr>"

definition test_env :: env where
  "test_env = \<lparr>e_mok = \<lambda>_. True, e_open = (True, True, True), e_pth = True, e_junk = replicate 8 0, e_sch = \<lambda>_. 2,
     e_array = \<lambda>n. replicate n 0\<rparr>"

lemma dsize_test_disk: "dsize (test_disk n) = n"
  by (simp add: test_disk_def)

lemma test_env_ok: "n < 2 ^ 64 \<Longrightarrow> env_ok test_env (test_disk n)"
  by (simp add: env_ok_def test_env_def test_disk_def healthy_def)

theorem basic_logic_passes_witness:
  "\<exists>d'. basic_logic test_env ''disk'' (test_disk 256) = Some (Inr (0, d'))"
  using basic_logic_passes [OF test_env_ok, of 256 "''disk''"] by (simp add: dsize_test_disk)

theorem heavy_rewrite_passes_witness:
  "\<exists>d'. heavy_rewrite test_env ''disk'' (test_disk 300000) = Some (Inr (0, d'))"
  using heavy_rewrite_passes [OF test_env_ok, of 300000 "''disk''"] by (simp add: dsize_test_disk)






end
