(* ===== verification/Lexer.thy ===== *)
theory Lexer
  imports Prelude
begin

section \<open>The lexer of the expression compiler (\<open>project-1/lexer.c\<close>)\<close>

text \<open>
  Numbers are a type \<^typ>\<open>'v\<close> and \<open>strtod\<close> is a parameter \<open>sd\<close>: for a string it gives the value and how many
  characters it has read (0 when the string does not begin with a number). Whether \<open>realloc (n)\<close> and
  \<open>malloc (n)\<close> succeed is the parameter \<open>mok\<close>.
\<close>

datatype lexer_token_op = LEXER_OP | OP_VAL | OP_ADD | OP_SUB | OP_MUL | OP_DIV | OP_OPEN | OP_CLOSE

record 'v lexer_token =
  tok_op :: lexer_token_op
  tok_val :: 'v

definition TOKEN_SIZE :: nat where "TOKEN_SIZE = 16"

text \<open>\<open>mktoken\<close>: a token with value 0, appended; the array grows by 100 tokens at a time.\<close>

definition mktoken :: "(nat \<Rightarrow> bool) \<Rightarrow> ('v :: zero) lexer_token list \<Rightarrow> lexer_token_op \<Rightarrow> 'v lexer_token list option" where
  "mktoken mok ts op =
     (if length ts mod 100 = 0 \<and> \<not> mok ((length ts + 100) * TOKEN_SIZE) then None
      else Some (ts @ [\<lparr>tok_op = op, tok_val = 0\<rparr>]))"

text \<open>The loop over \<open>OPERATORS\<close>, which is the string \<open>+-*/()\<close> in the order of the enumeration.\<close>

definition operator_of :: "char \<Rightarrow> lexer_token_op option" where
  "operator_of c =
     (if c = CHR ''+'' then Some OP_ADD else if c = CHR ''-'' then Some OP_SUB
      else if c = CHR ''*'' then Some OP_MUL else if c = CHR ''/'' then Some OP_DIV
      else if c = CHR ''('' then Some OP_OPEN else if c = CHR '')'' then Some OP_CLOSE else None)"

definition isspace :: "char \<Rightarrow> bool" where
  "isspace c \<longleftrightarrow> c = CHR '' '' \<or> of_char c \<in> {9 :: nat, 10, 11, 12, 13}"

definition set_val :: "'v lexer_token list \<Rightarrow> 'v \<Rightarrow> 'v lexer_token list" where
  "set_val ts v = ts[length ts - 1 := (last ts)\<lparr>tok_val := v\<rparr>]"

text \<open>\<open>tokenize\<close>: the return code and the tokens so far.\<close>

function tokenize :: "(nat \<Rightarrow> bool) \<Rightarrow> (string \<Rightarrow> ('v :: zero) \<times> nat) \<Rightarrow> string \<Rightarrow> 'v lexer_token list \<Rightarrow>
    int \<times> 'v lexer_token list" where
  "tokenize mok sd s ts =
     (case s of
        [] \<Rightarrow> (0, ts)
      | c # s' \<Rightarrow>
          (case operator_of c of
             Some op \<Rightarrow> (case mktoken mok ts op of None \<Rightarrow> (-1, ts) | Some ts' \<Rightarrow> tokenize mok sd s' ts')
           | None \<Rightarrow>
               if isspace c then tokenize mok sd s' ts
               else
                 (case mktoken mok ts OP_VAL of
                    None \<Rightarrow> (-1, ts)
                  | Some ts' \<Rightarrow>
                      (case sd s of (v, n) \<Rightarrow>
                         if n = 0 then (-1, set_val ts' v)
                         else tokenize mok sd (drop n s) (set_val ts' v)))))"
  by pat_completeness auto
termination
  by (relation "measure (\<lambda>(mok, sd, s, ts). length s)") auto

declare tokenize.simps [simp del]

definition lexer_open :: "(nat \<Rightarrow> bool) \<Rightarrow> (string \<Rightarrow> ('v :: zero) \<times> nat) \<Rightarrow> string \<Rightarrow>
    'v lexer_token list option outcome" where
  "lexer_open mok sd s =
     (if s = [] then Inl Assert_failed
      else if \<not> mok 16 then Inr None
      else (case tokenize mok sd s [] of (rc, ts) \<Rightarrow> if rc \<noteq> 0 then Inr None else Inr (Some ts)))"

definition lexer_size :: "'v lexer_token list \<Rightarrow> nat" where "lexer_size ts = length ts"

definition lexer_lookup :: "'v lexer_token list \<Rightarrow> nat \<Rightarrow> 'v lexer_token outcome" where
  "lexer_lookup ts i = (if i < lexer_size ts then Inr (ts ! i) else Inl Assert_failed)"

subsection \<open>Printing and reading back\<close>

fun op_char :: "lexer_token_op \<Rightarrow> char" where
  "op_char OP_ADD = CHR ''+''"
| "op_char OP_SUB = CHR ''-''"
| "op_char OP_MUL = CHR ''*''"
| "op_char OP_DIV = CHR ''/''"
| "op_char OP_OPEN = CHR ''(''"
| "op_char OP_CLOSE = CHR '')''"
| "op_char _ = CHR '' ''"

definition proper :: "('v :: zero) lexer_token \<Rightarrow> bool" where
  "proper t \<longleftrightarrow> tok_op t \<noteq> LEXER_OP \<and> (tok_op t \<noteq> OP_VAL \<longrightarrow> tok_val t = 0)"

text \<open>A token as text, followed by one space; \<open>num\<close> prints a number.\<close>

definition token_text :: "('v \<Rightarrow> string) \<Rightarrow> 'v lexer_token \<Rightarrow> string" where
  "token_text num t = (if tok_op t = OP_VAL then num (tok_val t) else [op_char (tok_op t)]) @ '' ''"

definition text_of :: "('v \<Rightarrow> string) \<Rightarrow> 'v lexer_token list \<Rightarrow> string" where
  "text_of num ts = concat (map (token_text num) ts)"

text \<open>
  What is needed of \<open>strtod\<close> and the printer: a printed number does not begin with an operator or a space, and is
  read back whole when a space follows.
\<close>

definition reads_back :: "(string \<Rightarrow> 'v \<times> nat) \<Rightarrow> ('v \<Rightarrow> string) \<Rightarrow> bool" where
  "reads_back sd num \<longleftrightarrow>
     (\<forall>v. num v \<noteq> [] \<and> operator_of (hd (num v)) = None \<and> \<not> isspace (hd (num v)) \<and>
        (\<forall>rest. sd (num v @ CHR '' '' # rest) = (v, length (num v))))"

lemma space_facts [simp]: "operator_of CHR '' '' = None" "isspace CHR '' ''"
  by (simp_all add: operator_of_def isspace_def)

lemma operator_of_op_char: "proper t \<Longrightarrow> tok_op t \<noteq> OP_VAL \<Longrightarrow> operator_of (op_char (tok_op t)) = Some (tok_op t)"
  by (cases "tok_op t") (simp_all add: proper_def operator_of_def)

lemma tokenize_space: "tokenize mok sd (CHR '' '' # s) ts = tokenize mok sd s ts"
  by (subst tokenize.simps) simp

lemma mktoken_ok: "(\<And>n. mok n) \<Longrightarrow> mktoken mok ts op = Some (ts @ [\<lparr>tok_op = op, tok_val = 0\<rparr>])"
  by (simp add: mktoken_def)

lemma tokenize_token:
  assumes "proper t" and "\<And>n. mok n" and "reads_back sd num"
  shows "tokenize mok sd (token_text num t @ s) ts = tokenize mok sd s (ts @ [t])"
proof (cases "tok_op t = OP_VAL")
  case True
  obtain c cs where n: "num (tok_val t) = c # cs" "operator_of c = None" "\<not> isspace c"
    using assms(3) unfolding reads_back_def by (metis list.collapse)
  have sd: "sd (c # cs @ CHR '' '' # s) = (tok_val t, Suc (length cs))"
    using assms(3) n(1) unfolding reads_back_def by (metis append_Cons length_Cons)
  have t: "\<lparr>tok_op = OP_VAL, tok_val = tok_val t\<rparr> = t" using True by (cases t) simp
  have "tokenize mok sd (token_text num t @ s) ts =
      tokenize mok sd (CHR '' '' # s) (ts @ [\<lparr>tok_op = OP_VAL, tok_val = tok_val t\<rparr>])"
    unfolding token_text_def using True n sd
    by (subst tokenize.simps) (simp add: mktoken_ok [where mok = mok, OF assms(2)] set_val_def)
  then have "tokenize mok sd (token_text num t @ s) ts = tokenize mok sd (CHR '' '' # s) (ts @ [t])" unfolding t .
  then show ?thesis by (simp add: tokenize_space)
next
  case False
  have t: "\<lparr>tok_op = tok_op t, tok_val = 0\<rparr> = t" using assms(1) False by (cases t) (simp add: proper_def)
  have "tokenize mok sd (token_text num t @ s) ts = tokenize mok sd (CHR '' '' # s) (ts @ [t])"
    unfolding token_text_def using False operator_of_op_char [OF assms(1) False] t
    by (subst tokenize.simps) (simp add: mktoken_ok [where mok = mok, OF assms(2)])
  then show ?thesis by (simp add: tokenize_space)
qed

lemma tokenize_text:
  assumes "\<forall>t \<in> set us. proper t" and "\<And>n. mok n" and "reads_back sd num"
  shows "tokenize mok sd (text_of num us) ts = (0, ts @ us)"
  using assms(1)
proof (induction us arbitrary: ts)
  case Nil
  then show ?case by (subst tokenize.simps) (simp add: text_of_def)
next
  case (Cons u us)
  then show ?case
    using tokenize_token [where mok = mok and t = u and s = "text_of num us" and ts = ts, OF _ assms(2,3)] by (simp add: text_of_def)
qed

lemma text_of_Nil: "text_of num us = [] \<Longrightarrow> us = []"
  by (cases us) (simp_all add: text_of_def token_text_def)

subsection \<open>Properties\<close>

text \<open>
  C35: printing tokens with a space after each and running the lexer on the text gives back the tokens, for any
  number format that \<open>strtod\<close> reads back.
\<close>

theorem lexer_roundtrip:
  assumes "\<forall>t \<in> set ts. proper t" and "ts \<noteq> []" and "\<And>n. mok n" and "reads_back sd num"
  shows "lexer_open mok sd (text_of num ts) = Inr (Some ts)"
  using tokenize_text [where mok = mok and ts = "[]", OF assms(1,3,4)] assms(2,3) text_of_Nil [of num ts] by (auto simp: lexer_open_def)

text \<open>A \<open>strtod\<close> for the witness: numbers in unary, written with the digit 1.\<close>

definition unary_sd :: "string \<Rightarrow> nat \<times> nat" where
  "unary_sd s = (let n = length (takeWhile (\<lambda>c. c = CHR ''1'') s) in (n - 1, n))"

lemma unary_reads_back: "reads_back unary_sd (\<lambda>n. replicate (Suc n) CHR ''1'')"
  by (simp add: reads_back_def unary_sd_def operator_of_def isspace_def takeWhile_append Let_def)

theorem lexer_roundtrip_witness:
  "lexer_open (\<lambda>_. True) unary_sd ''11 + 1 '' =
     Inr (Some [\<lparr>tok_op = OP_VAL, tok_val = 1\<rparr>, \<lparr>tok_op = OP_ADD, tok_val = 0\<rparr>, \<lparr>tok_op = OP_VAL, tok_val = 0\<rparr>])"
proof -
  let ?ts = "[\<lparr>tok_op = OP_VAL, tok_val = 1 :: nat\<rparr>, \<lparr>tok_op = OP_ADD, tok_val = 0\<rparr>, \<lparr>tok_op = OP_VAL, tok_val = 0\<rparr>]"
  have "text_of (\<lambda>n. replicate (Suc n) CHR ''1'') ?ts = ''11 + 1 ''"
    by (simp add: text_of_def token_text_def)
  with lexer_roundtrip [of ?ts "\<lambda>_. True", OF _ _ _ unary_reads_back] show ?thesis
    by (simp add: proper_def)
qed

end
