(* ===== verification/Parser_Ref.thy ===== *)
theory Parser_Ref
  imports Parser
begin

section \<open>The parser reads exactly its grammar\<close>

text \<open>
  The fuel is enough and more of it changes nothing; the grammar of the comments in \<open>parser.c\<close> as an inductive
  relation between tokens and trees, left-associative; the parser finds the tree of every text of the grammar, and
  nothing else. The last part prints trees with as few parentheses as possible and reads them back.
\<close>

lemmas parse_steps = expr_primary.simps [where n = "Suc n" for n, simplified nat.case]
  expr_unary.simps [where n = "Suc n" for n, simplified nat.case]
  mul_loop.simps [where n = "Suc n" for n, simplified nat.case]
  expr_multiplicative.simps [where n = "Suc n" for n, simplified nat.case]
  add_loop.simps [where n = "Suc n" for n, simplified nat.case]
  expr_additive.simps [where n = "Suc n" for n, simplified nat.case]

lemma parse_zero [simp]: "expr_primary mok 0 p = None" "expr_unary mok 0 p = None" "mul_loop mok 0 p l d = None"
  "expr_multiplicative mok 0 p = None" "add_loop mok 0 p l d = None" "expr_additive mok 0 p = None"
  by (simp_all add: expr_primary.simps expr_unary.simps mul_loop.simps expr_multiplicative.simps add_loop.simps
      expr_additive.simps)

lemma pbind_simps [simp]:
  "pbind None f = None" "pbind (Some (Inl e)) f = Some (Inl e)" "pbind (Some (Inr (d, p))) f = f d p"
  "pbind (ret d p) f = f d p"
  by (simp_all add: pbind_def ret_def)

subsection \<open>Fuel\<close>

definition below :: "'a option \<Rightarrow> 'a option \<Rightarrow> bool" where
  "below r s \<longleftrightarrow> r = None \<or> s = r"

lemma below_rules [intro!]: "below None s" "below r r"
  by (simp_all add: below_def)

lemma below_pbind: "below a b \<Longrightarrow> (\<And>d p. below (f d p) (g d p)) \<Longrightarrow> below (pbind a f) (pbind b g)"
  by (auto simp: below_def pbind_def split: option.splits sum.splits)

lemma below_if: "(c \<Longrightarrow> below a b) \<Longrightarrow> (\<not> c \<Longrightarrow> below a' b') \<Longrightarrow> below (if c then a else a') (if c then b else b')"
  by simp

lemma more_fuel_step:
  "below (expr_primary mok n p) (expr_primary mok (Suc n) p)"
  "below (expr_unary mok n p) (expr_unary mok (Suc n) p)"
  "below (mul_loop mok n p l d) (mul_loop mok (Suc n) p l d)"
  "below (expr_multiplicative mok n p) (expr_multiplicative mok (Suc n) p)"
  "below (add_loop mok n p l d) (add_loop mok (Suc n) p l d)"
  "below (expr_additive mok n p) (expr_additive mok (Suc n) p)"
proof (induction n arbitrary: p l d)
  case (Suc n)
  note IH = Suc
  {
    case 1
    show ?case
      by (subst parse_steps(1) [where n = n], subst parse_steps(1) [where n = "Suc n"]) (auto simp: Let_def intro!: below_pbind below_if IH split: prod.split)
  next
    case 2
    show ?case
      by (subst parse_steps(2) [where n = n], subst parse_steps(2) [where n = "Suc n"]) (auto simp: Let_def intro!: below_pbind below_if IH split: prod.split)
  next
    case 3
    show ?case
      by (subst parse_steps(3) [where n = n], subst parse_steps(3) [where n = "Suc n"]) (auto simp: Let_def intro!: below_pbind below_if IH split: prod.split)
  next
    case 4
    show ?case
      by (subst parse_steps(4) [where n = n], subst parse_steps(4) [where n = "Suc n"]) (auto simp: Let_def intro!: below_pbind below_if IH split: prod.split)
  next
    case 5
    show ?case
      by (subst parse_steps(5) [where n = n], subst parse_steps(5) [where n = "Suc n"]) (auto simp: Let_def intro!: below_pbind below_if IH split: prod.split)
  next
    case 6
    show ?case
      by (subst parse_steps(6) [where n = n], subst parse_steps(6) [where n = "Suc n"]) (auto simp: Let_def intro!: below_pbind below_if IH split: prod.split)
  }
qed auto

lemma more_fuel:
  assumes "\<And>n. below (f n) (f (Suc n))" and "f n = Some r" and "n \<le> m"
  shows "f m = Some r"
  using assms(3)
proof (induction m rule: dec_induct)
  case (step k)
  with assms(1) [of k] show ?case by (simp add: below_def)
qed (rule assms(2))

text \<open>How far a call moves: it keeps the tokens, does not go back, and by at least \<open>k\<close> tokens when it finds a tree.\<close>

definition advances :: "nat \<Rightarrow> 'v parser \<Rightarrow> 'v parse \<Rightarrow> bool" where
  "advances k p r \<longleftrightarrow> r \<noteq> None \<and> (\<forall>d p'. r = Some (Inr (d, p')) \<longrightarrow>
     p_toks p' = p_toks p \<and> p_i p \<le> p_i p' \<and> p_i p' \<le> length (p_toks p) \<and> (d \<noteq> Null \<longrightarrow> p_i p + k \<le> p_i p'))"

definition left_over :: "'v parser \<Rightarrow> nat" where
  "left_over p = length (p_toks p) - p_i p"

lemma advances_pbind:
  assumes "advances k p r"
    and "\<And>d p'. p_toks p' = p_toks p \<Longrightarrow> p_i p \<le> p_i p' \<Longrightarrow> p_i p' \<le> length (p_toks p) \<Longrightarrow>
      (d \<noteq> Null \<Longrightarrow> p_i p + k \<le> p_i p') \<Longrightarrow> advances j q (f d p')"
  shows "advances j q (pbind r f)"
proof -
  obtain o' where r: "r = Some o'" using assms(1) by (auto simp: advances_def)
  show ?thesis
  proof (cases o')
    case (Inl e)
    then show ?thesis by (simp add: r) (simp add: advances_def)
  next
    case (Inr dp)
    obtain d p' where dp: "dp = (d, p')" by (cases dp)
    have "advances j q (f d p')"
      by (rule assms(2)) (use assms(1) in \<open>auto simp: advances_def r Inr dp\<close>)
    then show ?thesis by (simp add: r Inr dp)
  qed
qed

lemma advances_ret [simp]:
  "advances k p (ret d p') \<longleftrightarrow> p_toks p' = p_toks p \<and> p_i p \<le> p_i p' \<and> p_i p' \<le> length (p_toks p) \<and>
     (d \<noteq> Null \<longrightarrow> p_i p + k \<le> p_i p')"
  by (simp add: advances_def ret_def)

lemma state_simps [simp]:
  "p_toks (trace_once m p) = p_toks p" "p_i (trace_once m p) = p_i p"
  "p_toks (snd (mkd mok p)) = p_toks p" "p_i (snd (mkd mok p)) = p_i p"
  "p_toks (forward p) = p_toks p"
  by (simp_all add: trace_once_def mkd_def forward_def)

lemma mkd_state: "mkd mok p = (ok, q) \<Longrightarrow> p_toks q = p_toks p \<and> p_i q = p_i p"
  by (auto simp: mkd_def split: if_splits)

lemma match_inside: "match p op \<Longrightarrow> op \<noteq> LEXER_OP \<Longrightarrow> p_i p < length (p_toks p)"
  by (auto simp: match_def next_token_def split: if_splits)

lemma forward_inside: "p_i p < length (p_toks p) \<Longrightarrow> p_i (forward p) = Suc (p_i p)"
  by (simp add: forward_def)

lemma advances_error: "p_toks q = p_toks p \<Longrightarrow> p_i p \<le> p_i q \<Longrightarrow> p_i q \<le> length (p_toks p) \<Longrightarrow>
    advances k p (operand_error tbl op q)"
  by (simp add: operand_error_def Let_def) (simp add: advances_def)

lemma advances_weaken: "advances j q r \<Longrightarrow> p_toks q = p_toks p \<Longrightarrow> p_i p \<le> p_i q \<Longrightarrow> p_i p + k \<le> p_i q + j \<Longrightarrow> advances k p r"
  by (force simp: advances_def)

lemma forward_i [simp]: "p_i (forward p) = (if p_i p < length (p_toks p) then Suc (p_i p) else p_i p)"
  by (simp add: forward_def)

lemma left_over_forward: "p_i p < length (p_toks p) \<Longrightarrow> 8 * left_over (forward p) + 8 = 8 * left_over p"
  by (simp add: left_over_def)

lemma expr_returns_step:
  "p_i p \<le> length (p_toks p) \<Longrightarrow> 8 * left_over p + 1 \<le> n \<Longrightarrow> advances (Suc 0) p (expr_primary mok n p)"
  "p_i p \<le> length (p_toks p) \<Longrightarrow> 8 * left_over p + 2 \<le> n \<Longrightarrow> advances (Suc 0) p (expr_unary mok n p)"
  "p_i p \<le> length (p_toks p) \<Longrightarrow> 8 * left_over p + 1 \<le> n \<Longrightarrow> advances 0 p (mul_loop mok n p l d)"
  "p_i p \<le> length (p_toks p) \<Longrightarrow> 8 * left_over p + 3 \<le> n \<Longrightarrow> advances (Suc 0) p (expr_multiplicative mok n p)"
  "p_i p \<le> length (p_toks p) \<Longrightarrow> 8 * left_over p + 1 \<le> n \<Longrightarrow> advances 0 p (add_loop mok n p l d)"
  "p_i p \<le> length (p_toks p) \<Longrightarrow> 8 * left_over p + 4 \<le> n \<Longrightarrow> advances (Suc 0) p (expr_additive mok n p)"
proof (induction n arbitrary: p l d)
  case (Suc n)
  note IH = Suc [unfolded One_nat_def]
  {
    case 1
    obtain ok q where q: "mkd mok p = (ok, q)" "p_toks q = p_toks p" "p_i q = p_i p" using mkd_state by (metis surj_pair)
    have inner: "advances (Suc 0) (forward p) (expr_additive mok n (forward p))" if "match p OP_OPEN"
      using 1 match_inside [OF that] by (intro IH(6)) (auto dest: left_over_forward)
    show ?case
      using 1(1) match_inside [of p OP_OPEN] match_inside [of p OP_VAL] q
      by (subst parse_steps(1)) (auto intro!: advances_pbind [OF inner])
  next
    case 2
    obtain ok q where q: "mkd mok p = (ok, q)" "p_toks q = p_toks p" "p_i q = p_i p" using mkd_state by (metis surj_pair)
    have inner: "advances (Suc 0) (forward p) (expr_unary mok n (forward p))" "advances (Suc 0) (forward q) (expr_unary mok n (forward q))"
        if "match p OP_ADD \<or> match p OP_SUB"
      using 2 that match_inside [of p OP_ADD] match_inside [of p OP_SUB] q
      by (auto intro!: IH(2) simp: left_over_def)
    show ?case
      using 2 match_inside [of p OP_ADD] match_inside [of p OP_SUB] q
      by (subst parse_steps(2)) (auto intro!: advances_pbind [OF inner(1)] advances_pbind [OF inner(2)] IH(1))
  next
    case 3
    obtain ok q where q: "mkd mok p = (ok, q)" "p_toks q = p_toks p" "p_i q = p_i p" using mkd_state by (metis surj_pair)
    have inner: "advances (Suc 0) (forward q) (expr_unary mok n (forward q))" if "match p OP_MUL \<or> match p OP_DIV"
      using 3 that match_inside [of p OP_MUL] match_inside [of p OP_DIV] q
      by (intro IH(2)) (auto simp: left_over_def)
    have loop: "advances 0 p' (mul_loop mok n p' l' d')"
      if "match p OP_MUL \<or> match p OP_DIV" "p_toks p' = p_toks p" "p_i p < p_i p'" "p_i p' \<le> length (p_toks p)" for p' l' d'
      using 3 that by (intro IH(3)) (auto simp: left_over_def)
    show ?case
      using 3 match_inside [of p OP_MUL] match_inside [of p OP_DIV] q
      by (subst parse_steps(3))
        (auto simp: Let_def intro!: advances_pbind [OF inner] advances_error advances_pbind [OF loop]
          advances_weaken [where k = 0, OF loop])
  next
    case 4
    have inner: "advances (Suc 0) p (expr_unary mok n p)" using 4 by (intro IH(2)) auto
    have loop: "advances 0 p' (mul_loop mok n p' l' d')"
      if "p_toks p' = p_toks p" "p_i p < p_i p'" "p_i p' \<le> length (p_toks p)" for p' l' d'
      using 4 that by (intro IH(3)) (auto simp: left_over_def)
    show ?case
      by (subst parse_steps(4)) (auto intro!: advances_pbind [OF inner] advances_weaken [where k = "Suc 0", OF loop])
  next
    case 5
    obtain ok q where q: "mkd mok p = (ok, q)" "p_toks q = p_toks p" "p_i q = p_i p" using mkd_state by (metis surj_pair)
    have inner: "advances (Suc 0) (forward q) (expr_multiplicative mok n (forward q))" if "match p OP_ADD \<or> match p OP_SUB"
      using 5 that match_inside [of p OP_ADD] match_inside [of p OP_SUB] q
      by (intro IH(4)) (auto simp: left_over_def)
    have loop: "advances 0 p' (add_loop mok n p' l' d')"
      if "match p OP_ADD \<or> match p OP_SUB" "p_toks p' = p_toks p" "p_i p < p_i p'" "p_i p' \<le> length (p_toks p)" for p' l' d'
      using 5 that by (intro IH(5)) (auto simp: left_over_def)
    show ?case
      using 5 match_inside [of p OP_ADD] match_inside [of p OP_SUB] q
      by (subst parse_steps(5))
        (auto simp: Let_def intro!: advances_pbind [OF inner] advances_error advances_pbind [OF loop]
          advances_weaken [where k = 0, OF loop])
  next
    case 6
    have inner: "advances (Suc 0) p (expr_multiplicative mok n p)" using 6 by (intro IH(4)) auto
    have loop: "advances 0 p' (add_loop mok n p' l' d')"
      if "p_toks p' = p_toks p" "p_i p < p_i p'" "p_i p' \<le> length (p_toks p)" for p' l' d'
      using 6 that by (intro IH(5)) (auto simp: left_over_def)
    show ?case
      by (subst parse_steps(6)) (auto intro!: advances_pbind [OF inner] advances_weaken [where k = "Suc 0", OF loop])
  }
qed auto

lemma expr_returns:
  assumes "p_i p = 0" and "expr_fuel (length (p_toks p)) \<le> n"
  shows "\<exists>r. expr mok n p = Some r"
proof -
  have "advances (Suc 0) p (expr_additive mok n p)"
    using assms by (intro expr_returns_step) (simp_all add: expr_fuel_def left_over_def)
  then show ?thesis by (auto simp: expr_def advances_def)
qed

subsection \<open>The grammar\<close>

fun mul_op :: "lexer_token_op \<Rightarrow> parser_dag_op option" where
  "mul_op OP_MUL = Some DAG_MUL"
| "mul_op OP_DIV = Some DAG_DIV"
| "mul_op _ = None"

fun add_op :: "lexer_token_op \<Rightarrow> parser_dag_op option" where
  "add_op OP_ADD = Some DAG_ADD"
| "add_op OP_SUB = Some DAG_SUB"
| "add_op _ = None"

inductive primary :: "('v :: zero) lexer_token list \<Rightarrow> 'v parser_dag \<Rightarrow> bool"
  and unary :: "('v :: zero) lexer_token list \<Rightarrow> 'v parser_dag \<Rightarrow> bool"
  and multiplicative :: "('v :: zero) lexer_token list \<Rightarrow> 'v parser_dag \<Rightarrow> bool"
  and additive :: "('v :: zero) lexer_token list \<Rightarrow> 'v parser_dag \<Rightarrow> bool"
where
  primary_val: "tok_op t = OP_VAL \<Longrightarrow> primary [t] (Node DAG_VAL (tok_val t) Null Null)"
| primary_paren: "additive w d \<Longrightarrow> tok_op t = OP_OPEN \<Longrightarrow> tok_op u = OP_CLOSE \<Longrightarrow> primary (t # w @ [u]) d"
| unary_primary: "primary w d \<Longrightarrow> unary w d"
| unary_plus: "unary w d \<Longrightarrow> tok_op t = OP_ADD \<Longrightarrow> unary (t # w) d"
| unary_minus: "unary w d \<Longrightarrow> tok_op t = OP_SUB \<Longrightarrow> unary (t # w) (Node DAG_NEG 0 Null d)"
| mul_unary: "unary w d \<Longrightarrow> multiplicative w d"
| mul_binary: "multiplicative v l \<Longrightarrow> unary w r \<Longrightarrow> mul_op (tok_op t) = Some op \<Longrightarrow>
    multiplicative (v @ t # w) (Node op 0 l r)"
| add_mul: "multiplicative w d \<Longrightarrow> additive w d"
| add_binary: "additive v l \<Longrightarrow> multiplicative w r \<Longrightarrow> add_op (tok_op t) = Some op \<Longrightarrow>
    additive (v @ t # w) (Node op 0 l r)"

subsection \<open>The parser finds every tree of the grammar\<close>

definition mono_fuel :: "(nat \<Rightarrow> 'a option) \<Rightarrow> bool" where
  "mono_fuel f \<longleftrightarrow> (\<forall>n. below (f n) (f (Suc n)))"

definition runs :: "(nat \<Rightarrow> 'a option) \<Rightarrow> 'a \<Rightarrow> bool" where
  "runs f r \<longleftrightarrow> (\<exists>n. f n = Some r)"

lemma mono_fuel_parse [intro, simp]:
  "mono_fuel (\<lambda>n. expr_primary mok n p)" "mono_fuel (\<lambda>n. expr_unary mok n p)" "mono_fuel (\<lambda>n. mul_loop mok n p l d)"
  "mono_fuel (\<lambda>n. expr_multiplicative mok n p)" "mono_fuel (\<lambda>n. add_loop mok n p l d)"
  "mono_fuel (\<lambda>n. expr_additive mok n p)" "mono_fuel (\<lambda>n. c)"
  by (auto simp: mono_fuel_def more_fuel_step)

lemma mono_fuel_pbind [intro!]:
  "mono_fuel f \<Longrightarrow> (\<And>d p. mono_fuel (\<lambda>n. g n d p)) \<Longrightarrow> mono_fuel (\<lambda>n. pbind (f n) (g n))"
  by (simp add: mono_fuel_def below_pbind)

lemma mono_fuel_if [intro!]:
  "(c \<Longrightarrow> mono_fuel f) \<Longrightarrow> (\<not> c \<Longrightarrow> mono_fuel g) \<Longrightarrow> mono_fuel (\<lambda>n. if c then f n else g n)"
  by (cases c) simp_all

lemma runs_Suc: "runs (\<lambda>n. f (Suc n)) r \<Longrightarrow> runs f r"
  unfolding runs_def by blast

lemmas parse_runs = runs_Suc [where f = "\<lambda>n. expr_primary mok n p" for mok p] runs_Suc [where f = "\<lambda>n. expr_unary mok n p" for mok p]

lemma runs_const: "c = Some r \<Longrightarrow> runs (\<lambda>n. c) r"
  by (simp add: runs_def)

lemma runs_pbind:
  assumes "runs f (Inr (d, p))" and "runs (\<lambda>n. g n d p) r" and "mono_fuel f" and "mono_fuel (\<lambda>n. g n d p)"
  shows "runs (\<lambda>n. pbind (f n) (g n)) r"
proof -
  obtain m n where m: "f m = Some (Inr (d, p))" and n: "g n d p = Some r"
    using assms(1,2) by (auto simp: runs_def)
  have "f (max m n) = Some (Inr (d, p))" "g (max m n) d p = Some r"
    by (rule more_fuel [of f, OF _ m], use assms(3) in \<open>simp_all add: mono_fuel_def\<close>)
      (rule more_fuel [of "\<lambda>n. g n d p", OF _ n], use assms(4) in \<open>simp_all add: mono_fuel_def\<close>)
  then have "pbind (f (max m n)) (g (max m n)) = Some r" by simp
  then show ?thesis unfolding runs_def by blast
qed

lemma runs_pbind_Inl:
  assumes "runs f (Inl e)"
  shows "runs (\<lambda>n. pbind (f n) (g n)) (Inl e)"
  using assms unfolding runs_def by (metis pbind_simps(2))

fun nodes :: "'v parser_dag \<Rightarrow> nat" where
  "nodes Null = 0"
| "nodes (Node op v l r) = Suc (nodes l + nodes r)"

definition ahead :: "'v parser \<Rightarrow> nat \<Rightarrow> 'v lexer_token list \<Rightarrow> bool" where
  "ahead p k w \<longleftrightarrow> (\<exists>rest. drop (p_i p + k) (p_toks p) = w @ rest)"

definition skip :: "'v parser \<Rightarrow> nat \<Rightarrow> nat \<Rightarrow> 'v parser" where
  "skip p k a = p\<lparr>p_i := p_i p + k, p_allocs := p_allocs p + a\<rparr>"

abbreviation always :: "nat \<Rightarrow> bool" where "always \<equiv> \<lambda>_. True"

lemma skip_simps [simp]:
  "p_i (skip p k a) = p_i p + k" "p_toks (skip p k a) = p_toks p" "skip (skip p k a) k' a' = skip p (k + k') (a + a')"
  "skip p 0 0 = p"
  by (simp_all add: skip_def)

lemma mkd_always: "mkd always p = (True, skip p 0 (Suc 0))"
  by (simp add: mkd_def skip_def)

lemma forward_skip: "p_i p < length (p_toks p) \<Longrightarrow> forward p = skip p (Suc 0) 0"
  by (simp add: forward_def skip_def)

definition tok_at :: "('v :: zero) parser \<Rightarrow> nat \<Rightarrow> 'v lexer_token" where
  "tok_at p k = next_token (skip p k 0)"

lemma next_token_skip [simp]: "next_token (skip p k a) = tok_at p k"
  by (simp add: tok_at_def next_token_def)

lemma match_skip: "match (skip p k a) op \<longleftrightarrow> op = tok_op (tok_at p k)" "match p op \<longleftrightarrow> op = tok_op (tok_at p 0)"
  by (simp_all add: match_def) (simp add: tok_at_def del: next_token_skip)

lemma tok_at_skip [simp]: "tok_at (skip p j a) k = tok_at p (j + k)"
  by (simp add: tok_at_def next_token_def add.assoc del: next_token_skip)

lemma ahead_skip [simp]: "ahead (skip p j a) k w \<longleftrightarrow> ahead p (j + k) w"
  by (simp add: ahead_def add.assoc)

lemma ahead_Cons:
  assumes "ahead p k (t # w)"
  shows "p_i p + k < length (p_toks p)" and "tok_at p k = t" and "ahead p (Suc k) w"
proof -
  obtain rest where r: "drop (p_i p + k) (p_toks p) = t # w @ rest" using assms by (auto simp: ahead_def)
  then show l: "p_i p + k < length (p_toks p)" by (metis drop_all leI list.distinct(1))
  then have "drop (p_i p + k) (p_toks p) = p_toks p ! (p_i p + k) # drop (Suc (p_i p + k)) (p_toks p)"
    by (rule Cons_nth_drop_Suc [symmetric])
  with r l show "tok_at p k = t" "ahead p (Suc k) w"
    by (auto simp: ahead_def tok_at_def next_token_def simp del: next_token_skip)
qed

lemma ahead_append:
  assumes "ahead p k (v @ w)"
  shows "ahead p k v" and "ahead p (k + length v) w"
proof -
  obtain rest where r: "drop (p_i p + k) (p_toks p) = v @ w @ rest" using assms by (auto simp: ahead_def)
  then show "ahead p k v" by (auto simp: ahead_def)
  have "drop (p_i p + (k + length v)) (p_toks p) = drop (length v) (drop (p_i p + k) (p_toks p))"
    by (simp add: ac_simps)
  with r show "ahead p (k + length v) w" by (simp add: ahead_def)
qed

lemma grammar_not_null:
  "primary w d \<Longrightarrow> d \<noteq> Null" "unary w d \<Longrightarrow> d \<noteq> Null" "multiplicative w d \<Longrightarrow> d \<noteq> Null" "additive w d \<Longrightarrow> d \<noteq> Null"
  by (induction rule: primary_unary_multiplicative_additive.inducts) auto

text \<open>A loop that comes back with a tree has seen a token that is not its operator.\<close>

lemma loop_exit:
  "mul_loop mok n p l d = Some (Inr (d', p')) \<Longrightarrow> d' \<noteq> Null \<Longrightarrow> \<not> match p' OP_MUL \<and> \<not> match p' OP_DIV"
  "add_loop mok n p l d = Some (Inr (d', p')) \<Longrightarrow> d' \<noteq> Null \<Longrightarrow> \<not> match p' OP_ADD \<and> \<not> match p' OP_SUB"
proof (induction n arbitrary: p l d d' p')
  case (Suc n)
  note IH = Suc
  {
    case 1
    then show ?case
      by (subst (asm) parse_steps(3))
        (auto simp: Let_def pbind_def ret_def operand_error_def dest: IH(1) split: if_splits prod.splits option.splits sum.splits)
  next
    case 2
    then show ?case
      by (subst (asm) parse_steps(5))
        (auto simp: Let_def pbind_def ret_def operand_error_def dest: IH(2) split: if_splits prod.splits option.splits sum.splits)
  }
qed simp_all

definition settled :: "fault + 'v parser_dag \<times> 'v parser \<Rightarrow> bool" where
  "settled r \<longleftrightarrow> (case r of Inl e \<Rightarrow> True | Inr (d, p) \<Rightarrow> d \<noteq> Null)"

lemma runs_mul_loop_exit:
  "\<not> match p OP_MUL \<Longrightarrow> \<not> match p OP_DIV \<Longrightarrow> runs (\<lambda>n. mul_loop mok n p l d) (Inr (d, p))"
  by (rule runs_Suc) (simp add: parse_steps(3) runs_def ret_def)

lemma runs_add_loop_exit:
  "\<not> match p OP_ADD \<Longrightarrow> \<not> match p OP_SUB \<Longrightarrow> runs (\<lambda>n. add_loop mok n p l d) (Inr (d, p))"
  by (rule runs_Suc) (simp add: parse_steps(5) runs_def ret_def)

lemma runs_mul_loop_step:
  assumes "mul_op (tok_op (tok_at p 0)) = Some op" and "p_i p < length (p_toks p)"
    and "runs (\<lambda>n. expr_unary always n (skip p (Suc 0) (Suc 0))) (Inr (right, q))" and "right \<noteq> Null"
    and "runs (\<lambda>n. mul_loop always n q (Node op 0 left right) (Node op 0 left right)) r" and "settled r"
  shows "runs (\<lambda>n. mul_loop always n p left dag) r"
proof (rule runs_Suc)
  have op: "match p OP_MUL \<or> match p OP_DIV" "op = (if match p OP_MUL then DAG_MUL else DAG_DIV)"
    using assms(1) by (cases "tok_op (tok_at p 0)"; simp add: match_skip)+
  have fw: "forward (skip p 0 (Suc 0)) = skip p (Suc 0) (Suc 0)" using assms(2) by (simp add: forward_skip)
  let ?after = "\<lambda>n dag p'. if dag = Null then ret Null (trace_once ''^'' p') else mul_loop always n p' left dag"
  have tail: "runs (\<lambda>n. pbind (mul_loop always n q (Node op 0 left right) (Node op 0 left right)) (?after n)) r"
  proof (cases r)
    case (Inl e)
    with assms(5) show ?thesis by (simp add: runs_pbind_Inl)
  next
    case (Inr dp)
    obtain d p' where dp: "dp = (d, p')" by (cases dp)
    have d: "d \<noteq> Null" using assms(6) by (simp add: settled_def Inr dp)
    have "\<not> match p' OP_MUL \<and> \<not> match p' OP_DIV"
      using assms(5) loop_exit(1) d unfolding runs_def Inr dp by blast
    then have "runs (\<lambda>n. ?after n d p') (Inr (d, p'))" using d by (simp add: runs_mul_loop_exit)
    with assms(5) show ?thesis unfolding Inr dp
      by (intro runs_pbind [where d = d and p = p']) auto
  qed
  show "runs (\<lambda>n. mul_loop always (Suc n) p left dag) r"
    unfolding parse_steps(3) Let_def mkd_always op(2) [symmetric] using op(1) assms(4)
    by (auto simp: fw intro!: runs_pbind [OF assms(3)] tail)
qed

lemma runs_add_loop_step:
  assumes "add_op (tok_op (tok_at p 0)) = Some op" and "p_i p < length (p_toks p)"
    and "runs (\<lambda>n. expr_multiplicative always n (skip p (Suc 0) (Suc 0))) (Inr (right, q))" and "right \<noteq> Null"
    and "runs (\<lambda>n. add_loop always n q (Node op 0 left right) (Node op 0 left right)) r" and "settled r"
  shows "runs (\<lambda>n. add_loop always n p left dag) r"
proof (rule runs_Suc)
  have op: "match p OP_ADD \<or> match p OP_SUB" "op = (if match p OP_ADD then DAG_ADD else DAG_SUB)"
    using assms(1) by (cases "tok_op (tok_at p 0)"; simp add: match_skip)+
  have fw: "forward (skip p 0 (Suc 0)) = skip p (Suc 0) (Suc 0)" using assms(2) by (simp add: forward_skip)
  let ?after = "\<lambda>n dag p'. if dag = Null then ret Null (trace_once ''^'' p') else add_loop always n p' left dag"
  have tail: "runs (\<lambda>n. pbind (add_loop always n q (Node op 0 left right) (Node op 0 left right)) (?after n)) r"
  proof (cases r)
    case (Inl e)
    with assms(5) show ?thesis by (simp add: runs_pbind_Inl)
  next
    case (Inr dp)
    obtain d p' where dp: "dp = (d, p')" by (cases dp)
    have d: "d \<noteq> Null" using assms(6) by (simp add: settled_def Inr dp)
    have "\<not> match p' OP_ADD \<and> \<not> match p' OP_SUB"
      using assms(5) loop_exit(2) d unfolding runs_def Inr dp by blast
    then have "runs (\<lambda>n. ?after n d p') (Inr (d, p'))" using d by (simp add: runs_add_loop_exit)
    with assms(5) show ?thesis unfolding Inr dp
      by (intro runs_pbind [where d = d and p = p']) auto
  qed
  show "runs (\<lambda>n. add_loop always (Suc n) p left dag) r"
    unfolding parse_steps(5) Let_def mkd_always op(2) [symmetric] using op(1) assms(4)
    by (auto simp: fw intro!: runs_pbind [OF assms(3)] tail)
qed

lemma runs_multiplicative:
  assumes "runs (\<lambda>n. expr_unary mok n p) (Inr (d, q))" and "d \<noteq> Null" and "runs (\<lambda>n. mul_loop mok n q d d) r"
  shows "runs (\<lambda>n. expr_multiplicative mok n p) r"
  by (rule runs_Suc) (use assms(2,3) in \<open>auto simp: parse_steps(4) intro!: runs_pbind [OF assms(1)]\<close>)

lemma runs_additive:
  assumes "runs (\<lambda>n. expr_multiplicative mok n p) (Inr (d, q))" and "d \<noteq> Null" and "runs (\<lambda>n. add_loop mok n q d d) r"
  shows "runs (\<lambda>n. expr_additive mok n p) r"
  by (rule runs_Suc) (use assms(2,3) in \<open>auto simp: parse_steps(6) intro!: runs_pbind [OF assms(1)]\<close>)

text \<open>
  The induction over the grammar. A product is left-associative in the grammar and a loop in the parser, so for a
  product \<open>w\<close> the statement is: whatever the loop does after \<open>w\<close> with the tree of \<open>w\<close>, the call does on \<open>w\<close>.
\<close>

lemma parser_complete:
  "primary w d \<Longrightarrow> (\<forall>p. ahead p 0 w \<longrightarrow>
     runs (\<lambda>n. expr_primary always n p) (Inr (d, skip p (length w) (nodes d))))"
  "unary w d \<Longrightarrow> (\<forall>p. ahead p 0 w \<longrightarrow>
     runs (\<lambda>n. expr_unary always n p) (Inr (d, skip p (length w) (nodes d))))"
  "multiplicative w d \<Longrightarrow> (\<forall>p r. ahead p 0 w \<longrightarrow> settled r \<longrightarrow>
     runs (\<lambda>n. mul_loop always n (skip p (length w) (nodes d)) d d) r \<longrightarrow>
     runs (\<lambda>n. expr_multiplicative always n p) r)"
  "additive w d \<Longrightarrow> (\<forall>p r. ahead p 0 w \<longrightarrow> settled r \<longrightarrow> mul_op (tok_op (tok_at p (length w))) = None \<longrightarrow>
     runs (\<lambda>n. add_loop always n (skip p (length w) (nodes d)) d d) r \<longrightarrow>
     runs (\<lambda>n. expr_additive always n p) r)"
proof (induction rule: primary_unary_multiplicative_additive.inducts)
  case (primary_val t)
  show ?case
  proof (intro allI impI)
    fix p :: "'a parser"
    assume "ahead p 0 [t]"
    note t = ahead_Cons [OF this]
    with primary_val show "runs (\<lambda>n. expr_primary always n p)
        (Inr (Node DAG_VAL (tok_val t) Null Null, skip p (length [t]) (nodes (Node DAG_VAL (tok_val t) Null Null))))"
      by (intro parse_runs) (auto simp: parse_steps(1) match_skip mkd_always forward_skip intro!: runs_const simp: ret_def)
  qed
next
  case (primary_paren w d t u)
  show ?case
  proof (intro allI impI)
    fix p :: "'a parser"
    assume a: "ahead p 0 (t # w @ [u])"
    note t = ahead_Cons [OF a]
    note w = ahead_append [OF t(3)]
    note u = ahead_Cons [OF w(2)]
    let ?q = "skip p (Suc (length w)) (nodes d)"
    have fw: "forward p = skip p (Suc 0) 0" "forward ?q = skip p (length (t # w @ [u])) (nodes d)"
      using t(1) u(1) by (simp_all add: forward_skip)
    have "runs (\<lambda>n. add_loop always n ?q d d) (Inr (d, ?q))"
      using primary_paren(3) u(2) by (intro runs_add_loop_exit) (simp_all add: match_skip)
    then have inner: "runs (\<lambda>n. expr_additive always n (forward p)) (Inr (d, ?q))"
      using primary_paren(4) [rule_format, of "skip p (Suc 0) 0" "Inr (d, ?q)"] primary_paren(3) w(1) u(2)
        grammar_not_null(4) [OF primary_paren(1)] by (simp add: fw settled_def)
    show "runs (\<lambda>n. expr_primary always n p) (Inr (d, skip p (length (t # w @ [u])) (nodes d)))"
      using primary_paren(2,3) t(2) u(2) grammar_not_null(4) [OF primary_paren(1)]
      by (intro parse_runs) (auto simp: parse_steps(1) match_skip fw(2) ret_def
          intro!: runs_pbind [OF inner] runs_const)
  qed
next
  case (unary_primary w d)
  have "tok_op (hd w) \<noteq> OP_ADD \<and> tok_op (hd w) \<noteq> OP_SUB \<and> w \<noteq> []"
    using unary_primary(1) by (cases rule: primary.cases) auto
  then obtain t w' where w: "w = t # w'" "tok_op t \<noteq> OP_ADD" "tok_op t \<noteq> OP_SUB" by (cases w) auto
  show ?case
  proof (intro allI impI)
    fix p :: "'a parser"
    assume a: "ahead p 0 w"
    have "runs (\<lambda>n. expr_primary always n p) (Inr (d, skip p (length w) (nodes d)))"
      using unary_primary(2) a by blast
    with w(2,3) ahead_Cons(2) [OF a [unfolded w(1)]]
    show "runs (\<lambda>n. expr_unary always n p) (Inr (d, skip p (length w) (nodes d)))"
      by (intro parse_runs) (simp add: parse_steps(2) match_skip)
  qed
next
  case (unary_plus w d t)
  show ?case
  proof (intro allI impI)
    fix p :: "'a parser"
    assume a: "ahead p 0 (t # w)"
    note t = ahead_Cons [OF a]
    have fw: "forward p = skip p (Suc 0) 0" using t(1) by (simp add: forward_skip)
    have inner: "runs (\<lambda>n. expr_unary always n (forward p)) (Inr (d, skip p (Suc (length w)) (nodes d)))"
      using unary_plus(3) [rule_format, of "forward p"] t(3) by (simp add: fw)
    show "runs (\<lambda>n. expr_unary always n p) (Inr (d, skip p (length (t # w)) (nodes d)))"
      using unary_plus(2) t(2) grammar_not_null(2) [OF unary_plus(1)]
      by (intro parse_runs) (auto simp: parse_steps(2) match_skip ret_def intro!: runs_pbind [OF inner] runs_const)
  qed
next
  case (unary_minus w d t)
  show ?case
  proof (intro allI impI)
    fix p :: "'a parser"
    assume a: "ahead p 0 (t # w)"
    note t = ahead_Cons [OF a]
    have fw: "forward (skip p 0 (Suc 0)) = skip p (Suc 0) (Suc 0)" using t(1) by (simp add: forward_skip)
    have inner: "runs (\<lambda>n. expr_unary always n (forward (skip p 0 (Suc 0)))) (Inr (d, skip p (Suc (length w)) (Suc (nodes d))))"
      using unary_minus(3) [rule_format, of "skip p (Suc 0) (Suc 0)"] t(3) by (simp add: fw)
    show "runs (\<lambda>n. expr_unary always n p)
        (Inr (Node DAG_NEG 0 Null d, skip p (length (t # w)) (nodes (Node DAG_NEG 0 Null d))))"
      using unary_minus(2) t(2) grammar_not_null(2) [OF unary_minus(1)]
      by (intro parse_runs) (auto simp: parse_steps(2) match_skip ret_def mkd_always intro!: runs_pbind [OF inner] runs_const)
  qed
next
  case (mul_unary w d)
  then show ?case using grammar_not_null(2) [OF mul_unary(1)] by (blast intro: runs_multiplicative)
next
  case (mul_binary v l w r t op)
  show ?case
  proof (intro allI impI)
    fix p :: "'a parser" and res
    assume a: "ahead p 0 (v @ t # w)" and s: "settled res"
      and run: "runs (\<lambda>n. mul_loop always n (skip p (length (v @ t # w)) (nodes (Node op 0 l r))) (Node op 0 l r) (Node op 0 l r)) res"
    note v = ahead_append [OF a]
    note t = ahead_Cons [OF v(2)]
    let ?q = "skip p (length v) (nodes l)"
    have right: "runs (\<lambda>n. expr_unary always n (skip ?q (Suc 0) (Suc 0))) (Inr (r, skip p (length (v @ t # w)) (nodes (Node op 0 l r))))"
      using mul_binary(5) [rule_format, of "skip ?q (Suc 0) (Suc 0)"] t(3) by (simp add: ac_simps)
    have "runs (\<lambda>n. mul_loop always n ?q l l) res"
      using mul_binary(3) t(1,2) grammar_not_null(2) [OF mul_binary(2)] run s
      by (intro runs_mul_loop_step [OF _ _ right]) simp_all
    then show "runs (\<lambda>n. expr_multiplicative always n p) res"
      using mul_binary(4) v(1) s by blast
  qed
next
  case (add_mul w d)
  show ?case
  proof (intro allI impI)
    fix p :: "'a parser" and r
    assume a: "ahead p 0 w" and s: "settled r" and no: "mul_op (tok_op (tok_at p (length w))) = None"
      and run: "runs (\<lambda>n. add_loop always n (skip p (length w) (nodes d)) d d) r"
    have d: "d \<noteq> Null" by (rule grammar_not_null(3) [OF add_mul(1)])
    let ?q = "skip p (length w) (nodes d)"
    have "runs (\<lambda>n. mul_loop always n ?q d d) (Inr (d, ?q))"
      using no by (intro runs_mul_loop_exit) (auto simp: match_skip split: lexer_token_op.splits)
    then have "runs (\<lambda>n. expr_multiplicative always n p) (Inr (d, ?q))"
      using add_mul(2) a d by (simp add: settled_def)
    then show "runs (\<lambda>n. expr_additive always n p) r" using d run by (rule runs_additive)
  qed
next
  case (add_binary v l w r t op)
  show ?case
  proof (intro allI impI)
    fix p :: "'a parser" and res
    assume a: "ahead p 0 (v @ t # w)" and s: "settled res"
      and no: "mul_op (tok_op (tok_at p (length (v @ t # w)))) = None"
      and run: "runs (\<lambda>n. add_loop always n (skip p (length (v @ t # w)) (nodes (Node op 0 l r))) (Node op 0 l r) (Node op 0 l r)) res"
    note v = ahead_append [OF a]
    note t = ahead_Cons [OF v(2)]
    let ?q = "skip p (length v) (nodes l)"
    let ?q' = "skip p (length (v @ t # w)) (nodes (Node op 0 l r))"
    have r: "r \<noteq> Null" by (rule grammar_not_null(3) [OF add_binary(2)])
    have "runs (\<lambda>n. mul_loop always n ?q' r r) (Inr (r, ?q'))"
      using no by (intro runs_mul_loop_exit) (auto simp: match_skip split: lexer_token_op.splits)
    then have right: "runs (\<lambda>n. expr_multiplicative always n (skip ?q (Suc 0) (Suc 0))) (Inr (r, ?q'))"
      using add_binary(5) [rule_format, of "skip ?q (Suc 0) (Suc 0)" "Inr (r, ?q')"] t(3) r by (simp add: ac_simps settled_def)
    have "runs (\<lambda>n. add_loop always n ?q l l) res"
      using add_binary(3) t(1,2) r run s by (intro runs_add_loop_step [OF _ _ right]) simp_all
    moreover have "mul_op (tok_op (tok_at p (length v))) = None"
      using t(2) add_binary(3) by (cases "tok_op t") simp_all
    ultimately show "runs (\<lambda>n. expr_additive always n p) res"
      using add_binary(4) v(1) s by blast
  qed
qed

subsection \<open>The parser finds nothing else\<close>

definition took :: "('v :: zero) parser \<Rightarrow> 'v lexer_token list \<Rightarrow> 'v parser \<Rightarrow> bool" where
  "took p w p' \<longleftrightarrow> p_toks p' = p_toks p \<and> p_i p' = p_i p + length w \<and> drop (p_i p) (p_toks p) = w @ drop (p_i p') (p_toks p)"

lemma took_refl: "p_toks p' = p_toks p \<Longrightarrow> p_i p' = p_i p \<Longrightarrow> took p [] p'"
  by (simp add: took_def)

lemma took_trans: "took p v q \<Longrightarrow> took q w r \<Longrightarrow> took p (v @ w) r"
  by (simp add: took_def)

lemma took_forward:
  assumes "match p op" and "op \<noteq> LEXER_OP" and "p_toks q = p_toks p" and "p_i q = p_i p"
  shows "\<exists>t. tok_op t = op \<and> took p [t] (forward q) \<and> next_token p = t"
proof -
  have l: "p_i p < length (p_toks p)" by (rule match_inside [OF assms(1,2)])
  then have "next_token p = p_toks p ! p_i p" by (simp add: next_token_def)
  moreover have "drop (p_i p) (p_toks p) = p_toks p ! p_i p # drop (Suc (p_i p)) (p_toks p)"
    by (rule Cons_nth_drop_Suc [OF l, symmetric])
  ultimately show ?thesis using assms l by (auto simp: took_def match_def)
qed

lemma pbind_Inr: "pbind r f = Some (Inr x) \<longleftrightarrow> (\<exists>d p. r = Some (Inr (d, p)) \<and> f d p = Some (Inr x))"
  by (auto simp: pbind_def split: option.splits sum.splits)

lemma ret_Inr [simp]: "ret d p = Some (Inr (d', p')) \<longleftrightarrow> d' = d \<and> p' = p"
  by (auto simp: ret_def)

lemma operand_error_Inr: "operand_error tbl op p = Some (Inr (d, p')) \<Longrightarrow> d = Null"
  by (auto simp: operand_error_def Let_def split: if_splits)

lemma mkd_cases: obtains ok q where "mkd mok p = (ok, q)" "p_toks q = p_toks p" "p_i q = p_i p"
  using mkd_state by (metis surj_pair)

lemma parser_sound:
  "expr_primary mok n p = Some (Inr (d, p')) \<Longrightarrow> d \<noteq> Null \<Longrightarrow> \<exists>w. took p w p' \<and> primary w d"
  "expr_unary mok n p = Some (Inr (d, p')) \<Longrightarrow> d \<noteq> Null \<Longrightarrow> \<exists>w. took p w p' \<and> unary w d"
  "mul_loop mok n p l dag = Some (Inr (d, p')) \<Longrightarrow> d \<noteq> Null \<Longrightarrow> multiplicative v dag \<Longrightarrow>
     l = dag \<or> \<not> match p OP_MUL \<and> \<not> match p OP_DIV \<Longrightarrow> \<exists>w. took p w p' \<and> multiplicative (v @ w) d"
  "expr_multiplicative mok n p = Some (Inr (d, p')) \<Longrightarrow> d \<noteq> Null \<Longrightarrow> \<exists>w. took p w p' \<and> multiplicative w d"
  "add_loop mok n p l dag = Some (Inr (d, p')) \<Longrightarrow> d \<noteq> Null \<Longrightarrow> additive v dag \<Longrightarrow>
     l = dag \<or> \<not> match p OP_ADD \<and> \<not> match p OP_SUB \<Longrightarrow> \<exists>w. took p w p' \<and> additive (v @ w) d"
  "expr_additive mok n p = Some (Inr (d, p')) \<Longrightarrow> d \<noteq> Null \<Longrightarrow> \<exists>w. took p w p' \<and> additive w d"
proof (induction n arbitrary: p l d p' dag v)
  case (Suc n)
  note IH = Suc
  {
    case 1
    obtain ok q where q: "mkd mok p = (ok, q)" "p_toks q = p_toks p" "p_i q = p_i p" by (rule mkd_cases)
    consider (val) "match p OP_VAL" | (paren) "\<not> match p OP_VAL" "match p OP_OPEN"
      using 1 by (auto simp: parse_steps(1) split: if_splits)
    then show ?case
    proof cases
      case val
      obtain t where t: "tok_op t = OP_VAL" "took p [t] (forward q)" "next_token p = t"
        using took_forward [OF val _ q(2,3)] by auto
      have "d = Node DAG_VAL (tok_val t) Null Null \<and> p' = forward q"
        using 1 val q t(3) by (auto simp: parse_steps(1) next_token_def split: if_splits)
      with t show ?thesis by (auto intro: primary_val)
    next
      case paren
      obtain p1 where p1: "expr_additive mok n (forward p) = Some (Inr (d, p1))" "match p1 OP_CLOSE" "p' = forward p1"
        using 1 paren by (auto simp: parse_steps(1) pbind_Inr split: if_splits)
      obtain w where w: "took (forward p) w p1" "additive w d" using IH(6) [OF p1(1) 1(2)] by blast
      obtain t where t: "tok_op t = OP_OPEN" "took p [t] (forward p)" using took_forward [OF paren(2) _ refl refl] by auto
      obtain u where u: "tok_op u = OP_CLOSE" "took p1 [u] p'" using took_forward [OF p1(2) _ refl refl] p1(3) by auto
      have "took p (t # w @ [u]) p'" using took_trans [OF took_trans [OF t(2) w(1)] u(2)] by simp
      with primary_paren [OF w(2) t(1) u(1)] show ?thesis by blast
    qed
  next
    case 2
    obtain ok q where q: "mkd mok p = (ok, q)" "p_toks q = p_toks p" "p_i q = p_i p" by (rule mkd_cases)
    consider (plus) "match p OP_ADD" | (minus) "\<not> match p OP_ADD" "match p OP_SUB"
      | (prim) "\<not> match p OP_ADD" "\<not> match p OP_SUB" by blast
    then show ?case
    proof cases
      case plus
      have "expr_unary mok n (forward p) = Some (Inr (d, p'))"
        using 2 plus by (auto simp: parse_steps(2) pbind_Inr split: if_splits)
      then obtain w where w: "took (forward p) w p'" "unary w d" using IH(2) 2(2) by blast
      obtain t where t: "tok_op t = OP_ADD" "took p [t] (forward p)" using took_forward [OF plus _ refl refl] by auto
      have "took p (t # w) p'" using took_trans [OF t(2) w(1)] by simp
      with unary_plus [OF w(2) t(1)] show ?thesis by blast
    next
      case minus
      obtain r where r: "expr_unary mok n (forward q) = Some (Inr (r, p'))" "r \<noteq> Null" "d = Node DAG_NEG 0 Null r"
        using 2 minus q by (auto simp: parse_steps(2) pbind_Inr split: if_splits)
      obtain w where w: "took (forward q) w p'" "unary w r" using IH(2) r(1,2) by blast
      obtain t where t: "tok_op t = OP_SUB" "took p [t] (forward q)" using took_forward [OF minus(2) _ q(2,3)] by auto
      have "took p (t # w) p'" using took_trans [OF t(2) w(1)] by simp
      with unary_minus [OF w(2) t(1)] r(3) show ?thesis by blast
    next
      case prim
      have "expr_primary mok n p = Some (Inr (d, p'))" using 2 prim by (simp add: parse_steps(2))
      then show ?thesis using IH(1) 2(2) unary_primary by blast
    qed
  next
    case (3 p l d p' dag v)
    obtain ok q where q: "mkd mok p = (ok, q)" "p_toks q = p_toks p" "p_i q = p_i p" by (rule mkd_cases)
    show ?case
    proof (cases "match p OP_MUL \<or> match p OP_DIV")
      case False
      then have "d = dag" "p' = p" using 3(1) by (simp_all add: parse_steps(3))
      then show ?thesis using 3(3) took_refl [of p p] by (auto intro!: exI [of _ "[]"])
    next
      case True
      define tk op where "tk = (if match p OP_MUL then OP_MUL else OP_DIV)"
        and "op = (if match p OP_MUL then DAG_MUL else DAG_DIV)"
      have m: "match p tk" "tk \<noteq> LEXER_OP" "mul_op tk = Some op" using True by (auto simp: tk_def op_def)
      obtain r p1 d2 p2 where r: "expr_unary mok n (forward q) = Some (Inr (r, p1))" "r \<noteq> Null"
          "mul_loop mok n p1 (Node op 0 l r) (Node op 0 l r) = Some (Inr (d2, p2))" "d2 \<noteq> Null"
          "mul_loop mok n p2 l d2 = Some (Inr (d, p'))"
        using 3(1,2) True q unfolding parse_steps(3) Let_def op_def [symmetric]
        by (auto simp: pbind_Inr split: if_splits dest: operand_error_Inr)
      obtain w where w: "took (forward q) w p1" "unary w r" using IH(2) r(1,2) by blast
      obtain t where t: "tok_op t = tk" "took p [t] (forward q)" using took_forward [OF m(1,2) q(2,3)] by auto
      have mv: "multiplicative (v @ t # w) (Node op 0 l r)" using 3(3,4) True m(3) t(1) w(2) by (auto intro: mul_binary)
      obtain w' where w': "took p1 w' p2" "multiplicative ((v @ t # w) @ w') d2" using IH(3) [OF r(3,4) mv] by blast
      obtain w'' where w'': "took p2 w'' p'" "multiplicative (((v @ t # w) @ w') @ w'') d"
        using IH(3) [OF r(5) 3(2) w'(2)] loop_exit(1) [OF r(3,4)] by blast
      have "took p (t # w @ w' @ w'') p'"
        using took_trans [OF took_trans [OF took_trans [OF t(2) w(1)] w'(1)] w''(1)] by simp
      with w''(2) show ?thesis by auto
    qed
  next
    case 4
    obtain d1 p1 where r: "expr_unary mok n p = Some (Inr (d1, p1))" "d1 \<noteq> Null" "mul_loop mok n p1 d1 d1 = Some (Inr (d, p'))"
      using 4 by (auto simp: parse_steps(4) pbind_Inr split: if_splits)
    obtain w where w: "took p w p1" "unary w d1" using IH(2) r(1,2) by blast
    obtain w' where "took p1 w' p'" "multiplicative (w @ w') d" using IH(3) [OF r(3) 4(2) mul_unary [OF w(2)]] by blast
    with took_trans [OF w(1)] show ?case by blast
  next
    case (5 p l d p' dag v)
    obtain ok q where q: "mkd mok p = (ok, q)" "p_toks q = p_toks p" "p_i q = p_i p" by (rule mkd_cases)
    show ?case
    proof (cases "match p OP_ADD \<or> match p OP_SUB")
      case False
      then have "d = dag" "p' = p" using 5(1) by (simp_all add: parse_steps(5))
      then show ?thesis using 5(3) took_refl [of p p] by (auto intro!: exI [of _ "[]"])
    next
      case True
      define tk op where "tk = (if match p OP_ADD then OP_ADD else OP_SUB)"
        and "op = (if match p OP_ADD then DAG_ADD else DAG_SUB)"
      have m: "match p tk" "tk \<noteq> LEXER_OP" "add_op tk = Some op" using True by (auto simp: tk_def op_def)
      obtain r p1 d2 p2 where r: "expr_multiplicative mok n (forward q) = Some (Inr (r, p1))" "r \<noteq> Null"
          "add_loop mok n p1 (Node op 0 l r) (Node op 0 l r) = Some (Inr (d2, p2))" "d2 \<noteq> Null"
          "add_loop mok n p2 l d2 = Some (Inr (d, p'))"
        using 5(1,2) True q unfolding parse_steps(5) Let_def op_def [symmetric]
        by (auto simp: pbind_Inr split: if_splits dest: operand_error_Inr)
      obtain w where w: "took (forward q) w p1" "multiplicative w r" using IH(4) r(1,2) by blast
      obtain t where t: "tok_op t = tk" "took p [t] (forward q)" using took_forward [OF m(1,2) q(2,3)] by auto
      have mv: "additive (v @ t # w) (Node op 0 l r)" using 5(3,4) True m(3) t(1) w(2) by (auto intro: add_binary)
      obtain w' where w': "took p1 w' p2" "additive ((v @ t # w) @ w') d2" using IH(5) [OF r(3,4) mv] by blast
      obtain w'' where w'': "took p2 w'' p'" "additive (((v @ t # w) @ w') @ w'') d"
        using IH(5) [OF r(5) 5(2) w'(2)] loop_exit(2) [OF r(3,4)] by blast
      have "took p (t # w @ w' @ w'') p'"
        using took_trans [OF took_trans [OF took_trans [OF t(2) w(1)] w'(1)] w''(1)] by simp
      with w''(2) show ?thesis by auto
    qed
  next
    case 6
    obtain d1 p1 where r: "expr_multiplicative mok n p = Some (Inr (d1, p1))" "d1 \<noteq> Null" "add_loop mok n p1 d1 d1 = Some (Inr (d, p'))"
      using 6 by (auto simp: parse_steps(6) pbind_Inr split: if_splits)
    obtain w where w: "took p w p1" "multiplicative w d1" using IH(4) r(1,2) by blast
    obtain w' where "took p1 w' p'" "additive (w @ w') d" using IH(5) [OF r(3) 6(2) add_mul [OF w(2)]] by blast
    with took_trans [OF w(1)] show ?case by blast
  }
qed simp_all

subsection \<open>From the text to the tree\<close>

lemma set_val_ops: "ts \<noteq> [] \<Longrightarrow> map tok_op (set_val ts v) = map tok_op ts"
  by (induction ts rule: rev_induct) (simp_all add: set_val_def)

lemma mktoken_ops: "mktoken mok ts op = Some ts' \<Longrightarrow> ts' \<noteq> [] \<and> map tok_op ts' = map tok_op ts @ [op]"
  by (auto simp: mktoken_def split: if_splits)

lemma tokenize_ops:
  "LEXER_OP \<notin> set (map tok_op ts) \<Longrightarrow> LEXER_OP \<notin> set (map tok_op (snd (tokenize mok sd s ts)))"
proof (induction mok sd s ts rule: tokenize.induct)
  case (1 mok sd s ts)
  show ?case
  proof (cases s)
    case Nil
    with 1(4) show ?thesis by (subst tokenize.simps) simp
  next
    case (Cons c s')
    note s = Cons
    show ?thesis
    proof (cases "operator_of c")
      case (Some op)
      then have op: "op \<noteq> LEXER_OP" by (auto simp: operator_of_def split: if_splits)
      show ?thesis
      proof (cases "mktoken mok ts op")
        case None
        with 1(4) Some s show ?thesis by (subst tokenize.simps) simp
      next
        case (Some ts')
        note m = Some
        have "LEXER_OP \<notin> set (map tok_op ts')" using mktoken_ops [OF m] 1(4) op by simp
        with 1(3) [OF s \<open>operator_of c = Some op\<close> m] m s \<open>operator_of c = Some op\<close>
        show ?thesis by (subst tokenize.simps) simp
      qed
    next
      case None
      note o = None
      show ?thesis
      proof (cases "isspace c")
        case True
        with 1(1) [OF s o True] 1(4) o s show ?thesis by (subst tokenize.simps) simp
      next
        case False
        show ?thesis
        proof (cases "mktoken mok ts OP_VAL")
          case None
          with 1(4) False o s show ?thesis by (subst tokenize.simps) simp
        next
          case (Some ts')
          obtain v n where sd: "sd s = (v, n)" by (cases "sd s")
          have ts': "LEXER_OP \<notin> set (map tok_op (set_val ts' v))"
            using mktoken_ops [OF Some] 1(4) set_val_ops [of ts' v] by (simp del: set_map)
          show ?thesis
          proof (cases "n = 0")
            case True
            with ts' Some sd False o s show ?thesis by (subst tokenize.simps) simp
          next
            case n: False
            show ?thesis
              using 1(2) [OF s o False Some sd [symmetric] n ts'] Some sd False o s n by (subst tokenize.simps) simp
          qed
        qed
      qed
    qed
  qed
qed

lemma lexer_open_ops: "lexer_open mok sd s = Inr (Some ts) \<Longrightarrow> t \<in> set ts \<Longrightarrow> tok_op t \<noteq> LEXER_OP"
proof -
  assume a: "lexer_open mok sd s = Inr (Some ts)" and t: "t \<in> set ts"
  obtain rc us where u: "tokenize mok sd s [] = (rc, us)" by (cases "tokenize mok sd s []")
  have "us = ts" using a u by (auto simp: lexer_open_def split: if_splits)
  moreover have "LEXER_OP \<notin> set (map tok_op us)" using tokenize_ops [of "[]" mok sd s] u by simp
  ultimately show ?thesis using t by (metis image_eqI set_map)
qed

lemma lexer_open_text: "lexer_open mok sd s = Inr (Some ts) \<Longrightarrow> s \<noteq> []"
  by (auto simp: lexer_open_def split: if_splits)

definition start :: "'v lexer_token list \<Rightarrow> 'v parser" where
  "start ts = \<lparr>p_stop = False, p_i = 0, p_toks = ts, p_allocs = 1, p_trace = []\<rparr>"

lemma start_simps [simp]: "p_i (start ts) = 0" "p_toks (start ts) = ts" "p_trace (start ts) = []"
  by (simp_all add: start_def)

lemma ahead_start [simp]: "ahead (start (w @ v)) 0 w"
  by (simp add: ahead_def)

lemma grammar_nonempty:
  "primary w d \<Longrightarrow> w \<noteq> []" "unary w d \<Longrightarrow> w \<noteq> []" "multiplicative w d \<Longrightarrow> w \<noteq> []" "additive w d \<Longrightarrow> w \<noteq> []"
  by (induction rule: primary_unary_multiplicative_additive.inducts) auto

lemma expr_at_fuel:
  assumes "runs (\<lambda>n. expr_additive mok n p) r" and "p_i p = 0"
  shows "expr mok (expr_fuel (length (p_toks p))) p = Some r"
proof -
  let ?N = "expr_fuel (length (p_toks p))"
  obtain n where n: "expr_additive mok n p = Some r" using assms(1) by (auto simp: runs_def)
  obtain r' where r': "expr mok ?N p = Some r'" using expr_returns [OF assms(2) order_refl, of mok] by blast
  have mono: "\<And>n. below (expr_additive mok n p) (expr_additive mok (Suc n) p)" by (rule more_fuel_step)
  have "expr_additive mok (max n ?N) p = Some r" "expr_additive mok (max n ?N) p = Some r'"
    using r' by (auto simp: expr_def intro: more_fuel [where f = "\<lambda>n. expr_additive mok n p", OF mono n]
        more_fuel [where f = "\<lambda>n. expr_additive mok n p" and n = ?N, OF mono])
  with r' show ?thesis by simp
qed

lemma parser_open_eq:
  assumes "lexer_open lmok sd s = Inr (Some ts)" and "mok 0" and "ts \<noteq> []"
  shows "parser_open lmok mok sd s =
     (case top_expr mok (expr_fuel (length ts)) (start ts) of
        None \<Rightarrow> None
      | Some (Inl e) \<Rightarrow> Some (Inl e)
      | Some (Inr (d, p)) \<Rightarrow> if d = Null then Some (Inr (None, p_trace p @ [''^''])) else Some (Inr (Some d, p_trace p)))"
  using assms lexer_open_text [OF assms(1)] by (simp add: parser_open_def lexer_size_def start_def)

lemma parser_open_complete:
  assumes "lexer_open lmok sd s = Inr (Some ts)" and "additive ts d"
  shows "parser_open lmok always sd s = Some (Inr (Some d, []))"
proof -
  let ?q = "skip (start ts) (length ts) (nodes d)"
  have d: "d \<noteq> Null" by (rule grammar_not_null(4) [OF assms(2)])
  have end_tok: "tok_at (start ts) (length ts) = \<lparr>tok_op = LEXER_OP, tok_val = 0\<rparr>"
    by (simp add: tok_at_def next_token_def del: next_token_skip)
  have "runs (\<lambda>n. add_loop always n ?q d d) (Inr (d, ?q))"
    by (rule runs_add_loop_exit) (simp_all add: match_skip end_tok)
  then have "runs (\<lambda>n. expr_additive always n (start ts)) (Inr (d, ?q))"
    using parser_complete(4) [OF assms(2), rule_format, of "start ts" "Inr (d, ?q)"] ahead_start [of ts "[]"] d
    by (simp add: settled_def end_tok)
  from expr_at_fuel [OF this] have "top_expr always (expr_fuel (length ts)) (start ts) = Some (Inr (d, ?q))"
    using d by (simp add: top_expr_def match_skip end_tok ret_def)
  then show ?thesis
    using parser_open_eq [OF assms(1), of always] grammar_nonempty(4) [OF assms(2)] d by (simp add: skip_def)
qed

lemma parser_open_sound:
  assumes "lexer_open lmok sd s = Inr (Some ts)" and "parser_open lmok mok sd s = Some (Inr (Some d, tr))"
  shows "additive ts d"
proof -
  have ts: "mok 0 \<and> ts \<noteq> []"
    using assms lexer_open_text [OF assms(1)] by (auto simp: parser_open_def lexer_size_def split: if_splits)
  obtain p where p: "top_expr mok (expr_fuel (length ts)) (start ts) = Some (Inr (d, p))" "d \<noteq> Null"
    using assms(2) parser_open_eq [OF assms(1)] ts by (auto split: option.splits sum.splits prod.splits if_splits)
  then have e: "expr_additive mok (expr_fuel (length ts)) (start ts) = Some (Inr (d, p))" "match p LEXER_OP"
    by (auto simp: top_expr_def pbind_Inr expr_def split: if_splits)
  obtain w where w: "took (start ts) w p" "additive w d" using parser_sound(6) [OF e(1) p(2)] by blast
  have "\<not> p_i p < length ts"
  proof
    assume l: "p_i p < length ts"
    then have "tok_op (ts ! p_i p) = LEXER_OP" using e(2) w(1) by (simp add: match_def next_token_def took_def)
    with lexer_open_ops [OF assms(1)] l show False by (metis nth_mem)
  qed
  with w(1) have "w = ts" by (simp add: took_def)
  with w(2) show ?thesis by simp
qed

lemma parser_open_returns: "parser_open lmok mok sd s \<noteq> None"
proof -
  have top: "top_expr mok (expr_fuel (length ts)) (start ts) \<noteq> None" for ts :: "'a lexer_token list"
    using expr_returns [of "start ts" "expr_fuel (length ts)" mok]
    by (auto simp: top_expr_def pbind_def ret_def split: sum.splits)
  show ?thesis
    unfolding parser_open_def lexer_size_def start_def [symmetric]
    by (auto simp: top split: sum.split option.split)
qed

text \<open>A text that stops after a \<open>+\<close> or \<open>-\<close>: there is no operand, and the parser indexes its table of names out of bounds.\<close>

lemma additive_no_operand:
  assumes "p_i p = length (p_toks p)"
  shows "runs (\<lambda>n. expr_multiplicative mok n p) (Inr (Null, p))"
proof -
  have n: "next_token p = \<lparr>tok_op = LEXER_OP, tok_val = 0\<rparr>" using assms by (simp add: next_token_def)
  have "expr_multiplicative mok 3 p = Some (Inr (Null, p))"
    by (simp add: numeral_3_eq_3 parse_steps match_def n ret_def)
  then show ?thesis by (auto simp: runs_def)
qed

lemma parser_open_overread:
  assumes lex: "lexer_open lmok sd s = Inr (Some (w @ [t]))" and w: "additive w d" and t: "add_op (tok_op t) = Some op"
  shows "parser_open lmok always sd s = Some (Inl Out_of_bounds)"
proof -
  let ?p = "start (w @ [t])" and ?q = "skip (start (w @ [t])) (length w) (nodes d)"
  let ?last = "skip ?p (Suc (length w)) (Suc (nodes d))"
  have tok: "tok_at ?p (length w) = t" by (simp add: tok_at_def next_token_def del: next_token_skip)
  have op: "match ?q OP_ADD \<or> match ?q OP_SUB" "op = (if match ?q OP_ADD then DAG_ADD else DAG_SUB)"
    using t tok by (cases "tok_op t"; simp add: match_skip)+
  have fw: "forward (skip ?q 0 (Suc 0)) = ?last" by (simp add: forward_skip)
  have err: "operand_error [''+'', ''-''] op p = Some (Inl Out_of_bounds)" for p :: "'a parser"
    using op(2) by (simp add: operand_error_def Let_def)
  have "runs (\<lambda>n. expr_multiplicative always n ?last) (Inr (Null, ?last))"
    by (rule additive_no_operand) simp
  then have "runs (\<lambda>n. add_loop always (Suc n) ?q d d) (Inl Out_of_bounds)"
    unfolding parse_steps(5) Let_def mkd_always op(2) [symmetric] using op(1)
    by (auto simp: fw [simplified] intro!: runs_pbind [where d = Null and p = ?last] runs_const err)
  then have "runs (\<lambda>n. add_loop always n ?q d d) (Inl Out_of_bounds)" by (rule runs_Suc)
  moreover have "mul_op (tok_op (tok_at ?p (length w))) = None" using t tok by (cases "tok_op t") simp_all
  ultimately have "runs (\<lambda>n. expr_additive always n ?p) (Inl Out_of_bounds)"
    using parser_complete(4) [OF w, rule_format, of ?p "Inl Out_of_bounds"] by (simp add: settled_def)
  from expr_at_fuel [OF this] have "top_expr always (expr_fuel (length (w @ [t]))) ?p = Some (Inl Out_of_bounds)"
    by (simp add: top_expr_def)
  then show ?thesis using parser_open_eq [OF lex, of always] by simp
qed

subsection \<open>The trees, printed and read back\<close>

fun well_formed :: "('v :: zero) parser_dag \<Rightarrow> bool" where
  "well_formed Null = False"
| "well_formed (Node op v l r) =
     (case op of
        DAG_NONE \<Rightarrow> False
      | DAG_VAL \<Rightarrow> l = Null \<and> r = Null
      | DAG_NEG \<Rightarrow> v = 0 \<and> l = Null \<and> well_formed r
      | _ \<Rightarrow> v = 0 \<and> well_formed l \<and> well_formed r)"

lemma grammar_well_formed:
  "primary w d \<Longrightarrow> well_formed d" "unary w d \<Longrightarrow> well_formed d"
  "multiplicative w d \<Longrightarrow> well_formed d" "additive w d \<Longrightarrow> well_formed d"
proof (induction rule: primary_unary_multiplicative_additive.inducts)
  case (mul_binary v l w r t op)
  then show ?case by (cases "tok_op t") auto
next
  case (add_binary v l w r t op)
  then show ?case by (cases "tok_op t") auto
qed auto

definition tk :: "lexer_token_op \<Rightarrow> ('v :: zero) lexer_token" where
  "tk op = \<lparr>tok_op = op, tok_val = 0\<rparr>"

definition paren :: "bool \<Rightarrow> ('v :: zero) lexer_token list \<Rightarrow> 'v lexer_token list" where
  "paren b w = (if b then tk OP_OPEN # w @ [tk OP_CLOSE] else w)"

text \<open>
  \<open>unparse k\<close> prints a tree where the grammar asks for a sum (\<open>k = 1\<close>), a product (2) or an operand (3), with
  parentheses where they are needed.
\<close>

fun unparse :: "nat \<Rightarrow> ('v :: zero) parser_dag \<Rightarrow> 'v lexer_token list" where
  "unparse k Null = []"
| "unparse k (Node op v l r) =
     (case op of
        DAG_NONE \<Rightarrow> []
      | DAG_VAL \<Rightarrow> [\<lparr>tok_op = OP_VAL, tok_val = v\<rparr>]
      | DAG_NEG \<Rightarrow> tk OP_SUB # unparse 3 r
      | DAG_MUL \<Rightarrow> paren (2 < k) (unparse 2 l @ tk OP_MUL # unparse 3 r)
      | DAG_DIV \<Rightarrow> paren (2 < k) (unparse 2 l @ tk OP_DIV # unparse 3 r)
      | DAG_ADD \<Rightarrow> paren (1 < k) (unparse 1 l @ tk OP_ADD # unparse 2 r)
      | DAG_SUB \<Rightarrow> paren (1 < k) (unparse 1 l @ tk OP_SUB # unparse 2 r))"

lemma tk_op [simp]: "tok_op (tk op) = op"
  by (simp add: tk_def)

lemma unary_paren: "additive w d \<Longrightarrow> unary (paren True w) d"
  by (simp add: paren_def) (blast intro: unary_primary primary_paren tk_op)

lemma unparse_grammar:
  assumes "well_formed d"
  shows "additive (unparse 1 d) d \<and> multiplicative (unparse 2 d) d \<and> unary (unparse 3 d) d"
  using assms
proof (induction d)
  case (Node op v l r)
  have val: "unary [\<lparr>tok_op = OP_VAL, tok_val = v\<rparr>] (Node DAG_VAL v Null Null)"
    using primary_val [of "\<lparr>tok_op = OP_VAL, tok_val = v\<rparr>"] by (auto intro: unary_primary)
  note sums = mul_unary add_mul unary_paren
  show ?case
  proof (cases op)
    case DAG_VAL
    with Node.prems val show ?thesis by (auto intro: sums)
  next
    case DAG_NEG
    with Node have "unary (tk OP_SUB # unparse 3 r) (Node DAG_NEG 0 Null r)" by (auto intro: unary_minus)
    with Node.prems DAG_NEG show ?thesis by (auto intro: sums)
  next
    case DAG_MUL
    with Node have "multiplicative (unparse 2 l @ tk OP_MUL # unparse 3 r) (Node DAG_MUL 0 l r)" by (auto intro: mul_binary)
    with Node.prems DAG_MUL show ?thesis by (auto intro: sums simp: paren_def [of False])
  next
    case DAG_DIV
    with Node have "multiplicative (unparse 2 l @ tk OP_DIV # unparse 3 r) (Node DAG_DIV 0 l r)" by (auto intro: mul_binary)
    with Node.prems DAG_DIV show ?thesis by (auto intro: sums simp: paren_def [of False])
  next
    case DAG_ADD
    with Node have "additive (unparse 1 l @ tk OP_ADD # unparse 2 r) (Node DAG_ADD 0 l r)" by (auto intro: add_binary)
    with Node.prems DAG_ADD show ?thesis by (auto intro: sums simp: paren_def [of False])
  next
    case DAG_SUB
    with Node have "additive (unparse 1 l @ tk OP_SUB # unparse 2 r) (Node DAG_SUB 0 l r)" by (auto intro: add_binary)
    with Node.prems DAG_SUB show ?thesis by (auto intro: sums simp: paren_def [of False])
  qed (use Node.prems in simp)
qed simp

lemma unparse_proper: "well_formed d \<Longrightarrow> \<forall>t \<in> set (unparse k d). proper t"
proof (induction k d rule: unparse.induct)
  case (2 k op v l r)
  then show ?case by (cases op) (auto simp: paren_def proper_def tk_def)
qed simp

subsection \<open>Properties\<close>

text \<open>
  C4: with memory, \<open>parser_open\<close> gives a tree exactly when the tokens of the text are an expression of the grammar, and
  then that tree; the recursion always ends, and without memory it gives no other tree.
\<close>

theorem parser_open_correct:
  assumes "lexer_open lmok sd s = Inr (Some ts)"
  shows "((\<exists>tr. parser_open lmok (\<lambda>_. True) sd s = Some (Inr (Some d, tr))) \<longleftrightarrow> additive ts d)
    \<and> (parser_open lmok mok sd s = Some (Inr (Some d, tr)) \<longrightarrow> additive ts d)
    \<and> parser_open lmok mok sd s \<noteq> None"
  using parser_open_complete [OF assms] parser_open_sound [OF assms] parser_open_returns by blast

theorem parser_open_correct_witness:
  "additive [\<lparr>tok_op = OP_VAL, tok_val = 1 :: nat\<rparr>, tk OP_MUL, \<lparr>tok_op = OP_VAL, tok_val = 2\<rparr>]
     (Node DAG_MUL 0 (Node DAG_VAL 1 Null Null) (Node DAG_VAL 2 Null Null)) \<and>
   (\<exists>tr. parser_open (\<lambda>_. True) (\<lambda>_. True) unary_sd ''11*111'' =
      Some (Inr (Some (Node DAG_MUL 0 (Node DAG_VAL 1 Null Null) (Node DAG_VAL 2 Null Null)), tr)))"
proof -
  have lex: "lexer_open (\<lambda>_. True) unary_sd ''11*111'' =
      Inr (Some [\<lparr>tok_op = OP_VAL, tok_val = 1 :: nat\<rparr>, tk OP_MUL, \<lparr>tok_op = OP_VAL, tok_val = 2\<rparr>])"
    by code_simp
  have "parser_open (\<lambda>_. True) (\<lambda>_. True) unary_sd ''11*111'' =
      Some (Inr (Some (Node DAG_MUL 0 (Node DAG_VAL 1 Null Null) (Node DAG_VAL 2 Null Null)), []))"
    by code_simp
  with parser_open_correct [OF lex] show ?thesis by blast
qed

text \<open>
  C29: every tree, printed with as few parentheses as the grammar allows, is read back as the same tree, without a message.
\<close>

theorem parser_roundtrip:
  assumes "well_formed d" and "\<And>n. lmok n" and "reads_back sd num"
  shows "parser_open lmok (\<lambda>_. True) sd (text_of num (unparse 1 d)) = Some (Inr (Some d, []))"
proof (rule parser_open_complete)
  have a: "additive (unparse 1 d) d" using unparse_grammar [OF assms(1)] by blast
  then show "additive (unparse 1 d) d" .
  have "unparse 1 d \<noteq> []" by (rule grammar_nonempty(4) [OF a])
  then show "lexer_open lmok sd (text_of num (unparse 1 d)) = Inr (Some (unparse 1 d))"
    using tokenize_text [where mok = lmok and ts = "[]", OF unparse_proper [OF assms(1)] assms(2,3)] assms(2)
      text_of_Nil [of num "unparse 1 d"]
    by (auto simp: lexer_open_def)
qed

theorem parser_roundtrip_witness:
  "parser_open (\<lambda>_. True) (\<lambda>_. True) unary_sd ''1 * ( 11 + 1 ) '' =
     Some (Inr (Some (Node DAG_MUL 0 (Node DAG_VAL 0 Null Null)
       (Node DAG_ADD 0 (Node DAG_VAL 1 Null Null) (Node DAG_VAL 0 Null Null))), []))"
proof -
  let ?d = "Node DAG_MUL 0 (Node DAG_VAL 0 Null Null) (Node DAG_ADD 0 (Node DAG_VAL 1 Null Null) (Node DAG_VAL (0 :: nat) Null Null))"
  have "text_of (\<lambda>n. replicate (Suc n) CHR ''1'') (unparse 1 ?d) = ''1 * ( 11 + 1 ) ''"
    by (simp add: text_of_def token_text_def tk_def paren_def)
  with parser_roundtrip [of ?d "\<lambda>_. True", OF _ _ unary_reads_back] show ?thesis by simp
qed

text \<open>
  An expression followed by \<open>+\<close> or \<open>-\<close> and nothing else is not refused: the parser reads outside the
  table of operator names for its message.
\<close>

theorem parser_reads_outside_table:
  assumes "lexer_open lmok sd s = Inr (Some (w @ [t]))" and "additive w d" and "tok_op t \<in> {OP_ADD, OP_SUB}"
  shows "parser_open lmok (\<lambda>_. True) sd s = Some (Inl Out_of_bounds)"
  using assms(3) parser_open_overread [OF assms(1,2)] by auto

theorem parser_reads_outside_table_witness:
  "parser_open (\<lambda>_. True) (\<lambda>_. True) unary_sd ''1+'' = Some (Inl Out_of_bounds)"
proof -
  have lex: "lexer_open (\<lambda>_. True) unary_sd ''1+'' = Inr (Some ([\<lparr>tok_op = OP_VAL, tok_val = 0 :: nat\<rparr>] @ [tk OP_ADD]))"
    by code_simp
  have "additive [\<lparr>tok_op = OP_VAL, tok_val = 0 :: nat\<rparr>] (Node DAG_VAL 0 Null Null)"
    using primary_val [of "\<lparr>tok_op = OP_VAL, tok_val = 0 :: nat\<rparr>"] by (auto intro: unary_primary mul_unary add_mul)
  from parser_reads_outside_table [OF lex this] show ?thesis by simp
qed

end
