(* ===== verification/Scan.thy ===== *)
theory Scan
  imports Prelude
begin

section \<open>Numbers in text\<close>

text \<open>
  The parts of \<open>scanf\<close> that the programs use: white space, decimal numbers, and the directives of a format. Numbers printed by
  \<open>printf\<close> are the \<open>digits\<close> of the prelude; the lemmas say that they are read back.
\<close>

subsection \<open>Characters\<close>

definition is_space :: "char \<Rightarrow> bool" where
  "is_space c \<longleftrightarrow> c = CHR '' '' \<or> 9 \<le> (of_char c :: nat) \<and> (of_char c :: nat) \<le> 13"

definition is_digit :: "char \<Rightarrow> bool" where
  "is_digit c \<longleftrightarrow> 48 \<le> (of_char c :: nat) \<and> (of_char c :: nat) \<le> 57"

definition digits_value :: "string \<Rightarrow> nat" where
  "digits_value ds = fold (\<lambda>c n. 10 * n + (of_char c - 48)) ds 0"

text \<open>The newline.\<close>

definition NL :: char where "NL = CHR 0x0A"

subsection \<open>Formats\<close>

text \<open>
  \<open>sscanf\<close>, for the directives the programs use: text to be matched, an unsigned number of \<open>w\<close> bits (\<open>%u\<close>, \<open>%llu\<close>), a word of
  at most \<open>k\<close> characters, and a word that is skipped (\<open>%*s\<close>). All but the first skip white space, so the spaces between the
  directives need no model. The result is the values assigned; a number that does not fit is taken modulo \<open>2 ^ w\<close> (C leaves
  it undefined).
\<close>

datatype directive = Lit string | Uint nat | Str nat | Skip
datatype scanned = Num nat | Word string

definition scan_uint :: "nat \<Rightarrow> string \<Rightarrow> (nat \<times> string) option" where
  "scan_uint w s =
     (let t = dropWhile is_space s;
          signed = (t \<noteq> [] \<and> (hd t = CHR ''-'' \<or> hd t = CHR ''+''));
          u = (if signed then tl t else t);
          ds = takeWhile is_digit u;
          v = digits_value ds mod 2 ^ w
      in if ds = [] then None
         else Some (if signed \<and> hd t = CHR ''-'' then (2 ^ w - v) mod 2 ^ w else v, dropWhile is_digit u))"

fun sscanf :: "directive list \<Rightarrow> string \<Rightarrow> scanned list" where
  "sscanf [] s = []"
| "sscanf (Lit l # ds) s = (if take (length l) s = l then sscanf ds (drop (length l) s) else [])"
| "sscanf (Uint w # ds) s = (case scan_uint w s of None \<Rightarrow> [] | Some (n, t) \<Rightarrow> Num n # sscanf ds t)"
| "sscanf (Str k # ds) s =
     (let t = dropWhile is_space s; w = take k (takeWhile (\<lambda>c. \<not> is_space c) t)
      in if w = [] then [] else Word w # sscanf ds (drop (length w) t))"
| "sscanf (Skip # ds) s =
     (let t = dropWhile is_space s; w = takeWhile (\<lambda>c. \<not> is_space c) t
      in if w = [] then [] else sscanf ds (drop (length w) t))"

subsection \<open>Decimal numbers\<close>

lemma digits_are_digits: "c \<in> set (digits n) \<Longrightarrow> is_digit c"
proof (induction n rule: digits.induct)
  case (1 n)
  then show ?case
    by (subst (asm) digits.simps) (auto simp: is_digit_def of_char_of split: if_splits)
qed

lemma digits_nonempty [simp]: "digits n \<noteq> []"
  by (subst digits.simps) simp

lemma digits_value_snoc: "digits_value (ds @ [c]) = 10 * digits_value ds + (of_char c - 48)"
  by (simp add: digits_value_def)

lemma digits_value_digits [simp]: "digits_value (digits n) = n"
proof (induction n rule: digits.induct)
  case (1 n)
  show ?case
  proof (cases "n < 10")
    case True
    then show ?thesis by (subst digits.simps) (simp add: digits_value_def of_char_of)
  next
    case False
    then show ?thesis using 1 by (subst digits.simps) (simp add: digits_value_snoc of_char_of)
  qed
qed

lemma digit_no_space: "is_digit c \<Longrightarrow> \<not> is_space c \<and> c \<noteq> CHR ''-'' \<and> c \<noteq> CHR ''+''"
  by (auto simp: is_digit_def is_space_def)

definition ends_number :: "string \<Rightarrow> bool" where
  "ends_number s \<longleftrightarrow> s = [] \<or> \<not> is_digit (hd s)"

lemma scan_digits:
  assumes "\<forall>c \<in> set ws. is_space c" and "ends_number rest"
  shows "scan_uint w (ws @ digits n @ rest) = Some (n mod 2 ^ w, rest)"
proof -
  obtain c cs where d: "digits n = c # cs" by (cases "digits n") auto
  then have c: "is_digit c" using digits_are_digits [of c n] by simp
  have drop: "dropWhile is_space (ws @ digits n @ rest) = digits n @ rest"
    using assms(1) d digit_no_space [OF c] by (simp add: dropWhile_append2)
  have all: "\<forall>x \<in> set (digits n). is_digit x" using digits_are_digits by blast
  have tk: "takeWhile is_digit (digits n @ rest) = digits n" and dr: "dropWhile is_digit (digits n @ rest) = rest"
    using all assms(2) by (cases rest; simp add: ends_number_def takeWhile_append2 dropWhile_append2)+
  have sg: "\<not> (digits n @ rest \<noteq> [] \<and> (hd (digits n @ rest) = CHR ''-'' \<or> hd (digits n @ rest) = CHR ''+''))"
    using d digit_no_space [OF c] by simp
  show ?thesis
    unfolding scan_uint_def drop Let_def if_not_P [OF sg] tk dr using sg by auto
qed

end
