(* ===== verification/Codegen.thy ===== *)
theory Codegen
  imports Complex_Main Parser_Ref Scan
begin

section \<open>The code generator (\<open>project-1/main.c\<close>)\<close>

text \<open>
  A tree becomes the body of a C function: one declaration of a variable \<open>t<i>\<close> per node, in post-order. The
  generator is modelled as a list of declarations, and \<open>program_text\<close> is the file it prints. Doubles are a type \<open>'v\<close> with
  the arithmetic operations, of which nothing is assumed; \<open>fmt\<close> is how \<open>printf\<close> prints a double for \<open>%f\<close>, \<open>rd\<close> how
  the compiler reads it. What \<open>%f\<close> prints is \<open>print_f\<close> below: six digits after the point, so the constants of the generated
  code are those of the expression rounded to millionths.
\<close>

datatype 'v rhs = Const 'v | Negate int | Times int int | Divide int int | Plus int int | Minus int int

type_synonym 'v stmt = "int \<times> 'v rhs"

text \<open>
  \<open>genFuncBodyFromDag\<close> with the global \<open>varId\<close> (an \<open>int\<close>, here unbounded: it counts nodes) as an argument: the declarations
  it writes, the variable it returns, and \<open>varId\<close> after it.
\<close>

definition node_rhs :: "parser_dag_op \<Rightarrow> 'v \<Rightarrow> int \<Rightarrow> int \<Rightarrow> 'v rhs option" where
  "node_rhs op v leftVarId rightVarId =
     (case op of
        DAG_NONE \<Rightarrow> None
      | DAG_VAL \<Rightarrow> Some (Const v)
      | DAG_NEG \<Rightarrow> Some (Negate rightVarId)
      | DAG_MUL \<Rightarrow> Some (Times leftVarId rightVarId)
      | DAG_DIV \<Rightarrow> Some (Divide leftVarId rightVarId)
      | DAG_ADD \<Rightarrow> Some (Plus leftVarId rightVarId)
      | DAG_SUB \<Rightarrow> Some (Minus leftVarId rightVarId))"

fun genFuncBodyFromDag :: "'v parser_dag \<Rightarrow> int \<Rightarrow> 'v stmt list \<times> int \<times> int" where
  "genFuncBodyFromDag Null varId = ([], -1, varId)"
| "genFuncBodyFromDag (Node op v l r) varId =
     (case genFuncBodyFromDag l varId of (sl, leftVarId, varId) \<Rightarrow>
      case genFuncBodyFromDag r varId of (sr, rightVarId, varId) \<Rightarrow>
        (case node_rhs op v leftVarId rightVarId of
           None \<Rightarrow> (sl @ sr, -1, varId)
         | Some e \<Rightarrow> (sl @ sr @ [(varId, e)], varId, varId + 1)))"

text \<open>The text of the file.\<close>

definition var_text :: "int \<Rightarrow> string" where
  "var_text i = ''t'' @ (if i < 0 then CHR ''-'' # digits (nat (- i)) else digits (nat i))"

fun rhs_text :: "('v \<Rightarrow> string) \<Rightarrow> 'v rhs \<Rightarrow> string" where
  "rhs_text fmt (Const v) = fmt v"
| "rhs_text fmt (Negate r) = ''-1 * '' @ var_text r"
| "rhs_text fmt (Times l r) = var_text l @ '' * '' @ var_text r"
| "rhs_text fmt (Divide l r) = var_text r @ '' ? ('' @ var_text l @ '' / '' @ var_text r @ '') : 0.0''"
| "rhs_text fmt (Plus l r) = var_text l @ '' + '' @ var_text r"
| "rhs_text fmt (Minus l r) = var_text l @ '' - '' @ var_text r"

definition line_end :: string where "line_end = [CHR '';'', CHR 0x0A]"

definition stmt_text :: "('v \<Rightarrow> string) \<Rightarrow> 'v stmt \<Rightarrow> string" where
  "stmt_text fmt s = ''double '' @ var_text (fst s) @ '' = '' @ rhs_text fmt (snd s) @ line_end"

definition program_text :: "('v \<Rightarrow> string) \<Rightarrow> 'v stmt list \<Rightarrow> int \<Rightarrow> string" where
  "program_text fmt ss r =
     ''double evaluate(double (*callback)(double)) {'' @ [CHR 0x0A] @ concat (map (stmt_text fmt) ss) @
     ''return callback('' @ var_text r @ '')'' @ line_end @ ''}'' @ [CHR 0x0A]"

definition generate :: "('v \<Rightarrow> string) \<Rightarrow> 'v parser_dag \<Rightarrow> int \<Rightarrow> string \<times> int" where
  "generate fmt dag varId =
     (case genFuncBodyFromDag dag varId of (ss, valueVarId, varId) \<Rightarrow> (program_text fmt ss valueVarId, varId))"

subsection \<open>What the generated code computes\<close>

text \<open>
  The semantics of the declarations in C. A program that uses an undeclared variable or declares one again has no
  meaning (\<open>None\<close>); the compiler refuses it.
\<close>

fun rhs_value :: "('v \<Rightarrow> string) \<Rightarrow> (string \<Rightarrow> 'v) \<Rightarrow> (int \<Rightarrow> 'v option) \<Rightarrow>
    ('v :: {zero, one, plus, minus, times, inverse, uminus}) rhs \<Rightarrow> 'v option" where
  "rhs_value fmt rd env (Const v) = Some (rd (fmt v))"
| "rhs_value fmt rd env (Negate r) = (case env r of Some y \<Rightarrow> Some ((- 1) * y) | None \<Rightarrow> None)"
| "rhs_value fmt rd env (Times l r) = (case (env l, env r) of (Some x, Some y) \<Rightarrow> Some (x * y) | _ \<Rightarrow> None)"
| "rhs_value fmt rd env (Divide l r) =
     (case (env l, env r) of (Some x, Some y) \<Rightarrow> Some (if y \<noteq> 0 then x / y else 0) | _ \<Rightarrow> None)"
| "rhs_value fmt rd env (Plus l r) = (case (env l, env r) of (Some x, Some y) \<Rightarrow> Some (x + y) | _ \<Rightarrow> None)"
| "rhs_value fmt rd env (Minus l r) = (case (env l, env r) of (Some x, Some y) \<Rightarrow> Some (x - y) | _ \<Rightarrow> None)"

fun exec_body :: "('v \<Rightarrow> string) \<Rightarrow> (string \<Rightarrow> 'v) \<Rightarrow> ('v :: {zero, one, plus, minus, times, inverse, uminus}) stmt list \<Rightarrow>
    (int \<Rightarrow> 'v option) \<Rightarrow> (int \<Rightarrow> 'v option) option" where
  "exec_body fmt rd [] env = Some env"
| "exec_body fmt rd ((i, e) # ss) env =
     (if env i \<noteq> None then None
      else (case rhs_value fmt rd env e of
              None \<Rightarrow> None
            | Some x \<Rightarrow> exec_body fmt rd ss (env (i := Some x))))"

definition run_program :: "('v \<Rightarrow> string) \<Rightarrow> (string \<Rightarrow> 'v) \<Rightarrow> ('v :: {zero, one, plus, minus, times, inverse, uminus}) stmt list \<Rightarrow>
    int \<Rightarrow> ('v \<Rightarrow> 'v) \<Rightarrow> 'v option" where
  "run_program fmt rd ss r callback =
     (case exec_body fmt rd ss (\<lambda>_. None) of
        None \<Rightarrow> None
      | Some env \<Rightarrow> (case env r of None \<Rightarrow> None | Some x \<Rightarrow> Some (callback x)))"

text \<open>The value of a tree, as the comments of \<open>parser.h\<close> give it; a quotient by zero is zero.\<close>

fun eval :: "('v :: {zero, one, plus, minus, times, inverse, uminus}) parser_dag \<Rightarrow> 'v" where
  "eval Null = 0"
| "eval (Node op v l r) =
     (case op of
        DAG_NONE \<Rightarrow> 0
      | DAG_VAL \<Rightarrow> v
      | DAG_NEG \<Rightarrow> - eval r
      | DAG_MUL \<Rightarrow> eval l * eval r
      | DAG_DIV \<Rightarrow> if eval r \<noteq> 0 then eval l / eval r else 0
      | DAG_ADD \<Rightarrow> eval l + eval r
      | DAG_SUB \<Rightarrow> eval l - eval r)"

text \<open>The tree after its numbers have been printed and read again.\<close>

fun reread :: "('v \<Rightarrow> string) \<Rightarrow> (string \<Rightarrow> 'v) \<Rightarrow> 'v parser_dag \<Rightarrow> 'v parser_dag" where
  "reread fmt rd Null = Null"
| "reread fmt rd (Node op v l r) = Node op (if op = DAG_VAL then rd (fmt v) else v) (reread fmt rd l) (reread fmt rd r)"

fun constants :: "'v parser_dag \<Rightarrow> 'v set" where
  "constants Null = {}"
| "constants (Node op v l r) = (if op = DAG_VAL then {v} else {}) \<union> constants l \<union> constants r"

text \<open>When every constant survives, so does the tree.\<close>

lemma reread_same: "\<forall>v \<in> constants d. rd (fmt v) = v \<Longrightarrow> reread fmt rd d = d"
  by (induction d) auto

lemma exec_body_append:
  "exec_body fmt rd (ss @ ss') env = (case exec_body fmt rd ss env of None \<Rightarrow> None | Some env' \<Rightarrow> exec_body fmt rd ss' env')"
  by (induction ss arbitrary: env) (auto split: option.split)

lemma gen_counter: "genFuncBodyFromDag d n = (ss, r, n') \<Longrightarrow> n \<le> n'"
proof (induction d arbitrary: n ss r n')
  case (Node op v l rt)
  obtain sl lv n1 where l: "genFuncBodyFromDag l n = (sl, lv, n1)" by (metis prod_cases3)
  obtain sr rv n2 where r: "genFuncBodyFromDag rt n1 = (sr, rv, n2)" by (metis prod_cases3)
  from Node.IH(1) [OF l] Node.IH(2) [OF r] Node.prems show ?case by (auto simp: l r split: option.splits)
qed simp

lemma gen_exec:
  fixes d :: "'v :: {zero, one, plus, minus, times, inverse, uminus} parser_dag"
  assumes "well_formed d" and "genFuncBodyFromDag d n = (ss, r, n')" and "\<And>i. n \<le> i \<Longrightarrow> env i = None"
    and neg: "\<forall>x :: 'v. (- 1) * x = - x"
  shows "n \<le> r \<and> r < n' \<and> (\<exists>env'. exec_body fmt rd ss env = Some env' \<and> env' r = Some (eval (reread fmt rd d)) \<and>
     (\<forall>i < n. env' i = env i) \<and> (\<forall>i \<ge> n'. env' i = None))"
  using assms(1-3)
proof (induction d arbitrary: n ss r n' env)
  case (Node op v l rt)
  obtain sl lv n1 where l: "genFuncBodyFromDag l n = (sl, lv, n1)" by (metis prod_cases3)
  obtain sr rv n2 where r: "genFuncBodyFromDag rt n1 = (sr, rv, n2)" by (metis prod_cases3)
  have mono: "n \<le> n1" "n1 \<le> n2" using gen_counter l r by blast+
  have out: "ss = sl @ sr @ [(n2, e)] \<and> r = n2 \<and> n' = n2 + 1" if "node_rhs op v lv rv = Some e" for e
    using Node.prems(2) that by (auto simp: l r)
  show ?case
  proof (cases "op = DAG_VAL \<or> op = DAG_NEG")
    case True
    then have null: "l = Null" "sl = []" "n1 = n" using Node.prems(1) l by (auto split: parser_dag_op.splits)
    show ?thesis
    proof (cases "op = DAG_VAL")
      case True
      then have "rt = Null" "sr = []" "n2 = n" using Node.prems(1) r null by auto
      with True null out [of "Const v"] Node.prems(3) show ?thesis by (simp add: node_rhs_def)
    next
      case False
      then have op: "op = DAG_NEG" using True by simp
      then have "well_formed rt" using Node.prems(1) by simp
      from Node.IH(2) [OF this r] null Node.prems(3) obtain env1 where
        "n \<le> rv" "rv < n2" "exec_body fmt rd sr env = Some env1" "env1 rv = Some (eval (reread fmt rd rt))"
        "\<forall>i < n. env1 i = env i" "\<forall>i \<ge> n2. env1 i = None" by blast
      with op null out [of "Negate rv"] neg show ?thesis by (simp add: node_rhs_def exec_body_append)
    qed
  next
    case False
    then have wf: "well_formed l" "well_formed rt" using Node.prems(1) by (auto split: parser_dag_op.splits)
    from Node.IH(1) [OF wf(1) l, of env] Node.prems(3) obtain env1 where e1:
      "n \<le> lv" "lv < n1" "exec_body fmt rd sl env = Some env1" "env1 lv = Some (eval (reread fmt rd l))"
      "\<forall>i < n. env1 i = env i" "\<forall>i \<ge> n1. env1 i = None" by blast
    from Node.IH(2) [OF wf(2) r, of env1] e1(6) obtain env2 where e2:
      "n1 \<le> rv" "rv < n2" "exec_body fmt rd sr env1 = Some env2" "env2 rv = Some (eval (reread fmt rd rt))"
      "\<forall>i < n1. env2 i = env1 i" "\<forall>i \<ge> n2. env2 i = None" by blast
    obtain e where e: "node_rhs op v lv rv = Some e"
      using Node.prems(1) by (cases op) (auto simp: node_rhs_def)
    have "rhs_value fmt rd env2 e = Some (eval (reread fmt rd (Node op v l rt)))"
      using e e1 e2 False Node.prems(1) by (cases op) (auto simp: node_rhs_def)
    with out [OF e] e1 e2 mono show ?thesis by (simp add: exec_body_append)
  qed
qed simp

lemma gen_run:
  fixes d :: "'v :: {zero, one, plus, minus, times, inverse, uminus} parser_dag"
  assumes "well_formed d" and "genFuncBodyFromDag d n = (ss, r, n')"
    and "\<forall>x :: 'v. (- 1) * x = - x"
  shows "run_program fmt rd ss r callback = Some (callback (eval (reread fmt rd d)))"
  using gen_exec [OF assms(1,2), of "\<lambda>_. None" fmt rd] assms(3) by (auto simp: run_program_def)

lemma gen_declares:
  "well_formed d \<Longrightarrow> genFuncBodyFromDag d n = (ss, r, n') \<Longrightarrow>
     map fst ss = [n..n' - 1] \<and> n' = n + int (nodes d) \<and> r = n' - 1"
proof (induction d arbitrary: n ss r n')
  case (Node op v l rt)
  obtain sl lv n1 where l: "genFuncBodyFromDag l n = (sl, lv, n1)" by (metis prod_cases3)
  obtain sr rv n2 where r: "genFuncBodyFromDag rt n1 = (sr, rv, n2)" by (metis prod_cases3)
  obtain e where e: "node_rhs op v lv rv = Some e" using Node.prems(1) by (cases op) (auto simp: node_rhs_def)
  then have out: "ss = sl @ sr @ [(n2, e)] \<and> r = n2 \<and> n' = n2 + 1" using Node.prems(2) by (auto simp: l r)
  have sub: "map fst ss' = [m..m' - 1] \<and> m' = m + int (nodes d')"
    if "genFuncBodyFromDag d' m = (ss', r', m')" "d' = Null \<or> d' \<noteq> Null \<and> well_formed d'"
      "d' = l \<or> d' = rt" for d' m ss' r' m'
    using that Node.IH by (cases "d' = Null") auto
  have parts: "(l = Null \<or> well_formed l) \<and> (rt = Null \<or> well_formed rt)"
    using Node.prems(1) by (auto split: parser_dag_op.splits)
  have 1: "map fst sl = [n..n1 - 1] \<and> n1 = n + int (nodes l)" using sub [OF l] parts by blast
  have 2: "map fst sr = [n1..n2 - 1] \<and> n2 = n1 + int (nodes rt)" using sub [OF r] parts by blast
  have "[n..n1 - 1] @ [n1..n2 - 1] = [n..n2 - 1]" "[n..n2 - 1] @ [n2] = [n..n2]"
    using 1 2 upto_split2 [of n "n1 - 1" "n2 - 1"] upto_rec2 [of n n2] by (cases "nodes l = 0"; simp)+
  then show ?case using out 1 2 by (simp flip: append_assoc)
qed simp

subsection \<open>The constants\<close>

text \<open>
  \<open>%f\<close> of a number that is not negative, as are all the lexer reads: the multiple of a millionth nearest to it, the even one of
  two. \<open>decimal_value\<close> is the number such a text stands for.
\<close>

definition round_even :: "real \<Rightarrow> int" where
  "round_even y = (let k = \<lfloor>y\<rfloor>; r = y - of_int k in if r < 1/2 \<or> r = 1/2 \<and> even k then k else k + 1)"

definition millionths :: "real \<Rightarrow> nat" where
  "millionths x = nat (round_even (x * 1000000))"

definition six_digits :: "nat \<Rightarrow> string" where
  "six_digits n = replicate (6 - length (digits n)) CHR ''0'' @ digits n"

definition print_f :: "real \<Rightarrow> string" where
  "print_f x = digits (millionths x div 1000000) @ ''.'' @ six_digits (millionths x mod 1000000)"

definition decimal_value :: "string \<Rightarrow> real" where
  "decimal_value s =
     (let w = takeWhile is_digit s; f = tl (dropWhile is_digit s) in real (digits_value w) + real (digits_value f) / 10 ^ length f)"

lemma round_even_near: "\<bar>of_int (round_even y) - y\<bar> \<le> 1/2"
proof -
  have "of_int \<lfloor>y\<rfloor> \<le> y" "y < of_int \<lfloor>y\<rfloor> + 1" by linarith+
  then show ?thesis by (auto simp: round_even_def Let_def)
qed

lemma round_even_nonneg: "0 \<le> y \<Longrightarrow> 0 \<le> round_even y"
  by (simp add: round_even_def Let_def)

lemma digits_short: "n < 10 ^ Suc k \<Longrightarrow> length (digits n) \<le> Suc k"
proof (induction k arbitrary: n)
  case 0
  then show ?case by (subst digits.simps) simp
next
  case (Suc k)
  then have "n div 10 < 10 ^ Suc k" by simp
  from Suc.IH [OF this] show ?case by (subst digits.simps) simp
qed

lemma digits_value_zeros: "digits_value (replicate k CHR ''0'' @ ds) = digits_value ds"
proof -
  have "fold (\<lambda>c n. 10 * n + (of_char c - 48)) (replicate k CHR ''0'') (0 :: nat) = 0" by (induction k) simp_all
  then show ?thesis by (simp add: digits_value_def)
qed

lemma six_digits_facts: "n < 1000000 \<Longrightarrow> length (six_digits n) = 6 \<and> digits_value (six_digits n) = n"
  using digits_short [of n 5] by (simp add: six_digits_def digits_value_zeros)

lemma decimal_print_f: "decimal_value (print_f x) = real (millionths x) / 1000000"
proof -
  let ?w = "millionths x div 1000000" and ?f = "millionths x mod 1000000"
  have dg: "\<forall>c \<in> set (digits ?w). is_digit c" using digits_are_digits by blast
  have t: "takeWhile is_digit (print_f x) = digits ?w" "dropWhile is_digit (print_f x) = ''.'' @ six_digits ?f"
    using dg by (simp_all add: print_f_def takeWhile_append2 dropWhile_append2 is_digit_def [of "CHR ''.''"])
  have f: "length (six_digits ?f) = 6" "digits_value (six_digits ?f) = ?f" using six_digits_facts [of ?f] by simp_all
  have "real (millionths x) = real (?w * 1000000 + ?f)" by (simp only: div_mult_mod_eq)
  then have m: "real (millionths x) = real ?w * 1000000 + real ?f" by (simp only: of_nat_add of_nat_mult of_nat_numeral)
  show ?thesis unfolding decimal_value_def t Let_def m using f by (simp add: add_divide_distrib)
qed

text \<open>A constant is printed to within half a millionth, and no closer: a smaller one is printed as zero.\<close>

theorem printed_constant: "0 \<le> x \<Longrightarrow> \<bar>decimal_value (print_f x) - x\<bar> \<le> 1 / 2000000"
  using round_even_near [of "x * 1000000"] round_even_nonneg [of "x * 1000000"]
  by (simp add: decimal_print_f millionths_def abs_le_iff field_simps)

theorem small_constant_is_zero: "0 \<le> x \<Longrightarrow> x < 1 / 2000000 \<Longrightarrow> print_f x = ''0.000000''"
proof -
  assume x: "0 \<le> x" "x < 1 / 2000000"
  then have "\<lfloor>x * 1000000\<rfloor> = 0" by (intro floor_unique) simp_all
  then have "millionths x = 0" using x by (simp add: millionths_def round_even_def)
  moreover have "digits 0 = ''0''" by (subst digits.simps) (simp, code_simp)
  moreover have "replicate 5 CHR ''0'' = ''00000''" by (simp add: numeral_eq_Suc)
  ultimately show ?thesis by (simp add: print_f_def six_digits_def)
qed

theorem printed_constant_witness: "\<bar>decimal_value (print_f (1/3)) - 1/3\<bar> \<le> 1 / 2000000"
  by (rule printed_constant) simp

subsection \<open>Properties\<close>

text \<open>
  C3: the code generated for a tree declares each variable once and before it is used, numbers them consecutively, and
  returns what the callback gives for the value of the tree whose constants are those of the expression after \<open>printf\<close> has printed them
  with \<open>%f\<close> and the compiler has read them. That is the value of the tree itself when each constant survives, as one with at most six
  digits after the point does; others are rounded (\<open>printed_constant\<close>), and a value can be lost in it (\<open>small_factor_lost\<close>).
\<close>

theorem generated_code_correct:
  fixes d :: "'v :: {zero, one, plus, minus, times, inverse, uminus} parser_dag"
  assumes "well_formed d" and "genFuncBodyFromDag d 0 = (ss, r, n)"
    and "\<forall>x :: 'v. (- 1) * x = - x"
  shows "run_program fmt rd ss r callback = Some (callback (eval (reread fmt rd d)))
    \<and> map fst ss = [0..int (nodes d) - 1] \<and> r = int (nodes d) - 1
    \<and> ((\<forall>v \<in> constants d. rd (fmt v) = v) \<longrightarrow> run_program fmt rd ss r callback = Some (callback (eval d)))"
  using gen_run [OF assms] gen_declares [OF assms(1,2)] reread_same [of d rd fmt] by simp

text \<open>
  The rounding shows: in a product with a constant below half a millionth, the generated code has a zero for it, so \<open>0.0000001*10000000\<close>
  is 0 and not 1.
\<close>

theorem small_factor_lost:
  fixes v w :: real
  assumes "0 \<le> v" and "v < 1 / 2000000" and "rd ''0.000000'' = 0"
    and "genFuncBodyFromDag (Node DAG_MUL 0 (Node DAG_VAL v Null Null) (Node DAG_VAL w Null Null)) 0 = (ss, r, n)"
  shows "run_program print_f rd ss r callback = Some (callback 0)"
proof -
  have "well_formed (Node DAG_MUL 0 (Node DAG_VAL v Null Null) (Node DAG_VAL w Null Null))" by simp
  from gen_run [OF this assms(4)] small_constant_is_zero [OF assms(1,2)] assms(3) show ?thesis by simp
qed

theorem small_factor_lost_witness:
  "run_program print_f decimal_value [(0, Const (1 / 10000000)), (1, Const 10000000), (2, Times 0 1)] 2 (\<lambda>x. x) = Some 0"
proof -
  have "decimal_value ''0.000000'' = 0" using decimal_print_f [of 0] small_constant_is_zero [of 0]
    by (simp add: millionths_def round_even_def)
  from small_factor_lost [where rd = decimal_value and v = "1 / 10000000" and w = 10000000 and callback = "\<lambda>x. x"] this
  show ?thesis by (simp add: node_rhs_def)
qed

theorem generated_code_correct_witness:
  "genFuncBodyFromDag (Node DAG_ADD 0 (Node DAG_VAL 1 Null Null) (Node DAG_VAL 1 Null Null)) 0 =
     ([(0, Const 1), (1, Const 1), (2, Plus 0 1)], 2, 3)
   \<and> run_program (\<lambda>_. ''1.000000'') (\<lambda>_. 1) [(0, Const (1 :: real)), (1, Const 1), (2, Plus 0 1)] 2 (\<lambda>x. x + 1) = Some 3"
proof -
  let ?d = "Node DAG_ADD 0 (Node DAG_VAL (1 :: real) Null Null) (Node DAG_VAL 1 Null Null)"
  have gen: "genFuncBodyFromDag ?d 0 = ([(0, Const 1), (1, Const 1), (2, Plus 0 1)], 2, 3)"
    by (simp add: node_rhs_def)
  have "run_program (\<lambda>_. ''1.000000'') (\<lambda>_. 1) [(0, Const (1 :: real)), (1, Const 1), (2, Plus 0 1)] 2 (\<lambda>x. x + 1) =
      Some (eval (reread (\<lambda>_. ''1.000000'') (\<lambda>_. 1) ?d) + 1)"
    using generated_code_correct [OF _ gen, where fmt = "\<lambda>_. ''1.000000''" and rd = "\<lambda>_. 1" and callback = "\<lambda>x. x + 1"] by simp
  then show ?thesis by (simp add: node_rhs_def)
qed

end
