(* ===== verification/Jitc.thy ===== *)
theory Jitc
  imports Complex_Main Codegen System
begin

section \<open>Compiling, loading and running (\<open>project-1/jitc.c\<close> and \<open>main\<close>)\<close>

text \<open>
  The operating system is a record of parameters: whether \<open>fork\<close>, \<open>waitpid\<close>, \<open>fopen\<close> and \<open>malloc\<close> succeed, what a program
  started by \<open>execv\<close> does to the files (\<open>None\<close> when \<open>execv\<close> itself returns), and \<open>dlopen\<close> and \<open>dlsym\<close>. A loaded function
  takes the callback. The state is the map of files.
\<close>

datatype 'o content = Text string | Object 'o

type_synonym 'o files = "string \<Rightarrow> 'o content option"

datatype child_end = Exited nat | Signalled

record ('o, 'h, 'v) os =
  fork_ok :: bool
  wait_ok :: bool
  fopen_ok :: bool
  malloc_ok :: bool
  execv :: "string \<Rightarrow> string list \<Rightarrow> 'o files \<Rightarrow> ('o files \<times> child_end) option"
  dlopen :: "'o files \<Rightarrow> string \<Rightarrow> 'h option"
  dlsym :: "'h option \<Rightarrow> string \<Rightarrow> (('v \<Rightarrow> 'v) \<Rightarrow> 'v) option"

definition GCC :: string where "GCC = ''/usr/bin/gcc''"

definition argsForGcc :: "string \<Rightarrow> string \<Rightarrow> string list" where
  "argsForGcc input output = [GCC, ''-shared'', ''-o3'', ''-o'', output, ''-fPIC'', input]"

text \<open>The child process: when \<open>execv\<close> returns, it traces and exits with 1.\<close>

definition child :: "('o, 'h, 'v) os \<Rightarrow> string \<Rightarrow> string \<Rightarrow> 'o files \<Rightarrow> 'o files \<times> child_end" where
  "child os input output fs =
     (case execv os GCC (argsForGcc input output) fs of None \<Rightarrow> (fs, Exited 1) | Some r \<Rightarrow> r)"

definition jitc_compile :: "('o, 'h, 'v) os \<Rightarrow> string \<Rightarrow> string \<Rightarrow> 'o files \<Rightarrow> int \<times> 'o files" where
  "jitc_compile os input output fs =
     (if \<not> fork_ok os then (0, fs)
      else (case child os input output fs of (fs, e) \<Rightarrow>
        if \<not> wait_ok os then (-1, fs)
        else (case e of Exited _ \<Rightarrow> (0, fs) | Signalled \<Rightarrow> (-1, fs))))"

record 'h jitc =
  handle :: "'h option"

definition jitc_open :: "('o, 'h, 'v) os \<Rightarrow> string \<Rightarrow> 'o files \<Rightarrow> 'h jitc outcome" where
  "jitc_open os pathname fs =
     (if \<not> malloc_ok os then Inl Null_deref else Inr \<lparr>handle = dlopen os fs pathname\<rparr>)"

text \<open>\<open>jitc_close\<close>: the handles it gives to \<open>dlclose\<close>.\<close>

definition jitc_close :: "'h jitc option \<Rightarrow> 'h list" where
  "jitc_close j = (case j of None \<Rightarrow> [] | Some j \<Rightarrow> (case handle j of None \<Rightarrow> [] | Some h \<Rightarrow> [h]))"

definition jitc_lookup :: "('o, 'h, 'v) os \<Rightarrow> 'h jitc \<Rightarrow> string \<Rightarrow> (('v \<Rightarrow> 'v) \<Rightarrow> 'v) option" where
  "jitc_lookup os j symbol = dlsym os (handle j) symbol"

definition sigmoid :: "('v \<Rightarrow> 'v) \<Rightarrow> 'v :: {one, plus, inverse} \<Rightarrow> 'v" where
  "sigmoid ex val = ex val / (1 + ex val)"

text \<open>
  \<open>main\<close>: the return code, the number it prints if it does, the files, and the handles it closed. The \<open>None\<close> outside is
  the parser's fuel, which does not run out.
\<close>

definition CFILE :: string where "CFILE = ''out.c''"
definition SOFILE :: string where "SOFILE = ''out.so''"

definition load_and_run :: "('o, 'h, 'v) os \<Rightarrow> ('v \<Rightarrow> 'v) \<Rightarrow> 'o files \<Rightarrow>
    (int \<times> ('v :: {one, plus, inverse}) option \<times> 'o files \<times> 'h list) outcome" where
  "load_and_run os ex fs =
     obind (jitc_open os SOFILE fs) (\<lambda>jitc.
       case jitc_lookup os jitc ''evaluate'' of
         None \<Rightarrow> Inr (-1, None, file_delete SOFILE fs, jitc_close (Some jitc))
       | Some fnc \<Rightarrow> Inr (0, Some (fnc (sigmoid ex)), file_delete SOFILE fs, jitc_close (Some jitc)))"

definition project1_main :: "('o, 'h, 'v) os \<Rightarrow> (nat \<Rightarrow> bool) \<Rightarrow> (nat \<Rightarrow> bool) \<Rightarrow> (string \<Rightarrow> 'v \<times> nat) \<Rightarrow> ('v \<Rightarrow> string) \<Rightarrow> ('v \<Rightarrow> 'v) \<Rightarrow>
    string list \<Rightarrow> 'o files \<Rightarrow> (int \<times> ('v :: {zero, one, plus, minus, times, inverse, uminus}) option \<times> 'o files \<times> 'h list) outcome option" where
  "project1_main os lmok mok sd fmt ex argv fs =
     (if length argv \<noteq> 2 then Some (Inr (-1, None, fs, []))
      else (case parser_open lmok mok sd (argv ! 1) of
              None \<Rightarrow> None
            | Some (Inl e) \<Rightarrow> Some (Inl e)
            | Some (Inr (None, _)) \<Rightarrow> Some (Inr (-1, None, fs, []))
            | Some (Inr (Some dag, _)) \<Rightarrow>
                if \<not> fopen_ok os then Some (Inr (-1, None, fs, []))
                else (case generate fmt dag 0 of (txt, _) \<Rightarrow>
                  (case jitc_compile os CFILE SOFILE (fs(CFILE := Some (Text txt))) of (rc, fs) \<Rightarrow>
                     if rc \<noteq> 0 then Some (Inr (-1, None, file_delete CFILE fs, []))
                     else Some (load_and_run os ex (file_delete CFILE fs))))))"

subsection \<open>The whole program\<close>

text \<open>
  What the program needs of the compiler and the loader for one list of declarations: \<open>gcc\<close> turns the text into an object
  at the place asked for and leaves the other files alone, \<open>dlopen\<close> loads that object, and \<open>evaluate\<close> in it computes what
  the declarations mean.
\<close>

definition toolchain :: "('o, 'h, 'v) os \<Rightarrow> ('v \<Rightarrow> string) \<Rightarrow> (string \<Rightarrow> 'v) \<Rightarrow>
    ('v :: {zero, one, plus, minus, times, inverse, uminus}) stmt list \<Rightarrow> int \<Rightarrow> bool" where
  "toolchain os fmt rd ss r \<longleftrightarrow> (\<exists>obj h fnc.
     (\<forall>fs. fs CFILE = Some (Text (program_text fmt ss r)) \<longrightarrow>
        execv os GCC (argsForGcc CFILE SOFILE) fs = Some (fs(SOFILE := Some (Object obj)), Exited 0)) \<and>
     (\<forall>fs. fs SOFILE = Some (Object obj) \<longrightarrow> dlopen os fs SOFILE = Some h) \<and>
     dlsym os (Some h) ''evaluate'' = Some fnc \<and>
     (\<forall>callback y. run_program fmt rd ss r callback = Some y \<longrightarrow> fnc callback = y))"

lemma names_differ [simp]: "CFILE \<noteq> SOFILE" "SOFILE \<noteq> CFILE" "CFILE \<noteq> []" "SOFILE \<noteq> []"
  by (simp_all add: CFILE_def SOFILE_def)

lemma main_runs:
  fixes d :: "'v :: {zero, one, plus, minus, times, inverse, uminus} parser_dag"
  assumes lex: "lexer_open lmok sd (argv ! 1) = Inr (Some ts)" and d: "additive ts d"
    and argv: "length argv = 2" and ok: "fork_ok os" "wait_ok os" "fopen_ok os" "malloc_ok os"
    and gen: "genFuncBodyFromDag d 0 = (ss, r, n)" and tc: "toolchain os fmt rd ss r"
    and neg: "\<forall>x :: 'v. (- 1) * x = - x"
  shows "\<exists>h. project1_main os lmok always sd fmt ex argv fs =
     Some (Inr (0, Some (sigmoid ex (eval (reread fmt rd d))), fs(CFILE := None, SOFILE := None), [h]))"
proof -
  have wf: "well_formed d" by (rule grammar_well_formed(4) [OF d])
  obtain obj h fnc where t:
    "\<And>fs. fs CFILE = Some (Text (program_text fmt ss r)) \<Longrightarrow>
       execv os GCC (argsForGcc CFILE SOFILE) fs = Some (fs(SOFILE := Some (Object obj)), Exited 0)"
    "\<And>fs. fs SOFILE = Some (Object obj) \<Longrightarrow> dlopen os fs SOFILE = Some h"
    "dlsym os (Some h) ''evaluate'' = Some fnc"
    "\<And>callback y. run_program fmt rd ss r callback = Some y \<Longrightarrow> fnc callback = y"
    using tc unfolding toolchain_def by blast
  let ?fs1 = "fs(CFILE := Some (Text (program_text fmt ss r)))"
  let ?fs2 = "?fs1(SOFILE := Some (Object obj), CFILE := None)"
  have comp: "jitc_compile os CFILE SOFILE ?fs1 = (0, ?fs1(SOFILE := Some (Object obj)))"
    using t(1) [of ?fs1] ok by (simp add: jitc_compile_def child_def)
  have val: "fnc (sigmoid ex) = sigmoid ex (eval (reread fmt rd d))"
    by (rule t(4)) (rule gen_run [OF wf gen neg])
  have del: "file_delete SOFILE ?fs2 = fs(CFILE := None, SOFILE := None)" by (auto simp: file_delete_def fun_eq_iff)
  have load: "load_and_run os ex ?fs2 =
      Inr (0, Some (sigmoid ex (eval (reread fmt rd d))), file_delete SOFILE ?fs2, [h])"
    using ok(4) t(2) [of ?fs2] t(3) val
    by (simp add: load_and_run_def jitc_open_def jitc_lookup_def jitc_close_def)
  have "project1_main os lmok always sd fmt ex argv fs = Some (load_and_run os ex ?fs2)"
    using argv parser_open_complete [OF lex d] ok(3) gen comp
    by (simp add: project1_main_def generate_def) (simp add: file_delete_def)
  then show ?thesis unfolding load del by blast
qed

text \<open>
  C25: for an expression of the grammar and a working compiler and loader, \<open>main\<close> prints the sigmoid of the value of the
  expression with its constants as \<open>%f\<close> printed them and the compiler read them, returns 0, removes the two files it made and
  touches no other. When each constant survives the printing, that is the sigmoid of the value of the expression; otherwise it need not be
  (\<open>small_factor_lost\<close>).
\<close>

theorem project1_main_prints_value:
  fixes d :: "'v :: {zero, one, plus, minus, times, inverse, uminus} parser_dag"
  assumes "lexer_open lmok sd (argv ! 1) = Inr (Some ts)" and "additive ts d" and "length argv = 2"
    and "fork_ok os" "wait_ok os" "fopen_ok os" "malloc_ok os"
    and "genFuncBodyFromDag d 0 = (ss, r, n)" and "toolchain os fmt rd ss r" and "\<forall>x :: 'v. (- 1) * x = - x"
  shows "\<exists>h. project1_main os lmok (\<lambda>_. True) sd fmt ex argv fs =
     Some (Inr (0, Some (sigmoid ex (eval (reread fmt rd d))), fs(CFILE := None, SOFILE := None), [h])) \<and>
     ((\<forall>v \<in> constants d. rd (fmt v) = v) \<longrightarrow>
        project1_main os lmok (\<lambda>_. True) sd fmt ex argv fs =
          Some (Inr (0, Some (sigmoid ex (eval d)), fs(CFILE := None, SOFILE := None), [h])))"
proof -
  obtain h where "project1_main os lmok (\<lambda>_. True) sd fmt ex argv fs =
      Some (Inr (0, Some (sigmoid ex (eval (reread fmt rd d))), fs(CFILE := None, SOFILE := None), [h]))"
    using main_runs [OF assms] by blast
  then show ?thesis by (intro exI [of _ h]) (simp add: reread_same)
qed

text \<open>
  \<open>jitc_compile\<close> does not look at the exit status of the compiler, and takes a failed \<open>fork\<close> for success: with
  an old \<open>out.so\<close> in the directory, \<open>main\<close> then runs that one, whatever expression it was given.
\<close>

theorem project1_main_runs_stale_object:
  assumes "parser_open lmok mok sd (argv ! 1) = Some (Inr (Some d, tr))" and "length argv = 2"
    and "\<not> fork_ok os" and "fopen_ok os" and "malloc_ok os"
    and "dlopen os (fs(CFILE := None)) SOFILE = Some h" and "dlsym os (Some h) ''evaluate'' = Some old"
  shows "project1_main os lmok mok sd fmt ex argv fs =
     Some (Inr (0, Some (old (sigmoid ex)), fs(CFILE := None, SOFILE := None), [h]))"
  using assms
  by (simp add: project1_main_def generate_def jitc_compile_def file_delete_def load_and_run_def jitc_open_def
      jitc_lookup_def jitc_close_def split: prod.split)

subsection \<open>Witnesses\<close>

text \<open>A system whose compiler and loader handle one program, \<open>1+1\<close>, with a \<open>strtod\<close> that reads the digit 1.\<close>

definition one_sd :: "string \<Rightarrow> real \<times> nat" where
  "one_sd s = (1, if take 1 s = ''1'' then 1 else 0)"

definition demo_os :: "bool \<Rightarrow> (nat, nat, real) os" where
  "demo_os f =
     \<lparr>fork_ok = f, wait_ok = True, fopen_ok = True, malloc_ok = True,
      execv = (\<lambda>_ _ fs. Some (fs(SOFILE := Some (Object 7)), Exited 0)),
      dlopen = (\<lambda>fs n. if fs n = Some (Object 7) then Some 5 else None),
      dlsym = (\<lambda>h _. if h = Some 5 then Some (\<lambda>callback. callback 2) else None)\<rparr>"

definition demo_tokens :: "real lexer_token list" where
  "demo_tokens = [\<lparr>tok_op = OP_VAL, tok_val = 1\<rparr>, tk OP_ADD, \<lparr>tok_op = OP_VAL, tok_val = 1\<rparr>]"

definition demo_dag :: "real parser_dag" where
  "demo_dag = Node DAG_ADD 0 (Node DAG_VAL 1 Null Null) (Node DAG_VAL 1 Null Null)"

lemma demo_lex: "lexer_open (\<lambda>_. True) one_sd ''1+1'' = Inr (Some demo_tokens)"
  by (simp add: lexer_open_def tokenize.simps operator_of_def isspace_def mktoken_def one_sd_def set_val_def
      demo_tokens_def tk_def)

lemma demo_additive: "additive demo_tokens demo_dag"
proof -
  have v: "unary [\<lparr>tok_op = OP_VAL, tok_val = 1 :: real\<rparr>] (Node DAG_VAL 1 Null Null)"
    using primary_val [of "\<lparr>tok_op = OP_VAL, tok_val = 1 :: real\<rparr>"] by (auto intro: unary_primary)
  from add_binary [OF add_mul [OF mul_unary [OF v]] mul_unary [OF v], of "tk OP_ADD" DAG_ADD]
  show ?thesis by (simp add: demo_tokens_def demo_dag_def)
qed

lemma demo_gen: "genFuncBodyFromDag demo_dag 0 = ([(0, Const 1), (1, Const 1), (2, Plus 0 1)], 2, 3)"
  by (simp add: demo_dag_def node_rhs_def)

lemma demo_toolchain:
  "toolchain (demo_os True) (\<lambda>_. ''1.000000'') (\<lambda>_. 1) [(0, Const 1), (1, Const 1), (2, Plus 0 1)] 2"
  unfolding toolchain_def
  by (intro exI [of _ 7] exI [of _ 5] exI [of _ "\<lambda>callback. callback 2"])
    (simp add: demo_os_def run_program_def)

theorem project1_main_prints_value_witness:
  "\<exists>h. project1_main (demo_os True) (\<lambda>_. True) (\<lambda>_. True) one_sd (\<lambda>_. ''1.000000'') exp [''calc'', ''1+1''] (\<lambda>_. None) =
     Some (Inr (0, Some (sigmoid exp 2), (\<lambda>_. None)(CFILE := None, SOFILE := None), [h]))"
proof -
  have lex: "lexer_open (\<lambda>_. True) one_sd ([''calc'', ''1+1''] ! 1) = Inr (Some demo_tokens)" using demo_lex by simp
  have "eval demo_dag = 2" "\<forall>v \<in> constants demo_dag. (\<lambda>_. 1) ((\<lambda>_. ''1.000000'') v) = v" by (simp_all add: demo_dag_def)
  with project1_main_prints_value [OF lex demo_additive _ _ _ _ _ demo_gen demo_toolchain, of exp "\<lambda>_. None"]
  show ?thesis by (auto simp: demo_os_def)
qed

theorem project1_main_runs_stale_object_witness:
  "project1_main (demo_os False) (\<lambda>_. True) (\<lambda>_. True) one_sd (\<lambda>_. ''1.000000'') exp [''calc'', ''1+1'']
     ((\<lambda>_. None)(SOFILE := Some (Object 7))) =
     Some (Inr (0, Some (sigmoid exp 2), (\<lambda>_. None)(SOFILE := Some (Object 7), CFILE := None, SOFILE := None), [5]))"
proof -
  have "parser_open (\<lambda>_. True) (\<lambda>_. True) one_sd ([''calc'', ''1+1''] ! 1) = Some (Inr (Some demo_dag, []))"
    using parser_open_complete [OF demo_lex demo_additive] by simp
  from project1_main_runs_stale_object [OF this, where os = "demo_os False" and fs = "(\<lambda>_. None)(SOFILE := Some (Object 7))"
      and h = 5 and old = "\<lambda>callback. callback 2" and fmt = "\<lambda>_. ''1.000000''" and ex = exp]
  show ?thesis by (simp add: demo_os_def)
qed

end
