(* ===== verification/Scheduler.thy ===== *)
theory Scheduler
  imports System
begin

section \<open>The user-level thread scheduler (\<open>project-2/scheduler.c\<close>)\<close>

text \<open>
  Jobs are structures on the heap, linked by \<open>next\<close>; addresses are numbers and the null pointer is \<open>None\<close>. A saved
  context (\<open>jmp_buf\<close>), or the function and argument a job starts with, is an element of a type \<open>'l\<close>, and what a job does
  between two switches is the parameter \<open>burst\<close>: the jobs it creates, and the context in which it yields, or \<open>None\<close>
  when its function returns. A switch is a call of \<open>scheduler_yield\<close>, by the job or by the handler of \<open>SIGALRM\<close>; so
  where an alarm interrupts a job is part of \<open>burst\<close>.

  The parameter \<open>alloc\<close> is \<open>malloc\<close>: for a heap it gives the address of a new \<open>struct job\<close> and of its stack.
\<close>

record 'l job =
  start_addr :: nat
  stack_addr :: nat
  status :: nat
  code :: 'l
  jnext :: "nat option"

type_synonym 'l job_heap = "nat \<Rightarrow> 'l job option"

record 'l sched =
  head :: "nat option"
  curr :: "nat option"
  prev :: "nat option"
  jobs :: "'l job_heap"

text \<open>The global \<open>sch_obj\<close>. It is freed at the end, but not set to \<open>NULL\<close>; the jobs still allocated then are kept here.\<close>

datatype 'l sch_obj = Unset | Live "'l sched" | Freed "'l job_heap"

text \<open>\<open>scheduler_init\<close>: the fields \<open>curr\<close> and \<open>prev\<close> hold whatever \<open>malloc\<close> left there.\<close>

definition scheduler_init :: "bool \<Rightarrow> nat option \<times> nat option \<Rightarrow> 'l sch_obj outcome" where
  "scheduler_init mok junk =
     (if \<not> mok then Inl Null_deref
      else Inr (Live \<lparr>head = None, curr = fst junk, prev = snd junk, jobs = (\<lambda>_. None)\<rparr>))"

definition new_job :: "nat \<Rightarrow> nat \<Rightarrow> 'l \<Rightarrow> 'l job outcome" where
  "new_job page start l =
     obind (memory_align start page) (\<lambda>p.
       Inr \<lparr>start_addr = start, stack_addr = p + 3 * page, status = 0, code = l, jnext = None\<rparr>)"

partial_function (option) last_job :: "'l job_heap \<Rightarrow> nat \<Rightarrow> nat run" where
  "last_job h a =
     (case h a of
        None \<Rightarrow> Some (Inl Bad_pointer)
      | Some j \<Rightarrow> (case jnext j of None \<Rightarrow> Some (Inr a) | Some b \<Rightarrow> last_job h b))"

definition set_next :: "'l job_heap \<Rightarrow> nat \<Rightarrow> nat option \<Rightarrow> 'l job_heap outcome" where
  "set_next h a n = (case h a of None \<Rightarrow> Inl Bad_pointer | Some j \<Rightarrow> Inr (h(a := Some (j\<lparr>jnext := n\<rparr>))))"

text \<open>The part of \<open>scheduler_create\<close> after the allocation: the job goes to the end of the list.\<close>

definition append_job :: "'l sched \<Rightarrow> nat \<Rightarrow> 'l job \<Rightarrow> 'l sched run" where
  "append_job s a j =
     (let s = s\<lparr>jobs := (jobs s)(a := Some j)\<rparr> in
      case head s of
        None \<Rightarrow> Some (Inr (s\<lparr>head := Some a\<rparr>))
      | Some h \<Rightarrow>
          lbind (last_job (jobs s) h) (\<lambda>b.
            case set_next (jobs s) b (Some a) of
              Inl e \<Rightarrow> Some (Inl e)
            | Inr hp \<Rightarrow> Some (Inr (s\<lparr>jobs := hp\<rparr>))))"

definition create_job :: "('l job_heap \<Rightarrow> (nat \<times> nat) option) \<Rightarrow> nat \<Rightarrow> 'l sched \<Rightarrow> 'l \<Rightarrow> 'l sched run" where
  "create_job alloc page s l =
     (case alloc (jobs s) of
        None \<Rightarrow> Some (Inl Null_deref)
      | Some (a, start) \<Rightarrow>
          (case new_job page start l of Inl e \<Rightarrow> Some (Inl e) | Inr j \<Rightarrow> append_job s a j))"

definition scheduler_create :: "('l job_heap \<Rightarrow> (nat \<times> nat) option) \<Rightarrow> nat \<Rightarrow> 'l sch_obj \<Rightarrow> 'l \<Rightarrow> (int \<times> 'l sch_obj) run" where
  "scheduler_create alloc page obj l =
     (case obj of
        Unset \<Rightarrow> Some (Inr (-1, Unset))
      | Freed h \<Rightarrow> Some (Inl Bad_pointer)
      | Live s \<Rightarrow> lbind (create_job alloc page s l) (\<lambda>s. Some (Inr (0, Live s))))"

text \<open>
  \<open>scheduler_execute\<close> from its \<open>setjmp\<close> to the next \<open>longjmp\<close> to it. First the choice of the next job; the list starts
  again after its last job, and then there is no previous one.
\<close>

definition advance :: "'l sched \<Rightarrow> 'l sched outcome" where
  "advance s =
     (case curr s of
        None \<Rightarrow> Inr (s\<lparr>curr := head s, prev := None\<rparr>)
      | Some c \<Rightarrow>
          (case jobs s c of
             None \<Rightarrow> Inl Bad_pointer
           | Some j \<Rightarrow>
               if jnext j = None then Inr (s\<lparr>curr := head s, prev := None\<rparr>)
               else Inr (s\<lparr>curr := jnext j, prev := curr s\<rparr>)))"

fun create_all :: "('l job_heap \<Rightarrow> (nat \<times> nat) option) \<Rightarrow> nat \<Rightarrow> 'l sched \<Rightarrow> 'l list \<Rightarrow> 'l sched run" where
  "create_all alloc page s [] = Some (Inr s)"
| "create_all alloc page s (l # ls) = lbind (create_job alloc page s l) (\<lambda>s. create_all alloc page s ls)"

text \<open>\<open>scheduler_yield\<close> saves the context in the current job.\<close>

definition scheduler_yield :: "'l \<Rightarrow> 'l sched \<Rightarrow> 'l sched outcome" where
  "scheduler_yield l s =
     (case curr s of
        None \<Rightarrow> Inl Null_deref
      | Some c \<Rightarrow>
          (case jobs s c of
             None \<Rightarrow> Inl Bad_pointer
           | Some j \<Rightarrow> Inr (s\<lparr>jobs := (jobs s)(c := Some (j\<lparr>code := l\<rparr>))\<rparr>)))"

definition SIGALRM :: int where "SIGALRM = 14"

definition interrupt_handler :: "int \<Rightarrow> 'l \<Rightarrow> 'l sched \<Rightarrow> 'l sched outcome" where
  "interrupt_handler sig l s = (if sig \<noteq> SIGALRM then Inl Assert_failed else scheduler_yield l s)"

text \<open>
  A job has returned: it is taken out of the list and freed; then \<open>curr\<close> is set. The stack freed is the one this code runs on, and \<open>free\<close>
  and \<open>longjmp\<close> still use it after that; stacks have no contents here.
\<close>

definition unlink_and_free :: "'l sched \<Rightarrow> nat \<Rightarrow> 'l sched outcome" where
  "unlink_and_free s c =
     (case jobs s c of
        None \<Rightarrow> Inl Bad_pointer
      | Some j \<Rightarrow>
          obind (case prev s of
                   None \<Rightarrow>
                     (case head s of
                        None \<Rightarrow> Inl Null_deref
                      | Some h \<Rightarrow>
                          (case jobs s h of None \<Rightarrow> Inl Bad_pointer | Some k \<Rightarrow> Inr (s\<lparr>head := jnext k\<rparr>)))
                 | Some p \<Rightarrow> obind (set_next (jobs s) p (jnext j)) (\<lambda>hp. Inr (s\<lparr>jobs := hp\<rparr>)))
            (\<lambda>s. Inr (s\<lparr>jobs := (jobs s)(c := None)\<rparr>)))"

definition finish_job :: "'l sched \<Rightarrow> nat \<Rightarrow> 'l sched outcome" where
  "finish_job s c = obind (unlink_and_free s c) (\<lambda>s. Inr (s\<lparr>curr := prev s\<rparr>))"

definition start_job :: "'l sched \<Rightarrow> nat \<Rightarrow> 'l job \<Rightarrow> 'l sched outcome" where
  "start_job s c j =
     (if status j = 0
      then if start_addr j = 0 then Inl Null_deref else Inr (s\<lparr>jobs := (jobs s)(c := Some (j\<lparr>status := 1\<rparr>))\<rparr>)
      else Inr s)"

text \<open>One step: the job that ran, with the context it ran from, or \<open>None\<close> when there is no job left.\<close>

definition execute_step :: "('l job_heap \<Rightarrow> (nat \<times> nat) option) \<Rightarrow> nat \<Rightarrow> ('l \<Rightarrow> 'l list \<times> 'l option) \<Rightarrow> 'l sched \<Rightarrow>
    ((nat \<times> 'l) option \<times> 'l sch_obj) run" where
  "execute_step alloc page burst s =
     (case advance s of
        Inl e \<Rightarrow> Some (Inl e)
      | Inr s \<Rightarrow>
          (case curr s of
             None \<Rightarrow> Some (Inr (None, Freed (jobs s)))
           | Some c \<Rightarrow>
               (case jobs s c of
                  None \<Rightarrow> Some (Inl Bad_pointer)
                | Some j \<Rightarrow>
                    (case start_job s c j of
                       Inl e \<Rightarrow> Some (Inl e)
                     | Inr s \<Rightarrow>
                         (case burst (code j) of (new, res) \<Rightarrow>
                            lbind (create_all alloc page s new) (\<lambda>s.
                              case (case res of Some l \<Rightarrow> scheduler_yield l s | None \<Rightarrow> finish_job s c) of
                                Inl e \<Rightarrow> Some (Inl e)
                              | Inr s \<Rightarrow> Some (Inr (Some (c, code j), Live s))))))))"

partial_function (option) execute_loop :: "('l job_heap \<Rightarrow> (nat \<times> nat) option) \<Rightarrow> nat \<Rightarrow> ('l \<Rightarrow> 'l list \<times> 'l option) \<Rightarrow> 'l sched \<Rightarrow>
    (nat \<times> 'l) list \<Rightarrow> ((nat \<times> 'l) list \<times> 'l sch_obj) run" where
  "execute_loop alloc page burst s tr =
     (case execute_step alloc page burst s of
        None \<Rightarrow> None
      | Some (Inl e) \<Rightarrow> Some (Inl e)
      | Some (Inr (None, obj)) \<Rightarrow> Some (Inr (tr, obj))
      | Some (Inr (Some r, Live s)) \<Rightarrow> execute_loop alloc page burst s (tr @ [r])
      | Some (Inr (Some r, obj)) \<Rightarrow> Some (Inr (tr @ [r], obj)))"

definition scheduler_execute :: "('l job_heap \<Rightarrow> (nat \<times> nat) option) \<Rightarrow> nat \<Rightarrow> ('l \<Rightarrow> 'l list \<times> 'l option) \<Rightarrow> 'l sch_obj \<Rightarrow>
    ((nat \<times> 'l) list \<times> 'l sch_obj) run" where
  "scheduler_execute alloc page burst obj =
     (case obj of
        Unset \<Rightarrow> Some (Inl Null_deref)
      | Freed h \<Rightarrow> Some (Inl Bad_pointer)
      | Live s \<Rightarrow> execute_loop alloc page burst s [])"

end
