(* ===== verification/Scheduler_Ref.thy ===== *)
theory Scheduler_Ref
  imports Scheduler
begin

section \<open>The scheduler is a round-robin queue\<close>

text \<open>
  The linked jobs as a list, cut after the current job: \<open>B\<close> are the jobs that ran in this round, the last of them being
  the current one, and \<open>A\<close> those that wait. One step of the code is one step of this queue; from there, every job gets its
  turn, and \<open>scheduler_execute\<close> ends, with all jobs run to their ends and freed.
\<close>

subsection \<open>Linked jobs\<close>

fun lseg :: "'l job_heap \<Rightarrow> nat option \<Rightarrow> nat list \<Rightarrow> nat option \<Rightarrow> bool" where
  "lseg h p [] q \<longleftrightarrow> p = q"
| "lseg h p (a # as) q \<longleftrightarrow> p = Some a \<and> (\<exists>j. h a = Some j \<and> lseg h (jnext j) as q)"

lemma lseg_append: "lseg h p (as @ bs) q \<longleftrightarrow> (\<exists>m. lseg h p as m \<and> lseg h m bs q)"
  by (induction as arbitrary: p) auto

lemma lseg_cong:
  "(\<And>a. a \<in> set as \<Longrightarrow> map_option jnext (h' a) = map_option jnext (h a)) \<Longrightarrow> lseg h' p as q \<longleftrightarrow> lseg h p as q"
proof (induction as arbitrary: p)
  case (Cons a as)
  have "map_option jnext (h' a) = map_option jnext (h a)" by (rule Cons.prems) simp
  with Cons.IH [OF Cons.prems] show ?case by (cases "h a"; cases "h' a") auto
qed simp

lemma lseg_update [simp]: "a \<notin> set as \<Longrightarrow> lseg (h(a := x)) p as q \<longleftrightarrow> lseg h p as q"
  by (rule lseg_cong) auto

lemma lseg_first: "lseg h p as q \<Longrightarrow> p = (case as of [] \<Rightarrow> q | a # _ \<Rightarrow> Some a)"
  by (cases as) auto

lemma last_job_lseg: "lseg h (Some a) as None \<Longrightarrow> last_job h a = Some (Inr (last as))"
proof (induction as arbitrary: a)
  case (Cons b as)
  then obtain j where j: "a = b" "h a = Some j" "lseg h (jnext j) as None" by auto
  show ?case
  proof (cases as)
    case Nil
    with j show ?thesis by (simp add: last_job.simps [of h b])
  next
    case (Cons c cs)
    with j have "jnext j = Some c" by simp
    with j Cons.IH [of c] Cons show ?thesis by (simp add: last_job.simps [of h b])
  qed
qed simp

subsection \<open>The queue\<close>

type_synonym 'l queue = "(nat \<times> 'l) list"

definition is_queue :: "'l sched \<Rightarrow> 'l queue \<Rightarrow> bool" where
  "is_queue s Q \<longleftrightarrow> lseg (jobs s) (head s) (map fst Q) None \<and> distinct (map fst Q) \<and> dom (jobs s) = set (map fst Q)
     \<and> (\<forall>(a, l) \<in> set Q. \<exists>j. jobs s a = Some j \<and> code j = l \<and> start_addr j \<noteq> 0)"

definition in_round :: "'l sched \<Rightarrow> 'l queue \<Rightarrow> 'l queue \<Rightarrow> bool" where
  "in_round s B A \<longleftrightarrow> is_queue s (B @ A) \<and> curr s = (if B = [] then None else Some (fst (last B)))"

definition good_alloc :: "('l job_heap \<Rightarrow> (nat \<times> nat) option) \<Rightarrow> bool" where
  "good_alloc alloc \<longleftrightarrow> (\<forall>h. finite (dom h) \<longrightarrow> (\<exists>a st. alloc h = Some (a, st) \<and> h a = None \<and> st \<noteq> 0))"

lemma is_queue_fields [simp]: "is_queue (s\<lparr>curr := c, prev := p\<rparr>) Q \<longleftrightarrow> is_queue s Q" "is_queue (s\<lparr>curr := c\<rparr>) Q \<longleftrightarrow> is_queue s Q"
  by (simp_all add: is_queue_def)

lemma is_queue_job: "is_queue s Q \<Longrightarrow> (a, l) \<in> set Q \<Longrightarrow> \<exists>j. jobs s a = Some j \<and> code j = l \<and> start_addr j \<noteq> 0"
  by (auto simp: is_queue_def)

lemma is_queueI:
  assumes "lseg (jobs s) (head s) (map fst Q) None" and "distinct (map fst Q)" and "dom (jobs s) = set (map fst Q)"
    and "\<And>a l. (a, l) \<in> set Q \<Longrightarrow> \<exists>j. jobs s a = Some j \<and> code j = l \<and> start_addr j \<noteq> 0"
  shows "is_queue s Q"
  using assms unfolding is_queue_def by blast

lemma new_job_ok: "page \<noteq> 0 \<Longrightarrow> \<exists>j. new_job page st l = Inr j \<and> code j = l \<and> start_addr j = st \<and> jnext j = None"
  by (simp add: new_job_def memory_align_def Let_def)

lemma append_job_queue:
  assumes q: "is_queue s Q" and new: "jobs s a = None" and j: "code j = l" "start_addr j \<noteq> 0" "jnext j = None"
  shows "\<exists>s'. append_job s a j = Some (Inr s') \<and> is_queue s' (Q @ [(a, l)]) \<and> curr s' = curr s \<and> prev s' = prev s"
proof (cases Q rule: rev_cases)
  case Nil
  with q have "head s = None" by (simp add: is_queue_def)
  with Nil q j show ?thesis by (simp add: append_job_def is_queue_def)
next
  case (snoc Q' bl)
  obtain b k where bl: "bl = (b, k)" by (cases bl)
  let ?h = "(jobs s)(a := Some j)"
  have a: "a \<notin> set (map fst Q)" using q new by (auto simp: is_queue_def domIff)
  then have ab: "a \<noteq> b" "a \<notin> fst ` set Q'" using snoc bl by auto
  have b: "b \<notin> fst ` set Q'" using q snoc bl by (auto simp: is_queue_def)
  obtain jb where jb: "jobs s b = Some jb" "jnext jb = None" "lseg (jobs s) (head s) (map fst Q') (Some b)"
    using q snoc bl by (auto simp: is_queue_def lseg_append)
  obtain x where x: "head s = Some x" using jb(3) by (cases Q') auto
  have "lseg ?h (Some x) (map fst Q) None" using q x a unfolding is_queue_def by simp
  from last_job_lseg [OF this] have last: "last_job ?h x = Some (Inr b)" using snoc bl by simp
  let ?s = "s\<lparr>jobs := ?h(b := Some (jb\<lparr>jnext := Some a\<rparr>))\<rparr>"
  have app: "append_job s a j = Some (Inr ?s)"
    using x last jb(1) ab(1) by (simp add: append_job_def lbind_def set_next_def)
  have "lseg (jobs ?s) (head s) (map fst Q') (Some b)" using jb(3) ab(2) b by simp
  then have "lseg (jobs ?s) (head s) (map fst (Q @ [(a, l)])) None"
    using snoc bl ab(1) j(3) by (simp add: lseg_append)
  moreover have "\<exists>i. jobs ?s c = Some i \<and> code i = m \<and> start_addr i \<noteq> 0" if "(c, m) \<in> set (Q @ [(a, l)])" for c m
  proof (cases "c = a")
    case True
    then have "m = l" using that a by (force simp: image_iff)
    with True ab(1) j show ?thesis by simp
  next
    case False
    then have "(c, m) \<in> set Q" using that by auto
    then obtain i where "jobs s c = Some i" "code i = m" "start_addr i \<noteq> 0" using is_queue_job [OF q] by blast
    with False jb(1) show ?thesis by (cases "c = b") simp_all
  qed
  moreover have "dom (jobs ?s) = set (map fst (Q @ [(a, l)]))" using q snoc bl by (auto simp: is_queue_def)
  ultimately have "is_queue ?s (Q @ [(a, l)])" using q a unfolding is_queue_def by auto
  with app show ?thesis by simp
qed

lemma create_all_queue:
  assumes "good_alloc alloc" and "page \<noteq> 0" and "is_queue s Q"
  shows "\<exists>as s'. create_all alloc page s ls = Some (Inr s') \<and> length as = length ls \<and> is_queue s' (Q @ zip as ls) \<and>
    curr s' = curr s \<and> prev s' = prev s"
  using assms(3)
proof (induction ls arbitrary: s Q)
  case Nil
  then show ?case by simp
next
  case (Cons l ls)
  have "finite (dom (jobs s))" using Cons.prems by (simp add: is_queue_def)
  then obtain a st where a: "alloc (jobs s) = Some (a, st)" "jobs s a = None" "st \<noteq> 0"
    using assms(1) unfolding good_alloc_def by blast
  obtain j where j: "new_job page st l = Inr j" "code j = l" "start_addr j = st" "jnext j = None"
    using new_job_ok [OF assms(2), of st l] by metis
  obtain s1 where s1: "append_job s a j = Some (Inr s1)" "is_queue s1 (Q @ [(a, l)])" "curr s1 = curr s" "prev s1 = prev s"
    using append_job_queue [OF Cons.prems a(2) j(2) _ j(4)] a(3) j(3) by auto
  obtain as s' where "create_all alloc page s1 ls = Some (Inr s')" "length as = length ls"
    "is_queue s' ((Q @ [(a, l)]) @ zip as ls)" "curr s' = curr s1" "prev s' = prev s1"
    using Cons.IH [OF s1(2)] by blast
  then show ?case using a(1) j(1) s1
    by (intro exI [of _ "a # as"] exI [of _ s']) (simp add: create_job_def lbind_def)
qed

subsection \<open>One step\<close>

text \<open>The queue when the next job is chosen: at the end of a round the jobs that ran wait again.\<close>

definition turn :: "'l queue \<Rightarrow> 'l queue \<Rightarrow> 'l queue \<times> 'l queue" where
  "turn B A = (if A = [] then ([], B) else (B, A))"

definition last_addr :: "'l queue \<Rightarrow> nat option" where
  "last_addr B = (if B = [] then None else Some (fst (last B)))"

lemma advance_turn:
  assumes "in_round s B A" and "turn B A = (B1, R)"
  shows "advance s = Inr (s\<lparr>curr := (case R of [] \<Rightarrow> None | x # _ \<Rightarrow> Some (fst x)), prev := last_addr B1\<rparr>)"
proof -
  have q: "is_queue s (B @ A)" "curr s = (if B = [] then None else Some (fst (last B)))"
    using assms(1) by (simp_all add: in_round_def)
  have head: "head s = (case B @ A of [] \<Rightarrow> None | x # _ \<Rightarrow> Some (fst x))"
    using q(1) by (cases "B @ A") (simp_all add: is_queue_def flip: map_append)
  show ?thesis
  proof (cases B rule: rev_cases)
    case Nil
    with q head assms(2) show ?thesis by (auto simp: advance_def turn_def last_addr_def split: if_splits list.splits)
  next
    case (snoc B' c)
    obtain j where j: "jobs s (fst c) = Some j" "lseg (jobs s) (jnext j) (map fst A) None"
      using q(1) snoc by (auto simp: is_queue_def lseg_append)
    have "jnext j = (case A of [] \<Rightarrow> None | x # _ \<Rightarrow> Some (fst x))"
      using lseg_first [OF j(2)] by (auto split: list.splits)
    moreover have "B \<noteq> []" "last B = c" "curr s = Some (fst c)" using snoc q(2) by simp_all
    ultimately show ?thesis using j(1) head assms(2) by (cases A) (auto simp: advance_def turn_def last_addr_def)
  qed
qed

lemma is_queue_update:
  assumes q: "is_queue s (B @ (c, l) # A)" and j: "jobs s c = Some j" and j': "jnext j' = jnext j" "code j' = l'" "start_addr j' \<noteq> 0"
  shows "is_queue (s\<lparr>jobs := (jobs s)(c := Some j')\<rparr>) (B @ (c, l') # A)"
proof -
  let ?h = "(jobs s)(c := Some j')"
  have seg: "lseg ?h (head s) (map fst (B @ (c, l') # A)) None"
    using q lseg_cong [of "map fst (B @ (c, l) # A)" ?h "jobs s" "head s" None] j j'(1) by (auto simp: is_queue_def)
  have c: "c \<notin> fst ` set B" "c \<notin> fst ` set A" using q by (auto simp: is_queue_def)
  have "\<exists>i. ?h a = Some i \<and> code i = m \<and> start_addr i \<noteq> 0" if "(a, m) \<in> set (B @ (c, l') # A)" for a m
  proof (cases "a = c")
    case True
    then have "m = l'" using that c by (force simp: image_iff)
    with True j' show ?thesis by simp
  next
    case False
    with that have "(a, m) \<in> set (B @ (c, l) # A)" by auto
    with is_queue_job [OF q] False show ?thesis by simp
  qed
  then have data: "\<forall>(a, m) \<in> set (B @ (c, l') # A). \<exists>i. ?h a = Some i \<and> code i = m \<and> start_addr i \<noteq> 0" by blast
  have "dom ?h = set (map fst (B @ (c, l') # A))" "distinct (map fst (B @ (c, l') # A))"
    using q by (auto simp: is_queue_def)
  with seg data show ?thesis unfolding is_queue_def by simp
qed

lemma finish_job_queue:
  assumes q: "is_queue s (B @ (c, l) # A)" and p: "prev s = last_addr B"
  shows "\<exists>s'. finish_job s c = Inr s' \<and> is_queue s' (B @ A) \<and> curr s' = last_addr B"
proof -
  obtain j where j: "jobs s c = Some j" "lseg (jobs s) (jnext j) (map fst A) None" "lseg (jobs s) (head s) (map fst B) (Some c)"
    using q by (auto simp: is_queue_def lseg_append)
  have c: "c \<notin> fst ` set B" "c \<notin> fst ` set A" using q by (auto simp: is_queue_def)
  have dj: "distinct (map fst (B @ A))" "dom (jobs s) = insert c (set (map fst (B @ A)))"
    using q by (auto simp: is_queue_def)
  have data: "\<exists>i. jobs s a = Some i \<and> code i = m \<and> start_addr i \<noteq> 0" if "(a, m) \<in> set (B @ A)" for a m
    using is_queue_job [OF q] that by auto
  show ?thesis
  proof (cases B rule: rev_cases)
    case Nil
    let ?s = "s\<lparr>head := jnext j, jobs := (jobs s)(c := None), curr := None\<rparr>"
    have "head s = Some c" using j(3) Nil by simp
    then have "finish_job s c = Inr ?s"
      using p Nil j(1) by (simp add: finish_job_def unlink_and_free_def last_addr_def)
    moreover have "is_queue ?s A"
      using j(2) c dj data Nil unfolding is_queue_def by force
    ultimately show ?thesis using Nil by (simp add: last_addr_def)
  next
    case (snoc B' bk)
    obtain b k where bk: "bk = (b, k)" by (cases bk)
    obtain jb where jb: "jobs s b = Some jb" "lseg (jobs s) (head s) (map fst B') (Some b)"
      using j(3) snoc bk by (auto simp: lseg_append)
    have b: "b \<noteq> c" "b \<notin> fst ` set B'" "b \<notin> fst ` set A" using c dj(1) snoc bk by auto
    let ?h = "(jobs s)(b := Some (jb\<lparr>jnext := jnext j\<rparr>), c := None)"
    let ?s = "s\<lparr>jobs := ?h, curr := Some b\<rparr>"
    have fin: "finish_job s c = Inr ?s"
      using p snoc bk j(1) jb(1) by (simp add: finish_job_def unlink_and_free_def last_addr_def set_next_def)
    have "lseg ?h (head s) (map fst B') (Some b)" "lseg ?h (jnext j) (map fst A) None"
      using jb(2) j(2) b c snoc by simp_all
    then have "lseg ?h (head s) (map fst (B @ A)) None" using snoc bk b(1) by (simp add: lseg_append)
    moreover have "\<exists>i. ?h a = Some i \<and> code i = m \<and> start_addr i \<noteq> 0" if "(a, m) \<in> set (B @ A)" for a m
    proof -
      have "a \<noteq> c" using that c by (force simp: image_iff)
      with data [OF that] jb(1) show ?thesis by auto
    qed
    moreover have "dom ?h = set (map fst (B @ A))" using dj c jb(1) by (auto simp: image_iff)
    ultimately have "is_queue ?s (B @ A)" using dj(1) by (intro is_queueI) simp_all
    with fin snoc bk show ?thesis by (simp add: last_addr_def)
  qed
qed

lemma execute_step_empty:
  assumes "in_round s [] []"
  shows "execute_step alloc page burst s = Some (Inr (None, Freed (\<lambda>_. None)))"
proof -
  have "jobs s = (\<lambda>_. None)" using assms by (simp add: in_round_def is_queue_def)
  then show ?thesis using advance_turn [OF assms, of "[]" "[]"] by (simp add: execute_step_def turn_def)
qed

lemma execute_step_queue:
  assumes r: "in_round s B A" and t: "turn B A = (B1, (c, l) # A1)" and ok: "good_alloc alloc" "page \<noteq> 0"
    and b: "burst l = (new, res)"
  shows "\<exists>as s'. length as = length new \<and> execute_step alloc page burst s = Some (Inr (Some (c, l), Live s')) \<and>
     (case res of
        Some l' \<Rightarrow> in_round s' (B1 @ [(c, l')]) (A1 @ zip as new)
      | None \<Rightarrow> in_round s' B1 (A1 @ zip as new))"
proof -
  let ?s1 = "s\<lparr>curr := Some c, prev := last_addr B1\<rparr>"
  have adv: "advance s = Inr ?s1" using advance_turn [OF r t] by simp
  have BA: "B @ A = B1 @ (c, l) # A1" using t by (auto simp: turn_def split: if_splits)
  then have q1: "is_queue ?s1 (B1 @ (c, l) # A1)" using r by (simp add: in_round_def)
  obtain j where j: "jobs s c = Some j" "code j = l" "start_addr j \<noteq> 0" using is_queue_job [OF q1, of c l] by auto
  obtain s2 where s2: "start_job ?s1 c j = Inr s2" "is_queue s2 (B1 @ (c, l) # A1)" "curr s2 = Some c" "prev s2 = last_addr B1"
  proof (cases "status j = 0")
    case True
    have "is_queue (?s1\<lparr>jobs := (jobs ?s1)(c := Some (j\<lparr>status := 1\<rparr>))\<rparr>) (B1 @ (c, l) # A1)"
      by (rule is_queue_update [OF q1, of j]) (use j in simp_all)
    with True j(3) that show ?thesis by (simp add: start_job_def)
  next
    case False
    with q1 that show ?thesis by (simp add: start_job_def)
  qed
  obtain as s3 where s3: "create_all alloc page s2 new = Some (Inr s3)" "length as = length new"
      "is_queue s3 (B1 @ (c, l) # (A1 @ zip as new))" "curr s3 = Some c" "prev s3 = last_addr B1"
    using create_all_queue [OF ok s2(2), of new] s2(3,4) by auto
  have step: "execute_step alloc page burst s =
      (case (case res of Some l \<Rightarrow> scheduler_yield l s3 | None \<Rightarrow> finish_job s3 c) of
         Inl e \<Rightarrow> Some (Inl e) | Inr s \<Rightarrow> Some (Inr (Some (c, l), Live s)))"
    using adv j(1) s2(1) s3(1) b unfolding j(2) [symmetric] by (simp add: execute_step_def lbind_def)
  show ?thesis
  proof (cases res)
    case None
    obtain s4 where "finish_job s3 c = Inr s4" "is_queue s4 (B1 @ (A1 @ zip as new))" "curr s4 = last_addr B1"
      using finish_job_queue [OF s3(3,5)] by blast
    with step None s3(2) show ?thesis by (auto simp: in_round_def last_addr_def)
  next
    case (Some l')
    obtain i where i: "jobs s3 c = Some i" "start_addr i \<noteq> 0" using is_queue_job [OF s3(3), of c l] by auto
    let ?s4 = "s3\<lparr>jobs := (jobs s3)(c := Some (i\<lparr>code := l'\<rparr>))\<rparr>"
    have "is_queue ?s4 (B1 @ (c, l') # (A1 @ zip as new))"
      by (rule is_queue_update [OF s3(3) i(1)]) (use i in simp_all)
    moreover have "scheduler_yield l' s3 = Inr ?s4" using s3(4) i(1) by (simp add: scheduler_yield_def)
    ultimately show ?thesis using step Some s3(2,4) by (auto simp: in_round_def)
  qed
qed

subsection \<open>Runs of the queue\<close>

definition after_burst :: "nat \<Rightarrow> 'l option \<Rightarrow> 'l queue" where
  "after_burst c res = (case res of Some l \<Rightarrow> [(c, l)] | None \<Rightarrow> [])"

inductive queue_step :: "('l \<Rightarrow> 'l list \<times> 'l option) \<Rightarrow> 'l queue \<times> 'l queue \<Rightarrow> nat \<times> 'l \<Rightarrow> 'l queue \<times> 'l queue \<Rightarrow> bool"
  for burst where
  queue_step: "turn B A = (B1, (c, l) # A1) \<Longrightarrow> burst l = (new, res) \<Longrightarrow> length as = length new \<Longrightarrow>
     queue_step burst (B, A) (c, l) (B1 @ after_burst c res, A1 @ zip as new)"

inductive queue_run :: "('l \<Rightarrow> 'l list \<times> 'l option) \<Rightarrow> 'l queue \<times> 'l queue \<Rightarrow> (nat \<times> 'l) list \<Rightarrow> bool" for burst where
  run_done: "queue_run burst ([], []) []"
| run_more: "queue_step burst q r q' \<Longrightarrow> queue_run burst q' tr \<Longrightarrow> queue_run burst q (r # tr)"

inductive_cases queue_stepE: "queue_step burst q r q'"

lemma turn_some: "B @ A \<noteq> [] \<Longrightarrow> \<exists>B1 c l A1. turn B A = (B1, (c, l) # A1) \<and> B @ A = B1 @ (c, l) # A1"
  by (cases A; cases B) (auto simp: turn_def)

lemma execute_step_run:
  assumes "in_round s B A" and "B @ A \<noteq> []" and "good_alloc alloc" and "page \<noteq> 0"
  shows "\<exists>r s' B' A'. execute_step alloc page burst s = Some (Inr (Some r, Live s')) \<and> in_round s' B' A' \<and>
     queue_step burst (B, A) r (B', A')"
proof -
  obtain B1 c l A1 where t: "turn B A = (B1, (c, l) # A1)" using turn_some [OF assms(2)] by blast
  obtain new res where b: "burst l = (new, res)" by (cases "burst l")
  obtain as s' where s': "length as = length new" "execute_step alloc page burst s = Some (Inr (Some (c, l), Live s'))"
    "case res of Some l' \<Rightarrow> in_round s' (B1 @ [(c, l')]) (A1 @ zip as new) | None \<Rightarrow> in_round s' B1 (A1 @ zip as new)"
    using execute_step_queue [where burst = burst and l = l, OF assms(1) t assms(3,4) b] by blast
  have "in_round s' (B1 @ after_burst c res) (A1 @ zip as new)"
    using s'(3) by (cases res) (simp_all add: after_burst_def)
  with queue_step [where burst = burst and l = l, OF t b s'(1)] s'(2) show ?thesis by blast
qed

text \<open>
  The contract of jobs that end: a measure of the work that is left, which goes down with every burst, the work of the jobs
  created included.
\<close>

locale ending_jobs =
  fixes burst :: "'l \<Rightarrow> 'l list \<times> 'l option" and work :: "'l \<Rightarrow> nat"
  assumes work_yield: "burst l = (new, Some l') \<Longrightarrow> work l' + sum_list (map work new) < work l"
    and work_return: "burst l = (new, None) \<Longrightarrow> sum_list (map work new) < work l"
begin

definition left :: "'l queue \<times> 'l queue \<Rightarrow> nat" where
  "left q = sum_list (map (work \<circ> snd) (fst q @ snd q))"

lemma queue_step_left: "queue_step burst q r q' \<Longrightarrow> left q' < left q"
proof (erule queue_stepE)
  fix B A B1 c l A1 new res as
  assume q: "q = (B, A)" "r = (c, l)" "q' = (B1 @ after_burst c res, A1 @ zip as new)"
    and t: "turn B A = (B1, (c, l) # A1)" and b: "burst l = (new, res)" and as: "length as = length new"
  have BA: "B @ A = B1 @ (c, l) # A1" using t by (auto simp: turn_def split: if_splits)
  have "map (work \<circ> snd) (zip as new) = map work new" using as by (simp flip: map_map)
  then show "left q' < left q"
    using BA work_yield [of l new] work_return [of l new] b
    by (cases res) (simp_all add: left_def q after_burst_def)
qed

lemma execute_loop_ends:
  assumes "in_round s B A" and "good_alloc alloc" and "page \<noteq> 0"
  shows "\<exists>tr'. execute_loop alloc page burst s tr = Some (Inr (tr @ tr', Freed (\<lambda>_. None))) \<and>
    queue_run burst (B, A) tr' \<and> length tr' \<le> left (B, A)"
  using assms(1)
proof (induction "left (B, A)" arbitrary: s B A tr rule: less_induct)
  case less
  show ?case
  proof (cases "B @ A = []")
    case True
    then have "execute_step alloc page burst s = Some (Inr (None, Freed (\<lambda>_. None)))"
      using less.prems by (intro execute_step_empty) simp
    with True show ?thesis by (subst execute_loop.simps) (simp add: run_done)
  next
    case False
    obtain r s' B' A' where step: "execute_step alloc page burst s = Some (Inr (Some r, Live s'))" "in_round s' B' A'"
        "queue_step burst (B, A) r (B', A')"
      using execute_step_run [OF less.prems False assms(2,3)] by blast
    obtain tr' where tr': "execute_loop alloc page burst s' (tr @ [r]) = Some (Inr ((tr @ [r]) @ tr', Freed (\<lambda>_. None)))"
        "queue_run burst (B', A') tr'" "length tr' \<le> left (B', A')"
      using less.hyps [OF queue_step_left [OF step(3)] step(2)] by blast
    have "execute_loop alloc page burst s tr = Some (Inr (tr @ r # tr', Freed (\<lambda>_. None)))"
      using step(1) tr'(1) by (subst execute_loop.simps) simp
    with run_more [OF step(3) tr'(2)] tr'(3) queue_step_left [OF step(3)] show ?thesis by force
  qed
qed

end

text \<open>The contexts of one job, from the first to the one in which its function returns.\<close>

inductive life :: "('l \<Rightarrow> 'l list \<times> 'l option) \<Rightarrow> 'l \<Rightarrow> 'l list \<Rightarrow> bool" for burst where
  life_end: "burst l = (new, None) \<Longrightarrow> life burst l [l]"
| life_more: "burst l = (new, Some l') \<Longrightarrow> life burst l' ls \<Longrightarrow> life burst l (l # ls)"

inductive_cases lifeE: "life burst l ls"

lemma life_unique: "life burst l ls \<Longrightarrow> life burst l ls' \<Longrightarrow> ls' = ls"
proof (induction arbitrary: ls' rule: life.induct)
  case (life_end l new)
  show ?case by (rule lifeE [OF life_end.prems]) (simp_all add: life_end.hyps)
next
  case (life_more l new l' ls)
  show ?case
  proof (rule lifeE [OF life_more.prems])
    fix new1 l1 ls1
    assume "ls' = l # ls1" and b: "burst l = (new1, Some l1)" and "life burst l1 ls1"
    moreover have "l1 = l'" using b life_more.hyps(1) by simp
    ultimately show "ls' = l # ls" using life_more.IH by simp
  qed (simp add: life_more.hyps(1))
qed

text \<open>Jobs that create none and return some time have an end: the number of bursts left.\<close>

lemma lives_end:
  assumes "\<forall>l. fst (burst l) = []" and "\<forall>l. \<exists>ls. life burst l ls"
  shows "ending_jobs burst (\<lambda>l. length (THE ls. life burst l ls))"
proof
  have the: "(THE ls. life burst l ls) = ls" if "life burst l ls" for l ls
    by (rule the_equality [where P = "life burst l", OF that life_unique [OF that]])
  fix l new
  have none: "new' = []" if "burst l = (new', r)" for new' r using assms(1) that by (metis fst_conv)
  show "length (THE ls. life burst l' ls) + sum_list (map (\<lambda>l. length (THE ls. life burst l ls)) new) < length (THE ls. life burst l ls)"
    if b: "burst l = (new, Some l')" for l'
  proof -
    obtain ls where ls: "life burst l' ls" using assms(2) by blast
    from the [OF this] the [OF life_more [where burst = burst, OF b ls]] none [OF b] show ?thesis by simp
  qed
  show "sum_list (map (\<lambda>l. length (THE ls. life burst l ls)) new) < length (THE ls. life burst l ls)" if b: "burst l = (new, None)"
    using the [OF life_end [where burst = burst and l = l, OF b]] none [OF b] by simp
qed

text \<open>When no job creates another, what the scheduler ran of each job is its whole life, in order.\<close>

lemma queue_run_life:
  assumes "queue_run burst q tr" and "\<forall>l. fst (burst l) = []" and "distinct (map fst (fst q @ snd q))"
  shows "(\<forall>(a, l) \<in> set (fst q @ snd q). life burst l (map snd (filter (\<lambda>r. fst r = a) tr)))
    \<and> fst ` set tr \<subseteq> fst ` set (fst q @ snd q)"
  using assms(1,3)
proof (induction rule: queue_run.induct)
  case run_done
  then show ?case by simp
next
  case (run_more q r q' tr)
  obtain B A B1 c l A1 new res as where s: "q = (B, A)" "r = (c, l)" "q' = (B1 @ after_burst c res, A1 @ zip as new)"
      "turn B A = (B1, (c, l) # A1)" "burst l = (new, res)"
    using run_more.hyps(1) by (auto elim: queue_stepE)
  have new: "new = []" using assms(2) s(5) by (metis fst_conv)
  have BA: "B @ A = B1 @ (c, l) # A1" using s(4) by (auto simp: turn_def split: if_splits)
  have dist: "distinct (map fst (B1 @ (c, l) # A1))" using run_more.prems s(1) BA by (metis fst_conv snd_conv)
  then have "distinct (map fst (fst q' @ snd q'))" using s(3) new by (auto simp: after_burst_def split: option.split)
  note IH = run_more.IH [OF this]
  have q': "fst q' @ snd q' = B1 @ after_burst c res @ A1" using s(3) new by simp
  have c: "c \<notin> fst ` set B1" "c \<notin> fst ` set A1" using dist by auto
  have addrs: "fst ` set (r # tr) \<subseteq> fst ` set (B1 @ (c, l) # A1)"
    using IH q' s(2) by (auto simp: after_burst_def split: option.splits)
  have lives: "life burst m (map snd (filter (\<lambda>x. fst x = a) (r # tr)))" if am: "(a, m) \<in> set (B1 @ (c, l) # A1)" for a m
  proof (cases "a = c")
    case False
    with am have "(a, m) \<in> set (fst q' @ snd q')" using q' by auto
    with IH False s(2) show ?thesis by auto
  next
    case True
    with am c have m: "m = l" by (force simp: image_iff)
    show ?thesis
    proof (cases res)
      case None
      then have "c \<notin> fst ` set tr" using IH q' c by (auto simp: after_burst_def)
      then have "filter (\<lambda>x. fst x = c) tr = []" by (auto simp: filter_empty_conv)
      with True m None s(2,5) show ?thesis by (simp add: life_end)
    next
      case (Some l')
      then have "(c, l') \<in> set (fst q' @ snd q')" using q' by (simp add: after_burst_def)
      with IH have "life burst l' (map snd (filter (\<lambda>x. fst x = c) tr))" by blast
      with True m Some s(2,5) show ?thesis by (auto intro: life_more)
    qed
  qed
  have eq: "fst q @ snd q = B1 @ (c, l) # A1" using BA s(1) by simp
  show ?case unfolding eq using addrs lives by blast
qed

subsection \<open>Turns\<close>

text \<open>The first \<open>n\<close> steps, and the jobs they ran.\<close>

primrec run_steps :: "('l job_heap \<Rightarrow> (nat \<times> nat) option) \<Rightarrow> nat \<Rightarrow> ('l \<Rightarrow> 'l list \<times> 'l option) \<Rightarrow> nat \<Rightarrow> 'l sched \<Rightarrow>
    ((nat \<times> 'l) list \<times> 'l sched) option" where
  "run_steps alloc page burst 0 s = Some ([], s)"
| "run_steps alloc page burst (Suc n) s =
     (case execute_step alloc page burst s of
        Some (Inr (Some r, Live s')) \<Rightarrow>
          (case run_steps alloc page burst n s' of None \<Rightarrow> None | Some (rs, s'') \<Rightarrow> Some (r # rs, s''))
      | _ \<Rightarrow> None)"

lemma run_steps_turns:
  assumes "in_round s B A" and "n \<le> length A" and "good_alloc alloc" and "page \<noteq> 0"
  shows "\<exists>s' B' N. run_steps alloc page burst n s = Some (take n A, s') \<and> in_round s' B' (drop n A @ N)"
  using assms(1,2)
proof (induction n arbitrary: s B A)
  case 0
  then show ?case by (intro exI [of _ s] exI [of _ B] exI [of _ "[]"]) simp
next
  case (Suc n)
  then obtain c l A1 where A: "A = (c, l) # A1" by (cases A) auto
  obtain new res where b: "burst l = (new, res)" by (cases "burst l")
  have t: "turn B A = (B, (c, l) # A1)" using A by (simp add: turn_def)
  obtain as s' where s': "execute_step alloc page burst s = Some (Inr (Some (c, l), Live s'))"
    "case res of Some l' \<Rightarrow> in_round s' (B @ [(c, l')]) (A1 @ zip as new) | None \<Rightarrow> in_round s' B (A1 @ zip as new)"
    using execute_step_queue [where burst = burst and l = l, OF Suc.prems(1) t assms(3,4) b] by blast
  then obtain B' where "in_round s' B' (A1 @ zip as new)" by (cases res) auto
  moreover have "n \<le> length (A1 @ zip as new)" using Suc.prems(2) A by simp
  ultimately obtain s2 B2 N where s2: "run_steps alloc page burst n s' = Some (take n (A1 @ zip as new), s2)"
      "in_round s2 B2 (drop n (A1 @ zip as new) @ N)"
    using Suc.IH by blast
  moreover have "take n (A1 @ zip as new) = take n A1" "drop n (A1 @ zip as new) = drop n A1 @ zip as new"
    using Suc.prems(2) A by simp_all
  ultimately show ?case using s'(1) A by auto
qed

lemma run_steps_append:
  "run_steps alloc page burst m s = Some (rs, s1) \<Longrightarrow> run_steps alloc page burst n s1 = Some (rs', s2) \<Longrightarrow>
     run_steps alloc page burst (m + n) s = Some (rs @ rs', s2)"
  by (induction m arbitrary: s rs) (auto split: option.splits sum.splits sch_obj.splits)

text \<open>The end of a round: after the last job the list starts again.\<close>

lemma wrap_step:
  assumes "in_round s B []"
  shows "execute_step alloc page burst s = execute_step alloc page burst (s\<lparr>curr := None\<rparr>)" and "in_round (s\<lparr>curr := None\<rparr>) [] B"
proof -
  show i: "in_round (s\<lparr>curr := None\<rparr>) [] B" using assms by (simp add: in_round_def)
  have "advance s = advance (s\<lparr>curr := None\<rparr>)"
  proof (cases B)
    case Nil
    then have "curr s = None" using assms by (simp add: in_round_def)
    then show ?thesis by (simp add: advance_def)
  next
    case (Cons x xs)
    then show ?thesis using advance_turn [OF assms, of "[]" B] advance_turn [OF i, of "[]" B] by (cases x) (simp add: turn_def)
  qed
  then show "execute_step alloc page burst s = execute_step alloc page burst (s\<lparr>curr := None\<rparr>)" by (simp add: execute_step_def)
qed

lemma wrap_steps:
  assumes "in_round s B []" and "n \<le> length B" and "good_alloc alloc" and "page \<noteq> 0"
  shows "\<exists>s' B' A'. run_steps alloc page burst n s = Some (take n B, s') \<and> in_round s' B' A'"
proof (cases n)
  case 0
  then show ?thesis using assms(1) by auto
next
  case (Suc k)
  then have "run_steps alloc page burst n s = run_steps alloc page burst n (s\<lparr>curr := None\<rparr>)"
    using wrap_step(1) [OF assms(1), of alloc page burst] by simp
  then show ?thesis using run_steps_turns [OF wrap_step(2) [OF assms(1)] assms(2-4), of burst] by auto
qed

text \<open>
  A round: the jobs that wait run, and those created meanwhile. \<open>born\<close> bounds the jobs that a burst brings into the round, those that they
  create in turn included.
\<close>

lemma round_ends:
  assumes "in_round s B A" and "good_alloc alloc" and "page \<noteq> 0"
    and born: "\<And>l. sum_list (map (\<lambda>m. Suc (born m)) (fst (burst l))) \<le> born l"
  shows "\<exists>N B' s'. run_steps alloc page burst (length (A @ N)) s = Some (A @ N, s') \<and> in_round s' (B @ B') [] \<and>
    map snd N = concat (map (fst \<circ> burst \<circ> snd) (A @ N)) \<and> length N \<le> sum_list (map (born \<circ> snd) A)"
  using assms(1)
proof (induction "sum_list (map (\<lambda>x. Suc (born (snd x))) A)" arbitrary: s B A rule: less_induct)
  case less
  show ?case
  proof (cases A)
    case Nil
    with less.prems show ?thesis by (intro exI [of _ "[]"] exI [of _ s]) simp
  next
    case (Cons x A1)
    obtain c l where x: "x = (c, l)" by (cases x)
    obtain new res where b: "burst l = (new, res)" by (cases "burst l")
    have t: "turn B A = (B, (c, l) # A1)" using Cons x by (simp add: turn_def)
    obtain as s1 where s1: "length as = length new" "execute_step alloc page burst s = Some (Inr (Some (c, l), Live s1))"
      "case res of Some l' \<Rightarrow> in_round s1 (B @ [(c, l')]) (A1 @ zip as new) | None \<Rightarrow> in_round s1 B (A1 @ zip as new)"
      using execute_step_queue [where burst = burst and l = l, OF less.prems t assms(2,3) b] by blast
    have r1: "in_round s1 (B @ after_burst c res) (A1 @ zip as new)" using s1(3) by (cases res) (simp_all add: after_burst_def)
    have z: "map (\<lambda>x. f (snd x)) (zip as new) = map f new" for f :: "_ \<Rightarrow> nat"
    proof -
      have "map (\<lambda>x. f (snd x)) (zip as new) = map f (map snd (zip as new))" by (simp only: map_map comp_def)
      then show ?thesis using s1(1) by simp
    qed
    have zn: "sum_list (map (\<lambda>m. Suc (born m)) new) \<le> born l" using born [of l] b by simp
    have "sum_list (map (\<lambda>x. Suc (born (snd x))) (A1 @ zip as new)) < sum_list (map (\<lambda>x. Suc (born (snd x))) A)"
      using zn by (simp add: Cons x z [of "\<lambda>m. Suc (born m)"])
    from less.hyps [OF this r1] obtain N B' s' where N: "run_steps alloc page burst (length ((A1 @ zip as new) @ N)) s1 = Some ((A1 @ zip as new) @ N, s')"
      "in_round s' ((B @ after_burst c res) @ B') []" "map snd N = concat (map (fst \<circ> burst \<circ> snd) ((A1 @ zip as new) @ N))"
      "length N \<le> sum_list (map (born \<circ> snd) (A1 @ zip as new))"
      by blast
    have "run_steps alloc page burst (length (A @ zip as new @ N)) s = Some (A @ zip as new @ N, s')"
      using s1(2) N(1) by (simp add: Cons x)
    moreover have "map snd (zip as new @ N) = concat (map (fst \<circ> burst \<circ> snd) (A @ zip as new @ N))"
      using s1(1) N(3) b by (simp add: Cons x)
    moreover have "sum_list (map (\<lambda>m. Suc (born m)) new) = length new + sum_list (map born new)" by (induction new) simp_all
    then have "length (zip as new @ N) \<le> sum_list (map (born \<circ> snd) A)"
      using N(4) zn s1(1) by (simp add: Cons x comp_def z [of born])
    moreover have "in_round s' (B @ (after_burst c res @ B')) []" using N(2) by simp
    ultimately show ?thesis by blast
  qed
qed

lemma created_in_round:
  assumes "good_alloc alloc" and "page \<noteq> 0"
  shows "\<exists>as s. create_all alloc page \<lparr>head = None, curr = None, prev = p, jobs = (\<lambda>_. None)\<rparr> ls = Some (Inr s) \<and>
    length as = length ls \<and> in_round s [] (zip as ls)"
proof -
  have "is_queue \<lparr>head = None, curr = None, prev = p, jobs = (\<lambda>_. None)\<rparr> []" by (simp add: is_queue_def)
  from create_all_queue [OF assms this, of ls] show ?thesis by (auto simp: in_round_def)
qed

subsection \<open>Properties\<close>

text \<open>
  C12: while there are jobs, a step of \<open>scheduler_execute\<close> does not fail, and is a step of a round-robin queue: it runs the
  job after the current one, or the first when there is none; the job keeps its place if it yields and is taken out if it
  returns, and the jobs it created are at the end.
\<close>

theorem scheduler_step_refines:
  assumes "in_round s B A" and "B @ A \<noteq> []" and "good_alloc alloc" and "page \<noteq> 0"
  shows "\<exists>r s' B' A'. execute_step alloc page burst s = Some (Inr (Some r, Live s')) \<and> in_round s' B' A' \<and>
    queue_step burst (B, A) r (B', A')"
  by (rule execute_step_run [OF assms])

text \<open>
  C23: no job is starved. \<open>B\<close> are the jobs that have run in this round, \<open>A\<close> those that wait, and no burst brings more than \<open>born\<close> jobs into the
  round, those which they create counted. Then the next steps run \<open>A\<close> in order, next the jobs \<open>N\<close> created meanwhile, in the order of
  their creation, and then the list starts again and they run the jobs of \<open>B\<close>, whether the jobs of \<open>A\<close> yielded or returned; and then
  the same holds again.
\<close>

theorem scheduler_turns:
  assumes "in_round s B A" and "good_alloc alloc" and "page \<noteq> 0"
    and "\<And>l. sum_list (map (\<lambda>m. Suc (born m)) (fst (burst l))) \<le> born l"
  shows "\<exists>N s' B' A'. run_steps alloc page burst (length (A @ N @ B)) s = Some (A @ N @ B, s') \<and> in_round s' B' A' \<and>
    map snd N = concat (map (fst \<circ> burst \<circ> snd) (A @ N)) \<and> length N \<le> sum_list (map (born \<circ> snd) A)"
proof -
  obtain N B1 s1 where 1: "run_steps alloc page burst (length (A @ N)) s = Some (A @ N, s1)" "in_round s1 (B @ B1) []"
    "map snd N = concat (map (fst \<circ> burst \<circ> snd) (A @ N))" "length N \<le> sum_list (map (born \<circ> snd) A)"
    using round_ends [where burst = burst and born = born, OF assms] by blast
  obtain s2 B2 A2 where "run_steps alloc page burst (length B) s1 = Some (B, s2)" "in_round s2 B2 A2"
    using wrap_steps [where burst = burst, OF 1(2) _ assms(2,3), of "length B"] by auto
  moreover from run_steps_append [OF 1(1) this(1)]
  have "run_steps alloc page burst (length (A @ N @ B)) s = Some (A @ N @ B, s2)" by (simp add: add.assoc)
  ultimately show ?thesis using 1(3,4) by blast
qed

text \<open>
  Without a bound it does not hold: new jobs go to the end of the list, behind which the next round begins. When every burst creates a job, the
  jobs that have run do not run again.
\<close>

theorem scheduler_starves:
  assumes "in_round s B A" and "A \<noteq> []" and "good_alloc alloc" and "page \<noteq> 0" and "\<And>l. fst (burst l) \<noteq> []"
  shows "\<exists>rs s'. run_steps alloc page burst n s = Some (rs, s') \<and> length rs = n \<and> fst ` set rs \<inter> fst ` set B = {}"
proof -
  have "\<exists>rs s'. run_steps alloc page burst n s = Some (rs, s') \<and> length rs = n \<and> fst ` set rs \<inter> fst ` set B = {}"
    if "in_round s (B @ B1) A" "A \<noteq> []" for B1
    using that
  proof (induction n arbitrary: s A B1)
    case (Suc n)
    then obtain c l A1 where A: "A = (c, l) # A1" by (cases A) auto
    obtain new res where b: "burst l = (new, res)" by (cases "burst l")
    have t: "turn (B @ B1) A = (B @ B1, (c, l) # A1)" using A by (simp add: turn_def)
    obtain as s1 where s1: "length as = length new" "execute_step alloc page burst s = Some (Inr (Some (c, l), Live s1))"
      "case res of Some l' \<Rightarrow> in_round s1 ((B @ B1) @ [(c, l')]) (A1 @ zip as new) | None \<Rightarrow> in_round s1 (B @ B1) (A1 @ zip as new)"
      using execute_step_queue [where burst = burst and l = l, OF Suc.prems(1) t assms(3,4) b] by blast
    have "in_round s1 (B @ B1 @ after_burst c res) (A1 @ zip as new)" using s1(3) by (cases res) (simp_all add: after_burst_def)
    moreover have "A1 @ zip as new \<noteq> []" using assms(5) [of l] b s1(1) by (cases as; cases new) auto
    ultimately obtain rs s' where "run_steps alloc page burst n s1 = Some (rs, s')" "length rs = n" "fst ` set rs \<inter> fst ` set B = {}"
      using Suc.IH by blast
    moreover have "c \<notin> fst ` set B" using Suc.prems(1) A by (auto simp: in_round_def is_queue_def)
    ultimately show ?case using s1(2) by auto
  qed simp
  from this [of "[]"] assms(1,2) show ?thesis by simp
qed

text \<open>
  C22: \<open>scheduler_execute\<close> returns when the work of the jobs is bounded, also of those they create, after at most that much
  work; then all jobs and their stacks have been freed, and the scheduler itself.
\<close>

theorem scheduler_execute_ends:
  assumes "in_round s [] A" and "good_alloc alloc" and "page \<noteq> 0"
    and "\<And>l new l'. burst l = (new, Some l') \<Longrightarrow> work l' + sum_list (map work new) < work l"
    and "\<And>l new. burst l = (new, None) \<Longrightarrow> sum_list (map work new) < work l"
  shows "\<exists>tr. scheduler_execute alloc page burst (Live s) = Some (Inr (tr, Freed (\<lambda>_. None))) \<and>
    queue_run burst ([], A) tr \<and> length tr \<le> sum_list (map (work \<circ> snd) A)"
proof -
  have ending: "ending_jobs burst work" using assms(4,5) by unfold_locales blast+
  from ending_jobs.execute_loop_ends [OF ending assms(1-3), of "[]"] show ?thesis
    by (simp add: scheduler_execute_def ending_jobs.left_def [OF ending])
qed

text \<open>
  The stack pointer of a new job is page-aligned, lies in the block allocated for it, and has at least three pages
  below it.
\<close>

theorem scheduler_create_stack:
  assumes "is_queue s Q" and "alloc (jobs s) = Some (a, start)" and "jobs s a = None" and "start \<noteq> 0" and "page \<noteq> 0"
  shows "\<exists>s' j. scheduler_create alloc page (Live s) l = Some (Inr (0, Live s')) \<and> is_queue s' (Q @ [(a, l)]) \<and>
    jobs s' a = Some j \<and> stack_addr j mod page = 0 \<and> start + 3 * page \<le> stack_addr j \<and> stack_addr j < start + 4 * page"
proof -
  let ?p = "if start mod page \<noteq> 0 then start + (page - start mod page) else start"
  let ?j = "\<lparr>start_addr = start, stack_addr = ?p + 3 * page, status = 0, code = l, jnext = None\<rparr>"
  have j: "new_job page start l = Inr ?j" using assms(5) by (simp add: new_job_def memory_align_def Let_def)
  obtain s' where s': "append_job s a ?j = Some (Inr s')" "is_queue s' (Q @ [(a, l)])"
    using append_job_queue [OF assms(1,3), of ?j l] assms(4) by auto
  have ja: "jobs s' a = Some ?j"
  proof (cases Q rule: rev_cases)
    case Nil
    with assms(1) s'(1) show ?thesis by (auto simp: append_job_def is_queue_def)
  next
    case (snoc Q' bk)
    have new: "a \<notin> set (map fst Q)" using assms(1,3) by (auto simp: is_queue_def domIff)
    have b: "fst bk \<noteq> a" using new snoc by auto
    obtain x where x: "head s = Some x" using assms(1) snoc by (cases Q') (auto simp: is_queue_def)
    have "lseg ((jobs s)(a := Some ?j)) (Some x) (map fst Q) None" using assms(1) x new unfolding is_queue_def by simp
    from last_job_lseg [OF this] have "last_job ((jobs s)(a := Some ?j)) x = Some (Inr (fst bk))" using snoc by simp
    with x s'(1) b show ?thesis
      by (auto simp: append_job_def lbind_def set_next_def split: option.splits)
  qed
  have lt: "start mod page < page" using assms(5) by simp
  have "start + (page - R) = page * q + page" if "start = page * q + R" "R < page" for q R
    using that by simp
  from this [of "start div page" "start mod page"] lt
  have "start + (page - start mod page) = page * (start div page + 1)" by simp
  then have "?p mod page = 0" by (simp del: mult_Suc_right)
  then have al: "(?p + 3 * page) mod page = 0" by simp
  have "x \<le> (if R \<noteq> 0 then x + (page - R) else x) \<and> (if R \<noteq> 0 then x + (page - R) else x) < x + page" if "R < page" for x R
    using that by auto
  from this [OF lt, of start] have "start \<le> ?p" "?p < start + page" by blast+
  then have lo: "start + 3 * page \<le> ?p + 3 * page" and hi: "?p + 3 * page < start + 4 * page" by linarith+
  have "scheduler_create alloc page (Live s) l = Some (Inr (0, Live s'))"
    using assms(2) j s'(1) by (simp add: scheduler_create_def create_job_def lbind_def)
  with s'(2) ja al lo hi show ?thesis by (intro exI [of _ s'] exI [of _ ?j]) simp
qed

text \<open>
  \<open>scheduler_init\<close> leaves \<open>curr\<close> as \<open>malloc\<close> gave it: when that is not zero and not by chance a job,
  \<open>scheduler_execute\<close> follows a wild pointer.
\<close>

theorem scheduler_init_leaves_curr:
  assumes "scheduler_init True (Some w, p) = Inr (Live s0)" and "create_all alloc page s0 ls = Some (Inr s)" and "jobs s w = None"
    and "curr s = curr s0"
  shows "scheduler_execute alloc page burst (Live s) = Some (Inl Bad_pointer)"
proof -
  have "curr s = Some w" using assms(1,4) by (auto simp: scheduler_init_def)
  then have "execute_step alloc page burst s = Some (Inl Bad_pointer)"
    using assms(3) by (simp add: execute_step_def advance_def)
  then show ?thesis by (simp add: scheduler_execute_def execute_loop.simps)
qed

text \<open>
  Between the \<open>free\<close> of a job that returned and the assignment to \<open>curr\<close>, an alarm makes \<open>scheduler_yield\<close> save its
  context in the freed job.
\<close>

theorem alarm_after_free:
  assumes "curr s = Some c" and "unlink_and_free s c = Inr s'"
  shows "interrupt_handler SIGALRM l s' = Inl Bad_pointer"
  using assms
  by (auto simp: unlink_and_free_def obind_eq_Inr set_next_def interrupt_handler_def scheduler_yield_def
      split: option.splits)

end
