(* ===== verification/Threads.thy ===== *)
theory Threads
  imports Scheduler_Ref
begin

section \<open>The five threads (\<open>project-2/main.c\<close>)\<close>

text \<open>
  The program that uses the scheduler. A context of a thread is its name, how many lines it has printed, and how often it was interrupted;
  \<open>pace\<close> says how many lines it prints from there before the next alarm comes. An alarm falls into \<open>us_sleep\<close>, where a thread spends its time
  (or before its first line), and any number of alarms may fall into one sleep; so \<open>pace\<close> may be 0. Alarms inside \<open>printf\<close>, which
  is not to be left by a \<open>longjmp\<close>, and inside the scheduler (see \<open>alarm_after_free\<close>) are not modelled. The output is the list of
  lines, a name and a number each.
\<close>

type_synonym thread = "string \<times> nat \<times> nat"

fun thread_burst :: "(thread \<Rightarrow> nat) \<Rightarrow> thread \<Rightarrow> thread list \<times> thread option" where
  "thread_burst pace (nm, i, m) = ([], if i + pace (nm, i, m) \<le> 100 then Some (nm, i + pace (nm, i, m), Suc m) else None)"

fun thread_lines :: "(thread \<Rightarrow> nat) \<Rightarrow> thread \<Rightarrow> (string \<times> nat) list" where
  "thread_lines pace (nm, i, m) = map (\<lambda>k. (nm, k)) [i..<min 100 (i + pace (nm, i, m))]"

definition thread_names :: "string list" where
  "thread_names = [''hello'', ''world'', ''love'', ''this'', ''course!'']"

fun create_threads :: "(thread job_heap \<Rightarrow> (nat \<times> nat) option) \<Rightarrow> nat \<Rightarrow> thread sch_obj \<Rightarrow> string list \<Rightarrow> (int \<times> thread sch_obj) run" where
  "create_threads alloc page obj [] = Some (Inr (0, obj))"
| "create_threads alloc page obj (nm # nms) =
     lbind (scheduler_create alloc page obj (nm, 0, 0)) (\<lambda>(rc, obj).
       if rc \<noteq> 0 then Some (Inr (rc, obj)) else create_threads alloc page obj nms)"

text \<open>\<open>main\<close>: the return code and the output.\<close>

definition project2_main :: "(thread job_heap \<Rightarrow> (nat \<times> nat) option) \<Rightarrow> nat \<Rightarrow> bool \<Rightarrow> nat option \<times> nat option \<Rightarrow> (thread \<Rightarrow> nat) \<Rightarrow>
    (int \<times> (string \<times> nat) list) run" where
  "project2_main alloc page mok junk pace =
     (case scheduler_init mok junk of
        Inl e \<Rightarrow> Some (Inl e)
      | Inr obj \<Rightarrow>
          lbind (create_threads alloc page obj thread_names) (\<lambda>(rc, obj).
            if rc \<noteq> 0 then Some (Inr (-1, []))
            else lbind (scheduler_execute alloc page (thread_burst pace) obj) (\<lambda>(tr, obj).
              Some (Inr (0, concat (map (thread_lines pace \<circ> snd) tr))))))"

subsection \<open>The threads end\<close>

text \<open>No sleep is interrupted for ever: from every context some later one prints.\<close>

definition gets_on :: "(thread \<Rightarrow> nat) \<Rightarrow> bool" where
  "gets_on pace \<longleftrightarrow> (\<forall>nm i m. \<exists>n \<ge> m. 0 < pace (nm, i, n))"

lemma thread_stops: "\<not> i + pace (nm, i, m) \<le> 100 \<Longrightarrow> \<exists>ls. life (thread_burst pace) (nm, i, m) ls"
  using life_end [of "thread_burst pace" "(nm, i, m)"] by auto

lemma thread_goes_on:
  assumes "i + pace (nm, i, m) \<le> 100" and "\<exists>ls. life (thread_burst pace) (nm, i + pace (nm, i, m), Suc m) ls"
  shows "\<exists>ls. life (thread_burst pace) (nm, i, m) ls"
  using assms life_more [of "thread_burst pace" "(nm, i, m)" "[]" "(nm, i + pace (nm, i, m), Suc m)"] by auto

lemma thread_returns:
  assumes "gets_on pace"
  shows "\<exists>ls. life (thread_burst pace) (nm, i, m) ls"
proof (induction "101 - i" arbitrary: i m rule: less_induct)
  case less
  have on: "\<exists>ls. life (thread_burst pace) (nm, i, k) ls" if "0 < pace (nm, i, k)" for k
  proof (cases "i + pace (nm, i, k) \<le> 100")
    case True
    then have "101 - (i + pace (nm, i, k)) < 101 - i" using that by simp
    from thread_goes_on [OF True less [OF this]] show ?thesis .
  qed (rule thread_stops)
  obtain n where n: "m \<le> n" "0 < pace (nm, i, n)" using assms unfolding gets_on_def by blast
  from n(1) show ?case
  proof (induction m rule: inc_induct)
    case base
    show ?case by (rule on [OF n(2)])
  next
    case (step k)
    show ?case
    proof (cases "pace (nm, i, k) = 0 \<and> i \<le> 100")
      case True
      then show ?thesis using thread_goes_on [of i pace nm k] step.IH by simp
    next
      case False
      then show ?thesis using on [of k] thread_stops [of i pace nm k] by auto
    qed
  qed
qed

lemma thread_no_new: "fst (thread_burst pace x) = []"
  by (cases x) simp

lemma threads_end: "gets_on pace \<Longrightarrow> ending_jobs (thread_burst pace) (\<lambda>l. length (THE ls. life (thread_burst pace) l ls))"
  by (rule lives_end) (auto simp: thread_no_new intro: thread_returns)

text \<open>
  The threads of the program when every line is followed by a switch, as in the commented call of \<open>scheduler_yield\<close>: at most as many
  bursts as lines left, and one to return.
\<close>

definition thread_work :: "thread \<Rightarrow> nat" where
  "thread_work x = Suc (100 - fst (snd x))"

interpretation one_line: ending_jobs "thread_burst (\<lambda>_. 1)" thread_work
proof
  fix l l' :: thread and new
  show "thread_work l' + sum_list (map thread_work new) < thread_work l" if "thread_burst (\<lambda>_. 1) l = (new, Some l')"
    using that by (cases l) (auto simp: thread_work_def split: if_splits)
  show "sum_list (map thread_work new) < thread_work l" if "thread_burst (\<lambda>_. 1) l = (new, None)"
    using that by (cases l) (auto simp: thread_work_def split: if_splits)
qed

lemma thread_life_lines:
  "life (thread_burst pace) x ls \<Longrightarrow> fst (snd x) \<le> 100 \<Longrightarrow>
     concat (map (thread_lines pace) ls) = map (\<lambda>k. (fst x, k)) [fst (snd x)..<100] \<and> (\<forall>y \<in> set ls. fst y = fst x)"
proof (induction rule: life.induct)
  case (life_end x new)
  then show ?case by (cases x) (auto split: if_splits)
next
  case (life_more x new x' ls)
  obtain nm i m where x: "x = (nm, i, m)" by (cases x)
  from life_more x have x': "i + pace x \<le> 100" "x' = (nm, i + pace x, Suc m)" by (auto split: if_splits)
  with life_more x have IH: "concat (map (thread_lines pace) ls) = map (\<lambda>k. (nm, k)) [i + pace x..<100]"
      "\<forall>y \<in> set ls. fst y = nm"
    by auto
  have "[i..<100] = [i..<i + pace x] @ [i + pace x..<100]"
    using x'(1) upt_add_eq_append [of i "i + pace x" "100 - (i + pace x)"] by simp
  moreover have "thread_lines pace x = map (\<lambda>k. (nm, k)) [i..<i + pace x]" using x'(1) by (simp add: x)
  ultimately show ?case using IH by (simp add: x)
qed

lemma create_threads_all:
  "create_threads alloc page (Live s) nms = lbind (create_all alloc page s (map (\<lambda>n. (n, 0, 0)) nms)) (\<lambda>s. Some (Inr (0, Live s)))"
proof (induction nms arbitrary: s)
  case (Cons nm nms)
  then show ?case
    by (auto simp: scheduler_create_def lbind_def split: option.split sum.split)
qed (simp add: lbind_def)

lemma filter_concat_lines:
  assumes "\<forall>r \<in> set tr. fst r = a \<longleftrightarrow> fst (snd r) = nm"
  shows "filter (\<lambda>x. fst x = nm) (concat (map (thread_lines pace \<circ> snd) tr)) =
    concat (map (thread_lines pace) (map snd (filter (\<lambda>r. fst r = a) tr)))"
  using assms
proof (induction tr)
  case (Cons r tr)
  have "filter (\<lambda>x. fst x = nm) (thread_lines pace (snd r)) = (if fst (snd r) = nm then thread_lines pace (snd r) else [])"
    by (cases "snd r") (auto simp: filter_map comp_def)
  with Cons show ?case by auto
qed simp

text \<open>What the threads print in a complete run of the queue.\<close>

lemma threads_output:
  assumes run: "queue_run (thread_burst pace) ([], Q) tr" and addr: "distinct (map fst Q)" and names: "distinct (map (fst \<circ> snd) Q)"
    and zero: "\<forall>x \<in> set Q. fst (snd (snd x)) = 0"
  defines "out \<equiv> concat (map (thread_lines pace \<circ> snd) tr)"
  shows "\<forall>(a, l) \<in> set Q. filter (\<lambda>x. fst x = fst l) out = map (\<lambda>k. (fst l, k)) [0..<100]"
    and "fst ` set out \<subseteq> set (map (fst \<circ> snd) Q)"
proof -
  let ?of = "\<lambda>a. map snd (filter (\<lambda>r. fst r = a) tr)"
  have runs: "(\<forall>(a, l) \<in> set Q. life (thread_burst pace) l (?of a)) \<and> fst ` set tr \<subseteq> fst ` set Q"
    using queue_run_life [OF run allI [OF thread_no_new]] addr by simp
  have lines: "concat (map (thread_lines pace) (?of a)) = map (\<lambda>k. (fst l, k)) [0..<100] \<and> (\<forall>y \<in> set (?of a). fst y = fst l)"
    if "(a, l) \<in> set Q" for a l
  proof -
    have "life (thread_burst pace) l (?of a)" using runs that by blast
    from thread_life_lines [OF this] bspec [OF zero that] show ?thesis by simp
  qed
  have owner: "\<exists>m. (fst r, m) \<in> set Q \<and> fst (snd r) = fst m" if r: "r \<in> set tr" for r
  proof -
    have "fst r \<in> fst ` set Q" using runs r by (meson image_eqI subsetD)
    then obtain m where m: "(fst r, m) \<in> set Q" by (metis imageE prod.collapse)
    have "snd r \<in> set (?of (fst r))" using r by simp
    with lines [OF m] m show ?thesis by blast
  qed
  have inj: "a = b" if "(a, l) \<in> set Q" "(b, m) \<in> set Q" "fst l = fst m" for a b l m
  proof -
    have "inj_on (fst \<circ> snd) (set Q)" using names by (simp add: distinct_map)
    from inj_onD [OF this, of "(a, l)" "(b, m)"] that show ?thesis by simp
  qed
  have same: "m = l" if "(a, l) \<in> set Q" "(a, m) \<in> set Q" for a l m
    using addr that by (metis eq_key_imp_eq_value)
  show "\<forall>(a, l) \<in> set Q. filter (\<lambda>x. fst x = fst l) out = map (\<lambda>k. (fst l, k)) [0..<100]"
  proof (intro ballI, clarify)
    fix a nm i m
    assume al: "(a, nm, i, m) \<in> set Q"
    have "\<forall>r \<in> set tr. fst r = a \<longleftrightarrow> fst (snd r) = nm" using owner inj same al by (metis fst_conv)
    from filter_concat_lines [OF this] lines [OF al]
    show "filter (\<lambda>x. fst x = fst (nm, i, m)) out = map (\<lambda>k. (fst (nm, i, m), k)) [0..<100]" by (simp add: out_def)
  qed
  show "fst ` set out \<subseteq> set (map (fst \<circ> snd) Q)"
  proof
    fix nm
    assume "nm \<in> fst ` set out"
    then obtain r where r: "r \<in> set tr" "nm = fst (snd r)" by (auto simp: out_def)
    from owner [OF r(1)] obtain m where "(fst r, m) \<in> set Q" "nm = fst m" using r(2) by auto
    then have "(fst \<circ> snd) (fst r, m) \<in> (fst \<circ> snd) ` set Q" "nm = (fst \<circ> snd) (fst r, m)" by (blast, simp)
    then show "nm \<in> set (map (fst \<circ> snd) Q)" by simp
  qed
qed

text \<open>
  C24: started in a zeroed \<open>struct scheduler\<close>, with alarms that fall into the sleeps of the threads, however often but into none for ever, the
  program ends with 0; every thread prints its numbers from 0 to 99 in order, each once, and only the five threads print. (An
  alarm inside the scheduler can write to freed memory, see \<open>alarm_after_free\<close>, and an unlucky \<open>malloc\<close> start with a
  wild pointer, see \<open>scheduler_init_leaves_curr\<close>.)
\<close>

theorem project2_main_prints:
  assumes "good_alloc alloc" and "page \<noteq> 0" and "gets_on pace"
  shows "\<exists>out. project2_main alloc page True (None, p) pace = Some (Inr (0, out)) \<and>
    (\<forall>nm \<in> set thread_names. filter (\<lambda>x. fst x = nm) out = map (\<lambda>k. (nm, k)) [0..<100]) \<and>
    fst ` set out \<subseteq> set thread_names"
proof -
  let ?ls = "map (\<lambda>n. (n, 0 :: nat, 0 :: nat)) thread_names"
  obtain as s where s: "create_all alloc page \<lparr>head = None, curr = None, prev = p, jobs = (\<lambda>_. None)\<rparr> ?ls = Some (Inr s)"
      "length as = length ?ls" "in_round s [] (zip as ?ls)"
    using created_in_round [OF assms(1,2)] by blast
  let ?Q = "zip as ?ls"
  obtain tr where tr: "execute_loop alloc page (thread_burst pace) s [] = Some (Inr (tr, Freed (\<lambda>_. None)))"
      "queue_run (thread_burst pace) ([], ?Q) tr"
    using ending_jobs.execute_loop_ends [OF threads_end [OF assms(3)] s(3) assms(1,2), of "[]"] by auto
  let ?out = "concat (map (thread_lines pace \<circ> snd) tr)"
  have run: "project2_main alloc page True (None, p) pace = Some (Inr (0, ?out))"
    using s(1) tr(1) by (simp add: project2_main_def scheduler_init_def create_threads_all lbind_def scheduler_execute_def)
  have addr: "distinct (map fst ?Q)" using s(3) by (simp add: in_round_def is_queue_def)
  have "map snd ?Q = ?ls" using s(2) by simp
  then have names: "map (fst \<circ> snd) ?Q = thread_names" by (simp flip: map_map) (simp add: comp_def)
  have zero: "\<forall>x \<in> set ?Q. fst (snd (snd x)) = 0" by (auto dest!: set_zip_rightD)
  have dist: "distinct (map (fst \<circ> snd) ?Q)" unfolding names by (simp add: thread_names_def)
  note out = threads_output [OF tr(2) addr dist zero]
  have "filter (\<lambda>x. fst x = nm) ?out = map (\<lambda>k. (nm, k)) [0..<100]" if nm: "nm \<in> set thread_names" for nm
  proof -
    have "nm \<in> set (map (fst \<circ> snd) ?Q)" by (simp only: names nm)
    then obtain x where "x \<in> set ?Q" "nm = fst (snd x)" by auto
    with out(1) show ?thesis by (cases x) auto
  qed
  then show ?thesis using run out(2) unfolding names by blast
qed

subsection \<open>Witnesses\<close>

text \<open>An allocator: the first free address from 1.\<close>

definition first_free :: "'l job_heap \<Rightarrow> (nat \<times> nat) option" where
  "first_free h = Some (LEAST a. 0 < a \<and> h a = None, 4096)"

lemma first_free_good: "good_alloc first_free"
  unfolding good_alloc_def
proof (intro allI impI)
  fix h :: "'a job_heap"
  assume "finite (dom h)"
  then obtain a where "a \<notin> insert 0 (dom h)" using ex_new_if_finite [of "insert 0 (dom h)"] by auto
  then have "0 < a \<and> h a = None" by (auto simp: domIff)
  then have "0 < (LEAST a. 0 < a \<and> h a = None) \<and> h (LEAST a. 0 < a \<and> h a = None) = None" by (rule LeastI)
  then show "\<exists>a st. first_free h = Some (a, st) \<and> h a = None \<and> st \<noteq> 0"
    by (intro exI [of _ "LEAST a. 0 < a \<and> h a = None"] exI [of _ 4096]) (simp add: first_free_def)
qed

definition demo_job :: "nat option \<Rightarrow> thread \<Rightarrow> thread job" where
  "demo_job n l = \<lparr>start_addr = 4096, stack_addr = 16384, status = 0, code = l, jnext = n\<rparr>"

definition demo_sched :: "thread sched" where
  "demo_sched = \<lparr>head = Some 1, curr = None, prev = None,
     jobs = [1 \<mapsto> demo_job (Some 2) (''a'', 99, 0), 2 \<mapsto> demo_job None (''b'', 100, 0)]\<rparr>"

lemma demo_in_round: "in_round demo_sched [] [(1, ''a'', 99, 0), (2, ''b'', 100, 0)]"
  by (auto simp: in_round_def is_queue_def demo_sched_def demo_job_def)

text \<open>Every other alarm comes before the next line.\<close>

theorem project2_main_prints_witness:
  "\<exists>out. project2_main first_free 4096 True (None, None) (\<lambda>(nm, i, m). if even m then 0 else 7) = Some (Inr (0, out)) \<and>
    (\<forall>nm \<in> set thread_names. filter (\<lambda>x. fst x = nm) out = map (\<lambda>k. (nm, k)) [0..<100]) \<and>
    fst ` set out \<subseteq> set thread_names"
proof -
  have "gets_on (\<lambda>(nm, i, m). if even m then 0 else 7)"
    unfolding gets_on_def
  proof (intro allI)
    show "\<exists>n \<ge> m. 0 < (case (nm, i, n) of (nm, i, m) \<Rightarrow> if even m then 0 else (7 :: nat))" for nm :: string and i m :: nat
      by (intro exI [of _ "2 * m + 1"]) simp
  qed
  then show ?thesis by (intro project2_main_prints [OF first_free_good]) simp
qed

text \<open>Two threads, one of which has a line left, run to their ends and are freed.\<close>

theorem scheduler_execute_ends_witness:
  "\<exists>tr. scheduler_execute first_free 4096 (thread_burst (\<lambda>_. 1)) (Live demo_sched) = Some (Inr (tr, Freed (\<lambda>_. None))) \<and>
    length tr \<le> 3"
proof -
  have "\<exists>tr. scheduler_execute first_free 4096 (thread_burst (\<lambda>_. 1)) (Live demo_sched) = Some (Inr (tr, Freed (\<lambda>_. None))) \<and>
      queue_run (thread_burst (\<lambda>_. 1)) ([], [(1, ''a'', 99, 0), (2, ''b'', 100, 0)]) tr \<and>
      length tr \<le> sum_list (map (thread_work \<circ> snd) [(1 :: nat, ''a'', 99, 0), (2, ''b'', 100, 0)])"
    by (rule scheduler_execute_ends [OF demo_in_round first_free_good])
      (simp, erule one_line.work_yield, erule one_line.work_return)
  then show ?thesis by (auto simp: thread_work_def)
qed

theorem scheduler_step_refines_witness:
  "\<exists>r s' B' A'. execute_step first_free 4096 (thread_burst (\<lambda>_. 1)) demo_sched = Some (Inr (Some r, Live s')) \<and>
    in_round s' B' A' \<and> queue_step (thread_burst (\<lambda>_. 1)) ([], [(1, ''a'', 99, 0), (2, ''b'', 100, 0)]) r (B', A')"
  by (rule scheduler_step_refines [OF demo_in_round _ first_free_good]) simp_all

text \<open>From the start, and after the first of the two has had a turn: then the second is next, and the first again after it.\<close>

lemma demo_turned: "in_round (demo_sched\<lparr>curr := Some 1\<rparr>) [(1, ''a'', 99, 0)] [(2, ''b'', 100, 0)]"
  using demo_in_round by (simp add: in_round_def)

theorem scheduler_turns_witness:
  "\<exists>s'. run_steps first_free 4096 (thread_burst (\<lambda>_. 1)) 2 (demo_sched\<lparr>curr := Some 1\<rparr>) =
     Some ([(2, ''b'', 100, 0), (1, ''a'', 99, 0)], s')"
proof -
  obtain N s' where r: "run_steps first_free 4096 (thread_burst (\<lambda>_. 1)) (length ([(2, ''b'', 100, 0)] @ N @ [(1, ''a'', 99, 0)]))
      (demo_sched\<lparr>curr := Some 1\<rparr>) = Some ([(2, ''b'', 100, 0)] @ N @ [(1, ''a'', 99, 0)], s')"
    and n: "length N \<le> sum_list (map ((\<lambda>_. 0) \<circ> snd) [(2 :: nat, ''b'', 100 :: nat, 0 :: nat)])"
    using scheduler_turns [OF demo_turned first_free_good, where page = 4096 and burst = "thread_burst (\<lambda>_. 1)" and born = "\<lambda>_. 0"]
    by (auto simp only: thread_no_new list.map sum_list.Nil order_refl zero_neq_numeral [symmetric])
  have l: "N = []" "length [(2 :: nat, ''b'', 100 :: nat, 0 :: nat), (1, ''a'', 99, 0)] = 2" using n by simp_all
  from r have "run_steps first_free 4096 (thread_burst (\<lambda>_. 1)) 2 (demo_sched\<lparr>curr := Some 1\<rparr>) =
      Some ([(2, ''b'', 100, 0), (1, ''a'', 99, 0)], s')"
    by (simp only: l(1) append.simps l(2))
  then show ?thesis by blast
qed

lemma demo_is_queue: "is_queue demo_sched [(1, ''a'', 99, 0), (2, ''b'', 100, 0)]"
  using demo_in_round by (simp add: in_round_def)

theorem scheduler_create_stack_witness:
  "\<exists>s' j. scheduler_create (\<lambda>_. Some (3, 5000)) 4096 (Live demo_sched) (''c'', 0, 0) = Some (Inr (0, Live s')) \<and>
    jobs s' 3 = Some j \<and> stack_addr j mod 4096 = 0 \<and> 17288 \<le> stack_addr j \<and> stack_addr j < 21384"
proof -
  have p: "jobs demo_sched 3 = None" by (simp add: demo_sched_def)
  have "\<exists>s' j. scheduler_create (\<lambda>_. Some (3, 5000)) 4096 (Live demo_sched) (''c'', 0, 0) = Some (Inr (0, Live s')) \<and>
      is_queue s' ([(1, ''a'', 99, 0), (2, ''b'', 100, 0)] @ [(3, ''c'', 0, 0)]) \<and> jobs s' 3 = Some j \<and>
      stack_addr j mod 4096 = 0 \<and> 5000 + 3 * 4096 \<le> stack_addr j \<and> stack_addr j < 5000 + 4 * 4096"
    by (rule scheduler_create_stack [OF demo_is_queue _ p]) simp_all
  then show ?thesis by auto
qed

theorem scheduler_init_leaves_curr_witness:
  "\<exists>s. scheduler_execute (\<lambda>_. Some (3, 4096)) 4096 (thread_burst (\<lambda>_. 1)) (Live s) = Some (Inl Bad_pointer)"
proof -
  have "scheduler_init True (Some 9, None) = Inr (Live \<lparr>head = None, curr = Some 9, prev = None, jobs = (\<lambda>_. None)\<rparr>)"
    by (simp add: scheduler_init_def)
  from scheduler_init_leaves_curr [OF this, of "\<lambda>_. Some (3, 4096)" 4096 "[(''c'', 0, 0)]"
      "\<lparr>head = Some 3, curr = Some 9, prev = None, jobs = [3 \<mapsto> demo_job None (''c'', 0, 0)]\<rparr>" "thread_burst (\<lambda>_. 1)"]
  show ?thesis
    by (auto simp: create_job_def new_job_def memory_align_def append_job_def lbind_def demo_job_def)
qed

theorem alarm_after_free_witness:
  "interrupt_handler SIGALRM (''a'', 100, 1)
     (demo_sched\<lparr>head := Some 2, curr := Some 1, jobs := [2 \<mapsto> demo_job None (''b'', 100, 0)]\<rparr>) = Inl Bad_pointer"
proof -
  have "unlink_and_free (demo_sched\<lparr>curr := Some 1\<rparr>) 1 =
      Inr (demo_sched\<lparr>head := Some 2, curr := Some 1, jobs := [2 \<mapsto> demo_job None (''b'', 100, 0)]\<rparr>)"
    by (simp add: unlink_and_free_def demo_sched_def demo_job_def fun_upd_twist)
  from alarm_after_free [OF _ this] show ?thesis by simp
qed

end
