(* ===== verification/Shell.thy ===== *)
theory Shell
  imports Prelude
begin

section \<open>The line editor (\<open>project-3/shell.c\<close>)\<close>

text \<open>
  The keys that \<open>getchar\<close> returns to the key loop are a list of numbers; when it is used up the editor waits. What is written to the
  terminal is in \<open>Display\<close>, and so is \<open>location\<close>, which asks the terminal for the cursor before each line and throws away what was typed
  before the answer: the keys here are those that are left (\<open>tty_read_line\<close> puts the two together). A line lives in its slot of the
  history, \<open>N\<close> bytes; an access outside the slot is a fault.
\<close>

definition H :: nat where "H = 96"
definition N :: nat where "N = 160"

subsection \<open>Strings in a buffer\<close>

text \<open>\<open>strlen (b + k)\<close>, which must find a zero in the buffer.\<close>

definition strlen_at :: "bytes \<Rightarrow> nat \<Rightarrow> nat outcome" where
  "strlen_at b k =
     (let n = length (takeWhile (\<lambda>c. c \<noteq> 0) (drop k b)) in if k + n < length b then Inr n else Inl Out_of_bounds)"

definition poke :: "bytes \<Rightarrow> nat \<Rightarrow> byte \<Rightarrow> bytes outcome" where
  "poke b k c = (if k < length b then Inr (b[k := c]) else Inl Out_of_bounds)"

definition memmove :: "bytes \<Rightarrow> nat \<Rightarrow> nat \<Rightarrow> nat \<Rightarrow> bytes outcome" where
  "memmove b dst src n =
     (if dst + n \<le> length b \<and> src + n \<le> length b then Inr (splice b dst (slice src n b)) else Inl Out_of_bounds)"

text \<open>\<open>strncpy (buf, src, N)\<close>: up to the zero, and zeros after it.\<close>

definition strncpy :: "bytes \<Rightarrow> bytes" where
  "strncpy src = (let s = takeWhile (\<lambda>c. c \<noteq> 0) src in take N (s @ replicate N 0))"

definition isspace_byte :: "byte \<Rightarrow> bool" where
  "isspace_byte c \<longleftrightarrow> c \<in> {9, 10, 11, 12, 13, 32}"

definition isprint :: "nat \<Rightarrow> bool" where
  "isprint k \<longleftrightarrow> 32 \<le> k \<and> k < 127"

subsection \<open>\<open>shell_strtrim\<close>\<close>

text \<open>The two loops, over the indices \<open>b\<close> and \<open>e\<close> (the pointers less \<open>s\<close>), on the string without its zero.\<close>

function trim_front :: "bytes \<Rightarrow> int \<Rightarrow> int \<Rightarrow> int" where
  "trim_front s b e = (if b \<le> e \<and> isspace_byte (s ! nat b) then trim_front s (b + 1) e else b)"
  by pat_completeness auto
termination by (relation "measure (\<lambda>(s, b, e). nat (e + 1 - b))") auto

function trim_back :: "bytes \<Rightarrow> int \<Rightarrow> int" where
  "trim_back s e = (if 0 \<le> e \<and> isspace_byte (s ! nat e) then trim_back s (e - 1) else e)"
  by pat_completeness auto
termination by (relation "measure (\<lambda>(s, e). nat (e + 1))") auto

declare trim_front.simps [simp del] trim_back.simps [simp del]

definition shell_strtrim :: "bytes \<Rightarrow> bytes outcome" where
  "shell_strtrim buf =
     obind (strlen_at buf 0) (\<lambda>len.
       let b = trim_front buf 0 (int len - 1); e = trim_back buf (int len - 1);
           n = nat (if b \<le> e then e - b + 1 else 0)
       in obind (memmove buf 0 (nat b) n) (\<lambda>buf. poke buf n 0))"

subsection \<open>Editing a line\<close>

record line =
  l_buf :: bytes
  l_i :: nat
  l_n :: nat
  l_j :: nat

text \<open>\<open>i = n = strlen (buf)\<close>.\<close>

definition to_end :: "line \<Rightarrow> line outcome" where
  "to_end L = obind (strlen_at (l_buf L) 0) (\<lambda>n. Inr (L\<lparr>l_i := n, l_n := n\<rparr>))"

text \<open>
  The four arrows, after the escape and a character that is ignored; \<open>slot\<close> is the slot \<open>state.n\<close> that holds the line, and
  the others are read from \<open>hist\<close>.
\<close>

definition arrow_key :: "bytes list \<Rightarrow> nat \<Rightarrow> nat \<Rightarrow> line \<Rightarrow> line outcome" where
  "arrow_key hist slot k L =
     (if k = 65 then
        if 0 < l_j L then
          obind (poke (l_buf L) 0 0) (\<lambda>buf.
            let j = l_j L - 1 in
            to_end (L\<lparr>l_buf := (if j \<noteq> slot then strncpy (hist ! j) else buf), l_j := j\<rparr>))
        else Inr L
      else if k = 66 then
        if l_j L < slot then
          obind (poke (l_buf L) 0 0) (\<lambda>buf.
            let j = l_j L + 1 in
            to_end (L\<lparr>l_buf := (if j \<noteq> slot then strncpy (hist ! j) else buf), l_j := j\<rparr>))
        else Inr L
      else if k = 67 then Inr (L\<lparr>l_i := (if l_i L < l_n L then l_i L + 1 else l_n L)\<rparr>)
      else if k = 68 then Inr (L\<lparr>l_i := (if 0 < l_i L then l_i L - 1 else 0)\<rparr>)
      else Inr L)"

definition kill_key :: "line \<Rightarrow> line outcome" where
  "kill_key L = obind (poke (l_buf L) (l_i L) 0) (\<lambda>buf. to_end (L\<lparr>l_buf := buf\<rparr>))"

definition delete_key :: "line \<Rightarrow> line outcome" where
  "delete_key L =
     (if l_i L < l_n L then
        obind (strlen_at (l_buf L) (l_i L + 1)) (\<lambda>k.
        obind (memmove (l_buf L) (l_i L) (l_i L + 1) (k + 1)) (\<lambda>buf.
          Inr (L\<lparr>l_buf := buf, l_n := l_n L - 1\<rparr>)))
      else Inr L)"

definition backspace_key :: "line \<Rightarrow> line outcome" where
  "backspace_key L =
     (if 0 < l_i L then
        obind (strlen_at (l_buf L) (l_i L)) (\<lambda>k.
        obind (memmove (l_buf L) (l_i L - 1) (l_i L) (k + 1)) (\<lambda>buf.
          Inr (L\<lparr>l_buf := buf, l_i := l_i L - 1, l_n := l_n L - 1\<rparr>)))
      else Inr L)"

definition space_key :: "line \<Rightarrow> line outcome" where
  "space_key L =
     (if l_n L < N then
        obind (strlen_at (l_buf L) (l_i L)) (\<lambda>k.
        obind (memmove (l_buf L) (l_i L + 1) (l_i L) (k + 1)) (\<lambda>buf.
        obind (poke buf (l_i L) 32) (\<lambda>buf.
          Inr (L\<lparr>l_buf := buf, l_i := l_i L + 1, l_n := l_n L + 1\<rparr>))))
      else Inr L)"

definition print_key :: "nat \<Rightarrow> line \<Rightarrow> line outcome" where
  "print_key k L =
     (if l_n L + 1 < N then
        obind (if l_i L < l_n L
               then obind (strlen_at (l_buf L) (l_i L)) (\<lambda>m. memmove (l_buf L) (l_i L + 1) (l_i L) m)
               else Inr (l_buf L)) (\<lambda>buf.
        obind (poke buf (l_i L) (word_of_nat k)) (\<lambda>buf.
        obind (poke buf (l_n L + 1) 0) (\<lambda>buf.
          Inr (L\<lparr>l_buf := buf, l_i := l_i L + 1, l_n := l_n L + 1\<rparr>))))
      else Inr L)"

text \<open>The keys other than the escape and the newline, in the order of the tests.\<close>

definition plain_key :: "nat \<Rightarrow> line \<Rightarrow> line outcome" where
  "plain_key k L =
     (if k = 11 then kill_key L
      else if k = 12 then Inr L
      else if k = 4 then delete_key L
      else if k = 8 \<or> k = 127 then backspace_key L
      else if k = 32 \<or> k = 9 then space_key L
      else if isprint k then print_key k L
      else Inr L)"

text \<open>The loop of \<open>read_line\<close>: the line when the newline comes, with the keys after it, or \<open>None\<close> when it waits for a key.\<close>

fun edit :: "bytes list \<Rightarrow> nat \<Rightarrow> nat list \<Rightarrow> line \<Rightarrow> (line \<times> nat list) option outcome" where
  "edit hist slot [] L = Inr None"
| "edit hist slot (k # ks) L =
     (if k = 27 then
        (case ks of
           _ # a # ks' \<Rightarrow> (case arrow_key hist slot a L of Inl e \<Rightarrow> Inl e | Inr L \<Rightarrow> edit hist slot ks' L)
         | _ \<Rightarrow> Inr None)
      else if k = 10 then Inr (Some (L, ks))
      else (case plain_key k L of Inl e \<Rightarrow> Inl e | Inr L \<Rightarrow> edit hist slot ks L))"

subsection \<open>Reading lines\<close>

text \<open>
  The global \<open>state\<close>: the slot in use and the history. \<open>read_line\<close> gives the line (\<open>None\<close> for a null pointer, a blank line),
  the keys that are left and the new state.
\<close>

record shell_state =
  s_n :: nat
  s_history :: "bytes list"

definition next_slot :: "shell_state \<Rightarrow> shell_state outcome" where
  "next_slot s =
     (let n = (if s_n s + 1 < H then s_n s + 1 else H) in
      if n < H then Inr (s\<lparr>s_n := n, s_history := (s_history s)[n := (s_history s ! n)[0 := 0]]\<rparr>)
      else Inl Out_of_bounds)"

definition read_line :: "nat list \<Rightarrow> shell_state \<Rightarrow> (bytes option \<times> nat list \<times> shell_state) option outcome" where
  "read_line keys s =
     (if H \<le> s_n s then Inl Out_of_bounds
      else
        obind (to_end \<lparr>l_buf = s_history s ! s_n s, l_i = 0, l_n = 0, l_j = s_n s\<rparr>) (\<lambda>L.
        obind (edit (s_history s) (s_n s) keys L) (\<lambda>r.
          case r of
            None \<Rightarrow> Inr None
          | Some (L, keys) \<Rightarrow>
              obind (shell_strtrim (l_buf L)) (\<lambda>buf.
              obind (strlen_at buf 0) (\<lambda>len.
                let s' = s\<lparr>s_history := (s_history s)[s_n s := buf]\<rparr> in
                if len \<noteq> 0 then obind (next_slot s') (\<lambda>s'. Inr (Some (Some buf, keys, s')))
                else Inr (Some (None, keys, s')))))))"

lemma edit_shorter: "edit hist slot keys L = Inr (Some (L', rest)) \<Longrightarrow> length rest < length keys"
proof (induction keys arbitrary: L rule: length_induct)
  case (1 keys)
  show ?case
  proof (cases keys)
    case Nil
    with 1 show ?thesis by simp
  next
    case (Cons k ks)
    have IH: "edit hist slot ys L = Inr (Some (L', rest)) \<Longrightarrow> length ys < length keys \<Longrightarrow> length rest < length ys" for ys L
      using 1 by blast
    show ?thesis
    proof (cases "k = 27")
      case True
      with 1(2) Cons obtain x a ks' L1 where "ks = x # a # ks'" "edit hist slot ks' L1 = Inr (Some (L', rest))"
        by (auto split: list.splits sum.splits)
      with IH [of ks' L1] Cons show ?thesis by simp
    next
      case False
      with 1(2) Cons IH [of ks] show ?thesis by (force split: if_splits sum.splits)
    qed
  qed
qed

lemma read_line_shorter: "read_line keys s = Inr (Some (r, rest, s')) \<Longrightarrow> length rest < length keys"
  by (auto simp: read_line_def obind_eq_Inr Let_def split: if_splits option.splits dest!: edit_shorter)

text \<open>
  \<open>shell\<close> with the function \<open>fnc\<close> as a step on the client's state \<open>'a\<close> and the slot it is given (which it may change):
  the client's state when \<open>fnc\<close> returns a value other than 0, \<open>None\<close> while it waits for a key.
\<close>

function shell :: "('a \<Rightarrow> bytes \<Rightarrow> (int \<times> bytes \<times> 'a) outcome) \<Rightarrow> nat list \<Rightarrow> shell_state \<Rightarrow> 'a \<Rightarrow>
    ('a \<times> shell_state) option outcome" where
  "shell fnc keys s x =
     (case read_line keys s of
        Inl e \<Rightarrow> Inl e
      | Inr None \<Rightarrow> Inr None
      | Inr (Some (None, keys', s')) \<Rightarrow> shell fnc keys' s' x
      | Inr (Some (Some buf, keys', s')) \<Rightarrow>
          (case fnc x buf of
             Inl e \<Rightarrow> Inl e
           | Inr (rc, buf', x') \<Rightarrow>
               let s'' = s'\<lparr>s_history := (s_history s')[s_n s := buf']\<rparr> in
               if rc \<noteq> 0 then Inr (Some (x', s'')) else shell fnc keys' s'' x'))"
  by pat_completeness auto
termination by (relation "measure (\<lambda>(fnc, keys, s, x). length keys)") (auto dest: read_line_shorter)

declare shell.simps [simp del]

end
