(* ===== verification/Shell_Ref.thy ===== *)
theory Shell_Ref
  imports Shell
begin

section \<open>The line editor edits a text\<close>

text \<open>
  A buffer that holds a C string (\<open>holds\<close>); \<open>shell_strtrim\<close> as a function of the string; the keys as operations on a text with a
  cursor, with the one key that overruns the buffer; and what \<open>read_line\<close> returns for a typed line.
\<close>

definition holds :: "bytes \<Rightarrow> bytes \<Rightarrow> bool" where
  "holds buf s \<longleftrightarrow> 0 \<notin> set s \<and> (\<exists>rest. buf = s @ 0 # rest)"

lemma holds_facts:
  assumes "holds buf s"
  shows "length s < length buf" and "take (length s) buf = s" and "buf ! length s = 0" and "0 \<notin> set s"
    and "takeWhile (\<lambda>c. c \<noteq> 0) buf = s"
  using assms by (auto simp: holds_def takeWhile_append)

lemma holds_length: "holds buf s \<Longrightarrow> strlen_at buf 0 = Inr (length s)"
  by (auto simp: holds_def strlen_at_def Let_def takeWhile_append)

lemma strlen_at_holds:
  assumes "holds buf s" and "k \<le> length s"
  shows "strlen_at buf k = Inr (length s - k)"
proof -
  obtain rest where b: "buf = s @ 0 # rest" "0 \<notin> set s" using assms(1) by (auto simp: holds_def)
  have "takeWhile (\<lambda>c. c \<noteq> 0) (drop k s @ 0 # rest) = drop k s"
    using b(2) by (subst takeWhile_append) (auto dest: in_set_dropD simp: takeWhile_eq_all_conv)
  then show ?thesis using b assms(2) by (simp add: strlen_at_def Let_def)
qed

lemma holdsI: "buf = s @ 0 # rest \<Longrightarrow> 0 \<notin> set s \<Longrightarrow> holds buf s"
  by (auto simp: holds_def)

lemma holds_unique: "holds buf s \<Longrightarrow> holds buf t \<Longrightarrow> s = t"
  using holds_facts(5) by metis

subsection \<open>Trimming\<close>

definition trim :: "bytes \<Rightarrow> bytes" where
  "trim s = rev (dropWhile isspace_byte (rev (dropWhile isspace_byte s)))"

lemma trim_front_eq:
  "trim_front s (int k) (int (length s) - 1) = int (k + length (takeWhile isspace_byte (drop k s)))" if "k \<le> length s"
  using that
proof (induction "length s - k" arbitrary: k)
  case 0
  then show ?case by (subst trim_front.simps) simp
next
  case (Suc m)
  then have k: "k < length s" by simp
  have IH: "trim_front s (int (Suc k)) (int (length s) - 1) = int (Suc k + length (takeWhile isspace_byte (drop (Suc k) s)))"
    using Suc k by (intro Suc.hyps) simp_all
  have d: "drop k s = s ! k # drop (Suc k) s" using k by (rule Cons_nth_drop_Suc [symmetric])
  show ?case using IH k by (subst trim_front.simps) (simp add: d algebra_simps)
qed

lemma trim_back_eq:
  "trim_back s (int k - 1) = int (k - length (takeWhile isspace_byte (rev (take k s)))) - 1" if "k \<le> length s"
  using that
proof (induction k)
  case 0
  show ?case by (subst trim_back.simps) simp
next
  case (Suc k)
  have r: "rev (take (Suc k) s) = s ! k # rev (take k s)" using Suc.prems by (simp add: take_Suc_conv_app_nth)
  have le: "length (takeWhile isspace_byte (rev (take k s))) \<le> k"
    using length_takeWhile_le [of isspace_byte "rev (take k s)"] by simp
  show ?case using Suc le by (subst trim_back.simps) (simp add: r)
qed

lemma trim_cut:
  assumes "b = length (takeWhile isspace_byte s)" and "e = length s - length (takeWhile isspace_byte (rev s))"
  shows "trim s = (if b < e then slice b (e - b) s else [])"
proof (cases "\<forall>c \<in> set s. isspace_byte c")
  case True
  then have w: "takeWhile isspace_byte s = s" "takeWhile isspace_byte (rev s) = rev s" by (simp_all add: takeWhile_eq_all_conv)
  then have "\<not> b < e" unfolding assms w by simp
  moreover have "trim s = []" using True by (auto simp: trim_def dest: set_dropWhileD)
  ultimately show ?thesis by simp
next
  case False
  define u where "u = dropWhile isspace_byte s"
  have s: "s = takeWhile isspace_byte s @ u" by (simp add: u_def)
  obtain c where c: "c \<in> set u" "\<not> isspace_byte c"
    using False s by (metis UnE set_append set_takeWhileD)
  have tw: "takeWhile isspace_byte (rev s) = takeWhile isspace_byte (rev u)"
    by (subst s) (simp add: takeWhile_append1 [of c] c del: takeWhile_dropWhile_id)
  have lt: "length (takeWhile isspace_byte (rev u)) < length u"
  proof -
    have "takeWhile isspace_byte (rev u) \<noteq> rev u" using c by (metis set_rev set_takeWhileD)
    then show ?thesis using length_takeWhile_le [of isspace_byte "rev u"]
      by (metis le_neq_implies_less length_rev takeWhile_eq_take take_all)
  qed
  have ls: "length s = b + length u" using s assms(1) by (metis length_append)
  have "trim s = rev (drop (length (takeWhile isspace_byte (rev u))) (rev u))"
    by (simp add: trim_def u_def dropWhile_eq_drop)
  also have "\<dots> = take (length u - length (takeWhile isspace_byte (rev u))) u" by (simp add: rev_drop)
  also have "\<dots> = take (e - b) (drop b s)"
  proof -
    have "drop b s = u" using assms(1) by (simp add: u_def dropWhile_eq_drop)
    moreover have "e - b = length u - length (takeWhile isspace_byte (rev u))" using assms(2) ls tw by simp
    ultimately show ?thesis by simp
  qed
  finally show ?thesis using assms(2) ls tw lt by (simp add: slice_def)
qed

lemma shell_strtrim_holds:
  assumes "holds buf s"
  shows "\<exists>buf'. shell_strtrim buf = Inr buf' \<and> holds buf' (trim s) \<and> length buf' = length buf"
proof -
  obtain rest where buf: "buf = s @ 0 # rest" and nz: "0 \<notin> set s" using assms by (auto simp: holds_def)
  define b where "b = length (takeWhile isspace_byte s)"
  define e where "e = length s - length (takeWhile isspace_byte (rev s))"
  have be: "b \<le> length s" "e \<le> length s"
    using length_takeWhile_le [of isspace_byte s] by (simp_all add: b_def e_def)
  have agree: "trim_front buf (int k) (int (length s) - 1) = trim_front s (int k) (int (length s) - 1)" if "k \<le> length s" for k
    using that
  proof (induction "length s - k" arbitrary: k)
    case 0
    then show ?case by (subst (1 2) trim_front.simps) simp
  next
    case (Suc m)
    then have "trim_front buf (int (Suc k)) (int (length s) - 1) = trim_front s (int (Suc k)) (int (length s) - 1)"
      by (intro Suc.hyps) simp_all
    with Suc show ?case by (subst (1 2) trim_front.simps) (simp add: buf nth_append add.commute)
  qed
  have agree': "trim_back buf (int k - 1) = trim_back s (int k - 1)" if "k \<le> length s" for k
    using that
  proof (induction k)
    case (Suc k)
    then show ?case by (subst (1 2) trim_back.simps) (simp add: buf nth_append)
  qed (simp add: trim_back.simps)
  have tfront: "trim_front buf 0 (int (length s) - 1) = int b"
    using agree [of 0] trim_front_eq [of 0 s] by (simp add: b_def)
  have tback: "trim_back buf (int (length s) - 1) = int e - 1"
    using agree' [of "length s"] trim_back_eq [of "length s" s] by (simp add: e_def)
  define n where "n = (if b < e then e - b else 0)"
  have ne: "nat (int e - int b) = e - b" by arith
  have t: "trim s = slice b n s" using trim_cut [OF b_def e_def] by (simp add: n_def)
  have bn: "b + n \<le> length s" using be by (simp add: n_def)
  have tl: "length (trim s) = n" unfolding t using bn by (simp add: length_slice)
  have sl: "slice b n buf = trim s" using bn by (simp add: t buf slice_append_left)
  let ?m = "splice buf 0 (trim s)"
  have m: "?m = trim s @ drop n buf" by (simp add: splice_def tl)
  have len: "n < length buf" using bn buf by simp
  then obtain c cs where c: "drop n buf = c # cs" by (cases "drop n buf") auto
  have "(trim s @ c # cs)[n := 0] = trim s @ 0 # cs" using tl by (simp add: list_update_append)
  then have p: "poke ?m n 0 = Inr (trim s @ 0 # cs)" using m c tl len by (simp add: poke_def)
  have "memmove buf 0 b n = Inr ?m" using bn buf sl by (simp add: memmove_def)
  then have "shell_strtrim buf = Inr (trim s @ 0 # cs)"
    using holds_length [OF assms] tfront tback p ne by (cases "b < e") (simp_all add: shell_strtrim_def Let_def n_def)
  moreover have "0 \<notin> set (trim s)" unfolding t slice_def using nz by (meson in_set_dropD in_set_takeD)
  moreover have "length (trim s @ 0 # cs) = length buf" using m c tl len by (metis length_Cons length_append length_drop le_add_diff_inverse less_imp_le)
  ultimately show ?thesis by (auto intro: holdsI)
qed

subsection \<open>Keys\<close>

definition line_ok :: "line \<Rightarrow> bytes \<Rightarrow> bool" where
  "line_ok L t \<longleftrightarrow> holds (l_buf L) t \<and> length (l_buf L) = N \<and> l_n L = length t \<and> l_i L \<le> length t"

definition insert_at :: "byte \<Rightarrow> bytes \<times> nat \<Rightarrow> bytes \<times> nat" where
  "insert_at c x = (case x of (t, i) \<Rightarrow> (take i t @ c # drop i t, i + 1))"

text \<open>A key as an operation on a text and a cursor. A text of \<open>N - 1\<close> bytes takes no more characters.\<close>

definition text_key :: "nat \<Rightarrow> bytes \<times> nat \<Rightarrow> bytes \<times> nat" where
  "text_key k x = (case x of (t, i) \<Rightarrow>
     if k = 11 then (take i t, i)
     else if k = 4 then (take i t @ drop (i + 1) t, i)
     else if k = 8 \<or> k = 127 then (if 0 < i then (take (i - 1) t @ drop i t, i - 1) else (t, i))
     else if k = 32 \<or> k = 9 then insert_at 32 (t, i)
     else if isprint k \<and> length t + 1 < N then insert_at (word_of_nat k) (t, i)
     else (t, i))"

lemma holds_slice:
  assumes "holds buf t" and "k \<le> length t"
  shows "slice k (length t - k + 1) buf = drop k t @ [0]" and "slice k (length t - k) buf = drop k t"
  using assms by (auto simp: holds_def slice_def)

lemma holds_to_end:
  "holds (l_buf L) t \<Longrightarrow> length (l_buf L) = N \<Longrightarrow> \<exists>L'. to_end L = Inr L' \<and> line_ok L' t \<and> l_i L' = length t \<and> l_j L' = l_j L"
  by (simp add: to_end_def holds_length line_ok_def)

lemma kill_key_ok:
  assumes "line_ok L t"
  shows "\<exists>L'. kill_key L = Inr L' \<and> line_ok L' (take (l_i L) t) \<and> l_i L' = l_i L \<and> l_j L' = l_j L"
proof -
  have h: "holds (l_buf L) t" "length (l_buf L) = N" "l_i L \<le> length t" using assms by (simp_all add: line_ok_def)
  then obtain rest where b: "l_buf L = t @ 0 # rest" "0 \<notin> set t" by (auto simp: holds_def)
  have p: "poke (l_buf L) (l_i L) 0 = Inr ((l_buf L)[l_i L := 0])" using h b by (simp add: poke_def)
  have "(l_buf L)[l_i L := 0] = take (l_i L) t @ 0 # drop (Suc (l_i L)) (l_buf L)"
    using h(3) b by (subst upd_conv_take_nth_drop) simp_all
  then have "holds ((l_buf L)[l_i L := 0]) (take (l_i L) t)" using b(2) by (auto intro: holdsI dest: in_set_takeD)
  from holds_to_end [of "L\<lparr>l_buf := (l_buf L)[l_i L := 0]\<rparr>" "take (l_i L) t"] this h(2,3) p show ?thesis
    by (auto simp: kill_key_def)
qed

lemma delete_key_ok:
  assumes "line_ok L t"
  shows "\<exists>L'. delete_key L = Inr L' \<and> line_ok L' (take (l_i L) t @ drop (l_i L + 1) t) \<and> l_i L' = l_i L \<and> l_j L' = l_j L"
proof (cases "l_i L < length t")
  case False
  with assms show ?thesis by (simp add: delete_key_def line_ok_def)
next
  case True
  have h: "holds (l_buf L) t" "length (l_buf L) = N" "l_n L = length t" using assms by (simp_all add: line_ok_def)
  let ?i = "l_i L" let ?b = "splice (l_buf L) ?i (drop (?i + 1) t @ [0])"
  have sl: "slice (?i + 1) (length t - ?i) (l_buf L) = drop (?i + 1) t @ [0]"
    using holds_slice(1) [OF h(1), of "?i + 1"] True by (simp add: Suc_diff_Suc)
  have mv: "memmove (l_buf L) ?i (?i + 1) (length t - ?i) = Inr ?b"
    using True holds_facts(1) [OF h(1)] sl by (simp add: memmove_def)
  have sp: "?b = (take ?i t @ drop (?i + 1) t) @ 0 # drop (length t) (l_buf L)"
    using True h(1) by (auto simp: splice_def holds_def)
  have "0 \<notin> set (take ?i t @ drop (?i + 1) t)" using h(1) by (auto simp: holds_def dest: in_set_takeD in_set_dropD)
  then have hb: "holds ?b (take ?i t @ drop (?i + 1) t)" using sp by (intro holdsI) 
  have lb: "length ?b = N" using sp True holds_facts(1) [OF h(1)] h(2) by simp
  have "delete_key L = Inr (L\<lparr>l_buf := ?b, l_n := length t - 1\<rparr>)"
    using True h strlen_at_holds [OF h(1), of "?i + 1"] mv by (simp add: delete_key_def Suc_diff_Suc)
  with hb lb True show ?thesis by (simp add: line_ok_def)
qed

lemma backspace_key_ok:
  assumes "line_ok L t"
  shows "\<exists>L'. backspace_key L = Inr L' \<and> l_j L' = l_j L \<and>
    (if 0 < l_i L then line_ok L' (take (l_i L - 1) t @ drop (l_i L) t) \<and> l_i L' = l_i L - 1
     else line_ok L' t \<and> l_i L' = l_i L)"
proof (cases "0 < l_i L")
  case False
  with assms show ?thesis by (simp add: backspace_key_def)
next
  case True
  have h: "holds (l_buf L) t" "length (l_buf L) = N" "l_n L = length t" "l_i L \<le> length t" using assms by (simp_all add: line_ok_def)
  let ?i = "l_i L" let ?b = "splice (l_buf L) (?i - 1) (drop ?i t @ [0])"
  have mv: "memmove (l_buf L) (?i - 1) ?i (length t - ?i + 1) = Inr ?b"
    using True h(4) holds_facts(1) [OF h(1)] holds_slice(1) [OF h(1,4)] by (simp add: memmove_def)
  have sp: "?b = (take (?i - 1) t @ drop ?i t) @ 0 # drop (length t) (l_buf L)"
    using True h(1,4) by (auto simp: splice_def holds_def)
  have "0 \<notin> set (take (?i - 1) t @ drop ?i t)" using h(1) by (auto simp: holds_def dest: in_set_takeD in_set_dropD)
  then have hb: "holds ?b (take (?i - 1) t @ drop ?i t)" using sp by (intro holdsI)
  have lb: "length ?b = N" using sp True h(4) holds_facts(1) [OF h(1)] h(2) by simp
  have "backspace_key L = Inr (L\<lparr>l_buf := ?b, l_i := ?i - 1, l_n := length t - 1\<rparr>)"
    using True h strlen_at_holds [OF h(1,4)] mv by (simp add: backspace_key_def)
  with hb lb True h(4) show ?thesis by (simp add: line_ok_def)
qed

text \<open>The buffer after a character has been put in.\<close>

lemma inserted:
  assumes "holds buf t" and "length buf = N" and "i \<le> length t" and "length t + 1 < N" and "c \<noteq> 0"
    and "buf' = take i t @ c # drop i t @ 0 # drop (length t + 2) buf"
  shows "holds buf' (take i t @ c # drop i t) \<and> length buf' = N"
  using assms by (auto simp: holds_def dest: in_set_takeD in_set_dropD intro!: exI [of _ "drop (length t + 2) buf"])

lemma space_key_ok:
  assumes "line_ok L t" and "length t + 1 < N"
  shows "\<exists>L'. space_key L = Inr L' \<and> line_ok L' (take (l_i L) t @ 32 # drop (l_i L) t) \<and> l_i L' = l_i L + 1 \<and> l_j L' = l_j L"
proof -
  have h: "holds (l_buf L) t" "length (l_buf L) = N" "l_n L = length t" "l_i L \<le> length t" using assms by (simp_all add: line_ok_def)
  let ?i = "l_i L" let ?m = "splice (l_buf L) (?i + 1) (drop ?i t @ [0])"
  have mv: "memmove (l_buf L) (?i + 1) ?i (length t - ?i + 1) = Inr ?m"
    using assms(2) h holds_slice(1) [OF h(1,4)] by (simp add: memmove_def)
  have "?m[?i := 32] = take ?i t @ 32 # drop ?i t @ 0 # drop (length t + 2) (l_buf L)"
  proof -
    have "take ?i (l_buf L) = take ?i t" using h(1,4) by (auto simp: holds_def)
    then have "take (?i + 1) (l_buf L) = take ?i t @ [l_buf L ! ?i]"
      using h(4) holds_facts(1) [OF h(1)] by (simp add: take_Suc_conv_app_nth)
    then show ?thesis using h(4) by (simp add: splice_def list_update_append)
  qed
  then have pk: "poke ?m ?i 32 = Inr (take ?i t @ 32 # drop ?i t @ 0 # drop (length t + 2) (l_buf L))"
    using assms(2) h by (simp add: poke_def)
  have "space_key L = Inr (L\<lparr>l_buf := take ?i t @ 32 # drop ?i t @ 0 # drop (length t + 2) (l_buf L),
      l_i := ?i + 1, l_n := length t + 1\<rparr>)"
    using assms(2) h strlen_at_holds [OF h(1,4)] mv pk by (simp add: space_key_def)
  with inserted [OF h(1,2,4) assms(2), of 32, OF _ refl] h(4) show ?thesis by (simp add: line_ok_def)
qed

lemma space_key_full:
  assumes "line_ok L t" and "length t + 1 = N"
  shows "space_key L = Inl Out_of_bounds"
proof -
  have h: "holds (l_buf L) t" "length (l_buf L) = N" "l_n L = length t" "l_i L \<le> length t" using assms by (simp_all add: line_ok_def)
  show ?thesis using h assms(2) strlen_at_holds [OF h(1,4)] by (simp add: space_key_def memmove_def)
qed

lemma print_key_ok:
  assumes "line_ok L t" and "length t + 1 < N" and "isprint k"
  shows "\<exists>L'. print_key k L = Inr L' \<and> line_ok L' (take (l_i L) t @ word_of_nat k # drop (l_i L) t) \<and>
    l_i L' = l_i L + 1 \<and> l_j L' = l_j L"
proof -
  have h: "holds (l_buf L) t" "length (l_buf L) = N" "l_n L = length t" "l_i L \<le> length t" using assms by (simp_all add: line_ok_def)
  have "unat (word_of_nat k :: byte) = k" using assms(3) by (simp add: isprint_def unat_of_nat)
  then have nz: "(word_of_nat k :: byte) \<noteq> 0" using assms(3) by (auto simp: isprint_def)
  let ?i = "l_i L" let ?c = "word_of_nat k :: byte"
  let ?b = "take ?i t @ ?c # drop ?i t @ 0 # drop (length t + 2) (l_buf L)"
  obtain rs where rs: "l_buf L = t @ 0 # rs" using h(1) by (auto simp: holds_def)
  then have "rs \<noteq> []" using h(2) assms(2) by auto
  then obtain r0 rest where "rs = r0 # rest" by (cases rs) auto
  with rs have b: "l_buf L = t @ 0 # r0 # rest" by simp
  have "\<exists>m. (if ?i < l_n L then obind (strlen_at (l_buf L) ?i) (\<lambda>m. memmove (l_buf L) (?i + 1) ?i m) else Inr (l_buf L)) = Inr m \<and>
      length m = N \<and> m[?i := ?c, Suc (length t) := 0] = ?b"
  proof (cases "?i < length t")
    case True
    have mv: "memmove (l_buf L) (?i + 1) ?i (length t - ?i) = Inr (splice (l_buf L) (?i + 1) (drop ?i t))"
      using assms(2) h holds_slice(2) [OF h(1,4)] by (simp add: memmove_def)
    have sp: "splice (l_buf L) (?i + 1) (drop ?i t) = take ?i t @ t ! ?i # drop ?i t @ r0 # rest"
      using True b by (simp add: splice_def take_Suc_conv_app_nth)
    have "(splice (l_buf L) (?i + 1) (drop ?i t))[?i := ?c, Suc (length t) := 0] = ?b"
    proof -
      have l: "length (take ?i t @ ?c # drop ?i t) = Suc (length t)" using True by simp
      have 1: "(take ?i t @ t ! ?i # drop ?i t @ r0 # rest)[?i := ?c] = (take ?i t @ ?c # drop ?i t) @ r0 # rest"
        using True by (simp add: list_update_append)
      have "((take ?i t @ ?c # drop ?i t) @ r0 # rest)[Suc (length t) := 0] = (take ?i t @ ?c # drop ?i t) @ 0 # rest"
        by (subst list_update_append) (simp add: l del: length_append)
      then show ?thesis unfolding sp 1 using b by simp
    qed
    with True h mv strlen_at_holds [OF h(1,4)] assms(2) show ?thesis by simp
  next
    case False
    then have i: "?i = length t" using h(4) by simp
    have "(l_buf L)[?i := ?c, Suc (length t) := 0] = ?b" unfolding i by (simp add: b list_update_append)
    with False h show ?thesis by simp
  qed
  then obtain m where m: "(if ?i < l_n L then obind (strlen_at (l_buf L) ?i) (\<lambda>m. memmove (l_buf L) (?i + 1) ?i m) else Inr (l_buf L)) = Inr m"
      "length m = N" "m[?i := ?c, Suc (length t) := 0] = ?b" by blast
  have "print_key k L = Inr (L\<lparr>l_buf := ?b, l_i := ?i + 1, l_n := length t + 1\<rparr>)"
    using m h assms(2) by (simp add: print_key_def poke_def)
  with inserted [OF h(1,2,4) assms(2) nz refl] h(4) show ?thesis by (simp add: line_ok_def)
qed

lemma plain_key_ok:
  assumes "line_ok L t" and "\<not> ((k = 32 \<or> k = 9) \<and> length t + 1 = N)"
  shows "\<exists>L'. plain_key k L = Inr L' \<and> line_ok L' (fst (text_key k (t, l_i L))) \<and> l_i L' = snd (text_key k (t, l_i L)) \<and>
    l_j L' = l_j L"
proof -
  have lt: "length t < N" using assms(1) holds_facts(1) [of "l_buf L" t] by (simp add: line_ok_def)
  consider "k = 11" | "k = 12" | "k = 4" | "k = 8 \<or> k = 127" | "k = 32 \<or> k = 9"
    | "k \<notin> {11, 12, 4, 8, 127, 32, 9}" "isprint k" | "k \<notin> {11, 12, 4, 8, 127, 32, 9}" "\<not> isprint k" by blast
  then show ?thesis
  proof cases
    case 1 then show ?thesis using kill_key_ok [OF assms(1)] by (auto simp: plain_key_def text_key_def)
  next
    case 2 then show ?thesis using assms(1) by (simp add: plain_key_def text_key_def isprint_def)
  next
    case 3 then show ?thesis using delete_key_ok [OF assms(1)] by (auto simp: plain_key_def text_key_def)
  next
    case 4 then show ?thesis using backspace_key_ok [OF assms(1)] by (auto simp: plain_key_def text_key_def)
  next
    case 5
    then have "length t + 1 < N" using assms(2) lt by simp
    from space_key_ok [OF assms(1) this] 5 show ?thesis by (auto simp: plain_key_def text_key_def insert_at_def)
  next
    case 6
    show ?thesis
    proof (cases "length t + 1 < N")
      case True
      from print_key_ok [OF assms(1) True 6(2)] 6 True show ?thesis by (auto simp: plain_key_def text_key_def insert_at_def)
    next
      case False
      with 6 assms(1) show ?thesis by (auto simp: plain_key_def text_key_def print_key_def line_ok_def)
    qed
  next
    case 7 then show ?thesis using assms(1) by (simp add: plain_key_def text_key_def)
  qed
qed

subsection \<open>The history\<close>

definition slots_ok :: "bytes list \<Rightarrow> bool" where
  "slots_ok hist \<longleftrightarrow> length hist = H \<and> (\<forall>b \<in> set hist. length b = N \<and> (\<exists>s. holds b s))"

definition slot_text :: "bytes list \<Rightarrow> nat \<Rightarrow> bytes" where
  "slot_text hist j = takeWhile (\<lambda>c. c \<noteq> 0) (hist ! j)"

lemma slots_ok_nth: "slots_ok hist \<Longrightarrow> j < H \<Longrightarrow> length (hist ! j) = N \<and> holds (hist ! j) (slot_text hist j)"
  unfolding slots_ok_def slot_text_def using holds_facts(5) by (metis nth_mem)

lemma slots_ok_update: "slots_ok hist \<Longrightarrow> length b = N \<Longrightarrow> holds b s \<Longrightarrow> slots_ok (hist[j := b])"
  by (auto simp: slots_ok_def dest!: set_update_subset_insert [THEN subsetD])

lemma strncpy_holds:
  assumes "holds b s" and "length b = N"
  shows "holds (strncpy b) s" and "length (strncpy b) = N"
proof -
  have l: "length s < N" using holds_facts(1) [OF assms(1)] assms(2) by simp
  have "strncpy b = s @ replicate (N - length s) 0"
    using l holds_facts(5) [OF assms(1)] by (simp add: strncpy_def Let_def)
  moreover have "replicate (N - length s) (0 :: byte) = 0 # replicate (N - length s - 1) 0"
    using l by (metis Suc_diff_1 replicate_Suc zero_less_diff)
  ultimately show "holds (strncpy b) s" "length (strncpy b) = N"
    using l holds_facts(4) [OF assms(1)] by (auto intro: holdsI)
qed

lemma holds_cut: "0 < length b \<Longrightarrow> holds (b[0 := 0]) []"
  by (cases b) (auto simp: holds_def)

text \<open>The arrows move in the history and in the line; the line of the slot itself is lost when the history is entered.\<close>

lemma arrow_key_ok:
  assumes "line_ok L t" and "slots_ok hist" and "l_j L \<le> slot" and "slot < H"
  shows "\<exists>L' t'. arrow_key hist slot k L = Inr L' \<and> line_ok L' t' \<and> l_j L' \<le> slot \<and>
    (k = 65 \<and> 0 < l_j L \<longrightarrow> t' = slot_text hist (l_j L - 1) \<and> l_i L' = length t' \<and> l_j L' = l_j L - 1) \<and>
    (k = 66 \<and> l_j L + 1 < slot \<longrightarrow> t' = slot_text hist (l_j L + 1) \<and> l_i L' = length t' \<and> l_j L' = l_j L + 1)"
proof -
  have h: "holds (l_buf L) t" "length (l_buf L) = N" using assms(1) by (simp_all add: line_ok_def)
  have N: "0 < N" by (simp add: N_def)
  have cut: "poke (l_buf L) 0 0 = Inr ((l_buf L)[0 := 0])" "holds ((l_buf L)[0 := 0]) []" "length ((l_buf L)[0 := 0]) = N"
    using h N by (simp_all add: poke_def holds_cut)
  have copied: "holds (strncpy (hist ! j)) (slot_text hist j)" "length (strncpy (hist ! j)) = N" if "j < H" for j
    using slots_ok_nth [OF assms(2) that] strncpy_holds by blast+
  have end_ok: "\<exists>L'. to_end (L\<lparr>l_buf := b, l_j := j\<rparr>) = Inr L' \<and> line_ok L' s \<and> l_i L' = length s \<and> l_j L' = j"
    if "holds b s" "length b = N" for b s j
    using holds_to_end [of "L\<lparr>l_buf := b, l_j := j\<rparr>" s] that by auto
  consider "k = 65" "0 < l_j L" | "k = 66" "l_j L + 1 < slot" | "k = 66" "l_j L + 1 = slot"
    | "(k = 65 \<longrightarrow> \<not> 0 < l_j L) \<and> (k = 66 \<longrightarrow> \<not> l_j L < slot)" by linarith
  then show ?thesis
  proof cases
    case 1
    then have "l_j L - 1 < H" "l_j L - 1 \<noteq> slot" using assms(3,4) by simp_all
    with end_ok [OF copied, of "l_j L - 1" "l_j L - 1"] 1 cut(1) assms(3) show ?thesis by (auto simp: arrow_key_def Let_def)
  next
    case 2
    with end_ok [OF copied, of "l_j L + 1" "l_j L + 1"] cut(1) assms(4) show ?thesis by (auto simp: arrow_key_def Let_def)
  next
    case 3
    with end_ok [OF cut(2,3), of "l_j L + 1"] cut(1) show ?thesis by (auto simp: arrow_key_def Let_def)
  next
    case 4
    then have "\<exists>L'. arrow_key hist slot k L = Inr L' \<and> line_ok L' t \<and> l_j L' \<le> slot"
      using assms(1,3) by (auto simp: arrow_key_def line_ok_def)
    with 4 show ?thesis by auto
  qed
qed

subsection \<open>Lines\<close>

text \<open>No sequence of keys without a space or a tab overruns the line.\<close>

lemma edit_ok:
  assumes "line_ok L t" and "slots_ok hist" and "l_j L \<le> slot" and "slot < H"
  shows "case edit hist slot keys L of
      Inl e \<Rightarrow> e = Out_of_bounds \<and> (32 \<in> set keys \<or> 9 \<in> set keys)
    | Inr None \<Rightarrow> True
    | Inr (Some (L', rest)) \<Rightarrow> \<exists>t'. line_ok L' t'"
  using assms(1,3)
proof (induction keys arbitrary: L t rule: length_induct)
  case (1 keys)
  show ?case
  proof (cases keys)
    case Nil
    then show ?thesis by simp
  next
    case (Cons k ks)
    consider (esc) "k = 27" | (enter) "k = 10" | (plain) "k \<noteq> 27" "k \<noteq> 10" by blast
    then show ?thesis
    proof cases
      case esc
      show ?thesis
      proof (cases "2 \<le> length ks")
        case True
        then obtain x a ks' where ks: "ks = x # a # ks'" by (cases ks; cases "tl ks") auto
        obtain L' t' where a: "arrow_key hist slot a L = Inr L'" "line_ok L' t'" "l_j L' \<le> slot"
          using arrow_key_ok [OF 1(2) assms(2) 1(3) assms(4)] by blast
        with 1(1) [rule_format, of ks' L' t'] Cons ks esc show ?thesis
          by (auto split: sum.splits option.splits)
      next
        case False
        with Cons esc show ?thesis by (cases ks; cases "tl ks") auto
      qed
    next
      case enter
      with Cons 1(2) show ?thesis by auto
    next
      case plain
      show ?thesis
      proof (cases "(k = 32 \<or> k = 9) \<and> length t + 1 = N")
        case True
        with space_key_full [OF 1(2)] Cons show ?thesis by (auto simp: plain_key_def)
      next
        case False
        from plain_key_ok [OF 1(2) False] obtain L' t' where p: "plain_key k L = Inr L'" "line_ok L' t'" "l_j L' = l_j L" by blast
        with 1(1) [rule_format, of ks L' t'] 1(3) Cons plain show ?thesis
          by (auto split: sum.splits option.splits)
      qed
    qed
  qed
qed

definition printable :: "bytes \<Rightarrow> bool" where
  "printable w \<longleftrightarrow> (\<forall>c \<in> set w. isprint (unat c))"

lemma printable_nz: "printable w \<Longrightarrow> 0 \<notin> set w"
  by (auto simp: printable_def isprint_def)

text \<open>Typing at the end of the line appends.\<close>

lemma edit_typed:
  assumes "line_ok L t" and "l_i L = length t" and "printable w" and "length t + length w < N"
  shows "\<exists>L'. edit hist slot (map unat w @ 10 # rest) L = Inr (Some (L', rest)) \<and> line_ok L' (t @ w)"
  using assms
proof (induction w arbitrary: L t)
  case Nil
  then show ?case by simp
next
  case (Cons c w)
  have c: "isprint (unat c)" using Cons.prems(3) by (simp add: printable_def)
  have k: "unat c \<notin> {11, 12, 4, 8, 127, 9, 27, 10}" using c by (auto simp: isprint_def)
  have tk: "text_key (unat c) (t, l_i L) = (t @ [c], length t + 1)"
  proof (cases "unat c = 32")
    case True
    then have "c = 32" by (simp add: word_unat_eq_iff)
    then show ?thesis using True Cons.prems(2) by (simp add: text_key_def insert_at_def)
  next
    case False
    then show ?thesis using k c Cons.prems(2,4) by (simp add: text_key_def insert_at_def)
  qed
  have "\<not> ((unat c = 32 \<or> unat c = 9) \<and> length t + 1 = N)" using Cons.prems(4) by simp
  from plain_key_ok [OF Cons.prems(1) this] tk obtain L' where
    L': "plain_key (unat c) L = Inr L'" "line_ok L' (t @ [c])" "l_i L' = length (t @ [c])" by auto
  have "printable w" using Cons.prems(3) by (simp add: printable_def)
  with Cons.IH [OF L'(2,3)] Cons.prems(4) obtain L'' where
    "edit hist slot (map unat w @ 10 # rest) L' = Inr (Some (L'', rest))" "line_ok L'' ((t @ [c]) @ w)" by auto
  with L'(1) k show ?case by simp
qed

text \<open>The state between two lines: the slot in use is empty.\<close>

definition shell_ok :: "shell_state \<Rightarrow> bool" where
  "shell_ok s \<longleftrightarrow> slots_ok (s_history s) \<and> s_n s < H \<and> holds (s_history s ! s_n s) []"

lemma trim_length: "length (trim w) \<le> length w"
  unfolding trim_def by (metis dual_order.trans length_dropWhile_le length_rev)

lemma read_line_edited:
  assumes "shell_ok s" and "edit (s_history s) (s_n s) keys \<lparr>l_buf = s_history s ! s_n s, l_i = 0, l_n = 0, l_j = s_n s\<rparr> =
      Inr (Some (L, rest))"
    and "line_ok L w"
  shows "\<exists>buf. holds buf (trim w) \<and> length buf = N \<and> read_line keys s =
    (if trim w = [] then Inr (Some (None, rest, s\<lparr>s_history := (s_history s)[s_n s := buf]\<rparr>))
     else obind (next_slot (s\<lparr>s_history := (s_history s)[s_n s := buf]\<rparr>)) (\<lambda>s'. Inr (Some (Some buf, rest, s'))))"
proof -
  have h: "holds (l_buf L) w" "length (l_buf L) = N" using assms(3) by (simp_all add: line_ok_def)
  obtain buf where buf: "shell_strtrim (l_buf L) = Inr buf" "holds buf (trim w)" "length buf = N"
    using shell_strtrim_holds [OF h(1)] h(2) by auto
  have "to_end \<lparr>l_buf = s_history s ! s_n s, l_i = 0, l_n = 0, l_j = s_n s\<rparr> =
      Inr \<lparr>l_buf = s_history s ! s_n s, l_i = 0, l_n = 0, l_j = s_n s\<rparr>"
    using assms(1) holds_length [of "s_history s ! s_n s" "[]"] by (simp add: to_end_def shell_ok_def)
  then have "read_line keys s =
    (if trim w = [] then Inr (Some (None, rest, s\<lparr>s_history := (s_history s)[s_n s := buf]\<rparr>))
     else obind (next_slot (s\<lparr>s_history := (s_history s)[s_n s := buf]\<rparr>)) (\<lambda>s'. Inr (Some (Some buf, rest, s'))))"
    using assms(1,2) buf holds_length [OF buf(2)] by (simp add: read_line_def shell_ok_def Let_def)
  with buf show ?thesis by blast
qed

lemma start_line_ok:
  assumes "shell_ok s"
  shows "line_ok \<lparr>l_buf = s_history s ! s_n s, l_i = 0, l_n = 0, l_j = s_n s\<rparr> []"
  using assms slots_ok_nth [of "s_history s" "s_n s"] by (simp add: line_ok_def shell_ok_def)

lemma edit_start:
  assumes "shell_ok s" and "printable w" and "length w < N"
  shows "\<exists>L. edit (s_history s) (s_n s) (map unat w @ 10 # rest) \<lparr>l_buf = s_history s ! s_n s, l_i = 0, l_n = 0, l_j = s_n s\<rparr> =
    Inr (Some (L, rest)) \<and> line_ok L w"
  using edit_typed [OF start_line_ok [OF assms(1)] _ assms(2), of "s_history s" "s_n s" rest] assms(3) by simp

lemma next_slot_ok:
  assumes "slots_ok (s_history s)" and "s_n s + 1 < H"
  shows "\<exists>s'. next_slot s = Inr s' \<and> shell_ok s' \<and> s_n s' = s_n s + 1 \<and> (\<forall>j \<le> s_n s. s_history s' ! j = s_history s ! j)"
proof -
  let ?n = "s_n s + 1"
  have len: "length (s_history s) = H" using assms(1) by (simp add: slots_ok_def)
  have b: "length (s_history s ! ?n) = N" using slots_ok_nth [OF assms] by blast
  then have c: "holds ((s_history s ! ?n)[0 := 0]) []" by (intro holds_cut) (simp add: N_def)
  have "slots_ok ((s_history s)[?n := (s_history s ! ?n)[0 := 0]])" using slots_ok_update [OF assms(1) _ c] b by simp
  with c len assms(2) show ?thesis by (simp add: next_slot_def shell_ok_def)
qed

lemma read_line_typed:
  assumes "shell_ok s" and "printable w" and "length w < N" and "trim w = [] \<or> s_n s + 1 < H"
  shows "\<exists>buf s'. read_line (map unat w @ 10 # rest) s = Inr (Some (if trim w = [] then None else Some buf, rest, s')) \<and>
    holds buf (trim w) \<and> length buf = N \<and> shell_ok s' \<and> s_history s' ! s_n s = buf \<and>
    s_n s' = (if trim w = [] then s_n s else s_n s + 1) \<and> (\<forall>j < s_n s. s_history s' ! j = s_history s ! j)"
proof -
  obtain L where L: "edit (s_history s) (s_n s) (map unat w @ 10 # rest) \<lparr>l_buf = s_history s ! s_n s, l_i = 0, l_n = 0, l_j = s_n s\<rparr> =
      Inr (Some (L, rest))" "line_ok L w"
    using edit_start [OF assms(1-3)] by blast
  obtain buf where buf: "holds buf (trim w)" "length buf = N" "read_line (map unat w @ 10 # rest) s =
      (if trim w = [] then Inr (Some (None, rest, s\<lparr>s_history := (s_history s)[s_n s := buf]\<rparr>))
       else obind (next_slot (s\<lparr>s_history := (s_history s)[s_n s := buf]\<rparr>)) (\<lambda>s'. Inr (Some (Some buf, rest, s'))))"
    using read_line_edited [OF assms(1) L] by blast
  let ?s = "s\<lparr>s_history := (s_history s)[s_n s := buf]\<rparr>"
  have slots: "slots_ok (s_history ?s)" using assms(1) slots_ok_update [OF _ buf(2,1)] by (simp add: shell_ok_def)
  have n: "s_n s < length (s_history s)" using assms(1) by (simp add: shell_ok_def slots_ok_def)
  show ?thesis
  proof (cases "trim w = []")
    case True
    then have "shell_ok ?s" using assms(1) slots buf(1) n by (simp add: shell_ok_def)
    with True buf n show ?thesis by (intro exI [of _ buf] exI [of _ ?s]) simp
  next
    case False
    then obtain s' where "next_slot ?s = Inr s'" "shell_ok s'" "s_n s' = s_n s + 1" "\<forall>j \<le> s_n s. s_history s' ! j = s_history ?s ! j"
      using next_slot_ok [OF slots] assms(4) by auto
    with False buf n show ?thesis by (intro exI [of _ buf] exI [of _ s']) simp
  qed
qed

subsection \<open>Properties\<close>

text \<open>
  The loops of \<open>shell_strtrim\<close> compute the string without the white space at both its ends, in place and inside the
  buffer.
\<close>

theorem shell_strtrim_correct:
  assumes "holds buf s"
  shows "\<exists>buf'. shell_strtrim buf = Inr buf' \<and> length buf' = length buf \<and>
    holds buf' (rev (dropWhile isspace_byte (rev (dropWhile isspace_byte s))))"
  using shell_strtrim_holds [OF assms] by (auto simp: trim_def)

text \<open>
  C18: a key does to the buffer what the editor means by it to the text and the cursor, and keeps the text terminated inside
  its slot; all but one case: a space or tab in a line that is full is written beyond the slot.
\<close>

theorem plain_key_refines:
  assumes "line_ok L t"
  shows "(if (k = 32 \<or> k = 9) \<and> length t + 1 = N then plain_key k L = Inl Out_of_bounds
     else \<exists>L'. plain_key k L = Inr L' \<and> line_ok L' (fst (text_key k (t, l_i L))) \<and> l_i L' = snd (text_key k (t, l_i L)))"
proof (cases "(k = 32 \<or> k = 9) \<and> length t + 1 = N")
  case True
  then have "plain_key k L = space_key L" by (auto simp: plain_key_def)
  with True space_key_full [OF assms] show ?thesis by simp
next
  case False
  with plain_key_ok [OF assms False] show ?thesis by auto
qed

text \<open>
  C31: \<open>read_line\<close> returns a typed line without the white space at its ends, keeps it in the history and leaves the lines
  before it alone; a blank line is a null pointer and is not kept.
\<close>

theorem read_line_returns_line:
  assumes "shell_ok s" and "printable w" and "length w < N" and "trim w = [] \<or> s_n s + 1 < H"
  shows "\<exists>buf s'. read_line (map unat w @ 10 # rest) s = Inr (Some (if trim w = [] then None else Some buf, rest, s')) \<and>
    holds buf (trim w) \<and> shell_ok s' \<and> s_history s' ! s_n s = buf \<and>
    s_n s' = (if trim w = [] then s_n s else s_n s + 1) \<and> (\<forall>j < s_n s. s_history s' ! j = s_history s ! j)"
  using read_line_typed [OF assms, of rest] by blast

text \<open>
  The history has 96 slots, and the line in the last of them makes \<open>read_line\<close> clear the first byte of a slot beyond it.
\<close>

theorem history_overrun:
  assumes "shell_ok s" and "printable w" and "length w < N" and "trim w \<noteq> []" and "s_n s = 95"
  shows "read_line (map unat w @ 10 # rest) s = Inl Out_of_bounds"
proof -
  obtain L where L: "edit (s_history s) (s_n s) (map unat w @ 10 # rest) \<lparr>l_buf = s_history s ! s_n s, l_i = 0, l_n = 0, l_j = s_n s\<rparr> =
      Inr (Some (L, rest))" "line_ok L w"
    using edit_start [OF assms(1-3)] by blast
  have "next_slot (s\<lparr>s_history := (s_history s)[s_n s := b]\<rparr>) = Inl Out_of_bounds" for b
    using assms(5) by (simp add: next_slot_def H_def)
  with read_line_edited [OF assms(1) L] assms(4) show ?thesis by auto
qed

text \<open>
  C32: no keys other than a space or a tab make \<open>read_line\<close> leave its slot while the history has room: arrows, deletions and
  long lines included.
\<close>

theorem read_line_safe:
  assumes "shell_ok s" and "s_n s + 1 < H" and "32 \<notin> set keys" and "9 \<notin> set keys"
  shows "\<exists>r. read_line keys s = Inr r"
proof -
  let ?L = "\<lparr>l_buf = s_history s ! s_n s, l_i = 0, l_n = 0, l_j = s_n s\<rparr>"
  have ok: "case edit (s_history s) (s_n s) keys ?L of
      Inl e \<Rightarrow> e = Out_of_bounds \<and> (32 \<in> set keys \<or> 9 \<in> set keys)
    | Inr None \<Rightarrow> True
    | Inr (Some (L', rest)) \<Rightarrow> \<exists>t'. line_ok L' t'"
    by (rule edit_ok [OF start_line_ok [OF assms(1)]]) (use assms(1) in \<open>simp_all add: shell_ok_def\<close>)
  show ?thesis
  proof (cases "edit (s_history s) (s_n s) keys ?L")
    case (Inl e)
    with ok assms(3,4) show ?thesis by simp
  next
    case (Inr r)
    show ?thesis
    proof (cases r)
      case None
      then have "read_line keys s = Inr None" using Inr assms(1) holds_length [of "s_history s ! s_n s" "[]"]
        by (simp add: read_line_def shell_ok_def to_end_def)
      then show ?thesis by blast
    next
      case (Some Lr)
      obtain L rest where Lr: "Lr = (L, rest)" by (cases Lr)
      with ok Inr Some obtain w where w: "line_ok L w" by auto
      from read_line_edited [OF assms(1) _ w] Inr Some Lr obtain buf where buf: "holds buf (trim w)" "length buf = N"
        "read_line keys s = (if trim w = [] then Inr (Some (None, rest, s\<lparr>s_history := (s_history s)[s_n s := buf]\<rparr>))
         else obind (next_slot (s\<lparr>s_history := (s_history s)[s_n s := buf]\<rparr>)) (\<lambda>s'. Inr (Some (Some buf, rest, s'))))"
        by blast
      have "slots_ok ((s_history s)[s_n s := buf])" using assms(1) slots_ok_update [OF _ buf(2,1)] by (simp add: shell_ok_def)
      then obtain s' where "next_slot (s\<lparr>s_history := (s_history s)[s_n s := buf]\<rparr>) = Inr s'"
        using next_slot_ok [of "s\<lparr>s_history := (s_history s)[s_n s := buf]\<rparr>"] assms(2) by auto
      with buf(3) show ?thesis by simp
    qed
  qed
qed

subsection \<open>Witnesses\<close>

definition fresh_shell :: "nat \<Rightarrow> shell_state" where
  "fresh_shell n = \<lparr>s_n = n, s_history = replicate H (replicate N 0)\<rparr>"

lemma zero_slot: "holds (replicate N 0) []"
  by (rule holdsI [where rest = "replicate (N - 1) 0"]) (simp_all add: N_def numeral_eq_Suc)

lemma fresh_shell_ok: "n < H \<Longrightarrow> shell_ok (fresh_shell n)"
  using zero_slot by (auto simp: shell_ok_def fresh_shell_def slots_ok_def)

definition demo_line :: bytes where "demo_line = [32, 104, 105, 32]"

lemma demo_line_facts: "printable demo_line" "length demo_line < N" "trim demo_line = [104, 105]"
  by (simp_all add: demo_line_def printable_def isprint_def N_def trim_def isspace_byte_def)

theorem shell_strtrim_correct_witness:
  "\<exists>buf'. shell_strtrim [32, 104, 105, 32, 0, 7] = Inr buf' \<and>
    length buf' = length [32, 104, 105, 32, 0, 7 :: byte] \<and> holds buf' [104, 105]"
proof -
  have "holds [32, 104, 105, 32, 0, 7] [32, 104, 105, 32]" by (auto simp: holds_def)
  from shell_strtrim_correct [OF this] show ?thesis by (simp add: isspace_byte_def)
qed

theorem plain_key_refines_witness:
  "(\<exists>L'. plain_key 65 \<lparr>l_buf = replicate N 0, l_i = 0, l_n = 0, l_j = 0\<rparr> = Inr L' \<and> line_ok L' [65] \<and> l_i L' = 1) \<and>
   plain_key 32 \<lparr>l_buf = replicate 159 65 @ [0], l_i = 3, l_n = 159, l_j = 0\<rparr> = Inl Out_of_bounds"
proof -
  have a: "line_ok \<lparr>l_buf = replicate N 0, l_i = 0, l_n = 0, l_j = 0\<rparr> []" using zero_slot by (simp add: line_ok_def)
  have "holds (replicate 159 65 @ [0]) (replicate 159 65)" by (rule holdsI [where rest = "[]"]) simp_all
  then have b: "line_ok \<lparr>l_buf = replicate 159 65 @ [0], l_i = 3, l_n = 159, l_j = 0\<rparr> (replicate 159 65)"
    by (simp add: line_ok_def N_def)
  from plain_key_refines [OF a, of 65] plain_key_refines [OF b, of 32] show ?thesis
    by (simp add: N_def text_key_def isprint_def insert_at_def)
qed

theorem read_line_returns_line_witness:
  "\<exists>buf s'. read_line [32, 104, 105, 32, 10, 113] (fresh_shell 0) = Inr (Some (Some buf, [113], s')) \<and>
    holds buf [104, 105] \<and> s_n s' = 1"
proof -
  have "shell_ok (fresh_shell 0)" by (rule fresh_shell_ok) (simp add: H_def)
  from read_line_returns_line [OF this demo_line_facts(1,2), of "[113]"] show ?thesis
    unfolding demo_line_facts(3) by (auto simp: demo_line_def fresh_shell_def H_def)
qed

theorem history_overrun_witness:
  "read_line [32, 104, 105, 32, 10] (fresh_shell 95) = Inl Out_of_bounds"
proof -
  have "shell_ok (fresh_shell 95)" by (rule fresh_shell_ok) (simp add: H_def)
  from history_overrun [OF this demo_line_facts(1,2), of "[]"] show ?thesis
    unfolding demo_line_facts(3) by (simp add: demo_line_def fresh_shell_def)
qed

theorem read_line_safe_witness:
  "\<exists>r. read_line ([27, 91, 65] @ replicate 300 65 @ [127, 4, 11, 10]) (fresh_shell 3) = Inr r"
proof -
  have ok: "shell_ok (fresh_shell 3)" by (rule fresh_shell_ok) (simp add: H_def)
  show ?thesis by (rule read_line_safe [OF ok]) (simp_all add: fresh_shell_def H_def)
qed

end
