(* ===== verification/Scm.thy ===== *)
theory Scm
  imports Prelude
begin

section \<open>The persistent heap (\<open>project-3/scm.c\<close>)\<close>

text \<open>
  The region is a file mapped at a fixed address. It begins with three \<open>size_t\<close> values (a marker, the
  bytes used and the bytes in use by the application); then come the blocks, each a header of two
  \<open>size_t\<close> (in use or not, size) and the memory handed out. Addresses are offsets from the
  start of the mapping, the region is its list of bytes, and a load or store outside of it is
  \<^const>\<open>Out_of_bounds\<close> (the file's size is taken to be a whole number of pages). Numbers are \<open>size_t\<close>, so
  sums are taken modulo \<open>2 ^ 64\<close>; sums of addresses inside the loops are not, wrapping there is undefined.
\<close>

subsection \<open>State and memory\<close>

definition SIZE_INFO_ID :: nat where "SIZE_INFO_ID = 2 ^ 64 - 2"
definition SIZE_INFO_BYTES :: nat where "SIZE_INFO_BYTES = 24"
definition ADDR_INFO_BYTES :: nat where "ADDR_INFO_BYTES = 16"

lemmas scm_sizes = SIZE_INFO_BYTES_def ADDR_INFO_BYTES_def

record scm =
  ssize :: nat
  used_bytes :: nat
  user_bytes :: nat
  mem :: bytes

definition load64 :: "bytes \<Rightarrow> nat \<Rightarrow> nat outcome" where
  "load64 m a = (if a + 8 \<le> length m then Inr (le_val (slice a 8 m)) else Inl Out_of_bounds)"

definition store_bytes :: "bytes \<Rightarrow> nat \<Rightarrow> bytes \<Rightarrow> bytes outcome" where
  "store_bytes m a bs = (if a + length bs \<le> length m then Inr (splice m a bs) else Inl Out_of_bounds)"

definition store64 :: "bytes \<Rightarrow> nat \<Rightarrow> nat \<Rightarrow> bytes outcome" where
  "store64 m a v = store_bytes m a (le_bytes 8 v)"

subsection \<open>Operations\<close>

definition base_addr :: nat where "base_addr = SIZE_INFO_BYTES"

definition scm_mbase :: "scm \<Rightarrow> nat" where
  "scm_mbase s = (if used_bytes s \<noteq> 0 then base_addr + ADDR_INFO_BYTES else base_addr)"

definition scm_utilized :: "scm \<Rightarrow> nat" where "scm_utilized s = user_bytes s"
definition scm_capacity :: "scm \<Rightarrow> nat" where "scm_capacity s = ssize s"

text \<open>Writing \<open>size_info[1]\<close> and \<open>size_info[2]\<close>.\<close>

definition save_sizes :: "scm \<Rightarrow> scm outcome" where
  "save_sizes s =
     obind (store64 (mem s) 8 (used_bytes s)) (\<lambda>m1.
     obind (store64 m1 16 (user_bytes s)) (\<lambda>m2. Inr (s\<lparr>mem := m2\<rparr>)))"

text \<open>
  The loop of \<open>scm_malloc\<close> over the blocks from \<open>addr\<close> on: the first free block that is large enough.
\<close>

function find_free :: "bytes \<Rightarrow> nat \<Rightarrow> nat \<Rightarrow> nat \<Rightarrow> nat option outcome" where
  "find_free m n limit addr =
     (if addr < limit then
        (case load64 m (addr - 16) of
           Inl e \<Rightarrow> Inl e
         | Inr flag \<Rightarrow>
             (case load64 m (addr - 8) of
                Inl e \<Rightarrow> Inl e
              | Inr sz \<Rightarrow>
                  if flag = 0 \<and> n \<le> sz then Inr (Some addr)
                  else find_free m n limit (addr + sz + ADDR_INFO_BYTES)))
      else Inr None)"
  by pat_completeness auto
termination
  by (relation "measure (\<lambda>(m, n, limit, addr). limit - addr)") (auto simp: ADDR_INFO_BYTES_def)

declare find_free.simps [simp del]

text \<open>A new block at the end: header, counters.\<close>

definition add_block :: "scm \<Rightarrow> nat \<Rightarrow> scm outcome" where
  "add_block s n =
     (let a = base_addr + used_bytes s in
      obind (store64 (mem s) a 1) (\<lambda>m1.
      obind (store64 m1 (a + 8) n) (\<lambda>m2.
        Inr (s\<lparr>mem := m2, user_bytes := add64 (user_bytes s) n,
               used_bytes := add64 (used_bytes s) (add64 n ADDR_INFO_BYTES)\<rparr>))))"

definition scm_malloc :: "scm \<Rightarrow> nat \<Rightarrow> (nat \<times> scm) outcome" where
  "scm_malloc s n =
     obind (find_free (mem s) n (scm_mbase s + used_bytes s) (scm_mbase s)) (\<lambda>r.
       case r of
         Some addr \<Rightarrow> obind (store64 (mem s) (addr - 16) 1) (\<lambda>m. Inr (addr, s\<lparr>mem := m\<rparr>))
       | None \<Rightarrow>
           if ssize s < add64 (add64 (used_bytes s) n) ADDR_INFO_BYTES then Inl Exit_called
           else obind (add_block s n) (\<lambda>s1. obind (save_sizes s1) (\<lambda>s2.
                  Inr (base_addr + used_bytes s + ADDR_INFO_BYTES, s2))))"

text \<open>
  \<open>scm_strdup\<close>: the string is given without its terminating zero. There is no check of the capacity.
\<close>

definition scm_strdup :: "scm \<Rightarrow> bytes \<Rightarrow> (nat \<times> scm) outcome" where
  "scm_strdup s str =
     obind (add_block s (length str + 1)) (\<lambda>s1.
     obind (store_bytes (mem s1) (base_addr + used_bytes s + ADDR_INFO_BYTES) (str @ [0])) (\<lambda>m.
     obind (save_sizes (s1\<lparr>mem := m\<rparr>)) (\<lambda>s2.
       Inr (base_addr + used_bytes s + ADDR_INFO_BYTES, s2))))"

function allocated_from :: "bytes \<Rightarrow> nat \<Rightarrow> nat \<Rightarrow> nat \<Rightarrow> bool outcome" where
  "allocated_from m p limit addr =
     (if addr < limit then
        (if addr = p then Inr True
         else
           (case load64 m (addr - 8) of
              Inl e \<Rightarrow> Inl e
            | Inr sz \<Rightarrow> allocated_from m p limit (addr + sz + ADDR_INFO_BYTES)))
      else Inr False)"
  by pat_completeness auto
termination
  by (relation "measure (\<lambda>(m, p, limit, addr). limit - addr)") (auto simp: ADDR_INFO_BYTES_def)

declare allocated_from.simps [simp del]

definition scm_allocated_addr :: "scm \<Rightarrow> nat \<Rightarrow> bool outcome" where
  "scm_allocated_addr s p = allocated_from (mem s) p (scm_mbase s + used_bytes s) (scm_mbase s)"

definition scm_free :: "scm \<Rightarrow> nat \<Rightarrow> scm outcome" where
  "scm_free s p =
     obind (scm_allocated_addr s p) (\<lambda>found.
       if \<not> found then Inr s
       else
         obind (store64 (mem s) (p - 16) 0) (\<lambda>m1.
         obind (load64 m1 (p - 8)) (\<lambda>sz.
         let user = sub64 (user_bytes s) sz in
         obind (store64 m1 16 user) (\<lambda>m2. Inr (s\<lparr>mem := m2, user_bytes := user\<rparr>)))))"

text \<open>
  \<open>scm_open\<close>: \<open>file\<close> is \<^const>\<open>None\<close> when the file cannot be opened, else whether it is a regular file and
  its bytes; \<open>mapped\<close> says whether \<open>mmap\<close> returns the fixed address. \<open>malloc\<close> is not checked
  and taken to succeed.
\<close>

definition scm_open :: "string \<Rightarrow> (bool \<times> bytes) option \<Rightarrow> bool \<Rightarrow> bool \<Rightarrow> scm option outcome" where
  "scm_open pathname file mapped trunc =
     (if pathname = [] then Inl Assert_failed
      else
        (case file of
           None \<Rightarrow> Inr None
         | Some (regular, bs) \<Rightarrow>
             if \<not> regular \<or> \<not> mapped then Inr None
             else
               obind (load64 bs 0) (\<lambda>mark.
               obind (if mark \<noteq> SIZE_INFO_ID \<or> trunc
                      then obind (store64 bs 0 SIZE_INFO_ID) (\<lambda>m1. obind (store64 m1 8 0) (\<lambda>m2. store64 m2 16 0))
                      else Inr bs) (\<lambda>m.
               obind (load64 m 8) (\<lambda>used.
               obind (load64 m 16) (\<lambda>user.
                 Inr (Some \<lparr>ssize = length bs, used_bytes = used, user_bytes = user, mem = m\<rparr>)))))))"

text \<open>\<open>scm_close\<close>: the result is the content of the file.\<close>

definition scm_close :: "scm \<Rightarrow> bytes outcome" where
  "scm_close s =
     obind (store64 (mem s) 0 SIZE_INFO_ID) (\<lambda>m.
     obind (save_sizes (s\<lparr>mem := m\<rparr>)) (\<lambda>s'. Inr (mem s')))"

end
