(* ===== verification/Avl.thy ===== *)
theory Avl
  imports Scm Cstring
begin

section \<open>The balanced tree of strings (\<open>project-3/avl.c\<close>)\<close>

text \<open>
  A node is owned by its parent, so the pointer structure is a tree value: \<open>Leaf\<close> is the null pointer, a
  \<open>Node\<close> holds the address of the node, its fields \<open>depth\<close>, \<open>count\<close>, the address of the string and the
  string, and its children. The fields are kept in the tree value (\<open>Avl_Mem\<close> has them as bytes of the region); the region
  (\<open>scm\<close>) is threaded through for the allocations. The counters of \<open>struct state\<close> go with it in the
  record \<open>heap\<close>. Reading a field through a null pointer is \<^const>\<open>Null_deref\<close>.
\<close>

subsection \<open>State\<close>

datatype tree =
    Leaf
  | Node (node_addr: nat) (node_depth: int) (node_count: nat) (item_addr: nat) (node_item: bytes) (lft: tree) (rgt: tree)

record heap =
  hscm :: scm
  hitems :: nat
  hunique :: nat

record avl =
  a_root :: tree
  a_heap :: heap

definition NODE_SIZE :: nat where "NODE_SIZE = 40"
definition STATE_SIZE :: nat where "STATE_SIZE = 24"

subsection \<open>Depths and rotations\<close>

fun delta :: "tree \<Rightarrow> int" where
  "delta Leaf = -1"
| "delta (Node p d c q it l r) = d"

definition depth :: "tree \<Rightarrow> tree \<Rightarrow> int" where
  "depth a b = (if delta a > delta b then delta a + 1 else delta b + 1)"

fun balance :: "tree \<Rightarrow> int" where
  "balance Leaf = 0"
| "balance (Node p d c q it l r) = delta l - delta r"

text \<open>\<open>root->depth = depth(root->left, root->right)\<close>\<close>

fun set_depth :: "tree \<Rightarrow> tree" where
  "set_depth Leaf = Leaf"
| "set_depth (Node p d c q it l r) = Node p (depth l r) c q it l r"

fun rotate_right :: "tree \<Rightarrow> tree outcome" where
  "rotate_right (Node p d c q it (Node p' d' c' q' it' a b) r) =
     (let node = Node p (depth b r) c q it b r
      in Inr (Node p' (depth a node) c' q' it' a node))"
| "rotate_right t = Inl Null_deref"

text \<open>The mirror image takes its depth from the right child first, as the code does.\<close>

fun rotate_left :: "tree \<Rightarrow> tree outcome" where
  "rotate_left (Node p d c q it l (Node p' d' c' q' it' a b)) =
     (let node = Node p (depth l a) c q it l a
      in Inr (Node p' (depth b node) c' q' it' node b))"
| "rotate_left t = Inl Null_deref"

fun rotate_left_right :: "tree \<Rightarrow> tree outcome" where
  "rotate_left_right (Node p d c q it l r) = obind (rotate_left l) (\<lambda>l'. rotate_right (Node p d c q it l' r))"
| "rotate_left_right Leaf = Inl Null_deref"

fun rotate_right_left :: "tree \<Rightarrow> tree outcome" where
  "rotate_right_left (Node p d c q it l r) = obind (rotate_right r) (\<lambda>r'. rotate_left (Node p d c q it l r'))"
| "rotate_right_left Leaf = Inl Null_deref"

subsection \<open>Insertion\<close>

text \<open>The part of \<open>update\<close> for a null pointer: a node, a copy of the string, the counters.\<close>

definition new_node :: "heap \<Rightarrow> bytes \<Rightarrow> (tree \<times> heap) outcome" where
  "new_node h item =
     obind (scm_malloc (hscm h) NODE_SIZE) (\<lambda>(p, s1).
     obind (scm_strdup s1 item) (\<lambda>(q, s2).
       Inr (Node p 0 1 q item Leaf Leaf,
            h\<lparr>hscm := s2, hitems := inc64 (hitems h), hunique := inc64 (hunique h)\<rparr>)))"

definition count_item :: "heap \<Rightarrow> heap" where
  "count_item h = h\<lparr>hitems := inc64 (hitems h)\<rparr>"

text \<open>The rotations after an insertion on the left and on the right, with the comparisons that choose them.\<close>

definition fix_left :: "bytes \<Rightarrow> tree \<Rightarrow> tree outcome" where
  "fix_left item t =
     (if 1 < \<bar>balance t\<bar> then
        (case lft t of
           Leaf \<Rightarrow> Inl Null_deref
         | Node _ _ _ _ it _ _ \<Rightarrow> if 0 > strcmp item it then rotate_right t else rotate_left_right t)
      else Inr t)"

definition fix_right :: "bytes \<Rightarrow> tree \<Rightarrow> tree outcome" where
  "fix_right item t =
     (if 1 < \<bar>balance t\<bar> then
        (case rgt t of
           Leaf \<Rightarrow> Inl Null_deref
         | Node _ _ _ _ it _ _ \<Rightarrow> if 0 < strcmp item it then rotate_left t else rotate_right_left t)
      else Inr t)"

fun update :: "heap \<Rightarrow> tree \<Rightarrow> bytes \<Rightarrow> (tree \<times> heap) outcome" where
  "update h Leaf item = new_node h item"
| "update h (Node p d c q it l r) item =
     (let k = strcmp item it in
      if k = 0 then Inr (set_depth (Node p d (inc64 c) q it l r), count_item h)
      else if 0 > k then
        obind (update h l item) (\<lambda>(l', h').
        obind (fix_left item (Node p d c q it l' r)) (\<lambda>t. Inr (set_depth t, h')))
      else
        obind (update h r item) (\<lambda>(r', h').
        obind (fix_right item (Node p d c q it l r')) (\<lambda>t. Inr (set_depth t, h'))))"

definition avl_insert :: "avl \<Rightarrow> bytes \<Rightarrow> (int \<times> avl) outcome" where
  "avl_insert a item =
     (if item = [] then Inl Assert_failed
      else obind (update (a_heap a) (a_root a) item) (\<lambda>(t, h). Inr (0, \<lparr>a_root = t, a_heap = h\<rparr>)))"

subsection \<open>Lookup and traversal\<close>

fun exists_in :: "tree \<Rightarrow> bytes \<Rightarrow> nat" where
  "exists_in Leaf item = 0"
| "exists_in (Node p d c q it l r) item =
     (let k = strcmp item it in
      if k = 0 then c else if 0 > k then exists_in l item else exists_in r item)"

definition avl_exists :: "avl \<Rightarrow> bytes \<Rightarrow> nat outcome" where
  "avl_exists a item = (if item = [] then Inl Assert_failed else Inr (exists_in (a_root a) item))"

text \<open>The calls \<open>fnc(arg, item, count)\<close> in their order; \<open>fnc\<close> takes the state of \<open>arg\<close>.\<close>

fun traverse :: "('a \<Rightarrow> bytes \<Rightarrow> nat \<Rightarrow> 'a) \<Rightarrow> tree \<Rightarrow> 'a \<Rightarrow> 'a" where
  "traverse fnc Leaf arg = arg"
| "traverse fnc (Node p d c q it l r) arg = traverse fnc r (fnc (traverse fnc l arg) it c)"

definition avl_traverse :: "('a \<Rightarrow> bytes \<Rightarrow> nat \<Rightarrow> 'a) \<Rightarrow> avl \<Rightarrow> 'a \<Rightarrow> 'a" where
  "avl_traverse fnc a arg = traverse fnc (a_root a) arg"

definition avl_items :: "avl \<Rightarrow> nat" where "avl_items a = hitems (a_heap a)"
definition avl_unique :: "avl \<Rightarrow> nat" where "avl_unique a = hunique (a_heap a)"
definition avl_scm_utilized :: "avl \<Rightarrow> nat" where "avl_scm_utilized a = scm_utilized (hscm (a_heap a))"
definition avl_scm_capacity :: "avl \<Rightarrow> nat" where "avl_scm_capacity a = scm_capacity (hscm (a_heap a))"

subsection \<open>Deletion\<close>

fun find_min :: "tree \<Rightarrow> tree" where
  "find_min Leaf = Leaf"
| "find_min (Node p d c q it l r) = (if l = Leaf then Node p d c q it l r else find_min l)"

text \<open>\<open>temp->count = 1\<close>, where \<open>temp\<close> is the leftmost node.\<close>

fun set_min_count :: "tree \<Rightarrow> tree" where
  "set_min_count Leaf = Leaf"
| "set_min_count (Node p d c q it l r) =
     (if l = Leaf then Node p d 1 q it l r else Node p d c q it (set_min_count l) r)"

text \<open>The rotations at the end of \<open>delete\<close>, chosen by the balance factors.\<close>

definition rebalance :: "tree \<Rightarrow> tree outcome" where
  "rebalance t =
     (if balance t > 1 then
        (if balance (lft t) \<ge> 0 then rotate_right t else rotate_left_right t)
      else if balance t < -1 then
        (if balance (rgt t) \<le> 0 then rotate_left t else rotate_right_left t)
      else Inr t)"

definition free_node :: "heap \<Rightarrow> nat \<Rightarrow> nat \<Rightarrow> heap outcome" where
  "free_node h q p =
     obind (scm_free (hscm h) q) (\<lambda>s1. obind (scm_free s1 p) (\<lambda>s2. Inr (h\<lparr>hscm := s2\<rparr>)))"

lemma size_set_min_count: "size (set_min_count t) = size t"
  by (induction t) auto

function delete :: "heap \<Rightarrow> tree \<Rightarrow> bytes \<Rightarrow> (tree \<times> heap) outcome" where
  "delete h Leaf item = Inr (Leaf, h)"
| "delete h (Node p d c q it l r) item =
     (let cmp = strcmp item it in
      if cmp < 0 then
        (case delete h l item of Inl e \<Rightarrow> Inl e | Inr (l', h') \<Rightarrow>
           obind (rebalance (set_depth (Node p d c q it l' r))) (\<lambda>t. Inr (t, h')))
      else if cmp > 0 then
        (case delete h r item of Inl e \<Rightarrow> Inl e | Inr (r', h') \<Rightarrow>
           obind (rebalance (set_depth (Node p d c q it l r'))) (\<lambda>t. Inr (t, h')))
      else if c > 1 then
        obind (rebalance (set_depth (Node p d (c - 1) q it l r))) (\<lambda>t. Inr (t, h))
      else if l = Leaf then obind (free_node h q p) (\<lambda>h'. Inr (r, h'))
      else if r = Leaf then obind (free_node h q p) (\<lambda>h'. Inr (l, h'))
      else
        (let temp = find_min r in
         case scm_strdup (hscm h) (node_item temp) of Inl e \<Rightarrow> Inl e | Inr (q', s1) \<Rightarrow>
           (case scm_free s1 q of Inl e \<Rightarrow> Inl e | Inr s2 \<Rightarrow>
             (case delete (h\<lparr>hscm := s2\<rparr>) (set_min_count r) (node_item temp) of Inl e \<Rightarrow> Inl e | Inr (r', h') \<Rightarrow>
                obind (rebalance (set_depth (Node p d (node_count temp) q' (node_item temp) l r'))) (\<lambda>t. Inr (t, h'))))))"
  by pat_completeness auto
termination
  by (relation "measure (\<lambda>(h, t, item). size t)") (auto simp: size_set_min_count)

declare delete.simps [simp del]

text \<open>\<open>avl_delete\<close>: \<open>avl_exists\<close> returns a \<open>uint64_t\<close> that is kept in an \<open>int\<close> of 32 bits.\<close>

definition int32 :: "nat \<Rightarrow> int" where
  "int32 n = sint (word_of_nat n :: 32 word)"

definition avl_delete :: "avl \<Rightarrow> bytes \<Rightarrow> (int \<times> avl) outcome" where
  "avl_delete a item =
     obind (avl_exists a item) (\<lambda>n.
       let count = int32 n; h = a_heap a in
       if count = 0 then Inl Assert_failed
       else
         (let h1 = h\<lparr>hitems := dec64 (hitems h), hunique := (if count = 1 then dec64 (hunique h) else hunique h)\<rparr>
          in obind (delete h1 (a_root a) item) (\<lambda>(t, h2). Inr (0, \<lparr>a_root = t, a_heap = h2\<rparr>))))"

text \<open>
  \<open>avl_open\<close>: \<open>mok\<close> says whether \<open>malloc\<close> succeeds, \<open>stored\<close> is the tree and the counters that an earlier run
  left in the region at \<open>scm_mbase\<close>; they are used when the region is not empty.
\<close>

definition avl_open :: "string \<Rightarrow> bool \<Rightarrow> (bool \<times> bytes) option \<Rightarrow> bool \<Rightarrow> bool \<Rightarrow> tree \<times> nat \<times> nat \<Rightarrow>
    avl option outcome" where
  "avl_open pathname mok img mapped trunc stored =
     (if \<not> mok then Inr None
      else obind (scm_open pathname img mapped trunc) (\<lambda>so.
        case so of
          None \<Rightarrow> Inl Null_deref
        | Some s \<Rightarrow>
            if scm_utilized s \<noteq> 0 then
              (case stored of (t, items, unique) \<Rightarrow>
                 Inr (Some \<lparr>a_root = t, a_heap = \<lparr>hscm = s, hitems = items, hunique = unique\<rparr>\<rparr>))
            else obind (scm_malloc s STATE_SIZE) (\<lambda>(state, s1).
              if state \<noteq> scm_mbase s1 then Inl Assert_failed
              else Inr (Some \<lparr>a_root = Leaf, a_heap = \<lparr>hscm = s1, hitems = 0, hunique = 0\<rparr>\<rparr>))))"

text \<open>
  \<open>print\<close>: one line per node, a node to the right of its parent, the right subtree above; a line is its indentation, the item
  and the count. \<open>avl_print\<close> ends with an empty line.
\<close>

fun print_node :: "tree \<Rightarrow> nat \<Rightarrow> (nat \<times> bytes \<times> nat) list" where
  "print_node Leaf space = []"
| "print_node (Node p d c q it l r) space = print_node r (space + 10) @ [(space + 10, it, c)] @ print_node l (space + 10)"

definition avl_print :: "avl \<Rightarrow> (nat \<times> bytes \<times> nat) list" where
  "avl_print a = print_node (a_root a) 0"

text \<open>\<open>avl_close\<close>: the bytes that stay in the file.\<close>

definition avl_close :: "avl \<Rightarrow> bytes outcome" where
  "avl_close a = scm_close (hscm (a_heap a))"

end
