(* ===== verification/Scm_Inv.thy ===== *)
theory Scm_Inv
  imports Scm
begin

section \<open>The heap refines a list of blocks\<close>

text \<open>
  The abstract state is the list of blocks, each with its flag and size, in the order of their
  addresses. \<open>layout\<close> says that the bytes of the region hold such a list.
\<close>

subsection \<open>Loads and stores\<close>

lemma load64_le: "a + 8 \<le> length m \<Longrightarrow> slice a 8 m = le_bytes 8 v \<Longrightarrow> v < 2 ^ 64 \<Longrightarrow> load64 m a = Inr v"
  by (simp add: load64_def le_val_le_bytes)

lemma store64_ok: "a + 8 \<le> length m \<Longrightarrow> store64 m a v = Inr (splice m a (le_bytes 8 v))"
  by (simp add: store64_def store_bytes_def)

lemma load_store64: "store64 m a v = Inr m' \<Longrightarrow> v < 2 ^ 64 \<Longrightarrow> load64 m' a = Inr v"
  using slice_splice_same [of a "le_bytes 8 v" m]
  by (auto simp: store64_def store_bytes_def load64_def le_val_le_bytes split: if_splits)

lemma drop_splice: "off + length ys \<le> a \<Longrightarrow> off + length ys \<le> length xs \<Longrightarrow> drop a (splice xs off ys) = drop a xs"
  by (simp add: splice_def)

lemma take_splice: "e \<le> off \<Longrightarrow> off \<le> length xs \<Longrightarrow> take e (splice xs off ys) = take e xs"
  by (simp add: splice_def min_def)

subsection \<open>Block lists\<close>

type_synonym blocks = "(bool \<times> nat) list"

fun extent :: "blocks \<Rightarrow> nat" where
  "extent [] = 0"
| "extent ((u, k) # bs) = 16 + k + extent bs"

lemma extent_append [simp]: "extent (xs @ ys) = extent xs + extent ys"
  by (induction xs rule: extent.induct) auto

definition flag_value :: "bool \<Rightarrow> nat" where "flag_value u = (if u then 1 else 0)"

lemma flag_value_eq_0 [simp]: "flag_value u = 0 \<longleftrightarrow> \<not> u"
  by (simp add: flag_value_def)

lemma flag_value_bound: "flag_value u < 2 ^ 64"
  by (simp add: flag_value_def)

fun layout :: "bytes \<Rightarrow> nat \<Rightarrow> blocks \<Rightarrow> bool" where
  "layout m a [] = True"
| "layout m a ((u, k) # bs) =
     (slice a 8 m = le_bytes 8 (flag_value u) \<and> slice (a + 8) 8 m = le_bytes 8 k \<and> k < 2 ^ 64 \<and>
      a + 16 + k \<le> length m \<and> layout m (a + 16 + k) bs)"

lemma layout_append: "layout m a (xs @ ys) \<longleftrightarrow> layout m a xs \<and> layout m (a + extent xs) ys"
  by (induction m a xs rule: layout.induct) (auto simp: add.assoc)

lemma slice_drop_cong: "drop a m = drop a m' \<Longrightarrow> a \<le> b \<Longrightarrow> slice b n m = slice b n m'"
  by (metis drop_drop le_Suc_ex slice_def add.commute)

lemma layout_drop: "drop a m = drop a m' \<Longrightarrow> length m = length m' \<Longrightarrow> layout m a bs = layout m' a bs"
proof (induction m a bs arbitrary: m' rule: layout.induct)
  case (2 m a u k bs)
  have "slice a 8 m = slice a 8 m'" "slice (a + 8) 8 m = slice (a + 8) 8 m'"
    using slice_drop_cong [OF 2(2)] by simp_all
  moreover have "drop (a + 16 + k) m = drop (a + 16 + k) m'" using 2(2) by (metis drop_drop add.assoc add.commute)
  ultimately show ?case using 2(1) 2(3) by simp
qed simp

lemma slice_take_cong: "take e m = take e m' \<Longrightarrow> b + n \<le> e \<Longrightarrow> slice b n m = slice b n m'"
  by (metis slice_def take_drop take_take min.absorb1 add.commute)

lemma layout_take:
  "take e m = take e m' \<Longrightarrow> length m = length m' \<Longrightarrow> a + extent bs \<le> e \<Longrightarrow> layout m a bs = layout m' a bs"
proof (induction m a bs arbitrary: m' rule: layout.induct)
  case (2 m a u k bs)
  have "slice a 8 m = slice a 8 m'" "slice (a + 8) 8 m = slice (a + 8) 8 m'"
    using slice_take_cong [OF 2(2)] 2(4) by simp_all
  then show ?case using 2(1) [OF 2(2,3)] 2(3,4) by (simp add: add.assoc)
qed simp

text \<open>Addresses handed out.\<close>

fun addrs :: "nat \<Rightarrow> blocks \<Rightarrow> nat list" where
  "addrs a [] = []"
| "addrs a ((u, k) # bs) = (a + 16) # addrs (a + 16 + k) bs"

lemma addrs_append: "addrs a (xs @ ys) = addrs a xs @ addrs (a + extent xs) ys"
  by (induction a xs rule: addrs.induct) (simp_all add: add.assoc)

lemma addrs_split:
  "p \<in> set (addrs a bs) \<longleftrightarrow> (\<exists>xs u k ys. bs = xs @ (u, k) # ys \<and> p = a + extent xs + 16)"
proof (induction a bs rule: addrs.induct)
  case (2 a u k bs)
  show ?case
  proof
    assume "p \<in> set (addrs a ((u, k) # bs))"
    then consider "p = a + 16" | "p \<in> set (addrs (a + 16 + k) bs)" by auto
    then show "\<exists>xs u' k' ys. (u, k) # bs = xs @ (u', k') # ys \<and> p = a + extent xs + 16"
    proof cases
      case 1
      then show ?thesis by (intro exI [of _ "[]"]) auto
    next
      case 2
      then obtain xs u' k' ys where "bs = xs @ (u', k') # ys" "p = a + 16 + k + extent xs + 16"
        using "2.IH" by blast
      then show ?thesis by (intro exI [of _ "(u, k) # xs"]) auto
    qed
  next
    assume "\<exists>xs u' k' ys. (u, k) # bs = xs @ (u', k') # ys \<and> p = a + extent xs + 16"
    then obtain xs u' k' ys where s: "(u, k) # bs = xs @ (u', k') # ys" "p = a + extent xs + 16" by blast
    show "p \<in> set (addrs a ((u, k) # bs))"
    proof (cases xs)
      case Nil
      then show ?thesis using s by simp
    next
      case (Cons x xs')
      then have "bs = xs' @ (u', k') # ys" "p = a + 16 + k + extent xs' + 16" using s by auto
      then have "p \<in> set (addrs (a + 16 + k) bs)" using 2 by blast
      then show ?thesis by simp
    qed
  qed
qed simp

fun first_fit :: "nat \<Rightarrow> blocks \<Rightarrow> nat \<Rightarrow> nat option" where
  "first_fit a [] n = None"
| "first_fit a ((u, k) # bs) n = (if \<not> u \<and> n \<le> k then Some (a + 16) else first_fit (a + 16 + k) bs n)"

lemma first_fit_split:
  "first_fit a bs n = Some p \<Longrightarrow> \<exists>xs k ys. bs = xs @ (False, k) # ys \<and> p = a + extent xs + 16 \<and> n \<le> k"
proof (induction a bs n rule: first_fit.induct)
  case (2 a u k bs n)
  show ?case
  proof (cases "\<not> u \<and> n \<le> k")
    case True
    then show ?thesis using 2(2) by (intro exI [of _ "[]"]) auto
  next
    case False
    then have "first_fit (a + 16 + k) bs n = Some p" using 2(2) by auto
    from 2(1) [OF False this] obtain xs k' ys where
      "bs = xs @ (False, k') # ys" "p = a + 16 + k + extent xs + 16" "n \<le> k'" by blast
    then show ?thesis by (intro exI [of _ "(u, k) # xs"]) auto
  qed
qed simp

fun set_flag :: "nat \<Rightarrow> blocks \<Rightarrow> nat \<Rightarrow> bool \<Rightarrow> blocks" where
  "set_flag a [] p v = []"
| "set_flag a ((u, k) # bs) p v = (if p = a + 16 then (v, k) # bs else (u, k) # set_flag (a + 16 + k) bs p v)"

lemma set_flag_split: "set_flag a (xs @ (u, k) # ys) (a + extent xs + 16) v = xs @ (v, k) # ys"
proof (induction xs arbitrary: a)
  case (Cons x xs)
  obtain u' k' where x: "x = (u', k')" by (cases x)
  have "a + extent (x # xs) + 16 = a + 16 + k' + extent xs + 16" using x by simp
  then show ?case using Cons [of "a + 16 + k'"] x by simp
qed simp

text \<open>The size of the block at an address.\<close>

fun size_at :: "nat \<Rightarrow> blocks \<Rightarrow> nat \<Rightarrow> nat option" where
  "size_at a [] p = None"
| "size_at a ((u, k) # bs) p = (if p = a + 16 then Some k else size_at (a + 16 + k) bs p)"

lemma size_at_split: "size_at a (xs @ (u, k) # ys) (a + extent xs + 16) = Some k"
proof (induction xs arbitrary: a)
  case (Cons x xs)
  obtain u' k' where x: "x = (u', k')" by (cases x)
  have "a + extent (x # xs) + 16 = a + 16 + k' + extent xs + 16" using x by simp
  then show ?case using Cons [of "a + 16 + k'"] x by simp
qed simp

lemma size_at_None: "p \<notin> set (addrs a bs) \<Longrightarrow> size_at a bs p = None"
  by (induction a bs p rule: size_at.induct) auto

subsection \<open>The loops\<close>

lemma find_free_ok:
  "layout m a bs \<Longrightarrow> limit = a + extent bs + 16 \<Longrightarrow> find_free m n limit (a + 16) = Inr (first_fit a bs n)"
proof (induction m a bs rule: layout.induct)
  case (1 m a)
  then show ?case by (simp add: find_free.simps)
next
  case (2 m a u k bs)
  have "load64 m a = Inr (flag_value u)" "load64 m (a + 8) = Inr k"
    using 2(2) load64_le flag_value_bound by auto
  then show ?case
    using 2 by (subst find_free.simps) (simp add: add.commute add.left_commute ADDR_INFO_BYTES_def)
qed

lemma allocated_ok:
  "layout m a bs \<Longrightarrow> limit = a + extent bs + 16 \<Longrightarrow> allocated_from m p limit (a + 16) = Inr (p \<in> set (addrs a bs))"
proof (induction m a bs rule: layout.induct)
  case (1 m a)
  then show ?case by (simp add: allocated_from.simps)
next
  case (2 m a u k bs)
  have "load64 m (a + 8) = Inr k" using 2(2) load64_le by auto
  then show ?case
    using 2 by (subst allocated_from.simps) (auto simp: add.commute add.left_commute ADDR_INFO_BYTES_def)
qed

subsection \<open>The invariant\<close>

definition scm_ok :: "scm \<Rightarrow> blocks \<Rightarrow> bool" where
  "scm_ok s bs \<longleftrightarrow>
     layout (mem s) base_addr bs \<and> used_bytes s = extent bs \<and> ssize s = length (mem s) \<and>
     base_addr + extent bs \<le> ssize s \<and> ssize s < 2 ^ 64 \<and> user_bytes s < 2 ^ 64"

lemma extent_0: "extent bs = 0 \<longleftrightarrow> bs = []"
  by (cases bs rule: extent.cases) auto

lemma scm_find:
  assumes "scm_ok s bs"
  shows "find_free (mem s) n (scm_mbase s + used_bytes s) (scm_mbase s) = Inr (first_fit base_addr bs n)"
proof (cases "bs = []")
  case True
  then show ?thesis using assms by (simp add: scm_ok_def scm_mbase_def find_free.simps)
next
  case False
  then have "used_bytes s \<noteq> 0" using assms extent_0 by (simp add: scm_ok_def)
  then show ?thesis
    using find_free_ok [of "mem s" base_addr bs _ n] assms
    by (simp add: scm_ok_def scm_mbase_def ADDR_INFO_BYTES_def add.assoc add.commute [of 16])
qed

lemma scm_allocated:
  assumes "scm_ok s bs"
  shows "scm_allocated_addr s p = Inr (p \<in> set (addrs base_addr bs))"
proof (cases "bs = []")
  case True
  then show ?thesis using assms by (simp add: scm_allocated_addr_def scm_ok_def scm_mbase_def allocated_from.simps)
next
  case False
  then have "used_bytes s \<noteq> 0" using assms extent_0 by (simp add: scm_ok_def)
  then show ?thesis
    using allocated_ok [of "mem s" base_addr bs _ p] assms
    by (simp add: scm_allocated_addr_def scm_ok_def scm_mbase_def ADDR_INFO_BYTES_def add.assoc add.commute [of 16])
qed

text \<open>The memory handed out, as a list of pairs of address and size.\<close>

fun regions :: "nat \<Rightarrow> blocks \<Rightarrow> (nat \<times> nat \<times> bool) list" where
  "regions a [] = []"
| "regions a ((u, k) # bs) = (a + 16, k, u) # regions (a + 16 + k) bs"

definition payload_same :: "blocks \<Rightarrow> bytes \<Rightarrow> bytes \<Rightarrow> bool" where
  "payload_same bs m m' \<longleftrightarrow> (\<forall>(p, k, u) \<in> set (regions base_addr bs). slice p k m' = slice p k m)"

lemma payload_same_trans: "payload_same bs m m' \<Longrightarrow> payload_same bs m' m'' \<Longrightarrow> payload_same bs m m''"
  by (fastforce simp: payload_same_def)

lemma regions_append: "regions a (xs @ ys) = regions a xs @ regions (a + extent xs) ys"
  by (induction a xs rule: regions.induct) (simp_all add: add.assoc)

lemma regions_bounds: "(p, k, u) \<in> set (regions a bs) \<Longrightarrow> a + 16 \<le> p \<and> p + k \<le> a + extent bs"
  by (induction a bs rule: regions.induct) auto

text \<open>A store into a header leaves the layout around it and all payloads alone.\<close>

lemma store_flag:
  fixes v :: bool
  assumes ly: "layout m a (xs @ (u, k) # ys)"
  defines "m' \<equiv> splice m (a + extent xs) (le_bytes 8 (flag_value v))"
  shows "store64 m (a + extent xs) (flag_value v) = Inr m'" "length m' = length m"
    "layout m' a (xs @ (v, k) # ys)"
    "\<And>p n w. (p, n, w) \<in> set (regions a (xs @ (u, k) # ys)) \<Longrightarrow> slice p n m' = slice p n m"
proof -
  let ?h = "a + extent xs"
  have parts: "layout m a xs" "layout m ?h ((u, k) # ys)" using ly by (simp_all add: layout_append)
  have in_m: "?h + 16 + k \<le> length m" using parts(2) by simp
  then show "store64 m ?h (flag_value v) = Inr m'" unfolding m'_def by (intro store64_ok) simp
  show len: "length m' = length m" using in_m by (simp add: m'_def)
  have dr: "drop b m' = drop b m" if "?h + 8 \<le> b" for b
    unfolding m'_def using in_m that by (intro drop_splice) simp_all
  have tk: "take b m' = take b m" if "b \<le> ?h" for b
    unfolding m'_def using in_m that by (intro take_splice) simp_all
  have "layout m' a xs" using parts(1) layout_take [of ?h m' m a xs] tk [of ?h] len by simp
  moreover have "slice ?h 8 m' = le_bytes 8 (flag_value v)"
    unfolding m'_def using slice_splice_same [of ?h "le_bytes 8 (flag_value v)" m] in_m by simp
  moreover have "slice (?h + 8) 8 m' = slice (?h + 8) 8 m" using slice_drop_cong [OF dr [OF order.refl] order.refl] .
  moreover have "layout m' (?h + 16 + k) ys"
    using parts(2) layout_drop [of "?h + 16 + k" m' m ys] dr [of "?h + 16 + k"] len by simp
  ultimately show "layout m' a (xs @ (v, k) # ys)"
    using parts(2) in_m len by (simp add: layout_append)
  fix p n w assume "(p, n, w) \<in> set (regions a (xs @ (u, k) # ys))"
  then consider "p + n \<le> ?h" | "?h + 8 \<le> p"
    using regions_bounds [of p n w a xs] regions_bounds [of p n w "?h + 16 + k" ys]
    by (fastforce simp: regions_append)
  then show "slice p n m' = slice p n m"
    using slice_take_cong [OF tk [of ?h]] slice_drop_cong [OF dr [of p]] by cases auto
qed

text \<open>A store below the blocks.\<close>

lemma store_low:
  assumes "scm_ok s bs" and "a + 8 \<le> base_addr" and "store64 (mem s) a v = Inr m'"
  shows "length m' = length (mem s)" "layout m' base_addr bs" "payload_same bs (mem s) m'"
proof -
  have m': "m' = splice (mem s) a (le_bytes 8 v)" and fit: "a + 8 \<le> length (mem s)"
    using assms(3) by (auto simp: store64_def store_bytes_def split: if_splits)
  then show len: "length m' = length (mem s)" by simp
  have dr: "drop b m' = drop b (mem s)" if "base_addr \<le> b" for b
    unfolding m' using fit assms(2) that by (intro drop_splice) simp_all
  show "layout m' base_addr bs"
    using assms(1) layout_drop [OF dr [of base_addr] len] by (simp add: scm_ok_def)
  show "payload_same bs (mem s) m'"
    using slice_drop_cong [OF dr [OF order.refl]] regions_bounds by (fastforce simp: payload_same_def)
qed

lemma save_sizes_ok:
  assumes ok: "scm_ok s bs"
  obtains s' where "save_sizes s = Inr s'" "scm_ok s' bs" "payload_same bs (mem s) (mem s')"
    "ssize s' = ssize s" "used_bytes s' = used_bytes s" "user_bytes s' = user_bytes s"
    "load64 (mem s') 8 = Inr (used_bytes s)" "load64 (mem s') 16 = Inr (user_bytes s)"
    "load64 (mem s') 0 = load64 (mem s) 0"
proof -
  have big: "24 \<le> length (mem s)" using ok by (simp add: scm_ok_def base_addr_def SIZE_INFO_BYTES_def)
  let ?m1 = "splice (mem s) 8 (le_bytes 8 (used_bytes s))"
  let ?m2 = "splice ?m1 16 (le_bytes 8 (user_bytes s))"
  let ?s' = "s\<lparr>mem := ?m2\<rparr>"
  have l: "length ?m1 = length (mem s)" "length ?m2 = length (mem s)" using big by simp_all
  have e1: "store64 (mem s) 8 (used_bytes s) = Inr ?m1" using big by (intro store64_ok) simp
  have e2: "store64 ?m1 16 (user_bytes s) = Inr ?m2" using big l by (intro store64_ok) simp
  have ok1: "scm_ok (s\<lparr>mem := ?m1\<rparr>) bs" and p1: "payload_same bs (mem s) ?m1"
    using store_low [OF ok _ e1] ok l by (simp_all add: scm_ok_def base_addr_def SIZE_INFO_BYTES_def)
  have "scm_ok ?s' bs" and p2: "payload_same bs ?m1 ?m2"
    using store_low [OF ok1, of 16 "user_bytes s" ?m2] e2 ok l
    by (simp_all add: scm_ok_def base_addr_def SIZE_INFO_BYTES_def)
  moreover have "payload_same bs (mem s) ?m2" using payload_same_trans [OF p1 p2] .
  moreover have "save_sizes s = Inr ?s'" using e1 e2 by (simp add: save_sizes_def)
  moreover have "slice 8 8 ?m2 = slice 8 8 ?m1" "slice 0 8 ?m2 = slice 0 8 ?m1" "slice 0 8 ?m1 = slice 0 8 (mem s)"
    using big l by (simp_all add: slice_splice_before)
  then have "load64 ?m2 8 = Inr (used_bytes s)" "load64 ?m2 0 = load64 (mem s) 0"
    using load_store64 [OF e1] ok big by (auto simp: load64_def scm_ok_def)
  moreover have "load64 ?m2 16 = Inr (user_bytes s)" using load_store64 [OF e2] ok by (simp add: scm_ok_def)
  ultimately show ?thesis using that [of ?s'] by simp
qed

subsection \<open>The operations\<close>

text \<open>A block at the end, when it fits into the mapping.\<close>

lemma add_block_ok:
  assumes ok: "scm_ok s bs" and room: "base_addr + extent bs + 16 + n \<le> ssize s"
  obtains s' where "add_block s n = Inr s'" "scm_ok s' (bs @ [(True, n)])" "payload_same bs (mem s) (mem s')"
    "ssize s' = ssize s" "user_bytes s' = add64 (user_bytes s) n" "used_bytes s' = extent bs + 16 + n"
    "load64 (mem s') 0 = load64 (mem s) 0"
proof -
  let ?a = "base_addr + extent bs"
  let ?m1 = "splice (mem s) ?a (le_bytes 8 1)"
  let ?m2 = "splice ?m1 (?a + 8) (le_bytes 8 n)"
  have sz: "used_bytes s = extent bs" "ssize s = length (mem s)" "ssize s < 2 ^ 64" "layout (mem s) base_addr bs"
    using ok by (simp_all add: scm_ok_def)
  have fit: "?a + 16 + n \<le> length (mem s)" using room sz by simp
  have len: "length ?m1 = length (mem s)" "length ?m2 = length (mem s)" using fit by simp_all
  let ?s' = "s\<lparr>mem := ?m2, user_bytes := add64 (user_bytes s) n,
    used_bytes := add64 (used_bytes s) (add64 n ADDR_INFO_BYTES)\<rparr>"
  have "store64 (mem s) ?a 1 = Inr ?m1" "store64 ?m1 (?a + 8) n = Inr ?m2"
    using fit len by (simp_all add: store64_ok)
  then have ab: "add_block s n = Inr ?s'" by (simp add: add_block_def Let_def sz(1))
  have tk: "take b ?m2 = take b (mem s)" if "b \<le> ?a" for b
  proof -
    have "take b ?m2 = take b ?m1" using that fit len by (intro take_splice) simp_all
    also have "\<dots> = take b (mem s)" using that fit by (intro take_splice) simp_all
    finally show ?thesis .
  qed
  have used: "used_bytes ?s' = extent bs + 16 + n"
    using sz room by (simp add: add64_small ADDR_INFO_BYTES_def)
  have "slice ?a 8 ?m2 = slice ?a 8 ?m1" using fit len by (intro slice_splice_before) simp_all
  also have "\<dots> = le_bytes 8 1" using slice_splice_same [of ?a "le_bytes 8 1" "mem s"] fit by simp
  finally have h1: "slice ?a 8 ?m2 = le_bytes 8 1" .
  have h2: "slice (?a + 8) 8 ?m2 = le_bytes 8 n"
    using slice_splice_same [of "?a + 8" "le_bytes 8 n" ?m1] fit len by simp
  have "layout ?m2 base_addr bs"
    using sz(4) layout_take [OF tk [OF order.refl] len(2)] by simp
  then have "layout ?m2 base_addr (bs @ [(True, n)])"
    using h1 h2 fit len sz by (simp add: layout_append flag_value_def)
  then have "scm_ok ?s' (bs @ [(True, n)])"
    using used sz room len by (simp add: scm_ok_def add64_def)
  moreover have "payload_same bs (mem s) ?m2"
    using slice_take_cong [OF tk [OF order.refl]] regions_bounds by (fastforce simp: payload_same_def)
  moreover have l0: "load64 ?m2 0 = load64 (mem s) 0"
    using slice_take_cong [OF tk [OF order.refl], of 0 8] len by (simp add: load64_def base_addr_def SIZE_INFO_BYTES_def)
  ultimately show ?thesis using that [of ?s'] used ab by simp
qed

text \<open>What an allocation promises: the new block list, the address, and every byte handed out earlier.\<close>

definition spec_malloc :: "blocks \<Rightarrow> nat \<Rightarrow> nat \<times> blocks" where
  "spec_malloc bs n =
     (case first_fit base_addr bs n of
        Some p \<Rightarrow> (p, set_flag base_addr bs p True)
      | None \<Rightarrow> (base_addr + extent bs + 16, bs @ [(True, n)]))"

definition malloc_fits :: "scm \<Rightarrow> blocks \<Rightarrow> nat \<Rightarrow> bool" where
  "malloc_fits s bs n \<longleftrightarrow> first_fit base_addr bs n \<noteq> None \<or> base_addr + extent bs + 16 + n \<le> ssize s"

lemma scm_malloc_ok:
  assumes ok: "scm_ok s bs" and fits: "malloc_fits s bs n"
  obtains s' where "scm_malloc s n = Inr (fst (spec_malloc bs n), s')" "scm_ok s' (snd (spec_malloc bs n))"
    "payload_same bs (mem s) (mem s')" "ssize s' = ssize s"
proof (cases "first_fit base_addr bs n")
  case (Some p)
  then obtain xs k ys where b: "bs = xs @ (False, k) # ys" "p = base_addr + extent xs + 16" "n \<le> k"
    using first_fit_split by blast
  have ly: "layout (mem s) base_addr (xs @ (False, k) # ys)" using ok b by (simp add: scm_ok_def)
  let ?m = "splice (mem s) (base_addr + extent xs) (le_bytes 8 (flag_value True))"
  note st = store_flag [OF ly, where v = True]
  have "scm_malloc s n = Inr (p, s\<lparr>mem := ?m\<rparr>)"
    using scm_find [OF ok, of n] Some st(1) b(2) by (simp add: scm_malloc_def flag_value_def)
  moreover have "set_flag base_addr bs p True = xs @ (True, k) # ys" using set_flag_split b by simp
  moreover have "scm_ok (s\<lparr>mem := ?m\<rparr>) (xs @ (True, k) # ys)"
    using ok st(2,3) b(1) by (simp add: scm_ok_def)
  moreover have "payload_same bs (mem s) ?m" using st(4) b(1) by (auto simp: payload_same_def)
  ultimately show ?thesis using that Some by (simp add: spec_malloc_def)
next
  case None
  then have room: "base_addr + extent bs + 16 + n \<le> ssize s" using fits by (simp add: malloc_fits_def)
  have sz: "used_bytes s = extent bs" "ssize s < 2 ^ 64" using ok by (simp_all add: scm_ok_def)
  obtain s1 where s1: "add_block s n = Inr s1" "scm_ok s1 (bs @ [(True, n)])" "payload_same bs (mem s) (mem s1)"
    "ssize s1 = ssize s" using add_block_ok [OF ok room] .
  obtain s2 where s2: "save_sizes s1 = Inr s2" "scm_ok s2 (bs @ [(True, n)])"
    "payload_same (bs @ [(True, n)]) (mem s1) (mem s2)" "ssize s2 = ssize s1"
    using save_sizes_ok [OF s1(2)] .
  have "add64 (add64 (used_bytes s) n) ADDR_INFO_BYTES = extent bs + n + 16"
    using sz room by (simp add: add64_small ADDR_INFO_BYTES_def)
  then have "scm_malloc s n = Inr (base_addr + extent bs + 16, s2)"
    using scm_find [OF ok, of n] None room s1(1) s2(1) sz by (simp add: scm_malloc_def ADDR_INFO_BYTES_def)
  moreover have "payload_same bs (mem s1) (mem s2)"
    using s2(3) by (simp add: payload_same_def regions_append)
  then have "payload_same bs (mem s) (mem s2)" using s1(3) payload_same_trans by blast
  ultimately show ?thesis using that s2(2,4) s1(4) None by (simp add: spec_malloc_def)
qed

lemma scm_strdup_ok:
  assumes ok: "scm_ok s bs" and room: "base_addr + extent bs + 16 + (length str + 1) \<le> ssize s"
  obtains s' where "scm_strdup s str = Inr (base_addr + extent bs + 16, s')"
    "scm_ok s' (bs @ [(True, length str + 1)])" "payload_same bs (mem s) (mem s')" "ssize s' = ssize s"
    "slice (base_addr + extent bs + 16) (length str + 1) (mem s') = str @ [0]"
proof -
  let ?n = "length str + 1" and ?p = "base_addr + extent bs + 16"
  have sz: "used_bytes s = extent bs" using ok by (simp add: scm_ok_def)
  obtain s1 where s1: "add_block s ?n = Inr s1" "scm_ok s1 (bs @ [(True, ?n)])" "payload_same bs (mem s) (mem s1)"
    "ssize s1 = ssize s" using add_block_ok [OF ok room] .
  have len: "length (mem s1) = ssize s" using s1(2,4) by (simp add: scm_ok_def)
  have fit: "?p + ?n \<le> length (mem s1)" using room len by simp
  let ?m = "splice (mem s1) ?p (str @ [0])"
  have lm: "length ?m = length (mem s1)" using fit by simp
  have tk: "take ?p ?m = take ?p (mem s1)" using fit by (intro take_splice) simp_all
  let ?s2 = "s1\<lparr>mem := ?m\<rparr>"
  have ly: "layout (mem s1) base_addr bs \<and> slice (base_addr + extent bs) 8 (mem s1) = le_bytes 8 (flag_value True) \<and>
      slice (base_addr + extent bs + 8) 8 (mem s1) = le_bytes 8 ?n \<and> ?n < 2 ^ 64"
    using s1(2) by (simp add: scm_ok_def layout_append)
  have "layout ?m base_addr bs" using ly layout_take [OF tk lm] by simp
  then have "layout ?m base_addr (bs @ [(True, ?n)])"
    using ly slice_take_cong [OF tk] fit lm by (simp add: layout_append)
  then have ok2: "scm_ok ?s2 (bs @ [(True, ?n)])" using s1(2) lm by (simp add: scm_ok_def)
  have p2: "payload_same bs (mem s1) ?m"
    using slice_take_cong [OF tk] regions_bounds by (fastforce simp: payload_same_def)
  obtain s3 where s3: "save_sizes ?s2 = Inr s3" "scm_ok s3 (bs @ [(True, ?n)])"
    "payload_same (bs @ [(True, ?n)]) (mem ?s2) (mem s3)" "ssize s3 = ssize ?s2"
    using save_sizes_ok [OF ok2] .
  have "scm_strdup s str = Inr (?p, s3)"
    using s1(1) s3(1) fit sz by (simp add: scm_strdup_def store_bytes_def ADDR_INFO_BYTES_def)
  moreover have "payload_same bs (mem s) (mem s3)"
  proof -
    have "payload_same bs ?m (mem s3)" using s3(3) by (simp add: payload_same_def regions_append)
    then show ?thesis using s1(3) p2 payload_same_trans by blast
  qed
  moreover have "slice ?p ?n (mem s3) = str @ [0]"
  proof -
    have "slice ?p ?n (mem s3) = slice ?p ?n ?m" using s3(3) by (simp add: payload_same_def regions_append)
    also have "\<dots> = str @ [0]" using slice_splice_same [of ?p "str @ [0]" "mem s1"] fit by simp
    finally show ?thesis .
  qed
  ultimately show ?thesis using that [of s3] s3(2,4) s1(4) by simp
qed

lemma scm_free_ok:
  assumes ok: "scm_ok s bs"
  obtains s' where "scm_free s p = Inr s'" "scm_ok s' (set_flag base_addr bs p False)"
    "payload_same bs (mem s) (mem s')" "ssize s' = ssize s"
    "p \<notin> set (addrs base_addr bs) \<Longrightarrow> s' = s"
    "user_bytes s' = (case size_at base_addr bs p of None \<Rightarrow> user_bytes s | Some k \<Rightarrow> sub64 (user_bytes s) k)"
proof (cases "p \<in> set (addrs base_addr bs)")
  case False
  have "set_flag a cs p v = cs" if "p \<notin> set (addrs a cs)" for a cs v
    using that by (induction a cs rule: addrs.induct) auto
  then have "set_flag base_addr bs p False = bs" using False by simp
  moreover have "scm_free s p = Inr s" using scm_allocated [OF ok] False by (simp add: scm_free_def)
  ultimately show ?thesis using that [of s] ok size_at_None [OF False] by (simp add: payload_same_def)
next
  case True
  then obtain xs u k ys where b: "bs = xs @ (u, k) # ys" "p = base_addr + extent xs + 16"
    by (auto simp: addrs_split)
  have ly: "layout (mem s) base_addr (xs @ (u, k) # ys)" using ok b by (simp add: scm_ok_def)
  let ?m1 = "splice (mem s) (base_addr + extent xs) (le_bytes 8 (flag_value False))"
  note st = store_flag [OF ly, where v = False]
  let ?bs = "xs @ (False, k) # ys" and ?user = "sub64 (user_bytes s) k"
  have k: "load64 ?m1 (p - 8) = Inr k"
  proof -
    have "p - 8 = base_addr + extent xs + 8" using b(2) by simp
    then show ?thesis
      using st(3) load64_le [of "base_addr + extent xs + 8" ?m1 k] by (simp add: layout_append)
  qed
  have ok1: "scm_ok (s\<lparr>mem := ?m1, user_bytes := ?user\<rparr>) ?bs"
    using ok st(2,3) b(1) by (simp add: scm_ok_def sub64_def)
  have "24 \<le> length ?m1" using ok1 by (simp add: scm_ok_def base_addr_def SIZE_INFO_BYTES_def)
  then have e2: "store64 ?m1 16 ?user = Inr (splice ?m1 16 (le_bytes 8 ?user))" (is "_ = Inr ?m2")
    by (intro store64_ok) simp
  have low: "length ?m2 = length ?m1" "layout ?m2 base_addr ?bs" "payload_same ?bs ?m1 ?m2"
    using store_low [OF ok1, of 16 ?user ?m2] e2 by (simp_all add: base_addr_def SIZE_INFO_BYTES_def)
  let ?s' = "s\<lparr>mem := ?m2, user_bytes := ?user\<rparr>"
  have "scm_free s p = Inr ?s'"
    using scm_allocated [OF ok, of p] True st(1) b(2) k e2 by (simp add: scm_free_def flag_value_def Let_def)
  moreover have "scm_ok ?s' ?bs" using ok1 low by (simp add: scm_ok_def)
  moreover have "set_flag base_addr bs p False = ?bs" using set_flag_split b by simp
  moreover have "payload_same bs (mem s) ?m2"
  proof -
    have "payload_same bs (mem s) ?m1" using st(4) b(1) by (auto simp: payload_same_def)
    moreover have "payload_same bs ?m1 ?m2"
      using low(3) b(1) by (auto simp: payload_same_def regions_append)
    ultimately show ?thesis using payload_same_trans by blast
  qed
  ultimately show ?thesis using that [of ?s'] True size_at_split b by simp
qed

subsection \<open>Opening and closing\<close>

lemma scm_open_fresh:
  assumes "pathname \<noteq> []" and "24 \<le> length img" and "length img < 2 ^ 64"
  obtains s where "scm_open pathname (Some (True, img)) True True = Inr (Some s)" "scm_ok s []"
    "ssize s = length img" "user_bytes s = 0" "used_bytes s = 0"
proof -
  let ?m0 = "splice img 0 (le_bytes 8 SIZE_INFO_ID)"
  let ?m1 = "splice ?m0 8 (le_bytes 8 0)"
  let ?m2 = "splice ?m1 16 (le_bytes 8 0)"
  have l: "length ?m0 = length img" "length ?m1 = length img" "length ?m2 = length img" using assms(2) by simp_all
  have e: "store64 img 0 SIZE_INFO_ID = Inr ?m0" "store64 ?m0 8 0 = Inr ?m1" "store64 ?m1 16 0 = Inr ?m2"
    using assms(2) l by (simp_all add: store64_ok)
  have "load64 ?m2 16 = Inr 0" using load_store64 [OF e(3)] by simp
  moreover have "slice 8 8 ?m2 = slice 8 8 ?m1" using assms(2) l by (intro slice_splice_before) simp_all
  then have "load64 ?m2 8 = Inr 0" using load_store64 [OF e(2)] l assms(2) by (simp add: load64_def split: if_splits)
  ultimately have "scm_open pathname (Some (True, img)) True True =
      Inr (Some \<lparr>ssize = length img, used_bytes = 0, user_bytes = 0, mem = ?m2\<rparr>)"
    using assms(1,2) e by (simp add: scm_open_def load64_def)
  then show ?thesis
    using that [of "\<lparr>ssize = length img, used_bytes = 0, user_bytes = 0, mem = ?m2\<rparr>"] l assms
    by (simp add: scm_ok_def base_addr_def SIZE_INFO_BYTES_def)
qed

lemma scm_close_open:
  assumes ok: "scm_ok s bs" and p: "pathname \<noteq> []"
  obtains img s' where "scm_close s = Inr img" "scm_open pathname (Some (True, img)) True False = Inr (Some s')"
    "scm_ok s' bs" "payload_same bs (mem s) (mem s')" "ssize s' = ssize s" "user_bytes s' = user_bytes s"
proof -
  have big: "24 \<le> length (mem s)" using ok by (simp add: scm_ok_def base_addr_def SIZE_INFO_BYTES_def)
  obtain m where m: "store64 (mem s) 0 SIZE_INFO_ID = Inr m" using big store64_ok [of 0 "mem s"] by auto
  note low = store_low [OF ok _ m]
  have ok1: "scm_ok (s\<lparr>mem := m\<rparr>) bs" using ok low by (simp add: scm_ok_def base_addr_def SIZE_INFO_BYTES_def)
  obtain s1 where s1: "save_sizes (s\<lparr>mem := m\<rparr>) = Inr s1" "scm_ok s1 bs" "payload_same bs m (mem s1)"
    "ssize s1 = ssize s" "used_bytes s1 = used_bytes s" "user_bytes s1 = user_bytes s"
    "load64 (mem s1) 8 = Inr (used_bytes s)" "load64 (mem s1) 16 = Inr (user_bytes s)"
    "load64 (mem s1) 0 = load64 m 0"
    using save_sizes_ok [OF ok1] by auto
  have "load64 (mem s1) 0 = Inr SIZE_INFO_ID" using s1(9) load_store64 [OF m] by (simp add: SIZE_INFO_ID_def)
  then have "scm_open pathname (Some (True, mem s1)) True False =
      Inr (Some \<lparr>ssize = length (mem s1), used_bytes = used_bytes s, user_bytes = user_bytes s, mem = mem s1\<rparr>)"
    using p s1(7,8) by (simp add: scm_open_def)
  moreover have "scm_close s = Inr (mem s1)" using m s1(1) by (simp add: scm_close_def)
  moreover have "payload_same bs (mem s) (mem s1)"
    using payload_same_trans [OF _ s1(3)] low(3) by (simp add: base_addr_def SIZE_INFO_BYTES_def)
  ultimately show ?thesis using that s1(2,4,5,6) by (simp add: scm_ok_def)
qed

subsection \<open>Distinct blocks do not overlap\<close>

lemma regions_disjoint:
  "(p, k, u) \<in> set (regions a bs) \<Longrightarrow> (q, l, v) \<in> set (regions a bs) \<Longrightarrow> p \<noteq> q \<Longrightarrow> p + k \<le> q \<or> q + l \<le> p"
proof (induction a bs rule: regions.induct)
  case (2 a w n bs)
  then show ?case using regions_bounds [of p k u "a + 16 + n" bs] regions_bounds [of q l v "a + 16 + n" bs] by auto
qed simp

lemma malloc_disjoint:
  fixes n :: nat
  assumes "(q, k, True) \<in> set (regions base_addr bs)"
  defines "p \<equiv> fst (spec_malloc bs n)"
  shows "p + n \<le> q \<or> q + k \<le> p"
proof (cases "first_fit base_addr bs n")
  case None
  then show ?thesis using regions_bounds [OF assms(1)] by (simp add: p_def spec_malloc_def)
next
  case (Some r)
  then obtain xs j ys where b: "bs = xs @ (False, j) # ys" "r = base_addr + extent xs + 16" "n \<le> j"
    using first_fit_split by blast
  have "(r, j, False) \<in> set (regions base_addr bs)" using b by (simp add: regions_append)
  moreover have "q \<noteq> r"
    using assms(1) b regions_bounds [of q k True base_addr xs] regions_bounds [of q k True "base_addr + extent xs + 16 + j" ys]
    by (auto simp: regions_append)
  ultimately have "r + j \<le> q \<or> q + k \<le> r" using regions_disjoint [OF _ assms(1), of r j False] by simp
  then show ?thesis using Some b(3) by (auto simp: p_def spec_malloc_def)
qed

subsection \<open>The interface of the heap\<close>

text \<open>
  What the tree needs to know of its heap: an allocation succeeds when there is room for it, and
  freeing never fails and takes no room away.
\<close>

locale string_heap =
  fixes ok :: "'s \<Rightarrow> bool"
    and room :: "'s \<Rightarrow> nat"
    and alloc :: "'s \<Rightarrow> nat \<Rightarrow> (nat \<times> 's) outcome"
    and dup :: "'s \<Rightarrow> bytes \<Rightarrow> (nat \<times> 's) outcome"
    and free :: "'s \<Rightarrow> nat \<Rightarrow> 's outcome"
  assumes alloc_law: "ok s \<Longrightarrow> n + 16 \<le> room s \<Longrightarrow>
      \<exists>p s'. alloc s n = Inr (p, s') \<and> ok s' \<and> room s \<le> room s' + n + 16"
    and dup_law: "ok s \<Longrightarrow> length str + 17 \<le> room s \<Longrightarrow>
      \<exists>p s'. dup s str = Inr (p, s') \<and> ok s' \<and> room s \<le> room s' + length str + 17"
    and free_law: "ok s \<Longrightarrow> \<exists>s'. free s p = Inr s' \<and> ok s' \<and> room s' = room s"
begin

text \<open>An allocation followed by a copy of a string, as a node of the tree needs them.\<close>

lemma alloc_dup:
  assumes "ok s" and "n + length str + 33 \<le> room s"
  obtains p s1 q s2 where "alloc s n = Inr (p, s1)" "dup s1 str = Inr (q, s2)" "ok s2"
    "room s \<le> room s2 + n + length str + 33"
proof -
  have "n + 16 \<le> room s" using assms(2) by simp
  then obtain p s1 where s1: "alloc s n = Inr (p, s1)" "ok s1" "room s \<le> room s1 + n + 16"
    using alloc_law [OF assms(1)] by blast
  have "length str + 17 \<le> room s1" using assms(2) s1(3) by simp
  then obtain q s2 where "dup s1 str = Inr (q, s2)" "ok s2" "room s1 \<le> room s2 + length str + 17"
    using dup_law [OF s1(2)] by blast
  then show ?thesis using that [OF s1(1)] s1(3) by simp
qed

lemma dup_free:
  assumes "ok s" and "length str + 17 \<le> room s"
  obtains p s1 s2 where "dup s str = Inr (p, s1)" "free s1 q = Inr s2" "ok s2"
proof -
  obtain p s1 where "dup s str = Inr (p, s1)" "ok s1" using dup_law [OF assms] by blast
  then show ?thesis using free_law [of s1 q] that by blast
qed

lemma free_free:
  assumes "ok s"
  obtains s1 s2 where "free s p = Inr s1" "free s1 q = Inr s2" "ok s2" "room s2 = room s"
  using free_law [OF assms, of p] free_law [of _ q] that by metis

end

definition scm_valid :: "scm \<Rightarrow> bool" where
  "scm_valid s \<longleftrightarrow> (\<exists>bs. scm_ok s bs)"

definition scm_room :: "scm \<Rightarrow> nat" where
  "scm_room s = ssize s - (base_addr + used_bytes s)"

lemma scm_room_blocks: "scm_ok s bs \<Longrightarrow> scm_room s = ssize s - (base_addr + extent bs)"
  by (simp add: scm_room_def scm_ok_def)

lemma extent_set_flag: "extent (set_flag a bs p v) = extent bs"
  by (induction a bs p v rule: set_flag.induct) auto

interpretation sh: string_heap scm_valid scm_room scm_malloc scm_strdup scm_free
proof unfold_locales
  fix s :: scm and n
  assume "scm_valid s" and r: "n + 16 \<le> scm_room s"
  then obtain bs where ok: "scm_ok s bs" by (auto simp: scm_valid_def)
  have "base_addr + extent bs + 16 + n \<le> ssize s" using r scm_room_blocks [OF ok] by simp
  then have "malloc_fits s bs n" by (simp add: malloc_fits_def)
  from scm_malloc_ok [OF ok this] obtain s' where
    s': "scm_malloc s n = Inr (fst (spec_malloc bs n), s')" "scm_ok s' (snd (spec_malloc bs n))" "ssize s' = ssize s" .
  moreover have "extent (snd (spec_malloc bs n)) \<le> extent bs + n + 16"
    by (simp add: spec_malloc_def extent_set_flag split: option.split)
  ultimately show "\<exists>p s'. scm_malloc s n = Inr (p, s') \<and> scm_valid s' \<and> scm_room s \<le> scm_room s' + n + 16"
    using scm_room_blocks [OF ok] scm_room_blocks [OF s'(2)] by (auto simp: scm_valid_def)
next
  fix s :: scm and str :: bytes
  assume "scm_valid s" and r: "length str + 17 \<le> scm_room s"
  then obtain bs where ok: "scm_ok s bs" by (auto simp: scm_valid_def)
  have "base_addr + extent bs + 16 + (length str + 1) \<le> ssize s" using r scm_room_blocks [OF ok] by simp
  from scm_strdup_ok [OF ok this] obtain s' where
    s': "scm_strdup s str = Inr (base_addr + extent bs + 16, s')" "scm_ok s' (bs @ [(True, length str + 1)])"
    "ssize s' = ssize s" .
  then show "\<exists>p s'. scm_strdup s str = Inr (p, s') \<and> scm_valid s' \<and> scm_room s \<le> scm_room s' + length str + 17"
    using scm_room_blocks [OF ok] scm_room_blocks [OF s'(2)] by (auto simp: scm_valid_def)
next
  fix s :: scm and p
  assume "scm_valid s"
  then obtain bs where ok: "scm_ok s bs" by (auto simp: scm_valid_def)
  from scm_free_ok [OF ok, of p] obtain s' where
    s': "scm_free s p = Inr s'" "scm_ok s' (set_flag base_addr bs p False)" "ssize s' = ssize s" .
  then show "\<exists>s'. scm_free s p = Inr s' \<and> scm_valid s' \<and> scm_room s' = scm_room s"
    using scm_room_blocks [OF ok] scm_room_blocks [OF s'(2)] by (auto simp: scm_valid_def extent_set_flag)
qed

subsection \<open>Properties\<close>

text \<open>
  C10: when a free block is large enough or there is room at the end, \<open>scm_malloc\<close> returns the first such free
  block or a new one, the block list changes as specified, and no byte of any block handed out earlier changes.
\<close>

theorem scm_malloc_refines:
  assumes "scm_ok s bs" and "malloc_fits s bs n"
  shows "\<exists>s'. scm_malloc s n = Inr (fst (spec_malloc bs n), s') \<and> scm_ok s' (snd (spec_malloc bs n)) \<and>
    payload_same bs (mem s) (mem s') \<and> scm_capacity s' = scm_capacity s"
  using scm_malloc_ok [OF assms] by (metis scm_capacity_def)

text \<open>
  The memory \<open>scm_malloc\<close> returns overlaps no block in use, and lies inside the mapping.
\<close>

theorem scm_malloc_disjoint:
  assumes "scm_ok s bs" and "malloc_fits s bs n" and "(q, k, True) \<in> set (regions base_addr bs)"
  shows "\<exists>p s'. scm_malloc s n = Inr (p, s') \<and> (p + n \<le> q \<or> q + k \<le> p) \<and> p + n \<le> scm_capacity s"
proof -
  obtain s' where s': "scm_malloc s n = Inr (fst (spec_malloc bs n), s')" "scm_ok s' (snd (spec_malloc bs n))"
    "ssize s' = ssize s"
    using scm_malloc_ok [OF assms(1,2)] by metis
  have "fst (spec_malloc bs n) + n \<le> ssize s"
  proof (cases "first_fit base_addr bs n")
    case None
    then show ?thesis using assms(2) by (simp add: spec_malloc_def malloc_fits_def)
  next
    case (Some r)
    then obtain xs j ys where "bs = xs @ (False, j) # ys" "r = base_addr + extent xs + 16" "n \<le> j"
      using first_fit_split by blast
    then show ?thesis using Some assms(1) by (simp add: spec_malloc_def scm_ok_def)
  qed
  then show ?thesis using s'(1) malloc_disjoint [OF assms(3)] by (simp add: scm_capacity_def)
qed

text \<open>
  C30: \<open>scm_free\<close> of an address that was handed out marks that block free and takes its size off the counter (also
  when it is free already), of any other address does nothing; it never touches the memory of a block.
\<close>

theorem scm_free_refines:
  assumes "scm_ok s bs"
  shows "\<exists>s'. scm_free s p = Inr s' \<and> scm_ok s' (set_flag base_addr bs p False) \<and> payload_same bs (mem s) (mem s') \<and>
    (p \<notin> set (addrs base_addr bs) \<longrightarrow> s' = s) \<and>
    scm_utilized s' = (case size_at base_addr bs p of None \<Rightarrow> scm_utilized s | Some k \<Rightarrow> sub64 (scm_utilized s) k)"
  using scm_free_ok [OF assms, of p] by (metis scm_utilized_def)

text \<open>
  With room, \<open>scm_strdup\<close> returns a new block that holds the string and its terminating zero.
\<close>

theorem scm_strdup_copies:
  assumes "scm_ok s bs" and "base_addr + extent bs + 16 + (length str + 1) \<le> scm_capacity s"
  shows "\<exists>p s'. scm_strdup s str = Inr (p, s') \<and> scm_ok s' (bs @ [(True, length str + 1)]) \<and>
    slice p (length str + 1) (mem s') = str @ [0] \<and> payload_same bs (mem s) (mem s')"
  using scm_strdup_ok [of s bs str] assms by (metis scm_capacity_def)

text \<open>
  The heap persists: after \<open>scm_close\<close>, \<open>scm_open\<close> of the file without truncation gives the same blocks,
  the same bytes in them and the same counters.
\<close>

theorem scm_persists:
  assumes "scm_ok s bs" and "pathname \<noteq> []"
  shows "\<exists>img s'. scm_close s = Inr img \<and> scm_open pathname (Some (True, img)) True False = Inr (Some s') \<and>
    scm_ok s' bs \<and> payload_same bs (mem s) (mem s') \<and> scm_utilized s' = scm_utilized s \<and>
    scm_capacity s' = scm_capacity s"
  using scm_close_open [OF assms] by (metis scm_utilized_def scm_capacity_def)

text \<open>A region for the witnesses: 128 bytes, one block of 8 bytes in use.\<close>

lemma fresh_region:
  "\<exists>s. scm_open ''scm'' (Some (True, replicate 128 0)) True True = Inr (Some s) \<and> scm_ok s [] \<and> ssize s = 128 \<and>
     user_bytes s = 0 \<and> used_bytes s = 0"
  using scm_open_fresh [of "''scm''" "replicate 128 0"] by auto

lemma one_block:
  "\<exists>s. scm_ok s [(True, 8)] \<and> ssize s = 128"
proof -
  obtain s where "scm_ok s []" "ssize s = 128" using fresh_region by blast
  then show ?thesis
    using scm_malloc_ok [of s "[]" 8] by (auto simp: malloc_fits_def spec_malloc_def base_addr_def SIZE_INFO_BYTES_def)
qed

theorem scm_malloc_refines_witness:
  "\<exists>s s'. scm_ok s [(True, 8)] \<and> scm_malloc s 10 = Inr (64, s') \<and> scm_ok s' [(True, 8), (True, 10)]"
proof -
  obtain s where s: "scm_ok s [(True, 8)]" "ssize s = 128" using one_block by blast
  then have "malloc_fits s [(True, 8)] 10" by (simp add: malloc_fits_def base_addr_def SIZE_INFO_BYTES_def)
  from scm_malloc_refines [OF s(1) this] s show ?thesis
    by (auto simp: spec_malloc_def base_addr_def SIZE_INFO_BYTES_def)
qed

theorem scm_malloc_disjoint_witness:
  "\<exists>s p s'. scm_ok s [(True, 8)] \<and> scm_malloc s 10 = Inr (p, s') \<and> (p + 10 \<le> 40 \<or> 48 \<le> p)"
proof -
  obtain s where s: "scm_ok s [(True, 8)]" "ssize s = 128" using one_block by blast
  have "malloc_fits s [(True, 8)] 10" using s by (simp add: malloc_fits_def base_addr_def SIZE_INFO_BYTES_def)
  moreover have "(40, 8, True) \<in> set (regions base_addr [(True, 8)])" by (simp add: base_addr_def SIZE_INFO_BYTES_def)
  ultimately show ?thesis using scm_malloc_disjoint [OF s(1), of 10 40 8] s(1) by auto
qed

theorem scm_free_refines_witness:
  "\<exists>s s'. scm_ok s [(True, 8)] \<and> scm_free s 40 = Inr s' \<and> scm_ok s' [(False, 8)]"
proof -
  obtain s where s: "scm_ok s [(True, 8)]" using one_block by blast
  from scm_free_refines [OF s, of 40] s show ?thesis by (auto simp: base_addr_def SIZE_INFO_BYTES_def)
qed

theorem scm_strdup_copies_witness:
  "\<exists>s p s'. scm_ok s [(True, 8)] \<and> scm_strdup s [104, 105] = Inr (p, s') \<and> slice p 3 (mem s') = [104, 105, 0]"
proof -
  obtain s where s: "scm_ok s [(True, 8)]" "ssize s = 128" using one_block by blast
  then have "base_addr + extent [(True, 8)] + 16 + (length [104, 105::byte] + 1) \<le> scm_capacity s"
    by (simp add: scm_capacity_def base_addr_def SIZE_INFO_BYTES_def)
  from scm_strdup_copies [OF s(1) this] s(1) show ?thesis by (auto simp: numeral_3_eq_3)
qed

theorem scm_persists_witness:
  "\<exists>s img s'. scm_ok s [(True, 8)] \<and> scm_close s = Inr img \<and>
     scm_open ''scm'' (Some (True, img)) True False = Inr (Some s') \<and> scm_ok s' [(True, 8)]"
proof -
  obtain s where s: "scm_ok s [(True, 8)]" using one_block by blast
  from scm_persists [OF s, of "''scm''"] s show ?thesis by auto
qed

text \<open>
  Re-using a freed block does not count its bytes again, so \<open>scm_utilized\<close> drifts: allocating, freeing,
  allocating and freeing \<open>n\<close> bytes leaves it at \<open>2 ^ 64 - n\<close> instead of 0.
\<close>

theorem scm_utilized_wraps:
  assumes "scm_ok s []" and "scm_utilized s = 0" and "0 < n" and "base_addr + 16 + n \<le> scm_capacity s"
  shows "\<exists>p s1 s2 s3 s4. scm_malloc s n = Inr (p, s1) \<and> scm_free s1 p = Inr s2 \<and> scm_malloc s2 n = Inr (p, s3) \<and>
    scm_free s3 p = Inr s4 \<and> scm_utilized s1 = n \<and> scm_utilized s3 = 0 \<and> scm_utilized s4 = 2 ^ 64 - n"
proof -
  let ?p = "base_addr + 16"
  have n: "n < 2 ^ 64" using assms(1,4) by (simp add: scm_ok_def scm_capacity_def)
  have room: "base_addr + extent [] + 16 + n \<le> ssize s" using assms(4) by (simp add: scm_capacity_def)
  obtain s0 where s0: "add_block s n = Inr s0" "scm_ok s0 ([] @ [(True, n)])" "ssize s0 = ssize s"
    "user_bytes s0 = add64 (user_bytes s) n"
    using add_block_ok [OF assms(1) room] .
  obtain s1 where s1: "save_sizes s0 = Inr s1" "scm_ok s1 [(True, n)]" "user_bytes s1 = n"
    using save_sizes_ok [OF s0(2)] s0(4) assms(2) n by (auto simp: scm_utilized_def add64_def)
  have "add64 (add64 (used_bytes s) n) ADDR_INFO_BYTES = n + 16" "used_bytes s = 0"
    using assms(1) room by (simp_all add: add64_small ADDR_INFO_BYTES_def scm_ok_def)
  then have m1: "scm_malloc s n = Inr (?p, s1)"
    using scm_find [OF assms(1), of n] s0(1) s1(1) assms(4)
    by (simp add: scm_malloc_def ADDR_INFO_BYTES_def scm_capacity_def)
  have free: "\<exists>t. scm_free u ?p = Inr t \<and> scm_ok t [(False, n)] \<and> user_bytes t = sub64 (user_bytes u) n"
    if u: "scm_ok u [(True, n)]" for u
  proof -
    have "size_at base_addr [(True, n)] ?p = Some n" by simp
    then show ?thesis using scm_free_ok [OF u, of ?p] by (auto split: option.splits)
  qed
  obtain s2 where s2: "scm_free s1 ?p = Inr s2" "scm_ok s2 [(False, n)]" "user_bytes s2 = 0"
    using free [OF s1(2)] s1(3) n by (auto simp: sub64_small)
  have ff: "first_fit base_addr [(False, n)] n = Some ?p" by simp
  obtain s3 where s3: "scm_malloc s2 n = Inr (?p, s3)" "scm_ok s3 [(True, n)]"
    using scm_malloc_ok [OF s2(2), of n] ff by (auto simp: malloc_fits_def spec_malloc_def)
  moreover have "user_bytes s3 = 0"
    using s3(1) scm_find [OF s2(2), of n] ff s2(3) by (auto simp: scm_malloc_def obind_eq_Inr)
  ultimately show ?thesis
    using free [of s3] m1 s1(3) s2(1) n assms(3) by (auto simp: scm_utilized_def sub64_def)
qed

theorem scm_utilized_wraps_witness:
  "\<exists>s p s1 s2 s3 s4. scm_open ''scm'' (Some (True, replicate 128 0)) True True = Inr (Some s) \<and>
     scm_malloc s 8 = Inr (p, s1) \<and> scm_free s1 p = Inr s2 \<and> scm_malloc s2 8 = Inr (p, s3) \<and>
     scm_free s3 p = Inr s4 \<and> scm_utilized s4 = 2 ^ 64 - 8"
proof -
  obtain s where s: "scm_open ''scm'' (Some (True, replicate 128 0)) True True = Inr (Some s)" "scm_ok s []"
    "ssize s = 128" "user_bytes s = 0" using fresh_region by blast
  then have "scm_utilized s = 0" "base_addr + 16 + 8 \<le> scm_capacity s"
    by (simp_all add: scm_utilized_def scm_capacity_def base_addr_def SIZE_INFO_BYTES_def)
  from scm_utilized_wraps [OF s(2) this(1) _ this(2)] s(1) show ?thesis by force
qed

text \<open>
  The capacity test of \<open>scm_malloc\<close> forgets the 24 bytes in front of the blocks: in the last 24 bytes before
  the end it hands out memory that reaches beyond the mapping.
\<close>

theorem scm_malloc_past_end:
  assumes "scm_ok s bs" and "first_fit base_addr bs n = None"
    and "extent bs + n + 16 \<le> scm_capacity s" and "scm_capacity s < base_addr + extent bs + 16 + n"
    and "base_addr + extent bs + 16 \<le> scm_capacity s"
  shows "\<exists>p s'. scm_malloc s n = Inr (p, s') \<and> scm_capacity s < p + n"
proof -
  have f: "used_bytes s = extent bs" "ssize s = length (mem s)" "ssize s < 2 ^ 64" "24 \<le> length (mem s)"
    using assms(1) by (simp_all add: scm_ok_def base_addr_def SIZE_INFO_BYTES_def)
  have a: "add64 (add64 (used_bytes s) n) ADDR_INFO_BYTES = extent bs + n + 16"
    using f assms(3) by (simp add: add64_small ADDR_INFO_BYTES_def scm_capacity_def)
  let ?a = "base_addr + extent bs"
  have fit: "?a + 16 \<le> length (mem s)" using assms(5) f(2) by (simp add: scm_capacity_def)
  then have "\<exists>s1. add_block s n = Inr s1 \<and> length (mem s1) = length (mem s)"
    by (simp add: add_block_def Let_def f(1) store64_ok)
  then obtain s1 where s1: "add_block s n = Inr s1" "length (mem s1) = length (mem s)" by blast
  then obtain s2 where "save_sizes s1 = Inr s2" using f(4) by (simp add: save_sizes_def store64_ok)
  then have "scm_malloc s n = Inr (?a + 16, s2)"
    using scm_find [OF assms(1), of n] assms(2,3) a s1(1) f(1)
    by (simp add: scm_malloc_def ADDR_INFO_BYTES_def scm_capacity_def)
  then show ?thesis using assms(4) by auto
qed

theorem scm_malloc_past_end_witness:
  "\<exists>s p s'. scm_open ''scm'' (Some (True, replicate 128 0)) True True = Inr (Some s) \<and>
     scm_malloc s 112 = Inr (p, s') \<and> 128 < p + 112"
proof -
  obtain s where s: "scm_open ''scm'' (Some (True, replicate 128 0)) True True = Inr (Some s)" "scm_ok s []"
    "ssize s = 128" using fresh_region by blast
  then show ?thesis
    using scm_malloc_past_end [OF s(2), of 112] by (auto simp: scm_capacity_def base_addr_def SIZE_INFO_BYTES_def)
qed

text \<open>
  \<open>scm_strdup\<close> does not test the capacity at all: a string that does not fit is written out of the mapping,
  where \<open>scm_malloc\<close> stops the program.
\<close>

theorem scm_strdup_overflows:
  assumes "scm_ok s bs" and "scm_capacity s < base_addr + extent bs + 16 + (length str + 1)"
  shows "scm_strdup s str = Inl Out_of_bounds"
proof -
  have f: "used_bytes s = extent bs" "ssize s = length (mem s)"
    using assms(1) by (simp_all add: scm_ok_def)
  let ?a = "base_addr + extent bs"
  show ?thesis
  proof (cases "?a + 16 \<le> length (mem s)")
    case True
    then have "\<exists>s1. add_block s (length str + 1) = Inr s1 \<and> length (mem s1) = length (mem s)"
      by (simp add: add_block_def Let_def f(1) store64_ok)
    then show ?thesis
      using assms(2) f by (auto simp: scm_strdup_def store_bytes_def ADDR_INFO_BYTES_def scm_capacity_def)
  next
    case False
    then have "add_block s (length str + 1) = Inl Out_of_bounds"
      by (auto simp: add_block_def Let_def f(1) store64_def store_bytes_def obind_def split: sum.splits)
    then show ?thesis by (simp add: scm_strdup_def)
  qed
qed

theorem scm_strdup_overflows_witness:
  "\<exists>s. scm_open ''scm'' (Some (True, replicate 128 0)) True True = Inr (Some s) \<and>
     scm_strdup s (replicate 100 65) = Inl Out_of_bounds"
proof -
  obtain s where s: "scm_open ''scm'' (Some (True, replicate 128 0)) True True = Inr (Some s)" "scm_ok s []"
    "ssize s = 128" using fresh_region by blast
  then show ?thesis
    using scm_strdup_overflows [OF s(2), of "replicate 100 65"]
    by (auto simp: scm_capacity_def base_addr_def SIZE_INFO_BYTES_def)
qed

text \<open>
  Before the first allocation \<open>scm_mbase\<close> is 16 bytes below the address the first \<open>scm_malloc\<close> returns, although
  the header file promises that address; after it the two agree.
\<close>

theorem scm_mbase_first_block:
  assumes "scm_ok s []" and "base_addr + 16 + n \<le> scm_capacity s"
  shows "\<exists>p s'. scm_malloc s n = Inr (p, s') \<and> p = scm_mbase s + 16 \<and> scm_mbase s' = p"
proof -
  have "malloc_fits s [] n" using assms(2) by (simp add: malloc_fits_def scm_capacity_def)
  then obtain s' where s': "scm_malloc s n = Inr (base_addr + 16, s')" "scm_ok s' [(True, n)]"
    using scm_malloc_ok [OF assms(1)] by (auto simp: spec_malloc_def)
  then show ?thesis using assms(1) by (auto simp: scm_mbase_def scm_ok_def ADDR_INFO_BYTES_def)
qed

theorem scm_mbase_first_block_witness:
  "\<exists>s s'. scm_open ''scm'' (Some (True, replicate 128 0)) True True = Inr (Some s) \<and> scm_mbase s = 24 \<and>
     scm_malloc s 8 = Inr (40, s')"
proof -
  obtain s where s: "scm_open ''scm'' (Some (True, replicate 128 0)) True True = Inr (Some s)" "scm_ok s []"
    "ssize s = 128" "used_bytes s = 0" using fresh_region by blast
  then have "scm_mbase s = 24" by (simp add: scm_mbase_def base_addr_def SIZE_INFO_BYTES_def)
  then show ?thesis
    using scm_mbase_first_block [OF s(2), of 8] s by (auto simp: scm_capacity_def base_addr_def SIZE_INFO_BYTES_def)
qed

end
