(* ===== verification/Avl_Inv.thy ===== *)
theory Avl_Inv
  imports Avl Scm_Inv
begin

section \<open>The tree is a balanced search tree and stands for a multiset\<close>

subsection \<open>In-order lists\<close>

fun inorder :: "tree \<Rightarrow> (bytes \<times> nat) list" where
  "inorder Leaf = []"
| "inorder (Node p d c q it l r) = inorder l @ (it, c) # inorder r"

definition keys :: "tree \<Rightarrow> bytes list" where
  "keys t = map fst (inorder t)"

definition search_tree :: "tree \<Rightarrow> bool" where
  "search_tree t \<longleftrightarrow> sorted_wrt (<) (keys t)"

lemma keys_simps [simp]:
  "keys Leaf = []"
  "keys (Node p d c q it l r) = keys l @ it # keys r"
  by (simp_all add: keys_def)

lemma search_tree_simps [simp]:
  "search_tree Leaf"
  "search_tree (Node p d c q it l r) \<longleftrightarrow>
     search_tree l \<and> search_tree r \<and> (\<forall>x \<in> set (keys l). x < it) \<and> (\<forall>x \<in> set (keys r). it < x)"
  by (auto simp: search_tree_def sorted_wrt_append intro: order.strict_trans)

definition item_count :: "tree \<Rightarrow> bytes \<Rightarrow> nat" where
  "item_count t x = (case map_of (inorder t) x of None \<Rightarrow> 0 | Some n \<Rightarrow> n)"

fun ins_list :: "bytes \<Rightarrow> (bytes \<times> nat) list \<Rightarrow> (bytes \<times> nat) list" where
  "ins_list x [] = [(x, 1)]"
| "ins_list x ((a, n) # xs) =
     (if x < a then (x, 1) # (a, n) # xs
      else if x = a then (a, inc64 n) # xs else (a, n) # ins_list x xs)"

fun del_list :: "bytes \<Rightarrow> (bytes \<times> nat) list \<Rightarrow> (bytes \<times> nat) list" where
  "del_list x [] = []"
| "del_list x ((a, n) # xs) =
     (if x = a then (if n > 1 then (a, n - 1) # xs else xs) else (a, n) # del_list x xs)"

lemma ins_list_left: "\<forall>y \<in> set (map fst xs). y < a \<Longrightarrow> x < a \<Longrightarrow> ins_list x (xs @ (a, n) # ys) = ins_list x xs @ (a, n) # ys"
  by (induction x xs rule: ins_list.induct) auto

lemma ins_list_right: "\<forall>y \<in> set (map fst xs). y < x \<Longrightarrow> ins_list x (xs @ ys) = xs @ ins_list x ys"
  by (induction x xs rule: ins_list.induct) auto

lemma del_list_left: "x \<notin> set (map fst ys) \<Longrightarrow> x \<noteq> a \<Longrightarrow> del_list x (xs @ (a, n) # ys) = del_list x xs @ (a, n) # ys"
proof (induction x xs rule: del_list.induct)
  case (1 x)
  have "x \<notin> set (map fst zs) \<Longrightarrow> del_list x zs = zs" for zs
    by (induction x zs rule: del_list.induct) auto
  with 1 show ?case by simp
qed auto

lemma del_list_right: "x \<notin> set (map fst xs) \<Longrightarrow> del_list x (xs @ ys) = xs @ del_list x ys"
  by (induction x xs rule: del_list.induct) auto

lemma del_list_absent: "x \<notin> set (map fst xs) \<Longrightarrow> del_list x xs = xs"
  using del_list_right [of x xs "[]"] by simp

subsection \<open>Balance\<close>

fun balanced :: "tree \<Rightarrow> bool" where
  "balanced Leaf = True"
| "balanced (Node p d c q it l r) =
     (d = depth l r \<and> \<bar>delta l - delta r\<bar> \<le> 1 \<and> balanced l \<and> balanced r)"

lemma delta_bound: "balanced t \<Longrightarrow> -1 \<le> delta t"
  by (induction t) (auto simp: depth_def)

lemma delta_Leaf: "balanced t \<Longrightarrow> t \<noteq> Leaf \<Longrightarrow> 0 \<le> delta t"
  using delta_bound by (cases t) (fastforce simp: depth_def)+

lemma Leaf_iff: "balanced t \<Longrightarrow> t = Leaf \<longleftrightarrow> delta t = -1"
  using delta_Leaf by fastforce

text \<open>A node whose children differ by two can be rotated, and is balanced afterwards.\<close>

lemma rotate_right_ok:
  assumes "balanced l" "balanced r" and "delta l = delta r + 2" and "0 \<le> balance l"
  shows "\<exists>t. rotate_right (Node p d c q it l r) = Inr t \<and> balanced t \<and>
    inorder t = inorder l @ (it, c) # inorder r \<and> delta t = delta l + (if balance l = 0 then 1 else 0) \<and>
    set_depth t = t"
  using assms delta_bound [OF assms(2)] by (cases l) (auto simp: depth_def Let_def)

lemma rotate_left_ok:
  assumes "balanced l" "balanced r" and "delta r = delta l + 2" and "balance r \<le> 0"
  shows "\<exists>t. rotate_left (Node p d c q it l r) = Inr t \<and> balanced t \<and>
    inorder t = inorder l @ (it, c) # inorder r \<and> delta t = delta r + (if balance r = 0 then 1 else 0) \<and>
    set_depth t = t"
  using assms delta_bound [OF assms(1)] by (cases r) (auto simp: depth_def Let_def)

lemma rotate_left_right_ok:
  assumes "balanced l" "balanced r" and "delta l = delta r + 2" and "balance l = -1"
  shows "\<exists>t. rotate_left_right (Node p d c q it l r) = Inr t \<and> balanced t \<and>
    inorder t = inorder l @ (it, c) # inorder r \<and> delta t = delta l \<and> set_depth t = t"
proof (cases l)
  case Leaf
  then show ?thesis using assms delta_bound [OF assms(2)] by simp
next
  case (Node p1 d1 c1 q1 it1 a m)
  have "balanced m" "balanced a" "0 \<le> delta m"
    using assms Node delta_bound [of a] delta_bound [OF assms(2)] by (auto simp: depth_def split: if_splits)
  then obtain p2 d2 c2 q2 it2 x y where "m = Node p2 d2 c2 q2 it2 x y" by (cases m) auto
  then show ?thesis using assms Node by (auto simp: depth_def Let_def split: if_splits)
qed

lemma rotate_right_left_ok:
  assumes "balanced l" "balanced r" and "delta r = delta l + 2" and "balance r = 1"
  shows "\<exists>t. rotate_right_left (Node p d c q it l r) = Inr t \<and> balanced t \<and>
    inorder t = inorder l @ (it, c) # inorder r \<and> delta t = delta r \<and> set_depth t = t"
proof (cases r)
  case Leaf
  then show ?thesis using assms delta_bound [OF assms(1)] by simp
next
  case (Node p1 d1 c1 q1 it1 m a)
  have "balanced m" "balanced a" "0 \<le> delta m"
    using assms Node delta_bound [of a] delta_bound [OF assms(1)] by (auto simp: depth_def split: if_splits)
  then obtain p2 d2 c2 q2 it2 x y where "m = Node p2 d2 c2 q2 it2 x y" by (cases m) auto
  then show ?thesis using assms Node by (auto simp: depth_def Let_def split: if_splits)
qed

lemma balance_range: "balanced t \<Longrightarrow> \<bar>balance t\<bar> \<le> 1"
  by (cases t) auto

lemma set_depth_id: "balanced t \<Longrightarrow> set_depth t = t"
  by (cases t) auto

lemma set_depth_simps [simp]: "inorder (set_depth t) = inorder t"
  by (cases t) auto

subsection \<open>Insertion\<close>

text \<open>How an insertion may change the depth: when it grows, the tree leans to the side of the item.\<close>

definition grown :: "bytes \<Rightarrow> tree \<Rightarrow> tree \<Rightarrow> bool" where
  "grown item t t' \<longleftrightarrow>
     delta t' = delta t \<or>
     delta t' = delta t + 1 \<and>
       (t \<noteq> Leaf \<longrightarrow> item \<noteq> node_item t' \<and> balance t' = (if item < node_item t' then 1 else -1))"

lemma fix_left_ok:
  assumes b: "balanced l" "balanced l'" "balanced r" "\<bar>delta l - delta r\<bar> \<le> 1" and g: "grown item l l'" and lt: "item < it"
  shows "\<exists>t. fix_left item (Node p d c q it l' r) = Inr t \<and> balanced (set_depth t) \<and>
    inorder t = inorder l' @ (it, c) # inorder r \<and> grown item (Node p (depth l r) c q it l r) (set_depth t)"
proof (cases "delta l' = delta r + 2")
  case False
  then have "\<bar>delta l' - delta r\<bar> \<le> 1" using b(4) g by (auto simp: grown_def)
  then show ?thesis using b g lt by (auto simp: fix_left_def grown_def depth_def)
next
  case True
  then have eq: "delta l' = delta l + 1" "delta l = delta r + 1" using b(4) g by (auto simp: grown_def)
  then have "l \<noteq> Leaf" "l' \<noteq> Leaf" using delta_bound [OF b(3)] True by (auto simp: grown_def)
  then have lean: "item \<noteq> node_item l'" "balance l' = (if item < node_item l' then 1 else -1)"
    using g eq(1) by (auto simp: grown_def)
  have f: "fix_left item (Node p d c q it l' r) =
      (if item < node_item l' then rotate_right (Node p d c q it l' r) else rotate_left_right (Node p d c q it l' r))"
    using True \<open>l' \<noteq> Leaf\<close> by (cases l') (simp_all add: fix_left_def)
  show ?thesis
  proof (cases "item < node_item l'")
    case True
    then have "balance l' = 1" using lean by auto
    then obtain t where "rotate_right (Node p d c q it l' r) = Inr t" "balanced t" "inorder t = inorder l' @ (it, c) # inorder r"
      "delta t = delta l'" "set_depth t = t"
      using rotate_right_ok [OF b(2,3) \<open>delta l' = delta r + 2\<close>] by fastforce
    moreover have "delta (Node p (depth l r) c q it l r) = delta l'" using eq by (simp add: depth_def)
    ultimately show ?thesis using f True by (intro exI [of _ t]) (simp add: grown_def)
  next
    case False
    then have "balance l' = -1" using lean by auto
    then obtain t where "rotate_left_right (Node p d c q it l' r) = Inr t" "balanced t" "inorder t = inorder l' @ (it, c) # inorder r"
      "delta t = delta l'" "set_depth t = t"
      using rotate_left_right_ok [OF b(2,3) \<open>delta l' = delta r + 2\<close>] by fastforce
    moreover have "delta (Node p (depth l r) c q it l r) = delta l'" using eq by (simp add: depth_def)
    ultimately show ?thesis using f False by (intro exI [of _ t]) (simp add: grown_def)
  qed
qed

lemma fix_right_ok:
  assumes b: "balanced l" "balanced r" "balanced r'" "\<bar>delta l - delta r\<bar> \<le> 1" and g: "grown item r r'" and lt: "it < item"
  shows "\<exists>t. fix_right item (Node p d c q it l r') = Inr t \<and> balanced (set_depth t) \<and>
    inorder t = inorder l @ (it, c) # inorder r' \<and> grown item (Node p (depth l r) c q it l r) (set_depth t)"
proof (cases "delta r' = delta l + 2")
  case False
  then have "\<bar>delta l - delta r'\<bar> \<le> 1" using b(4) g by (auto simp: grown_def)
  then show ?thesis using b g lt by (auto simp: fix_right_def grown_def depth_def)
next
  case True
  then have eq: "delta r' = delta r + 1" "delta r = delta l + 1" using b(4) g by (auto simp: grown_def)
  then have "r \<noteq> Leaf" "r' \<noteq> Leaf" using delta_bound [OF b(1)] True by (auto simp: grown_def)
  then have lean: "item \<noteq> node_item r'" "balance r' = (if item < node_item r' then 1 else -1)"
    using g eq(1) by (auto simp: grown_def)
  have f: "fix_right item (Node p d c q it l r') =
      (if node_item r' < item then rotate_left (Node p d c q it l r') else rotate_right_left (Node p d c q it l r'))"
    using True \<open>r' \<noteq> Leaf\<close> by (cases r') (simp_all add: fix_right_def)
  show ?thesis
  proof (cases "node_item r' < item")
    case True
    then have "balance r' = -1" using lean by auto
    then obtain t where "rotate_left (Node p d c q it l r') = Inr t" "balanced t" "inorder t = inorder l @ (it, c) # inorder r'"
      "delta t = delta r'" "set_depth t = t"
      using rotate_left_ok [OF b(1,3) \<open>delta r' = delta l + 2\<close>] by fastforce
    moreover have "delta (Node p (depth l r) c q it l r) = delta r'" using eq by (simp add: depth_def)
    ultimately show ?thesis using f True by (intro exI [of _ t]) (simp add: grown_def)
  next
    case False
    then have "balance r' = 1" using lean by auto
    then obtain t where "rotate_right_left (Node p d c q it l r') = Inr t" "balanced t" "inorder t = inorder l @ (it, c) # inorder r'"
      "delta t = delta r'" "set_depth t = t"
      using rotate_right_left_ok [OF b(1,3) \<open>delta r' = delta l + 2\<close>] by fastforce
    moreover have "delta (Node p (depth l r) c q it l r) = delta r'" using eq by (simp add: depth_def)
    ultimately show ?thesis using f False by (intro exI [of _ t]) (simp add: grown_def)
  qed
qed

lemma search_tree_keys_less: "\<forall>x \<in> set (keys t). x < it \<Longrightarrow> \<forall>y \<in> set (map fst (inorder t)). y < it"
  by (simp add: keys_def)

lemma update_ok:
  assumes "balanced t" and "search_tree t"
    and new: "item \<notin> set (keys t) \<Longrightarrow> new_node h item = Inr (Node p0 0 1 q0 item Leaf Leaf, h1)"
  shows "\<exists>t'. update h t item = Inr (t', if item \<in> set (keys t) then count_item h else h1) \<and> balanced t' \<and>
    inorder t' = ins_list item (inorder t) \<and> grown item t t'"
  using assms
proof (induction t)
  case Leaf
  then show ?case by (simp add: depth_def grown_def)
next
  case (Node p d c q it l r)
  have b: "balanced l" "balanced r" "\<bar>delta l - delta r\<bar> \<le> 1" "d = depth l r" using Node.prems(1) by simp_all
  have s: "search_tree l" "search_tree r" and lt: "\<forall>x \<in> set (map fst (inorder l)). x < it"
    and gt: "\<forall>x \<in> set (map fst (inorder r)). it < x"
    using Node.prems(2) by (auto simp: keys_def)
  consider "item = it" | "item < it" | "it < item" by force
  then show ?case
  proof cases
    case 1
    then have "ins_list item (inorder l @ (it, c) # inorder r) = inorder l @ (it, inc64 c) # inorder r"
      using ins_list_right [of "inorder l" item] lt by simp
    then show ?thesis using 1 b by (simp add: Let_def grown_def)
  next
    case 2
    then have ir: "item \<notin> set (keys r)" using gt by (auto simp: keys_def)
    obtain l' where l': "update h l item = Inr (l', if item \<in> set (keys l) then count_item h else h1)" "balanced l'"
      "inorder l' = ins_list item (inorder l)" "grown item l l'"
      using Node.IH(1) [OF b(1) s(1)] Node.prems(3) 2 ir by auto
    obtain t where t: "fix_left item (Node p d c q it l' r) = Inr t" "balanced (set_depth t)"
      "inorder t = inorder l' @ (it, c) # inorder r" "grown item (Node p (depth l r) c q it l r) (set_depth t)"
      using fix_left_ok [OF b(1) l'(2) b(2,3) l'(4) 2] by blast
    have "ins_list item (inorder l @ (it, c) # inorder r) = inorder t"
      using ins_list_left [OF lt 2] t(3) l'(3) by simp
    then show ?thesis using 2 ir l'(1) t b(4) by (auto simp: Let_def)
  next
    case 3
    then have il: "item \<notin> set (keys l)" using lt by (auto simp: keys_def)
    obtain r' where r': "update h r item = Inr (r', if item \<in> set (keys r) then count_item h else h1)" "balanced r'"
      "inorder r' = ins_list item (inorder r)" "grown item r r'"
      using Node.IH(2) [OF b(2) s(2)] Node.prems(3) 3 il by auto
    obtain t where t: "fix_right item (Node p d c q it l r') = Inr t" "balanced (set_depth t)"
      "inorder t = inorder l @ (it, c) # inorder r'" "grown item (Node p (depth l r) c q it l r) (set_depth t)"
      using fix_right_ok [OF b(1,2) r'(2) b(3) r'(4) 3] by blast
    have "\<forall>y \<in> set (map fst (inorder l)). y < item" using lt 3 by (meson order.strict_trans)
    then have "ins_list item (inorder l @ (it, c) # inorder r) = inorder t"
      using ins_list_right [of "inorder l" item "(it, c) # inorder r"] less_not_sym [OF 3] less_imp_neq [OF 3] t(3) r'(3)
      by auto
    then show ?thesis using 3 il r'(1) t b(4) by (auto simp: Let_def)
  qed
qed

subsection \<open>Deletion\<close>

lemma rebalance_ok:
  assumes b: "balanced l" "balanced r" and diff: "\<bar>delta l - delta r\<bar> \<le> 2"
  shows "\<exists>t. rebalance (set_depth (Node p d c q it l r)) = Inr t \<and> balanced t \<and>
    inorder t = inorder l @ (it, c) # inorder r \<and> delta t \<in> {depth l r, depth l r - 1} \<and>
    (\<bar>delta l - delta r\<bar> \<le> 1 \<longrightarrow> delta t = depth l r)"
proof -
  consider "\<bar>delta l - delta r\<bar> \<le> 1" | "delta l = delta r + 2" | "delta r = delta l + 2" using diff by linarith
  then show ?thesis
  proof cases
    case 1
    then have "\<not> 1 < delta l - delta r" "\<not> delta l - delta r < -1" by linarith+
    then show ?thesis using b 1 by (simp add: rebalance_def)
  next
    case 2
    show ?thesis
    proof (cases "0 \<le> balance l")
      case True
      from rotate_right_ok [OF b 2 True, of p "depth l r" c q it] show ?thesis
        using 2 True by (auto simp: rebalance_def depth_def)
    next
      case False
      then have "balance l = -1" using balance_range [OF b(1)] by linarith
      from rotate_left_right_ok [OF b 2 this, of p "depth l r" c q it] show ?thesis
        using 2 False by (auto simp: rebalance_def depth_def)
    qed
  next
    case 3
    show ?thesis
    proof (cases "balance r \<le> 0")
      case True
      from rotate_left_ok [OF b 3 True, of p "depth l r" c q it] show ?thesis
        using 3 True by (auto simp: rebalance_def depth_def)
    next
      case False
      then have "balance r = 1" using balance_range [OF b(2)] by linarith
      from rotate_right_left_ok [OF b 3 this, of p "depth l r" c q it] show ?thesis
        using 3 False by (auto simp: rebalance_def depth_def)
    qed
  qed
qed

text \<open>A subtree that may have lost one level.\<close>

definition shrunk :: "tree \<Rightarrow> tree \<Rightarrow> bool" where
  "shrunk t t' \<longleftrightarrow> delta t' = delta t \<or> delta t' = delta t - 1"

lemma rebalance_left:
  assumes "balanced l" "balanced l'" "balanced r" "\<bar>delta l - delta r\<bar> \<le> 1" and "shrunk l l'"
  obtains t where "rebalance (set_depth (Node p d c q it l' r)) = Inr t" "balanced t"
    "inorder t = inorder l' @ (it, c) # inorder r" "shrunk (Node p (depth l r) c q it l r) t"
proof -
  have "\<bar>delta l' - delta r\<bar> \<le> 2" using assms(4,5) by (auto simp: shrunk_def)
  from rebalance_ok [OF assms(2,3) this, of p d c q it] obtain t where
    t: "rebalance (set_depth (Node p d c q it l' r)) = Inr t" "balanced t"
    "inorder t = inorder l' @ (it, c) # inorder r" "delta t \<in> {depth l' r, depth l' r - 1}"
    "\<bar>delta l' - delta r\<bar> \<le> 1 \<longrightarrow> delta t = depth l' r" by blast
  moreover have "shrunk (Node p (depth l r) c q it l r) t"
    using t(4,5) assms(4,5) by (auto simp: shrunk_def depth_def split: if_splits)
  ultimately show ?thesis using that by blast
qed

lemma rebalance_right:
  assumes "balanced l" "balanced r" "balanced r'" "\<bar>delta l - delta r\<bar> \<le> 1" and "shrunk r r'"
  obtains t where "rebalance (set_depth (Node p d c q it l r')) = Inr t" "balanced t"
    "inorder t = inorder l @ (it, c) # inorder r'" "shrunk (Node p (depth l r) c q it l r) t"
proof -
  have "\<bar>delta l - delta r'\<bar> \<le> 2" using assms(4,5) by (auto simp: shrunk_def)
  from rebalance_ok [OF assms(1,3) this, of p d c q it] obtain t where
    t: "rebalance (set_depth (Node p d c q it l r')) = Inr t" "balanced t"
    "inorder t = inorder l @ (it, c) # inorder r'" "delta t \<in> {depth l r', depth l r' - 1}"
    "\<bar>delta l - delta r'\<bar> \<le> 1 \<longrightarrow> delta t = depth l r'" by blast
  moreover have "shrunk (Node p (depth l r) c q it l r) t"
    using t(4,5) assms(4,5) by (auto simp: shrunk_def depth_def split: if_splits)
  ultimately show ?thesis using that by blast
qed

definition same_counters :: "heap \<Rightarrow> heap \<Rightarrow> bool" where
  "same_counters h h' \<longleftrightarrow> scm_valid (hscm h') \<and> hitems h' = hitems h \<and> hunique h' = hunique h"

lemma free_node_ok:
  assumes "scm_valid (hscm h)"
  obtains h' where "free_node h q p = Inr h'" "same_counters h h'"
proof -
  obtain s1 s2 where "scm_free (hscm h) q = Inr s1" "scm_free s1 p = Inr s2" "scm_valid s2"
    using sh.free_free [OF assms, of q p] .
  then show ?thesis using that [of "h\<lparr>hscm := s2\<rparr>"] by (simp add: free_node_def same_counters_def)
qed

text \<open>The leftmost node.\<close>

lemma find_min_inorder:
  "t \<noteq> Leaf \<Longrightarrow> \<exists>xs. inorder t = (node_item (find_min t), node_count (find_min t)) # xs \<and>
     inorder (set_min_count t) = (node_item (find_min t), 1) # xs"
proof (induction t)
  case (Node p d c q it l r)
  then show ?case by (cases "l = Leaf") auto
qed simp

lemma set_min_count_shape [simp]:
  "delta (set_min_count t) = delta t" "set_min_count t = Leaf \<longleftrightarrow> t = Leaf" "keys (set_min_count t) = keys t"
proof -
  show d: "delta (set_min_count t) = delta t" for t by (cases t) auto
  show "set_min_count t = Leaf \<longleftrightarrow> t = Leaf" by (cases t) auto
  show "keys (set_min_count t) = keys t" by (induction t) auto
qed

lemma set_min_count_balanced [simp]: "balanced (set_min_count t) = balanced t"
  by (induction t) (auto simp: depth_def)

lemma set_min_count_search [simp]: "search_tree (set_min_count t) = search_tree t"
  by (simp add: search_tree_def)

lemma delete_min_ok:
  assumes "balanced t" and "search_tree t" and "inorder t = (m, 1) # xs" and "scm_valid (hscm h)"
  shows "\<exists>t' h'. delete h t m = Inr (t', h') \<and> balanced t' \<and> inorder t' = xs \<and> shrunk t t' \<and> same_counters h h'"
  using assms
proof (induction t arbitrary: m xs)
  case (Node p d c q it l r)
  have b: "balanced l" "balanced r" "\<bar>delta l - delta r\<bar> \<le> 1" "d = depth l r" using Node.prems(1) by simp_all
  show ?case
  proof (cases "l = Leaf")
    case True
    then have e: "m = it" "c = 1" "xs = inorder r" using Node.prems(3) by auto
    obtain h' where h': "free_node h q p = Inr h'" "same_counters h h'" using free_node_ok [OF Node.prems(4)] .
    then have "delete h (Node p d c q it l r) m = Inr (r, h')" using e True by (simp add: delete.simps Let_def)
    moreover have "shrunk (Node p d c q it l r) r" using b True delta_bound [OF b(2)] by (auto simp: shrunk_def depth_def)
    ultimately show ?thesis using b(2) e(3) h'(2) by blast
  next
    case False
    then obtain ys where ys: "inorder l = (m, 1) # ys" "xs = ys @ (it, c) # inorder r"
      using Node.prems(3) by (cases "inorder l") (auto, cases l, auto)
    have s: "search_tree l" and lt: "m < it" using Node.prems(2) ys by (auto simp: keys_def)
    obtain l' h' where l': "delete h l m = Inr (l', h')" "balanced l'" "inorder l' = ys" "shrunk l l'" "same_counters h h'"
      using Node.IH(1) [OF b(1) s ys(1) Node.prems(4)] by blast
    obtain t where "rebalance (set_depth (Node p d c q it l' r)) = Inr t" "balanced t"
      "inorder t = inorder l' @ (it, c) # inorder r" "shrunk (Node p (depth l r) c q it l r) t"
      using rebalance_left [OF b(1) l'(2) b(2,3) l'(4)] .
    then show ?thesis using lt l' ys b(4) by (simp add: delete.simps Let_def)
  qed
qed simp

text \<open>The root itself: its count is lowered, or its node goes, and the next item takes its place when it has two children.\<close>

lemma delete_root_ok:
  assumes b: "balanced l" "balanced r" "\<bar>delta l - delta r\<bar> \<le> 1" "d = depth l r"
    and s: "search_tree r" and lt: "\<forall>x \<in> set (map fst (inorder l)). x < it"
    and v: "scm_valid (hscm h)" and room: "\<forall>x \<in> set (keys (Node p d c q it l r)). length x + 17 \<le> scm_room (hscm h)"
  shows "\<exists>t' h'. delete h (Node p d c q it l r) it = Inr (t', h') \<and> balanced t' \<and>
    inorder t' = del_list it (inorder (Node p d c q it l r)) \<and> shrunk (Node p d c q it l r) t' \<and> same_counters h h'"
proof -
  have nl: "it \<notin> set (map fst (inorder l))" using lt by fastforce
  have self: "same_counters h h" using v by (simp add: same_counters_def)
  have dl: "del_list it (inorder (Node p d c q it l r)) =
      inorder l @ (if c > 1 then (it, c - 1) # inorder r else inorder r)"
    using del_list_right [OF nl] by simp
  show ?thesis
  proof (cases "c > 1")
    case True
    obtain t where "rebalance (set_depth (Node p d (c - 1) q it l r)) = Inr t" "balanced t"
      "inorder t = inorder l @ (it, c - 1) # inorder r" "delta t = depth l r"
      using rebalance_ok [OF b(1,2), of p d "c - 1" q it] b(3) by auto
    then show ?thesis using True dl self b(4) by (simp add: delete.simps Let_def shrunk_def)
  next
    case False
    note dl1 = dl [unfolded if_not_P [OF False]]
    obtain h' where h': "free_node h q p = Inr h'" "same_counters h h'" using free_node_ok [OF v] .
    show ?thesis
    proof (cases "l = Leaf \<or> r = Leaf")
      case True
      then have "delete h (Node p d c q it l r) it = Inr (if l = Leaf then r else l, h')"
        using False h'(1) by (auto simp: delete.simps Let_def)
      moreover have "shrunk (Node p d c q it l r) (if l = Leaf then r else l)"
        using b True delta_bound [OF b(2)] delta_bound [OF b(1)] by (auto simp: shrunk_def depth_def)
      ultimately show ?thesis using b dl1 h'(2) True by auto
    next
      case both: False
      let ?m = "node_item (find_min r)"
      obtain xs where xs: "inorder r = (?m, node_count (find_min r)) # xs" "inorder (set_min_count r) = (?m, 1) # xs"
        using find_min_inorder both by blast
      have "length ?m + 17 \<le> scm_room (hscm h)" using room xs(1) by (simp add: keys_def)
      then obtain q' s1 s2 where hs: "scm_strdup (hscm h) ?m = Inr (q', s1)" "scm_free s1 q = Inr s2" "scm_valid s2"
        using sh.dup_free [OF v] by metis
      obtain r' h2 where r': "delete (h\<lparr>hscm := s2\<rparr>) (set_min_count r) ?m = Inr (r', h2)" "balanced r'" "inorder r' = xs"
        "shrunk r r'" "same_counters (h\<lparr>hscm := s2\<rparr>) h2"
        using delete_min_ok [of "set_min_count r" ?m xs "h\<lparr>hscm := s2\<rparr>"] b(2) s xs(2) hs(3)
        by (auto simp: shrunk_def)
      obtain t where t: "rebalance (set_depth (Node p d (node_count (find_min r)) q' ?m l r')) = Inr t" "balanced t"
        "inorder t = inorder l @ (?m, node_count (find_min r)) # inorder r'"
        "shrunk (Node p (depth l r) (node_count (find_min r)) q' ?m l r) t"
        using rebalance_right [OF b(1,2) r'(2) b(3) r'(4)] .
      have "delete h (Node p d c q it l r) it = Inr (t, h2)"
        using False both hs(1,2) r'(1) t(1) by (simp add: delete.simps Let_def)
      then show ?thesis using t(2-4) dl1 xs(1) r'(3,5) b(4) by (simp add: shrunk_def same_counters_def)
    qed
  qed
qed

lemma delete_ok:
  assumes "balanced t" and "search_tree t" and "scm_valid (hscm h)"
    and room: "\<forall>x \<in> set (keys t). length x + 17 \<le> scm_room (hscm h)"
  shows "\<exists>t' h'. delete h t item = Inr (t', h') \<and> balanced t' \<and> inorder t' = del_list item (inorder t) \<and>
    shrunk t t' \<and> same_counters h h'"
  using assms
proof (induction t)
  case Leaf
  then show ?case by (simp add: delete.simps shrunk_def same_counters_def)
next
  case (Node p d c q it l r)
  have b: "balanced l" "balanced r" "\<bar>delta l - delta r\<bar> \<le> 1" "d = depth l r" using Node.prems(1) by simp_all
  have s: "search_tree l" "search_tree r" and lt: "\<forall>x \<in> set (map fst (inorder l)). x < it"
    and gt: "\<forall>x \<in> set (map fst (inorder r)). it < x"
    using Node.prems(2) by (auto simp: keys_def)
  note v = Node.prems(3)
  consider "item < it" | "it < item" | "item = it" by force
  then show ?case
  proof cases
    case 1
    obtain l' h' where l': "delete h l item = Inr (l', h')" "balanced l'" "inorder l' = del_list item (inorder l)"
      "shrunk l l'" "same_counters h h'"
      using Node.IH(1) [OF b(1) s(1) v] Node.prems(4) by auto
    obtain t where t: "rebalance (set_depth (Node p d c q it l' r)) = Inr t" "balanced t"
      "inorder t = inorder l' @ (it, c) # inorder r" "shrunk (Node p (depth l r) c q it l r) t"
      using rebalance_left [OF b(1) l'(2) b(2,3) l'(4)] .
    have "item \<notin> set (map fst (inorder r))" using gt 1 by fastforce
    then have "del_list item (inorder (Node p d c q it l r)) = inorder t"
      using del_list_left [of item "inorder r" it "inorder l" c] 1 t(3) l'(3) by simp
    then show ?thesis using 1 l'(1,5) t b(4) by (simp add: delete.simps Let_def)
  next
    case 2
    obtain r' h' where r': "delete h r item = Inr (r', h')" "balanced r'" "inorder r' = del_list item (inorder r)"
      "shrunk r r'" "same_counters h h'"
      using Node.IH(2) [OF b(2) s(2) v] Node.prems(4) by auto
    obtain t where t: "rebalance (set_depth (Node p d c q it l r')) = Inr t" "balanced t"
      "inorder t = inorder l @ (it, c) # inorder r'" "shrunk (Node p (depth l r) c q it l r) t"
      using rebalance_right [OF b(1,2) r'(2) b(3) r'(4)] .
    have "item \<notin> set (map fst (inorder l))" using lt 2 by fastforce
    then have "del_list item (inorder (Node p d c q it l r)) = inorder t"
      using del_list_right [of item "inorder l"] less_imp_neq [OF 2] t(3) r'(3) by simp
    then show ?thesis using 2 less_not_sym [OF 2] r'(1,5) t b(4) by (simp add: delete.simps Let_def)
  next
    case 3
    show ?thesis unfolding 3 by (rule delete_root_ok [OF b s(2) lt v Node.prems(4)])
  qed
qed

subsection \<open>Counting\<close>

abbreviation total_count :: "(bytes \<times> nat) list \<Rightarrow> nat" where
  "total_count xs \<equiv> sum_list (map snd xs)"

lemma ins_list_keys: "set (map fst (ins_list x xs)) = insert x (set (map fst xs))"
  by (induction x xs rule: ins_list.induct) auto

lemma ins_list_sorted: "sorted_wrt (<) (map fst xs) \<Longrightarrow> sorted_wrt (<) (map fst (ins_list x xs))"
proof (induction x xs rule: ins_list.induct)
  case (2 x a n xs)
  then show ?case using ins_list_keys [of x xs] by (auto dest: order.strict_trans)
qed simp

lemma ins_list_map_of:
  "sorted_wrt (<) (map fst xs) \<Longrightarrow>
   map_of (ins_list x xs) = (map_of xs)(x \<mapsto> (case map_of xs x of None \<Rightarrow> 1 | Some n \<Rightarrow> inc64 n))"
proof (induction x xs rule: ins_list.induct)
  case (2 x a n xs)
  have "x < a \<Longrightarrow> map_of xs x = None" using 2(2) by (force simp: map_of_eq_None_iff)
  with 2 show ?case by (auto simp: fun_eq_iff split: option.splits)
qed simp

lemma ins_list_length: "sorted_wrt (<) (map fst xs) \<Longrightarrow>
   length (ins_list x xs) = length xs + (if x \<in> set (map fst xs) then 0 else 1)"
  by (induction x xs rule: ins_list.induct) (auto dest: less_asym)

lemma ins_list_total: "total_count xs + 1 < 2 ^ 64 \<Longrightarrow> total_count (ins_list x xs) = total_count xs + 1"
  by (induction x xs rule: ins_list.induct) (auto simp: inc64_def)

lemma ins_list_pos: "\<forall>n \<in> set (map snd xs). 0 < n \<Longrightarrow> total_count xs + 1 < 2 ^ 64 \<Longrightarrow>
   \<forall>n \<in> set (map snd (ins_list x xs)). 0 < n"
  by (induction x xs rule: ins_list.induct) (auto simp: inc64_def)

lemma del_list_keys: "set (map fst (del_list x xs)) \<subseteq> set (map fst xs)"
  by (induction x xs rule: del_list.induct) auto

lemma del_list_sorted: "sorted_wrt (<) (map fst xs) \<Longrightarrow> sorted_wrt (<) (map fst (del_list x xs))"
proof (induction x xs rule: del_list.induct)
  case (2 x a n xs)
  have "\<forall>y \<in> set (map fst (del_list x xs)). a < y" using 2(2) subsetD [OF del_list_keys [of x xs]] by force
  with 2 show ?case by auto
qed simp

lemma del_list_map_of:
  "sorted_wrt (<) (map fst xs) \<Longrightarrow>
   map_of (del_list x xs) = (map_of xs)(x := (case map_of xs x of None \<Rightarrow> None | Some n \<Rightarrow> if n > 1 then Some (n - 1) else None))"
proof (induction x xs rule: del_list.induct)
  case (2 x a n xs)
  have "map_of xs a = None" using 2(2) by (force simp: map_of_eq_None_iff)
  with 2 show ?case by (auto simp: fun_eq_iff)
qed (simp add: fun_eq_iff)

lemma del_list_total:
  "0 < n \<Longrightarrow> map_of xs x = Some n \<Longrightarrow> total_count (del_list x xs) + 1 = total_count xs"
  by (induction x xs rule: del_list.induct) auto

lemma del_list_length:
  "map_of xs x = Some n \<Longrightarrow> length (del_list x xs) + (if n > 1 then 0 else 1) = length xs"
  by (induction x xs rule: del_list.induct) auto

lemma del_list_pos: "\<forall>n \<in> set (map snd xs). 0 < n \<Longrightarrow> \<forall>n \<in> set (map snd (del_list x xs)). 0 < n"
  by (induction x xs rule: del_list.induct) auto

subsection \<open>The invariant\<close>

definition avl_ok :: "avl \<Rightarrow> bool" where
  "avl_ok a \<longleftrightarrow>
     balanced (a_root a) \<and> search_tree (a_root a) \<and> scm_valid (hscm (a_heap a)) \<and>
     avl_unique a = length (inorder (a_root a)) \<and> avl_items a = total_count (inorder (a_root a)) \<and>
     avl_items a < 2 ^ 64 \<and> (\<forall>n \<in> set (map snd (inorder (a_root a))). 0 < n)"

definition count_in :: "avl \<Rightarrow> bytes \<Rightarrow> nat" where
  "count_in a = item_count (a_root a)"

definition avl_room :: "avl \<Rightarrow> nat" where
  "avl_room a = scm_room (hscm (a_heap a))"

lemma length_le_total: "\<forall>n \<in> set (map snd xs). 0 < n \<Longrightarrow> length xs \<le> total_count xs"
  by (induction xs) auto

lemma map_of_pos: "\<forall>n \<in> set (map snd xs). 0 < n \<Longrightarrow> map_of xs x = Some n \<Longrightarrow> 0 < n \<and> n \<le> total_count xs"
  by (induction xs) (auto split: if_splits)

lemma count_in_keys: "avl_ok a \<Longrightarrow> item \<in> set (keys (a_root a)) \<longleftrightarrow> 0 < count_in a item"
proof (cases "map_of (inorder (a_root a)) item")
  case None
  then have "item \<notin> set (keys (a_root a))" by (simp add: keys_def map_of_eq_None_iff)
  then show ?thesis using None by (simp add: count_in_def item_count_def)
next
  case (Some n)
  assume "avl_ok a"
  then have "0 < n" using map_of_pos [OF _ Some] by (simp add: avl_ok_def)
  moreover have "item \<in> fst ` set (inorder (a_root a))" using map_of_SomeD [OF Some] by force
  ultimately show ?thesis using Some by (simp add: count_in_def item_count_def keys_def)
qed

lemma exists_in_ok: "search_tree t \<Longrightarrow> exists_in t item = item_count t item"
proof (induction t)
  case (Node p d c q it l r)
  have lt: "\<forall>x \<in> fst ` set (inorder l). x < it" and gt: "\<forall>x \<in> fst ` set (inorder r). it < x"
    using Node.prems by (auto simp: keys_def)
  consider "item = it" | "item < it" | "it < item" by force
  then show ?case
  proof cases
    case 1
    then have "map_of (inorder l) item = None" using lt by (force simp: map_of_eq_None_iff)
    then show ?thesis using 1 by (simp add: item_count_def map_add_def)
  next
    case 2
    then have "map_of (inorder r) item = None" using gt by (force simp: map_of_eq_None_iff)
    then show ?thesis using 2 Node by (auto simp: item_count_def map_add_def split: option.split)
  next
    case 3
    then have "map_of (inorder l) item = None" using lt by (force simp: map_of_eq_None_iff)
    then show ?thesis using 3 less_not_sym [OF 3] Node by (auto simp: item_count_def map_add_def split: option.split)
  qed
qed (simp add: item_count_def)

lemma traverse_fold: "traverse fnc t arg = fold (\<lambda>(it, c) s. fnc s it c) (inorder t) arg"
  by (induction t arbitrary: arg) simp_all

lemma new_node_ok:
  assumes "scm_valid (hscm h)" and "length item + 73 \<le> scm_room (hscm h)"
  obtains p q s where "new_node h item =
      Inr (Node p 0 1 q item Leaf Leaf, h\<lparr>hscm := s, hitems := inc64 (hitems h), hunique := inc64 (hunique h)\<rparr>)"
    "scm_valid s" "scm_room (hscm h) \<le> scm_room s + length item + 73"
proof -
  have "NODE_SIZE + length item + 33 \<le> scm_room (hscm h)" using assms(2) by (simp add: NODE_SIZE_def)
  from sh.alloc_dup [OF assms(1) this] obtain p s1 q s2 where
    "scm_malloc (hscm h) NODE_SIZE = Inr (p, s1)" "scm_strdup s1 item = Inr (q, s2)" "scm_valid s2"
    "scm_room (hscm h) \<le> scm_room s2 + NODE_SIZE + length item + 33" .
  then show ?thesis using that [of p q s2] by (simp add: new_node_def NODE_SIZE_def)
qed

lemma avl_insert_ok:
  assumes ok: "avl_ok a" and item: "item \<noteq> []" and room: "length item + 73 \<le> avl_room a"
    and few: "avl_items a + 1 < 2 ^ 64"
  shows "\<exists>a'. avl_insert a item = Inr (0, a') \<and> avl_ok a' \<and> count_in a' = (count_in a)(item := count_in a item + 1) \<and>
    avl_items a' = avl_items a + 1 \<and> avl_unique a' = avl_unique a + (if count_in a item = 0 then 1 else 0) \<and>
    avl_room a \<le> avl_room a' + length item + 73"
proof -
  let ?t = "a_root a" and ?h = "a_heap a"
  have t: "balanced ?t" "search_tree ?t" "scm_valid (hscm ?h)" and u: "hunique ?h = length (inorder ?t)"
    and it: "hitems ?h = total_count (inorder ?t)" and pos: "\<forall>n \<in> set (map snd (inorder ?t)). 0 < n"
    using ok by (simp_all add: avl_ok_def avl_items_def avl_unique_def)
  have srt: "sorted_wrt (<) (map fst (inorder ?t))" using t(2) by (simp add: search_tree_def keys_def)
  obtain p q s where nn: "new_node ?h item =
      Inr (Node p 0 1 q item Leaf Leaf, ?h\<lparr>hscm := s, hitems := inc64 (hitems ?h), hunique := inc64 (hunique ?h)\<rparr>)"
    "scm_valid s" "scm_room (hscm ?h) \<le> scm_room s + length item + 73"
    using new_node_ok [OF t(3), of item] room by (auto simp: avl_room_def)
  let ?h' = "if item \<in> set (keys ?t) then count_item ?h
    else ?h\<lparr>hscm := s, hitems := inc64 (hitems ?h), hunique := inc64 (hunique ?h)\<rparr>"
  obtain t' where t': "update ?h ?t item = Inr (t', ?h')" "balanced t'" "inorder t' = ins_list item (inorder ?t)"
    using update_ok [OF t(1,2) nn(1)] by blast
  let ?a = "\<lparr>a_root = t', a_heap = ?h'\<rparr>"
  have few': "total_count (inorder ?t) + 1 < 2 ^ 64" using few it by (simp add: avl_items_def)
  have items: "avl_items ?a = avl_items a + 1"
    using few by (simp add: avl_items_def count_item_def inc64_def)
  have lu: "length (inorder ?t) + 1 < 2 ^ 64" using few' length_le_total [OF pos] by simp
  have uniq: "avl_unique ?a = avl_unique a + (if item \<in> set (keys ?t) then 0 else 1)"
    using u lu by (simp add: avl_unique_def count_item_def inc64_def)
  have "avl_insert a item = Inr (0, ?a)" using item t'(1) by (simp add: avl_insert_def)
  moreover have "avl_ok ?a"
    unfolding avl_ok_def
  proof (intro conjI)
    show "search_tree (a_root ?a)" using ins_list_sorted [OF srt] t'(3) by (simp add: search_tree_def keys_def)
    show "scm_valid (hscm (a_heap ?a))" using nn(2) t(3) by (simp add: count_item_def)
    show "avl_unique ?a = length (inorder (a_root ?a))"
      using uniq u ins_list_length [OF srt, of item] t'(3) by (simp add: avl_unique_def keys_def)
    show "avl_items ?a = total_count (inorder (a_root ?a))"
      using items it ins_list_total [OF few', of item] t'(3) by (simp add: avl_items_def)
    show "avl_items ?a < 2 ^ 64" using items few by simp
    show "\<forall>n \<in> set (map snd (inorder (a_root ?a))). 0 < n" using ins_list_pos [OF pos few'] t'(3) by simp
  qed (use t'(2) in simp)
  moreover have "count_in ?a = (count_in a)(item := count_in a item + 1)"
  proof -
    have "inc64 n = n + 1" if "map_of (inorder ?t) item = Some n" for n
      using map_of_pos [OF pos that] few' by (simp add: inc64_def)
    then show ?thesis
      using ins_list_map_of [OF srt, of item] t'(3)
      by (auto simp: count_in_def item_count_def fun_eq_iff split: option.splits)
  qed
  moreover have "avl_room a \<le> avl_room ?a + length item + 73" using nn(3) by (simp add: avl_room_def count_item_def)
  ultimately show ?thesis using items uniq count_in_keys [OF ok, of item] by auto
qed

lemma int32_small: "n < 2 ^ 31 \<Longrightarrow> int32 n = int n"
  by (simp add: int32_def signed_of_nat signed_take_bit_int_eq_self)

lemma avl_delete_ok:
  assumes ok: "avl_ok a" and item: "item \<noteq> []" and present: "0 < count_in a item" and small: "count_in a item < 2 ^ 31"
    and room: "\<forall>x. 0 < count_in a x \<longrightarrow> length x + 17 \<le> avl_room a"
  shows "\<exists>a'. avl_delete a item = Inr (0, a') \<and> avl_ok a' \<and> count_in a' = (count_in a)(item := count_in a item - 1) \<and>
    avl_items a' = avl_items a - 1 \<and> avl_unique a' = avl_unique a - (if count_in a item = 1 then 1 else 0)"
proof -
  let ?t = "a_root a" and ?h = "a_heap a" and ?c = "count_in a item"
  have t: "balanced ?t" "search_tree ?t" "scm_valid (hscm ?h)" and u: "hunique ?h = length (inorder ?t)"
    and it: "hitems ?h = total_count (inorder ?t)" and pos: "\<forall>n \<in> set (map snd (inorder ?t)). 0 < n"
    and few: "hitems ?h < 2 ^ 64"
    using ok by (simp_all add: avl_ok_def avl_items_def avl_unique_def)
  have srt: "sorted_wrt (<) (map fst (inorder ?t))" using t(2) by (simp add: search_tree_def keys_def)
  have mp: "map_of (inorder ?t) item = Some ?c"
    using present by (auto simp: count_in_def item_count_def split: option.splits)
  have ex: "avl_exists a item = Inr ?c"
    using item exists_in_ok [OF t(2)] by (simp add: avl_exists_def count_in_def)
  let ?h1 = "?h\<lparr>hitems := hitems ?h - 1, hunique := (if ?c = 1 then hunique ?h - 1 else hunique ?h)\<rparr>"
  have tot: "0 < hitems ?h" using map_of_pos [OF pos mp] it by simp
  have "0 < hunique ?h" using mp u by (cases "inorder ?t") auto
  then have h1: "?h\<lparr>hitems := dec64 (hitems ?h), hunique := (if int32 ?c = 1 then dec64 (hunique ?h) else hunique ?h)\<rparr> = ?h1"
    using tot int32_small [OF small] by (simp add: dec64_def)
  have "\<forall>x \<in> set (keys ?t). length x + 17 \<le> scm_room (hscm ?h1)"
    using room count_in_keys [OF ok] by (simp add: avl_room_def)
  then obtain t' h' where d: "delete ?h1 ?t item = Inr (t', h')" "balanced t'" "inorder t' = del_list item (inorder ?t)"
    "same_counters ?h1 h'"
    using delete_ok [OF t(1,2), of ?h1 item] t(3) by auto
  let ?a = "\<lparr>a_root = t', a_heap = h'\<rparr>"
  have nz: "int32 ?c \<noteq> 0" using present int32_small [OF small] by simp
  have "avl_delete a item = Inr (0, ?a)"
    unfolding avl_delete_def ex obind_simps Let_def h1 if_not_P [OF nz] d(1) by simp
  moreover have items: "avl_items ?a = avl_items a - 1" using d(4) by (simp add: avl_items_def same_counters_def)
  moreover have uniq: "avl_unique ?a = avl_unique a - (if ?c = 1 then 1 else 0)"
    using d(4) by (simp add: avl_unique_def same_counters_def)
  moreover have "avl_ok ?a"
    unfolding avl_ok_def
  proof (intro conjI)
    show "search_tree (a_root ?a)" using del_list_sorted [OF srt] d(3) by (simp add: search_tree_def keys_def)
    show "scm_valid (hscm (a_heap ?a))" using d(4) by (simp add: same_counters_def)
    have "length (del_list item (inorder ?t)) = length (inorder ?t) - (if ?c = 1 then 1 else 0)"
      using del_list_length [OF mp] present by (auto split: if_splits)
    then show "avl_unique ?a = length (inorder (a_root ?a))" using uniq u d(3) by (simp add: avl_unique_def)
    have "0 < ?c" using present .
    from del_list_total [OF this mp] show "avl_items ?a = total_count (inorder (a_root ?a))"
      using items it d(3) by (simp add: avl_items_def)
    show "avl_items ?a < 2 ^ 64" using items few by (simp add: avl_items_def)
    show "\<forall>n \<in> set (map snd (inorder (a_root ?a))). 0 < n" using del_list_pos [OF pos] d(3) by simp
  qed (use d(2) in simp)
  moreover have "count_in ?a = (count_in a)(item := ?c - 1)"
  proof -
    obtain n where n: "n = ?c" by blast
    have "item_count t' = (item_count ?t)(item := n - 1)"
      using del_list_map_of [OF srt, of item] d(3) mp [folded n] present [folded n]
      by (auto simp: item_count_def fun_eq_iff)
    then show ?thesis using n by (simp add: count_in_def)
  qed
  ultimately show ?thesis by blast
qed

lemma avl_height:
  "balanced t \<Longrightarrow> 2 ^ (nat (delta t + 1) div 2) \<le> length (inorder t) + 1"
proof (induction t)
  case (Node p d c q it l r)
  let ?a = "nat (delta l + 1)" and ?b = "nat (delta r + 1)" and ?h = "nat (d + 1)"
  have b: "balanced l" "balanced r" "\<bar>delta l - delta r\<bar> \<le> 1" "d = depth l r" using Node.prems by simp_all
  have h: "?h \<le> ?a + 2" "?h \<le> ?b + 2"
    using b(3,4) delta_bound [OF b(1)] delta_bound [OF b(2)] by (auto simp: depth_def)
  have "2 ^ (?h div 2) \<le> (2 :: nat) * 2 ^ (k div 2)" if "?h \<le> k + 2" for k
  proof -
    have "?h div 2 \<le> Suc (k div 2)" using that by simp
    then have "(2 :: nat) ^ (?h div 2) \<le> 2 ^ Suc (k div 2)" by (intro power_increasing) simp_all
    then show ?thesis by simp
  qed
  note pw = this [OF h(1)] this [OF h(2)]
  have "length (inorder (Node p d c q it l r)) + 1 = (length (inorder l) + 1) + (length (inorder r) + 1)" by simp
  then show ?case
    using pw Node.IH(1) [OF b(1)] Node.IH(2) [OF b(2)] unfolding delta.simps by linarith
qed simp

text \<open>A region that is large enough and truncated holds an empty tree.\<close>

lemma avl_open_truncated:
  assumes "pathname \<noteq> []" and "64 \<le> length img" and "length img < 2 ^ 64"
  shows "\<exists>a. avl_open pathname True (Some (True, img)) True True stored = Inr (Some a) \<and> avl_ok a \<and>
     count_in a = (\<lambda>_. 0) \<and> avl_room a = length img - 64 \<and> avl_items a = 0"
proof -
  obtain s where s: "scm_open pathname (Some (True, img)) True True = Inr (Some s)" "scm_ok s []"
    "ssize s = length img" "user_bytes s = 0" "used_bytes s = 0"
    using scm_open_fresh [of pathname img] assms by auto
  have "malloc_fits s [] STATE_SIZE"
    using s(3) assms(2) by (simp add: malloc_fits_def base_addr_def SIZE_INFO_BYTES_def STATE_SIZE_def)
  then obtain s1 where s1: "scm_malloc s STATE_SIZE = Inr (base_addr + 16, s1)" "scm_ok s1 [(True, STATE_SIZE)]"
    "ssize s1 = ssize s"
    using scm_malloc_ok [OF s(2)] by (auto simp: spec_malloc_def)
  then have "scm_mbase s1 = base_addr + 16" by (simp add: scm_mbase_def scm_ok_def ADDR_INFO_BYTES_def)
  then show ?thesis
    using s s1 scm_room_blocks [OF s1(2)]
    by (auto simp: avl_open_def scm_utilized_def avl_ok_def avl_unique_def avl_items_def count_in_def item_count_def
        avl_room_def scm_valid_def base_addr_def SIZE_INFO_BYTES_def STATE_SIZE_def fun_eq_iff)
qed

subsection \<open>Properties\<close>

text \<open>
  C7: with room in the heap, \<open>avl_insert\<close> returns 0, raises the count of the item by one and leaves every other
  count alone, keeps the tree a balanced search tree, and keeps the two counters right.
\<close>

theorem avl_insert_refines:
  assumes "avl_ok a" and "item \<noteq> []" and "length item + 73 \<le> avl_room a" and "avl_items a + 1 < 2 ^ 64"
  shows "\<exists>a'. avl_insert a item = Inr (0, a') \<and> avl_ok a' \<and> count_in a' = (count_in a)(item := count_in a item + 1) \<and>
    avl_items a' = avl_items a + 1 \<and> avl_unique a' = avl_unique a + (if count_in a item = 0 then 1 else 0)"
  using avl_insert_ok [OF assms] by blast

text \<open>
  C5: \<open>avl_delete\<close> of a present item (with a count below \<open>2 ^ 31\<close> and room for one copy of a string) lowers its count by
  one, removes the node with the last one, and keeps the tree a balanced search tree and the counters right.
\<close>

theorem avl_delete_refines:
  assumes "avl_ok a" and "item \<noteq> []" and "0 < count_in a item" and "count_in a item < 2 ^ 31"
    and "\<And>x. 0 < count_in a x \<Longrightarrow> length x + 17 \<le> avl_room a"
  shows "\<exists>a'. avl_delete a item = Inr (0, a') \<and> avl_ok a' \<and> count_in a' = (count_in a)(item := count_in a item - 1) \<and>
    avl_items a' = avl_items a - 1 \<and> avl_unique a' = avl_unique a - (if count_in a item = 1 then 1 else 0)"
  using avl_delete_ok [OF assms(1-4)] assms(5) by blast

text \<open>
  \<open>avl_exists\<close> returns the number of times an item is in the tree, 0 for an absent one.
\<close>

theorem avl_exists_counts:
  assumes "avl_ok a" and "item \<noteq> []"
  shows "avl_exists a item = Inr (count_in a item)"
  using assms exists_in_ok by (simp add: avl_exists_def count_in_def avl_ok_def)

text \<open>
  \<open>avl_traverse\<close> calls the function once for every item in the tree, in strictly increasing order, with its count.
\<close>

theorem avl_traverse_sorted:
  assumes "avl_ok a"
  shows "sorted_wrt (<) (map fst (avl_traverse (\<lambda>xs it c. xs @ [(it, c)]) a [])) \<and>
    set (avl_traverse (\<lambda>xs it c. xs @ [(it, c)]) a []) = {(x, n). n = count_in a x \<and> 0 < n}"
proof -
  have f: "fold (\<lambda>(it, c) s. s @ [(it, c)]) xs acc = acc @ xs" for xs :: "(bytes \<times> nat) list" and acc
    by (induction xs arbitrary: acc) auto
  then have t: "avl_traverse (\<lambda>xs it c. xs @ [(it, c)]) a [] = inorder (a_root a)"
    by (simp add: avl_traverse_def traverse_fold)
  have s: "sorted_wrt (<) (map fst (inorder (a_root a)))" using assms by (simp add: avl_ok_def search_tree_def keys_def)
  then have d: "distinct (map fst (inorder (a_root a)))" by (simp add: strict_sorted_iff)
  have pos: "\<forall>n \<in> set (map snd (inorder (a_root a))). 0 < n" using assms by (simp add: avl_ok_def)
  have "(x, n) \<in> set (inorder (a_root a)) \<longleftrightarrow> n = count_in a x \<and> 0 < n" for x n
  proof
    assume "(x, n) \<in> set (inorder (a_root a))"
    then have "map_of (inorder (a_root a)) x = Some n" using d by (simp add: map_of_eq_Some_iff)
    then show "n = count_in a x \<and> 0 < n" using map_of_pos [OF pos] by (simp add: count_in_def item_count_def)
  next
    assume "n = count_in a x \<and> 0 < n"
    then have "map_of (inorder (a_root a)) x = Some n"
      by (auto simp: count_in_def item_count_def split: option.splits)
    then show "(x, n) \<in> set (inorder (a_root a))" by (rule map_of_SomeD)
  qed
  then show ?thesis using t s by auto
qed

text \<open>
  The tree is flat: a tree of depth \<open>d\<close> has at least \<open>2 ^ ((d + 1) div 2) - 1\<close> distinct items, so the loops
  and recursions over it take a number of steps logarithmic in \<open>avl_unique\<close>.
\<close>

theorem avl_depth_bound:
  assumes "avl_ok a"
  shows "2 ^ (nat (delta (a_root a) + 1) div 2) \<le> avl_unique a + 1"
  using avl_height [of "a_root a"] assms by (simp add: avl_ok_def)

text \<open>
  \<open>avl_delete\<close> keeps the count in an \<open>int\<close>: an item that is in the tree \<open>2 ^ 32\<close> times is taken for absent and
  stops the program at the assert.
\<close>

theorem avl_delete_count_truncated:
  assumes "exists_in (a_root a) item = 2 ^ 32" and "item \<noteq> []"
  shows "avl_delete a item = Inl Assert_failed"
proof -
  have "(word_of_nat (2 ^ 32) :: 32 word) = 0" by simp
  then show ?thesis using assms by (simp add: avl_delete_def avl_exists_def int32_def Let_def)
qed

text \<open>
  \<open>avl_open\<close> of a region that cannot be opened does not return \<open>NULL\<close>: its clean-up closes the region it does not have.
\<close>

theorem avl_open_bad_region:
  "avl_open (c # cs) True None mapped trunc stored = Inl Null_deref"
  by (simp add: avl_open_def scm_open_def)

text \<open>An empty tree in a region of 4096 bytes, for the witnesses, and one with an item.\<close>

lemma opened:
  "\<exists>a. avl_open ''scm'' True (Some (True, replicate 4096 0)) True True (Leaf, 0, 0) = Inr (Some a) \<and> avl_ok a \<and>
     count_in a = (\<lambda>_. 0) \<and> avl_room a = 4032 \<and> avl_items a = 0"
  using avl_open_truncated [of "''scm''" "replicate 4096 0" "(Leaf, 0, 0)"] by auto

lemma one_item:
  "\<exists>a. avl_ok a \<and> count_in a = (\<lambda>_. 0)([104, 105] := 1) \<and> avl_unique a = 1 \<and> 100 \<le> avl_room a \<and> avl_items a = 1"
proof -
  obtain a where a: "avl_ok a" "count_in a = (\<lambda>_. 0)" "avl_room a = 4032" "avl_items a = 0" using opened by blast
  have "avl_unique a = 0" using a(1,4) length_le_total [of "inorder (a_root a)"] unfolding avl_ok_def by linarith
  then show ?thesis using avl_insert_ok [OF a(1), of "[104, 105]"] a by (auto simp: fun_eq_iff)
qed

theorem avl_insert_refines_witness:
  "\<exists>a a'. avl_open ''scm'' True (Some (True, replicate 4096 0)) True True (Leaf, 0, 0) = Inr (Some a) \<and>
     avl_insert a [104, 105] = Inr (0, a') \<and> count_in a' = (\<lambda>_. 0)([104, 105] := 1)"
proof -
  obtain a where a: "avl_open ''scm'' True (Some (True, replicate 4096 0)) True True (Leaf, 0, 0) = Inr (Some a)"
    "avl_ok a" "count_in a = (\<lambda>_. 0)" "avl_room a = 4032" "avl_items a = 0" using opened by blast
  then show ?thesis using avl_insert_refines [OF a(2), of "[104, 105]"] by (auto simp: fun_eq_iff)
qed

theorem avl_delete_refines_witness:
  "\<exists>a a'. count_in a = (\<lambda>_. 0)([104, 105] := 1) \<and> avl_delete a [104, 105] = Inr (0, a') \<and> count_in a' = (\<lambda>_. 0)"
proof -
  obtain a where a: "avl_ok a" "count_in a = (\<lambda>_. 0)([104, 105] := 1)" "100 \<le> avl_room a" using one_item by blast
  have "length x + 17 \<le> avl_room a" if "0 < count_in a x" for x using that a(2,3) by (auto split: if_splits)
  then obtain a' where "avl_delete a [104, 105] = Inr (0, a')"
    "count_in a' = (count_in a)([104, 105] := count_in a [104, 105] - 1)"
    using avl_delete_refines [OF a(1), of "[104, 105]"] a(2) by auto
  then have "count_in a' = (\<lambda>_. 0)" using a(2) by (simp add: fun_eq_iff)
  then show ?thesis using a(2) \<open>avl_delete a [104, 105] = Inr (0, a')\<close> by blast
qed

theorem avl_exists_counts_witness:
  "\<exists>a. count_in a = (\<lambda>_. 0)([104, 105] := 1) \<and> avl_exists a [104, 105] = Inr 1 \<and> avl_exists a [104] = Inr 0"
proof -
  obtain a where a: "avl_ok a" "count_in a = (\<lambda>_. 0)([104, 105] := 1)" using one_item by blast
  then show ?thesis using avl_exists_counts [OF a(1)] by (intro exI [of _ a]) simp
qed

theorem avl_traverse_sorted_witness:
  "\<exists>a. set (avl_traverse (\<lambda>xs it c. xs @ [(it, c)]) a []) = {([104, 105], 1)}"
proof -
  obtain a where a: "avl_ok a" "count_in a = (\<lambda>_. 0)([104, 105] := 1)" using one_item by blast
  then show ?thesis using avl_traverse_sorted [OF a(1)] by (intro exI [of _ a]) (auto split: if_splits)
qed

theorem avl_depth_bound_witness:
  "\<exists>a. avl_unique a = 1 \<and> 2 ^ (nat (delta (a_root a) + 1) div 2) \<le> (2 :: nat)"
proof -
  obtain a where "avl_ok a" "avl_unique a = 1" using one_item by blast
  then show ?thesis using avl_depth_bound [of a] by auto
qed

theorem avl_delete_count_truncated_witness:
  "avl_delete \<lparr>a_root = Node 64 0 (2 ^ 32) 120 [104] Leaf Leaf, a_heap = \<lparr>hscm = \<lparr>ssize = 0, used_bytes = 0, user_bytes = 0,
     mem = []\<rparr>, hitems = 2 ^ 32, hunique = 1\<rparr>\<rparr> [104] = Inl Assert_failed"
  by (rule avl_delete_count_truncated) simp_all

end
