(* ===== verification/Commands.thy ===== *)
theory Commands
  imports Shell_Ref Avl_Inv
begin

section \<open>The commands on the tree (\<open>project-3/main.c\<close>)\<close>

text \<open>
  The client of the line editor: each line is a command on the AVL tree. What the commands print is a list of messages; the
  files that \<open>load\<close> reads are a parameter.
\<close>

datatype message =
    Not_there bytes | There bytes nat | Insert_failed bytes | Delete_failed bytes
  | No_file bytes | Load_failed bytes | Word bytes nat | Tree "(nat \<times> bytes \<times> nat) list"
  | Info nat nat nat nat | Menu | Bad_command "bytes option"

record session =
  s_avl :: avl
  s_out :: "message list"

definition say :: "message \<Rightarrow> session \<Rightarrow> session" where
  "say m x = x\<lparr>s_out := s_out x @ [m]\<rparr>"

text \<open>Each command takes its argument and gives its return code and the session.\<close>

definition cmd_exists :: "session \<Rightarrow> bytes \<Rightarrow> (int \<times> session) outcome" where
  "cmd_exists x s =
     obind (avl_exists (s_avl x) s) (\<lambda>count.
       Inr (0, say (if count = 0 then Not_there s else There s count) x))"

definition cmd_insert :: "session \<Rightarrow> bytes \<Rightarrow> (int \<times> session) outcome" where
  "cmd_insert x s =
     obind (avl_insert (s_avl x) s) (\<lambda>(rc, a).
       let x = x\<lparr>s_avl := a\<rparr> in Inr (0, if rc \<noteq> 0 then say (Insert_failed s) x else x))"

definition cmd_delete :: "session \<Rightarrow> bytes \<Rightarrow> (int \<times> session) outcome" where
  "cmd_delete x s =
     obind (avl_exists (s_avl x) s) (\<lambda>count.
       if count = 0 then Inr (0, say (Not_there s) x)
       else obind (avl_delete (s_avl x) s) (\<lambda>(rc, a).
         let x = x\<lparr>s_avl := a\<rparr> in Inr (0, if rc \<noteq> 0 then say (Delete_failed s) x else x)))"

text \<open>\<open>fgets\<close> into a buffer of 256 bytes: a line with its newline, or the next 255 bytes.\<close>

definition fgets_line :: "bytes \<Rightarrow> bytes" where
  "fgets_line f =
     (let l = take 255 f; w = takeWhile (\<lambda>c. c \<noteq> 10) l in if length w < length l then w @ [10] else l)"

lemma fgets_line_some: "f \<noteq> [] \<Longrightarrow> fgets_line f \<noteq> []"
  by (auto simp: fgets_line_def Let_def)

function load_lines :: "session \<Rightarrow> bytes \<Rightarrow> session outcome" where
  "load_lines x f =
     (if f = [] then Inr x
      else
        obind (shell_strtrim (fgets_line f @ [0])) (\<lambda>word.
        obind (strlen_at word 0) (\<lambda>len.
          let s = take len word; rest = drop (length (fgets_line f)) f in
          if len \<noteq> 0 then
            (case avl_insert (s_avl x) s of
               Inl e \<Rightarrow> Inl e
             | Inr (rc, a) \<Rightarrow>
                 let x = x\<lparr>s_avl := a\<rparr> in if rc \<noteq> 0 then Inr (say (Load_failed s) x) else load_lines x rest)
          else load_lines x rest)))"
  by pat_completeness auto
termination
  by (relation "measure (\<lambda>(x, f). length f)") (use fgets_line_some in \<open>auto\<close>)

declare load_lines.simps [simp del]

definition cmd_load :: "(bytes \<Rightarrow> bytes option) \<Rightarrow> session \<Rightarrow> bytes \<Rightarrow> (int \<times> session) outcome" where
  "cmd_load files x s =
     (case files s of
        None \<Rightarrow> Inr (0, say (No_file s) x)
      | Some f \<Rightarrow> obind (load_lines x f) (\<lambda>x. Inr (0, x)))"

definition cmd_list :: "session \<Rightarrow> bytes \<Rightarrow> (int \<times> session) outcome" where
  "cmd_list x s = Inr (0, avl_traverse (\<lambda>x word count. say (Word word count) x) (s_avl x) x)"

definition cmd_print :: "session \<Rightarrow> bytes \<Rightarrow> (int \<times> session) outcome" where
  "cmd_print x s = Inr (0, say (Tree (avl_print (s_avl x))) x)"

definition cmd_info :: "session \<Rightarrow> bytes \<Rightarrow> (int \<times> session) outcome" where
  "cmd_info x s =
     Inr (0, say (Info (avl_items (s_avl x)) (avl_unique (s_avl x)) (avl_scm_utilized (s_avl x)) (avl_scm_capacity (s_avl x))) x)"

definition cmd_help :: "session \<Rightarrow> bytes \<Rightarrow> (int \<times> session) outcome" where
  "cmd_help x s = Inr (0, say Menu x)"

definition cmd_quit :: "session \<Rightarrow> bytes \<Rightarrow> (int \<times> session) outcome" where
  "cmd_quit x s = Inr (1, x)"

text \<open>The table: whether the command takes an argument, its name, its function.\<close>

definition CMDS :: "(bytes \<Rightarrow> bytes option) \<Rightarrow> (bool \<times> bytes \<times> (session \<Rightarrow> bytes \<Rightarrow> (int \<times> session) outcome)) list" where
  "CMDS files =
     [(False, bytes_of ''quit'', cmd_quit), (False, bytes_of ''help'', cmd_help), (False, bytes_of ''info'', cmd_info),
      (False, bytes_of ''list'', cmd_list), (False, bytes_of ''print'', cmd_print), (True, bytes_of ''load'', cmd_load files),
      (True, bytes_of ''insert'', cmd_insert), (True, bytes_of ''exists'', cmd_exists), (True, bytes_of ''delete'', cmd_delete)]"

text \<open>
  The loop of \<open>shell_fnc\<close> over the table. \<open>strncmp\<close> compares as many bytes as the name has; the argument is trimmed in
  place, behind the name in the buffer.
\<close>

fun run_command :: "(bool \<times> bytes \<times> (session \<Rightarrow> bytes \<Rightarrow> (int \<times> session) outcome)) list \<Rightarrow> session \<Rightarrow> bytes \<Rightarrow>
    (int \<times> bytes \<times> session) outcome" where
  "run_command [] x buf =
     obind (strlen_at buf 0) (\<lambda>len.
       Inr (0, buf, say (Bad_command (if len \<noteq> 0 then Some (take len buf) else None)) x))"
| "run_command ((argc, face, fnc) # cmds) x buf =
     (if take (length face) buf = face then
        obind (shell_strtrim (drop (length face) buf)) (\<lambda>arg.
        obind (strlen_at arg 0) (\<lambda>len.
          let buf = take (length face) buf @ arg; s = take len arg in
          if argc \<and> len = 0 \<or> \<not> argc \<and> len \<noteq> 0
          then Inr (0, buf, say (Bad_command (if len \<noteq> 0 then Some s else None)) x)
          else obind (fnc x s) (\<lambda>(rc, x). Inr (rc, buf, x))))
      else run_command cmds x buf)"

definition shell_fnc :: "(bytes \<Rightarrow> bytes option) \<Rightarrow> session \<Rightarrow> bytes \<Rightarrow> (int \<times> bytes \<times> session) outcome" where
  "shell_fnc files x buf = run_command (CMDS files) x buf"

subsection \<open>\<open>main\<close>\<close>

text \<open>The arguments: \<open>Inl\<close> the return code when the program stops there, \<open>Inr\<close> the path and the option \<open>truncate\<close>.\<close>

fun parse_args :: "string list \<Rightarrow> string option \<Rightarrow> bool \<Rightarrow> bool \<Rightarrow> int + (string \<times> bool)" where
  "parse_args [] pathname trunc nocolor =
     (case pathname of None \<Rightarrow> Inl (-1) | Some p \<Rightarrow> if p = [] then Inl (-1) else Inr (p, trunc))"
| "parse_args (a # as) pathname trunc nocolor =
     (if a = ''--truncate'' \<and> \<not> trunc then parse_args as pathname True nocolor
      else if a = ''--nocolor'' \<and> \<not> nocolor then parse_args as pathname trunc True
      else if a = ''--help'' then Inl 0
      else if take 1 a \<noteq> ''-'' \<and> pathname = None then parse_args as (Some a) trunc nocolor
      else Inl (-1))"

text \<open>
  The return code, what was printed, and the bytes of the region's file; \<open>None\<close> while the program waits for a key. \<open>img\<close>,
  \<open>mapped\<close>, \<open>stored\<close> are the parameters of \<open>avl_open\<close>.
\<close>

definition project3_main :: "(bytes \<Rightarrow> bytes option) \<Rightarrow> bool \<Rightarrow> (bool \<times> bytes) option \<Rightarrow> bool \<Rightarrow> tree \<times> nat \<times> nat \<Rightarrow>
    string list \<Rightarrow> nat list \<Rightarrow> (int \<times> message list \<times> bytes) option outcome" where
  "project3_main files mok img mapped stored args typed =
     (case parse_args args None False False of
        Inl rc \<Rightarrow> Inr (Some (rc, [], []))
      | Inr (pathname, trunc) \<Rightarrow>
          obind (avl_open pathname mok img mapped trunc stored) (\<lambda>r.
            case r of
              None \<Rightarrow> Inr (Some (-1, [], []))
            | Some a \<Rightarrow>
                obind (shell (shell_fnc files) typed \<lparr>s_n = 0, s_history = replicate H (replicate N 0)\<rparr> \<lparr>s_avl = a, s_out = []\<rparr>) (\<lambda>r.
                  case r of
                    None \<Rightarrow> Inr None
                  | Some (x, s) \<Rightarrow> obind (avl_close (s_avl x)) (\<lambda>f. Inr (Some (0, s_out x, f))))))"

end
