(* ===== verification/Commands_Ref.thy ===== *)
theory Commands_Ref
  imports Commands
begin

section \<open>From the keys to the tree\<close>

text \<open>
  What a command line does: \<open>shell_fnc\<close> finds the command, trims its argument and calls it; with the line editor below
  and the tree above, a typed session changes the counts of the words, and prints them.
\<close>

subsection \<open>The table of commands\<close>

lemma holds_prefix:
  assumes "holds buf s" and "0 \<notin> set face"
  shows "take (length face) buf = face \<longleftrightarrow> (\<exists>a. s = face @ a)"
proof
  assume p: "take (length face) buf = face"
  obtain rest where b: "buf = s @ 0 # rest" using assms(1) by (auto simp: holds_def)
  have "length face \<le> length s"
  proof (rule ccontr)
    assume "\<not> length face \<le> length s"
    then have "0 \<in> set (take (length face) buf)" unfolding b by (auto simp: take_Cons')
    with p assms(2) show False by simp
  qed
  with p b show "\<exists>a. s = face @ a" by (auto intro!: exI [of _ "drop (length face) s"]) (metis append_take_drop_id)
qed (use assms(1) in \<open>auto simp: holds_def\<close>)

lemma run_command_miss:
  assumes "holds buf s" and "0 \<notin> set face" and "\<nexists>a. s = face @ a"
  shows "run_command ((argc, face, fnc) # cmds) x buf = run_command cmds x buf"
  using holds_prefix [OF assms(1,2)] assms(3) by simp

lemma run_command_hit:
  assumes "holds buf (face @ a)" and "length buf = n"
  shows "\<exists>buf'. holds buf' (face @ trim a) \<and> length buf' = n \<and> run_command ((argc, face, fnc) # cmds) x buf =
    (if argc = (trim a = []) then Inr (0, buf', say (Bad_command (if trim a \<noteq> [] then Some (trim a) else None)) x)
     else obind (fnc x (trim a)) (\<lambda>(rc, x). Inr (rc, buf', x)))"
proof -
  obtain rest where b: "buf = face @ a @ 0 # rest" and nz: "0 \<notin> set (face @ a)" using assms(1) by (auto simp: holds_def)
  then have d: "holds (drop (length face) buf) a" by (auto simp: holds_def)
  obtain arg where arg: "shell_strtrim (drop (length face) buf) = Inr arg" "holds arg (trim a)"
      "length arg = length (drop (length face) buf)"
    using shell_strtrim_holds [OF d] by blast
  have len: "strlen_at arg 0 = Inr (length (trim a))" "take (length (trim a)) arg = trim a"
    using holds_length [OF arg(2)] holds_facts(2) [OF arg(2)] by blast+
  have "holds (face @ arg) (face @ trim a)" using arg(2) nz by (auto simp: holds_def)
  moreover have "length (face @ arg) = n" using arg(3) b assms(2) by simp
  moreover have "take (length face) buf = face" using b by simp
  ultimately show ?thesis
    using arg(1) len by (intro exI [of _ "face @ arg"]) auto
qed

text \<open>No name in the table is the beginning of another.\<close>

definition prefix_free :: "bytes list \<Rightarrow> bool" where
  "prefix_free fs \<longleftrightarrow> distinct fs \<and> (\<forall>f \<in> set fs. 0 \<notin> set f) \<and>
     (\<forall>f \<in> set fs. \<forall>g \<in> set fs. f \<noteq> g \<longrightarrow> take (min (length f) (length g)) f \<noteq> take (min (length f) (length g)) g)"

lemma CMDS_prefix_free: "prefix_free (map (fst \<circ> snd) (CMDS files))"
proof -
  have "map (fst \<circ> snd) (CMDS files) =
      map bytes_of [''quit'', ''help'', ''info'', ''list'', ''print'', ''load'', ''insert'', ''exists'', ''delete'']"
    by (simp add: CMDS_def)
  moreover have "prefix_free (map bytes_of [''quit'', ''help'', ''info'', ''list'', ''print'', ''load'', ''insert'', ''exists'', ''delete''])"
    by code_simp
  ultimately show ?thesis by simp
qed

lemma run_command_member:
  assumes "holds buf (face @ a)" and "length buf = n" and "(argc, face, fnc) \<in> set cmds" and "prefix_free (map (fst \<circ> snd) cmds)"
  shows "\<exists>buf'. holds buf' (face @ trim a) \<and> length buf' = n \<and> run_command cmds x buf =
    (if argc = (trim a = []) then Inr (0, buf', say (Bad_command (if trim a \<noteq> [] then Some (trim a) else None)) x)
     else obind (fnc x (trim a)) (\<lambda>(rc, x). Inr (rc, buf', x)))"
  using assms(3,4)
proof (induction cmds)
  case (Cons cmd cmds)
  obtain argc' face' fnc' where cmd: "cmd = (argc', face', fnc')" by (cases cmd)
  show ?case
  proof (cases "cmd = (argc, face, fnc)")
    case True
    then show ?thesis using run_command_hit [OF assms(1,2), of argc fnc cmds x] by blast
  next
    case False
    then have mem: "(argc, face, fnc) \<in> set cmds" using Cons.prems(1) by auto
    then have "face \<in> set (map (fst \<circ> snd) cmds)" by force
    with Cons.prems(2) cmd have ne: "face \<noteq> face'" "0 \<notin> set face'"
      "take (min (length face) (length face')) face \<noteq> take (min (length face) (length face')) face'"
      by (auto simp: prefix_free_def)
    have "\<nexists>b. face @ a = face' @ b"
      using ne(3) by (auto simp: append_eq_append_conv2)
    from run_command_miss [OF assms(1) ne(2) this] cmd have miss: "run_command (cmd # cmds) x buf = run_command cmds x buf" by simp
    have "prefix_free (map (fst \<circ> snd) cmds)" using Cons.prems(2) by (simp add: prefix_free_def comp_def)
    then show ?thesis unfolding miss by (rule Cons.IH [OF mem])
  qed
qed simp

lemmas shell_fnc_command = run_command_member [where cmds = "CMDS files" and x = x for files x, OF _ _ _ CMDS_prefix_free,
  folded shell_fnc_def]

lemma member_CMDS:
  "(True, bytes_of ''insert'', cmd_insert) \<in> set (CMDS files)"
  "(True, bytes_of ''exists'', cmd_exists) \<in> set (CMDS files)"
  "(True, bytes_of ''delete'', cmd_delete) \<in> set (CMDS files)"
  "(False, bytes_of ''quit'', cmd_quit) \<in> set (CMDS files)"
  by (simp_all add: CMDS_def)

lemma insert_line:
  assumes "holds buf (bytes_of ''insert'' @ a)" and "trim a \<noteq> []" and "avl_ok (s_avl x)"
    and "length (trim a) + 73 \<le> avl_room (s_avl x)" and "avl_items (s_avl x) + 1 < 2 ^ 64"
  shows "\<exists>buf' t. shell_fnc files x buf = Inr (0, buf', x\<lparr>s_avl := t\<rparr>) \<and> length buf' = length buf \<and> (\<exists>s. holds buf' s) \<and>
    avl_ok t \<and> count_in t = (count_in (s_avl x))(trim a := count_in (s_avl x) (trim a) + 1) \<and>
    avl_items t = avl_items (s_avl x) + 1 \<and> avl_room (s_avl x) \<le> avl_room t + length (trim a) + 73"
proof -
  obtain t where "avl_insert (s_avl x) (trim a) = Inr (0, t)" "avl_ok t"
      "count_in t = (count_in (s_avl x))(trim a := count_in (s_avl x) (trim a) + 1)"
      "avl_items t = avl_items (s_avl x) + 1" "avl_room (s_avl x) \<le> avl_room t + length (trim a) + 73"
    using avl_insert_ok [OF assms(3,2,4,5)] by blast
  with shell_fnc_command [OF assms(1) refl member_CMDS(1), of files x] assms(2) show ?thesis
    by (auto simp: cmd_insert_def Let_def)
qed

lemma exists_line:
  assumes "holds buf (bytes_of ''exists'' @ a)" and "trim a \<noteq> []" and "avl_ok (s_avl x)"
  shows "\<exists>buf'. length buf' = length buf \<and> (\<exists>s. holds buf' s) \<and> shell_fnc files x buf =
    Inr (0, buf', say (if count_in (s_avl x) (trim a) = 0 then Not_there (trim a) else There (trim a) (count_in (s_avl x) (trim a))) x)"
proof -
  have "avl_exists (s_avl x) (trim a) = Inr (count_in (s_avl x) (trim a))"
    using assms(2,3) exists_in_ok by (simp add: avl_exists_def count_in_def avl_ok_def)
  with shell_fnc_command [OF assms(1) refl member_CMDS(2), of files x] assms(2) show ?thesis
    by (auto simp: cmd_exists_def)
qed

lemma delete_line:
  assumes "holds buf (bytes_of ''delete'' @ a)" and "trim a \<noteq> []" and "avl_ok (s_avl x)" and "0 < count_in (s_avl x) (trim a)"
    and "count_in (s_avl x) (trim a) < 2 ^ 31" and "\<forall>y. 0 < count_in (s_avl x) y \<longrightarrow> length y + 17 \<le> avl_room (s_avl x)"
  shows "\<exists>buf' t. shell_fnc files x buf = Inr (0, buf', x\<lparr>s_avl := t\<rparr>) \<and> length buf' = length buf \<and> (\<exists>s. holds buf' s) \<and>
    avl_ok t \<and> count_in t = (count_in (s_avl x))(trim a := count_in (s_avl x) (trim a) - 1)"
proof -
  have "avl_exists (s_avl x) (trim a) = Inr (count_in (s_avl x) (trim a))"
    using assms(2,3) exists_in_ok by (simp add: avl_exists_def count_in_def avl_ok_def)
  moreover obtain t where "avl_delete (s_avl x) (trim a) = Inr (0, t)" "avl_ok t"
      "count_in t = (count_in (s_avl x))(trim a := count_in (s_avl x) (trim a) - 1)"
    using avl_delete_ok [OF assms(3,2,4,5,6)] by blast
  ultimately show ?thesis
    using shell_fnc_command [OF assms(1) refl member_CMDS(3), of files x] assms(2,4)
    by (auto simp: cmd_delete_def Let_def)
qed

lemma delete_absent_line:
  assumes "holds buf (bytes_of ''delete'' @ a)" and "trim a \<noteq> []" and "avl_ok (s_avl x)" and "count_in (s_avl x) (trim a) = 0"
  shows "\<exists>buf'. shell_fnc files x buf = Inr (0, buf', say (Not_there (trim a)) x)"
proof -
  have "avl_exists (s_avl x) (trim a) = Inr 0"
    using assms(2-4) exists_in_ok by (simp add: avl_exists_def count_in_def avl_ok_def)
  with shell_fnc_command [OF assms(1) refl member_CMDS(3), of files x] assms(2) show ?thesis by (auto simp: cmd_delete_def)
qed

lemma quit_line:
  assumes "holds buf (bytes_of ''quit'')"
  shows "\<exists>buf'. shell_fnc files x buf = Inr (1, buf', x)"
proof -
  have "holds buf (bytes_of ''quit'' @ [])" using assms by simp
  from shell_fnc_command [OF this refl member_CMDS(4), of files x] show ?thesis by (auto simp: trim_def cmd_quit_def)
qed

subsection \<open>Typed lines\<close>

lemma shell_typed:
  assumes "shell_ok s" and "printable w" and "length w < N" and "trim w \<noteq> []" and "s_n s + 1 < H"
    and "\<forall>buf. holds buf (trim w) \<longrightarrow> length buf = N \<longrightarrow>
      (\<exists>buf' u. fnc x buf = Inr (rc, buf', x') \<and> (rc = 0 \<longrightarrow> length buf' = N \<and> holds buf' u))"
  shows "\<exists>s'. shell fnc (map unat w @ 10 # rest) s x = (if rc \<noteq> 0 then Inr (Some (x', s')) else shell fnc rest s' x') \<and>
    (rc = 0 \<longrightarrow> shell_ok s' \<and> s_n s' = s_n s + 1)"
proof -
  obtain buf s1 where r: "read_line (map unat w @ 10 # rest) s = Inr (Some (Some buf, rest, s1))" "holds buf (trim w)" "length buf = N"
      "shell_ok s1" "s_n s1 = s_n s + 1"
    using read_line_typed [OF assms(1-3), of rest] assms(4,5) by auto
  obtain buf' u where f: "fnc x buf = Inr (rc, buf', x')" "rc = 0 \<longrightarrow> length buf' = N \<and> holds buf' u" using assms(6) r(2,3) by blast
  let ?s = "s1\<lparr>s_history := (s_history s1)[s_n s := buf']\<rparr>"
  have "shell_ok ?s" if "rc = 0"
    using that f(2) r(4,5) slots_ok_update [of "s_history s1" buf' u] by (simp add: shell_ok_def)
  then show ?thesis using r(1,5) f(1) by (subst shell.simps) (auto simp: Let_def)
qed

text \<open>A word, as it is typed: printable, not blank, with no white space at its ends, and short enough for the line.\<close>

definition typed_word :: "bytes \<Rightarrow> bool" where
  "typed_word w \<longleftrightarrow> printable w \<and> w \<noteq> [] \<and> trim w = w \<and> length w + 7 < N"

lemma trim_ends:
  assumes "trim w = w" and "w \<noteq> []"
  shows "\<not> isspace_byte (last w)"
proof
  assume sp: "isspace_byte (last w)"
  let ?v = "dropWhile isspace_byte w"
  have w: "w = rev (dropWhile isspace_byte (rev ?v))" using assms(1) by (simp add: trim_def)
  then have ne: "dropWhile isspace_byte (rev ?v) \<noteq> []" using assms(2) by force
  have "\<not> isspace_byte (hd (dropWhile isspace_byte (rev ?v)))" by (rule hd_dropWhile [OF ne])
  moreover have "last w = hd (dropWhile isspace_byte (rev ?v))" by (subst w) (rule last_rev)
  ultimately show False using sp by simp
qed

lemma trim_id:
  assumes "s \<noteq> []" and "\<not> isspace_byte (hd s)" and "\<not> isspace_byte (last s)"
  shows "trim s = s"
proof -
  have "dropWhile isspace_byte s = s" using assms(1,2) by (cases s) simp_all
  moreover have "dropWhile isspace_byte (rev s) = rev s" using assms(1,3) by (cases s rule: rev_cases) simp_all
  ultimately show ?thesis by (simp add: trim_def)
qed

lemma typed_command:
  assumes "typed_word w" and "face \<in> {bytes_of ''insert'', bytes_of ''exists''}"
  shows "printable (face @ 32 # w)" and "length (face @ 32 # w) < N" and "trim (face @ 32 # w) = face @ 32 # w"
    and "trim (32 # w) = w"
proof -
  have w: "printable w" "w \<noteq> []" "trim w = w" "length w + 7 < N" using assms(1) by (simp_all add: typed_word_def)
  have face: "length face = 6" "printable face" "\<not> isspace_byte (hd face)" "face \<noteq> []"
    using assms(2) by (auto simp: bytes_of_def printable_def isprint_def isspace_byte_def)
  show "printable (face @ 32 # w)" using w(1) face(2) by (auto simp: printable_def isprint_def)
  show "length (face @ 32 # w) < N" using w(4) face(1) by simp
  show "trim (face @ 32 # w) = face @ 32 # w"
    using face(3,4) w(2) trim_ends [OF w(3,2)] by (intro trim_id) simp_all
  show "trim (32 # w) = w" using w(3) by (simp add: trim_def isspace_byte_def)
qed


subsection \<open>Sessions\<close>

text \<open>A session of the specification: words are added to a multiset, given as its counts, or asked for.\<close>

datatype request = Insert_word bytes | Exists_word bytes

fun word_of :: "request \<Rightarrow> bytes" where
  "word_of (Insert_word w) = w"
| "word_of (Exists_word w) = w"

fun typed_keys :: "request \<Rightarrow> nat list" where
  "typed_keys (Insert_word w) = map unat (bytes_of ''insert'' @ 32 # w) @ [10]"
| "typed_keys (Exists_word w) = map unat (bytes_of ''exists'' @ 32 # w) @ [10]"

fun room_for :: "request \<Rightarrow> nat" where
  "room_for (Insert_word w) = length w + 73"
| "room_for (Exists_word w) = 0"

fun answers :: "request list \<Rightarrow> (bytes \<Rightarrow> nat) \<Rightarrow> message list" where
  "answers [] m = []"
| "answers (Insert_word w # rs) m = answers rs (m(w := m w + 1))"
| "answers (Exists_word w # rs) m = (if m w = 0 then Not_there w else There w (m w)) # answers rs m"

definition quit_keys :: "nat list" where "quit_keys = map unat (bytes_of ''quit'') @ [10]"

lemma request_step:
  assumes "shell_ok s" and "s_n s + 1 < H" and "typed_word (word_of r)" and "avl_ok (s_avl x)" and "room_for r \<le> avl_room (s_avl x)"
    and "avl_items (s_avl x) + 1 < 2 ^ 64"
  shows "\<exists>s' t. shell (shell_fnc files) (typed_keys r @ rest) s x =
      shell (shell_fnc files) rest s' \<lparr>s_avl = t, s_out = s_out x @ answers [r] (count_in (s_avl x))\<rparr> \<and>
    shell_ok s' \<and> s_n s' = s_n s + 1 \<and> avl_ok t \<and> avl_room (s_avl x) \<le> avl_room t + room_for r \<and>
    avl_items t \<le> avl_items (s_avl x) + 1 \<and> (\<forall>rs. answers (r # rs) (count_in (s_avl x)) = answers [r] (count_in (s_avl x)) @ answers rs (count_in t))"
proof (cases r)
  case (Insert_word w)
  have w: "typed_word w" using assms(3) Insert_word by simp
  have face: "bytes_of ''insert'' \<in> {bytes_of ''insert'', bytes_of ''exists''}" by simp
  note tc = typed_command [OF w face]
  have ne2: "trim (bytes_of ''insert'' @ 32 # w) \<noteq> []" using tc(3) by simp
  have ne: "trim (32 # w) \<noteq> []" using w tc(4) by (simp add: typed_word_def)
  obtain t where t: "avl_insert (s_avl x) w = Inr (0, t)" "avl_ok t"
      "count_in t = (count_in (s_avl x))(w := count_in (s_avl x) w + 1)"
      "avl_items t = avl_items (s_avl x) + 1" "avl_room (s_avl x) \<le> avl_room t + length w + 73"
    using avl_insert_ok [OF assms(4) _ _ assms(6), of w] w assms(5) Insert_word by (auto simp: typed_word_def)
  have "\<forall>buf. holds buf (trim (bytes_of ''insert'' @ 32 # w)) \<longrightarrow> length buf = N \<longrightarrow>
      (\<exists>buf' u. shell_fnc files x buf = Inr (0, buf', x\<lparr>s_avl := t\<rparr>) \<and> (0 = (0::int) \<longrightarrow> length buf' = N \<and> holds buf' u))"
  proof (intro allI impI)
    fix buf
    assume that: "holds buf (trim (bytes_of ''insert'' @ 32 # w))" "length buf = N"
    have "holds buf (bytes_of ''insert'' @ 32 # w)" using that(1) tc(3) by simp
    from shell_fnc_command [OF this that(2) member_CMDS(1), of files x] show "\<exists>buf' u. shell_fnc files x buf = Inr (0, buf', x\<lparr>s_avl := t\<rparr>) \<and> (0 = (0::int) \<longrightarrow> length buf' = N \<and> holds buf' u)"
      using t(1) tc(4) ne by (auto simp: cmd_insert_def)
  qed
  from shell_typed [OF assms(1) tc(1,2) ne2 assms(2), of "shell_fnc files" x 0 "x\<lparr>s_avl := t\<rparr>" rest, OF this] obtain s' where
    "shell (shell_fnc files) (typed_keys r @ rest) s x = shell (shell_fnc files) rest s' (x\<lparr>s_avl := t\<rparr>)"
    "shell_ok s'" "s_n s' = s_n s + 1"
    using tc(3) Insert_word by (auto simp: bytes_of_def)
  moreover have "x\<lparr>s_avl := t\<rparr> = \<lparr>s_avl = t, s_out = s_out x\<rparr>" by (cases x) simp
  ultimately show ?thesis using t Insert_word by (intro exI [of _ s'] exI [of _ t]) auto
next
  case (Exists_word w)
  have w: "typed_word w" using assms(3) Exists_word by simp
  have face: "bytes_of ''exists'' \<in> {bytes_of ''insert'', bytes_of ''exists''}" by simp
  note tc = typed_command [OF w face]
  have ne2: "trim (bytes_of ''exists'' @ 32 # w) \<noteq> []" using tc(3) by simp
  have ne: "trim (32 # w) \<noteq> []" using w tc(4) by (simp add: typed_word_def)
  let ?x = "say (if count_in (s_avl x) w = 0 then Not_there w else There w (count_in (s_avl x) w)) x"
  have "\<forall>buf. holds buf (trim (bytes_of ''exists'' @ 32 # w)) \<longrightarrow> length buf = N \<longrightarrow>
      (\<exists>buf' u. shell_fnc files x buf = Inr (0, buf', ?x) \<and> (0 = (0::int) \<longrightarrow> length buf' = N \<and> holds buf' u))"
  proof (intro allI impI)
    fix buf
    assume that: "holds buf (trim (bytes_of ''exists'' @ 32 # w))" "length buf = N"
    have "holds buf (bytes_of ''exists'' @ 32 # w)" using that(1) tc(3) by simp
    from exists_line [OF this ne assms(4), of files] that(2) tc(4)
    show "\<exists>buf' u. shell_fnc files x buf = Inr (0, buf', ?x) \<and> (0 = (0::int) \<longrightarrow> length buf' = N \<and> holds buf' u)" by auto
  qed
  from shell_typed [OF assms(1) tc(1,2) ne2 assms(2), of "shell_fnc files" x 0 ?x rest, OF this] obtain s' where
    "shell (shell_fnc files) (typed_keys r @ rest) s x = shell (shell_fnc files) rest s' ?x"
    "shell_ok s'" "s_n s' = s_n s + 1"
    using tc(3) Exists_word by (auto simp: bytes_of_def)
  moreover have "?x = \<lparr>s_avl = s_avl x, s_out = s_out x @ answers [r] (count_in (s_avl x))\<rparr>"
    using Exists_word by (cases x) (simp add: say_def)
  ultimately show ?thesis using assms(4) Exists_word by (intro exI [of _ s'] exI [of _ "s_avl x"]) auto
qed

lemma session_runs:
  assumes "shell_ok s" and "s_n s + length rs + 1 < H" and "\<forall>r \<in> set rs. typed_word (word_of r)" and "avl_ok (s_avl x)"
    and "sum_list (map room_for rs) \<le> avl_room (s_avl x)" and "avl_items (s_avl x) + length rs < 2 ^ 64"
  shows "\<exists>x' s'. shell (shell_fnc files) (concat (map typed_keys rs) @ quit_keys) s x = Inr (Some (x', s')) \<and>
    s_out x' = s_out x @ answers rs (count_in (s_avl x)) \<and> avl_ok (s_avl x')"
  using assms
proof (induction rs arbitrary: s x)
  case Nil
  have q: "printable (bytes_of ''quit'')" "length (bytes_of ''quit'') < N" "trim (bytes_of ''quit'') = bytes_of ''quit''"
    "bytes_of ''quit'' \<noteq> []"
    by (simp_all add: bytes_of_def printable_def isprint_def N_def trim_def isspace_byte_def)
  have "\<forall>buf. holds buf (trim (bytes_of ''quit'')) \<longrightarrow> length buf = N \<longrightarrow>
      (\<exists>buf' u. shell_fnc files x buf = Inr (1, buf', x) \<and> (1 = (0::int) \<longrightarrow> length buf' = N \<and> holds buf' u))"
    using quit_line [of _ files x] q(3) by simp
  moreover have "trim (bytes_of ''quit'') \<noteq> []" "s_n s + 1 < H" using q(3,4) Nil(2) by simp_all
  ultimately obtain s' where "shell (shell_fnc files) (map unat (bytes_of ''quit'') @ 10 # []) s x = Inr (Some (x, s'))"
    using shell_typed [OF Nil(1) q(1,2), of "shell_fnc files" x 1 x "[]"] by auto
  with Nil(4) show ?case
    by (auto simp: quit_keys_def)
next
  case (Cons r rs)
  have "s_n s + 1 < H" "typed_word (word_of r)" "room_for r \<le> avl_room (s_avl x)" "avl_items (s_avl x) + 1 < 2 ^ 64"
    using Cons.prems by auto
  from request_step [OF Cons.prems(1) this(1,2) Cons.prems(4) this(3,4), of files "concat (map typed_keys rs) @ quit_keys"]
  obtain s' t where st: "shell (shell_fnc files) (concat (map typed_keys (r # rs)) @ quit_keys) s x =
      shell (shell_fnc files) (concat (map typed_keys rs) @ quit_keys) s' \<lparr>s_avl = t, s_out = s_out x @ answers [r] (count_in (s_avl x))\<rparr>"
    "shell_ok s'" "s_n s' = s_n s + 1" "avl_ok t" "avl_room (s_avl x) \<le> avl_room t + room_for r"
    "avl_items t \<le> avl_items (s_avl x) + 1"
    "\<forall>rs. answers (r # rs) (count_in (s_avl x)) = answers [r] (count_in (s_avl x)) @ answers rs (count_in t)"
    unfolding list.map concat.simps append_assoc by blast
  let ?x = "\<lparr>s_avl = t, s_out = s_out x @ answers [r] (count_in (s_avl x))\<rparr>"
  have "s_n s' + length rs + 1 < H" "\<forall>r \<in> set rs. typed_word (word_of r)" using Cons.prems(2,3) st(3) by simp_all
  moreover have "sum_list (map room_for rs) \<le> avl_room (s_avl ?x)" using Cons.prems(5) st(5) by simp
  moreover have "avl_items (s_avl ?x) + length rs < 2 ^ 64" using Cons.prems(6) st(6) by simp
  moreover have "avl_ok (s_avl ?x)" using st(4) by simp
  ultimately obtain x' s2 where
    "shell (shell_fnc files) (concat (map typed_keys rs) @ quit_keys) s' ?x = Inr (Some (x', s2))"
    "s_out x' = s_out ?x @ answers rs (count_in t)" "avl_ok (s_avl x')"
    using Cons.IH [OF st(2), of ?x] by auto
  moreover have "s_out x @ answers (r # rs) (count_in (s_avl x)) = s_out ?x @ answers rs (count_in t)"
    unfolding st(7) [rule_format, of rs] by simp
  ultimately show ?case unfolding st(1) by (intro exI [of _ x'] exI [of _ s2]) simp
qed

subsection \<open>Properties\<close>

lemma zero_history: "shell_ok \<lparr>s_n = 0, s_history = replicate H (replicate N 0)\<rparr>"
  using fresh_shell_ok [of 0] by (simp add: fresh_shell_def H_def)

lemma avl_close_ok: "avl_ok a \<Longrightarrow> \<exists>f. avl_close a = Inr f"
  unfolding avl_ok_def scm_valid_def avl_close_def using scm_close_open [where pathname = "''x''"] by (metis list.distinct(1))

text \<open>
  C11: a session at the keyboard. Started with \<open>--truncate\<close> on a region of at least 64 bytes, given a list of \<open>insert\<close> and
  \<open>exists\<close> lines with a final \<open>quit\<close> (fewer lines than the history has slots, words that fit the line, room for the
  inserted words), the program returns 0 and has printed exactly the answers of the specification: for each \<open>exists\<close> line how
  often the word was inserted so far.
\<close>

theorem project3_main_session:
  assumes "pathname \<noteq> []" and "take 1 pathname \<noteq> ''-''" and "64 \<le> length img" and "length img < 2 ^ 64"
    and "length rs + 1 < H" and "\<forall>r \<in> set rs. typed_word (word_of r)" and "sum_list (map room_for rs) + 64 \<le> length img"
  shows "\<exists>file. project3_main files True (Some (True, img)) True stored [pathname, ''--truncate''] (concat (map typed_keys rs) @ quit_keys) =
    Inr (Some (0, answers rs (\<lambda>_. 0), file))"
proof -
  obtain a where a: "avl_open pathname True (Some (True, img)) True True stored = Inr (Some a)" "avl_ok a" "count_in a = (\<lambda>_. 0)"
      "avl_room a = length img - 64" "avl_items a = 0"
    using avl_open_truncated [OF assms(1,3,4)] by blast
  let ?s = "\<lparr>s_n = 0, s_history = replicate H (replicate N 0)\<rparr>" and ?x = "\<lparr>s_avl = a, s_out = []\<rparr>"
  have "s_n ?s + length rs + 1 < H" "sum_list (map room_for rs) \<le> avl_room (s_avl ?x)"
    "avl_items (s_avl ?x) + length rs < 2 ^ 64" "avl_ok (s_avl ?x)"
    using a assms(5,7) by (simp_all add: H_def)
  from session_runs [OF zero_history this(1) assms(6) this(4) this(2,3), of files] obtain x s where
    "shell (shell_fnc files) (concat (map typed_keys rs) @ quit_keys) ?s ?x = Inr (Some (x, s))"
    "s_out x = answers rs (\<lambda>_. 0)" "avl_ok (s_avl x)"
    using a(3) by auto
  moreover obtain f where "avl_close (s_avl x) = Inr f" using avl_close_ok [OF calculation(3)] by blast
  moreover have "parse_args [pathname, ''--truncate''] None False False = Inr (pathname, True)"
    using assms(1,2) by (auto simp: take_Cons' split: if_splits)
  ultimately show ?thesis using a(1) by (simp add: project3_main_def)
qed

text \<open>
  The command dispatch. Whatever is typed after \<open>insert\<close>, \<open>exists\<close> or \<open>delete\<close> is the word, without the white space
  at its ends: \<open>insert\<close> adds one to its count, \<open>exists\<close> prints its count, \<open>delete\<close> takes one from its count; no other
  word's count changes, the tree stays well-formed, and the shell goes on (\<open>0\<close>).
\<close>

theorem shell_fnc_commands:
  assumes "avl_ok (s_avl x)" and "trim a \<noteq> []" and "avl_items (s_avl x) + 1 < 2 ^ 64" and "length (trim a) + 73 \<le> avl_room (s_avl x)"
    and "\<forall>y. 0 < count_in (s_avl x) y \<longrightarrow> length y + 17 \<le> avl_room (s_avl x)" and "count_in (s_avl x) (trim a) < 2 ^ 31"
  shows "(\<forall>buf. holds buf (bytes_of ''insert'' @ a) \<longrightarrow>
      (\<exists>buf' t. shell_fnc files x buf = Inr (0, buf', x\<lparr>s_avl := t\<rparr>) \<and> avl_ok t \<and>
        count_in t = (count_in (s_avl x))(trim a := count_in (s_avl x) (trim a) + 1))) \<and>
    (\<forall>buf. holds buf (bytes_of ''delete'' @ a) \<longrightarrow>
      (\<exists>buf' t. shell_fnc files x buf =
          Inr (0, buf', if count_in (s_avl x) (trim a) = 0 then say (Not_there (trim a)) x else x\<lparr>s_avl := t\<rparr>) \<and> avl_ok t \<and>
        count_in t = (count_in (s_avl x))(trim a := count_in (s_avl x) (trim a) - 1))) \<and>
    (\<forall>buf. holds buf (bytes_of ''exists'' @ a) \<longrightarrow>
      (\<exists>buf'. shell_fnc files x buf = Inr (0, buf',
        say (if count_in (s_avl x) (trim a) = 0 then Not_there (trim a) else There (trim a) (count_in (s_avl x) (trim a))) x)))"
proof (intro conjI allI impI)
  fix buf
  show "\<exists>buf' t. shell_fnc files x buf = Inr (0, buf', x\<lparr>s_avl := t\<rparr>) \<and> avl_ok t \<and>
      count_in t = (count_in (s_avl x))(trim a := count_in (s_avl x) (trim a) + 1)" if "holds buf (bytes_of ''insert'' @ a)"
    using insert_line [OF that assms(2,1,4,3)] by blast
  show "\<exists>buf' t. shell_fnc files x buf =
      Inr (0, buf', if count_in (s_avl x) (trim a) = 0 then say (Not_there (trim a)) x else x\<lparr>s_avl := t\<rparr>) \<and> avl_ok t \<and>
      count_in t = (count_in (s_avl x))(trim a := count_in (s_avl x) (trim a) - 1)" if "holds buf (bytes_of ''delete'' @ a)"
  proof (cases "count_in (s_avl x) (trim a) = 0")
    case True
    with delete_absent_line [OF that assms(2,1)] show ?thesis
      using assms(1) by (auto intro!: exI [of _ "s_avl x"] simp: fun_eq_iff)
  next
    case False
    with delete_line [OF that assms(2,1) _ assms(6,5)] show ?thesis by simp blast
  qed
  show "\<exists>buf'. shell_fnc files x buf = Inr (0, buf',
      say (if count_in (s_avl x) (trim a) = 0 then Not_there (trim a) else There (trim a) (count_in (s_avl x) (trim a))) x)"
    if "holds buf (bytes_of ''exists'' @ a)"
    using exists_line [OF that assms(2,1)] by blast
qed

subsection \<open>Witnesses\<close>

lemma typed_demo: "typed_word [104, 105]" "typed_word [97]"
  by (simp_all add: typed_word_def printable_def isprint_def N_def trim_def isspace_byte_def)

theorem project3_main_session_witness:
  "\<exists>file. project3_main (\<lambda>_. None) True (Some (True, replicate 4096 0)) True (Leaf, 0, 0) [''scm'', ''--truncate'']
     (concat (map typed_keys [Insert_word [104, 105], Insert_word [104, 105], Exists_word [104, 105], Exists_word [97]]) @ quit_keys) =
   Inr (Some (0, [There [104, 105] 2, Not_there [97]], file))"
proof -
  let ?rs = "[Insert_word [104, 105], Insert_word [104, 105], Exists_word [104, 105], Exists_word [97]]"
  have ans: "answers ?rs (\<lambda>_. 0) = [There [104, 105] 2, Not_there [97]]" by simp
  have rs: "length ?rs + 1 < H" "\<forall>r \<in> set ?rs. typed_word (word_of r)"
    "sum_list (map room_for ?rs) + 64 \<le> length (replicate 4096 (0 :: 8 word))"
    using typed_demo by (simp_all add: H_def)
  have path: "''scm'' \<noteq> []" "take 1 ''scm'' \<noteq> ''-''" by simp_all
  have img: "64 \<le> length (replicate 4096 (0 :: 8 word))" "length (replicate 4096 (0 :: 8 word)) < 2 ^ 64" by simp_all
  show ?thesis using project3_main_session [OF path img rs, of "\<lambda>_. None" "(Leaf, 0, 0)"] unfolding ans .
qed

theorem shell_fnc_commands_witness:
  "\<exists>a. avl_ok a \<and> count_in a [104, 105] = 1 \<and>
    (\<exists>buf' t. shell_fnc (\<lambda>_. None) \<lparr>s_avl = a, s_out = []\<rparr> (bytes_of ''delete'' @ [32, 104, 105, 0]) =
      Inr (0, buf', \<lparr>s_avl = t, s_out = []\<rparr>) \<and> avl_ok t \<and> count_in t = (\<lambda>_. 0))"
proof -
  obtain a where a: "avl_ok a" "count_in a = (\<lambda>_. 0)([104, 105] := 1)" "avl_items a = 1" "100 \<le> avl_room a"
    using one_item by blast
  have tr: "trim [32, 104, 105 :: 8 word] = [104, 105]" by (simp add: trim_def isspace_byte_def)
  have h: "holds (bytes_of ''delete'' @ [32, 104, 105, 0]) (bytes_of ''delete'' @ [32, 104, 105])"
    by (auto simp: holds_def bytes_of_def)
  let ?x = "\<lparr>s_avl = a, s_out = []\<rparr>"
  have "avl_ok (s_avl ?x)" "trim [32, 104, 105 :: 8 word] \<noteq> []" "avl_items (s_avl ?x) + 1 < 2 ^ 64"
    "length (trim [32, 104, 105 :: 8 word]) + 73 \<le> avl_room (s_avl ?x)"
    "\<forall>y. 0 < count_in (s_avl ?x) y \<longrightarrow> length y + 17 \<le> avl_room (s_avl ?x)"
    "count_in (s_avl ?x) (trim [32, 104, 105]) < 2 ^ 31"
    using a tr by auto
  note * = shell_fnc_commands [OF this, of "\<lambda>_. None", THEN conjunct2, THEN conjunct1, rule_format, OF h]
  then obtain buf' t where "shell_fnc (\<lambda>_. None) ?x (bytes_of ''delete'' @ [32, 104, 105, 0]) = Inr (0, buf', ?x\<lparr>s_avl := t\<rparr>)"
    "avl_ok t" "count_in t = (count_in a)([104, 105] := 0)"
    unfolding tr using a(2) by auto
  then show ?thesis using a by (intro exI [of _ a]) auto
qed

end
