(* ===== verification/Terminal.thy ===== *)
theory Terminal
  imports Scan Shell
begin

unbundle bit_operations_syntax

section \<open>The terminal (\<open>term.c\<close>, and what \<open>project-3\<close> and \<open>project-4\<close> print)\<close>

text \<open>
  The terminal is what was printed so far, with the global \<open>nocolor\<close>. Colours, cursor movements and the like are escape
  sequences in the output; \<open>strip\<close> takes them out, and the lemmas say what text the programs leave on the screen. The second part is
  the terminal's attributes, the cursor report and the redrawing of the line editor.
\<close>

subsection \<open>\<open>term.c\<close>\<close>

record terminal =
  t_nocolor :: bool
  t_out :: string

datatype color =
    TERM_COLOR_BLACK | TERM_COLOR_RED | TERM_COLOR_GREEN | TERM_COLOR_YELLOW
  | TERM_COLOR_BLUE | TERM_COLOR_MAGENTA | TERM_COLOR_CYAN | TERM_COLOR_GRAY

fun color_number :: "color \<Rightarrow> int" where
  "color_number TERM_COLOR_BLACK = 0"
| "color_number TERM_COLOR_RED = 1"
| "color_number TERM_COLOR_GREEN = 2"
| "color_number TERM_COLOR_YELLOW = 3"
| "color_number TERM_COLOR_BLUE = 4"
| "color_number TERM_COLOR_MAGENTA = 5"
| "color_number TERM_COLOR_CYAN = 6"
| "color_number TERM_COLOR_GRAY = 7"

text \<open>An enumeration of C is ordered as its numbers.\<close>

instantiation color :: linorder
begin

definition less_eq_color :: "color \<Rightarrow> color \<Rightarrow> bool" where
  "less_eq_color c d \<longleftrightarrow> color_number c \<le> color_number d"

definition less_color :: "color \<Rightarrow> color \<Rightarrow> bool" where
  "less_color c d \<longleftrightarrow> color_number c < color_number d"

instance
proof
  fix c d :: color
  show "c = d" if "c \<le> d" "d \<le> c"
    using that by (cases c; cases d) (simp_all add: less_eq_color_def)
qed (auto simp: less_eq_color_def less_color_def)

end

definition ESC :: char where "ESC = CHR 0x1B"

definition put :: "string \<Rightarrow> terminal \<Rightarrow> terminal" where
  "put s t = t\<lparr>t_out := t_out t @ s\<rparr>"

text \<open>\<open>%d\<close>\<close>

definition decimal :: "int \<Rightarrow> string" where
  "decimal n = (if n < 0 then CHR ''-'' # digits (nat (- n)) else digits (nat n))"

definition term_init :: "int \<Rightarrow> terminal \<Rightarrow> terminal" where
  "term_init n t = t\<lparr>t_nocolor := (n \<noteq> 0)\<rparr>"

definition term_color :: "int \<Rightarrow> terminal \<Rightarrow> terminal outcome" where
  "term_color c t =
     (if \<not> (0 \<le> c \<and> c \<le> 7) then Inl Assert_failed
      else Inr (if t_nocolor t then t else put (ESC # ''['' @ decimal (30 + c) @ ''m'') t))"

definition term_bold :: "terminal \<Rightarrow> terminal" where
  "term_bold t = (if t_nocolor t then t else put (ESC # ''[1m'') t)"

definition term_reset :: "terminal \<Rightarrow> terminal" where
  "term_reset t = (if t_nocolor t then t else put (ESC # ''[0m'') (put (ESC # ''[?25h'') t))"

subsection \<open>The banner and the usage of \<open>project-3\<close>\<close>

definition backslash :: string where "backslash = [CHR 0x5C]"

definition banner :: string where
  "banner =
     [NL] @ ''              ___  _____ ____      '' @ [NL] @
     ''    _________|__ '' @ backslash @ ''|__  /( __ )____ '' @ [NL] @
     ''   / ___/ ___/_/ / /_ </ __  / __ '' @ backslash @ [NL] @
     ''  / /__(__  ) __/___/ / /_/ / /_/ /'' @ [NL] @
     ''  '' @ backslash @ ''___/____/____/____/'' @ backslash @ ''____/ .___/ '' @ [NL] @
     ''                          /_/      '' @ [NL]"

definition subtitle :: string where
  "subtitle = ''   Storage Class Memory Manager'' @ [NL, NL]"

definition greetings :: "terminal \<Rightarrow> terminal outcome" where
  "greetings t =
     obind (term_color (color_number TERM_COLOR_MAGENTA) (term_bold t)) (\<lambda>t.
     obind (term_color (color_number TERM_COLOR_GREEN) (term_reset (put banner t))) (\<lambda>t.
       Inr (term_reset (put subtitle t))))"

definition usage :: "string \<Rightarrow> terminal \<Rightarrow> terminal" where
  "usage name t =
     put (''usage: '' @ name @ '' [options] pathname'' @ [NL, NL] @ ''  -- options --'' @ [NL] @
       ''    truncate : clear SCM content'' @ [NL] @ ''    nocolor  : do not use terminal colors'' @ [NL] @ [NL]) t"

subsection \<open>The report of \<open>project-4\<close>\<close>

text \<open>
  \<open>TEST\<close>: a test's name and whether it passed; \<open>secs\<close> is the time as \<open>%6.1f\<close> prints it. \<open>%20s\<close> pads with spaces on the left.
\<close>

definition pad :: "nat \<Rightarrow> string \<Rightarrow> string" where
  "pad n s = replicate (n - length s) CHR '' '' @ s"

definition verdict :: "bool \<Rightarrow> string" where
  "verdict passed = [CHR 0x09] @ (if passed then '' [PASS] '' else '' [FAIL] '')"

definition report_line :: "string \<Rightarrow> string \<Rightarrow> string" where
  "report_line name secs = pad 20 name @ '' '' @ secs @ ''s'' @ [NL]"

definition report :: "string \<Rightarrow> bool \<Rightarrow> string \<Rightarrow> terminal \<Rightarrow> terminal outcome" where
  "report name passed secs t =
     obind (term_color (color_number (if passed then TERM_COLOR_GREEN else TERM_COLOR_RED)) t) (\<lambda>t.
       Inr (put (report_line name secs) (term_reset (put (verdict passed) (term_bold t)))))"

fun reports :: "(string \<times> bool) list \<Rightarrow> string list \<Rightarrow> terminal \<Rightarrow> terminal outcome" where
  "reports ((name, passed) # out) (secs # tms) t = obind (report name passed secs t) (reports out tms)"
| "reports _ _ t = Inr t"

definition rule :: "string \<Rightarrow> terminal \<Rightarrow> terminal outcome" where
  "rule s t =
     obind (term_color (color_number TERM_COLOR_BLUE) (term_bold t)) (\<lambda>t.
       Inr (term_reset (put (''---------- TEST '' @ s @ '' ----------'' @ [NL]) t)))"

definition project4_screen :: "(string \<times> bool) list \<Rightarrow> string list \<Rightarrow> terminal \<Rightarrow> terminal outcome" where
  "project4_screen out tms t =
     obind (rule ''BEG'' (term_init 0 t)) (\<lambda>t. obind (reports out tms t) (rule ''END''))"

definition project4_usage :: "string \<Rightarrow> terminal \<Rightarrow> terminal" where
  "project4_usage name t = put (''usage: '' @ name @ '' block-device'' @ [NL]) t"

subsection \<open>What stays when the escape sequences are taken out\<close>

definition is_letter :: "char \<Rightarrow> bool" where
  "is_letter c \<longleftrightarrow> 65 \<le> (of_char c :: nat) \<and> (of_char c :: nat) \<le> 90 \<or> 97 \<le> (of_char c :: nat) \<and> (of_char c :: nat) \<le> 122"

definition after_letter :: "string \<Rightarrow> string" where
  "after_letter s = drop 1 (dropWhile (\<lambda>c. \<not> is_letter c) s)"

lemma after_letter_shorter: "length (after_letter s) \<le> length s"
  using length_dropWhile_le [of "\<lambda>c. \<not> is_letter c" s] by (simp add: after_letter_def)

function strip :: "string \<Rightarrow> string" where
  "strip s = (case s of [] \<Rightarrow> [] | c # cs \<Rightarrow> if c = ESC then strip (after_letter cs) else c # strip cs)"
  by pat_completeness auto
termination
  by (relation "measure length") (auto simp: le_imp_less_Suc after_letter_shorter)

declare strip.simps [simp del]

lemma strip_simps [simp]:
  "strip [] = []" "strip (ESC # cs) = strip (after_letter cs)" "c \<noteq> ESC \<Longrightarrow> strip (c # cs) = c # strip cs"
  by (subst strip.simps; simp)+

text \<open>The output shows the text \<open>s\<close>, and does not end inside an escape sequence.\<close>

definition reads :: "terminal \<Rightarrow> string \<Rightarrow> bool" where
  "reads t s \<longleftrightarrow> (\<forall>rest. strip (t_out t @ rest) = s @ strip rest)"

lemma reads_strip: "reads t s \<Longrightarrow> strip (t_out t) = s"
  unfolding reads_def by (metis append_Nil2 strip_simps(1))

lemma reads_start: "reads \<lparr>t_nocolor = c, t_out = []\<rparr> []"
  by (simp add: reads_def)

definition escape :: "string \<Rightarrow> bool" where
  "escape e \<longleftrightarrow> (\<exists>ps c. e = ESC # ps @ [c] \<and> list_all (\<lambda>c. \<not> is_letter c) ps \<and> is_letter c)"

definition plain :: "string \<Rightarrow> bool" where
  "plain s \<longleftrightarrow> list_all (\<lambda>c. c \<noteq> ESC) s"

named_theorems shown "what an operation leaves to read"

lemma reads_plain [shown]: "reads t s \<Longrightarrow> plain x \<Longrightarrow> reads (put x t) (s @ x)"
proof -
  assume r: "reads t s" and p: "plain x"
  have "strip (x @ rest) = x @ strip rest" for rest using p by (induction x) (simp_all add: plain_def)
  with r show ?thesis by (simp add: reads_def put_def)
qed

lemma reads_escape: "reads t s \<Longrightarrow> escape e \<Longrightarrow> reads (put e t) s"
proof -
  assume r: "reads t s" and "escape e"
  then obtain ps c where e: "e = ESC # ps @ [c]" "list_all (\<lambda>c. \<not> is_letter c) ps" "is_letter c" by (auto simp: escape_def)
  have "after_letter (ps @ c # rest) = rest" for rest
    using e(2,3) by (simp add: after_letter_def list_all_iff dropWhile_append2)
  with r e show ?thesis by (simp add: reads_def put_def)
qed

lemma digit_no_letter: "is_digit c \<Longrightarrow> \<not> is_letter c"
  by (simp add: is_digit_def is_letter_def)

lemma digits_no_letter: "list_all (\<lambda>c. \<not> is_letter c) (digits n)"
  by (auto simp: list_all_iff dest: digits_are_digits digit_no_letter)

lemma decimal_no_letter: "list_all (\<lambda>c. \<not> is_letter c) (decimal n)"
  using digits_no_letter by (simp add: decimal_def is_letter_def)

lemma escapeI: "list_all (\<lambda>c. \<not> is_letter c) ps \<Longrightarrow> is_letter c \<Longrightarrow> escape (ESC # ps @ [c])"
  by (auto simp: escape_def)

lemma letters: "\<not> is_letter CHR ''[''" "is_letter CHR ''m''"
  by (simp_all add: is_letter_def)

lemma reads_color:
  assumes "reads t s" and "0 \<le> c" and "c \<le> 7"
  obtains t' where "term_color c t = Inr t'" "reads t' s" "t_nocolor t' = t_nocolor t"
proof -
  have "escape (ESC # (''['' @ decimal (30 + c)) @ ''m'')"
    by (rule escapeI) (simp_all add: decimal_no_letter letters)
  from reads_escape [OF assms(1) this] assms that show thesis
    by (cases "t_nocolor t") (simp_all add: term_color_def put_def)
qed

lemma reads_bold [shown]: "reads t s \<Longrightarrow> reads (term_bold t) s"
  using reads_escape [of t s, OF _ escapeI [of "''[1''" "CHR ''m''"]] by (simp add: term_bold_def is_letter_def)

lemma reads_reset [shown]: "reads t s \<Longrightarrow> reads (term_reset t) s"
  using reads_escape [OF reads_escape [of t s, OF _ escapeI [of "''[?25''" "CHR ''h''"]] escapeI [of "''[0''" "CHR ''m''"]]
  by (simp add: term_reset_def is_letter_def)

lemma color_range: "0 \<le> color_number c" "color_number c \<le> 7"
  by (cases c; simp)+

lemma term_color_enum: "TERM_COLOR_BLACK \<le> c \<and> c \<le> TERM_COLOR_GRAY" "\<exists>t'. term_color (color_number c) t = Inr t'"
  using color_range [of c] by (simp_all add: less_eq_color_def term_color_def)

lemma plain_simps:
  "plain (x @ y) \<longleftrightarrow> plain x \<and> plain y" "plain (c # x) \<longleftrightarrow> c \<noteq> ESC \<and> plain x" "plain []" "plain (replicate n CHR '' '')"
  "CHR '' '' \<noteq> ESC" "CHR ''s'' \<noteq> ESC" "NL \<noteq> ESC"
  by (auto simp: plain_def ESC_def NL_def list_all_iff)

lemma plain_texts: "plain banner" "plain subtitle" "plain (verdict b)"
  by (simp_all add: plain_def banner_def subtitle_def backslash_def NL_def ESC_def verdict_def)

lemma reads_report:
  assumes "reads t s" and "plain name" and "plain secs"
  obtains t' where "report name passed secs t = Inr t'" "reads t' (s @ verdict passed @ report_line name secs)"
proof -
  obtain t1 where t1: "term_color (color_number (if passed then TERM_COLOR_GREEN else TERM_COLOR_RED)) t = Inr t1" "reads t1 s"
    by (rule reads_color [OF assms(1) color_range])
  have "plain (report_line name secs)" using assms(2,3) by (simp add: report_line_def pad_def plain_simps)
  then have "reads (put (report_line name secs) (term_reset (put (verdict passed) (term_bold t1)))) ((s @ verdict passed) @ report_line name secs)"
    by (intro shown t1(2) plain_texts)
  with t1(1) show thesis using that by (simp add: report_def)
qed

fun report_text :: "(string \<times> bool) list \<Rightarrow> string list \<Rightarrow> string" where
  "report_text ((name, passed) # out) (secs # tms) = verdict passed @ report_line name secs @ report_text out tms"
| "report_text _ _ = []"

lemma reads_reports:
  assumes "reads t s" and "\<forall>r \<in> set out. plain (fst r)" and "\<forall>secs \<in> set tms. plain secs"
  shows "\<exists>t'. reports out tms t = Inr t' \<and> reads t' (s @ report_text out tms)"
  using assms
proof (induction out tms arbitrary: t s rule: report_text.induct)
  case (1 name passed out secs tms)
  obtain t1 where t1: "report name passed secs t = Inr t1" "reads t1 (s @ verdict passed @ report_line name secs)"
    using reads_report [OF "1.prems"(1), of name secs passed] "1.prems"(2,3) by auto
  from "1.IH" [OF t1(2)] "1.prems"(2,3) t1(1) show ?case by simp
qed simp_all

lemma reads_rule:
  assumes "reads t s" and "plain x"
  obtains t' where "rule x t = Inr t'" "reads t' (s @ ''---------- TEST '' @ x @ '' ----------'' @ [NL])"
proof -
  obtain t1 where t1: "term_color (color_number TERM_COLOR_BLUE) (term_bold t) = Inr t1" "reads t1 s"
    by (rule reads_color [OF reads_bold [OF assms(1)] color_range])
  have "plain (''---------- TEST '' @ x @ '' ----------'' @ [NL])" using assms(2) by (simp add: plain_def NL_def ESC_def)
  then have "reads (term_reset (put (''---------- TEST '' @ x @ '' ----------'' @ [NL]) t1)) (s @ ''---------- TEST '' @ x @ '' ----------'' @ [NL])"
    by (intro shown t1(2))
  with t1(1) show thesis using that by (simp add: rule_def)
qed

subsection \<open>Properties\<close>

text \<open>
  Whatever the colour setting and whatever was printed before, \<open>greetings\<close> leaves the banner and the title to read; without
  colours it prints nothing else.
\<close>

theorem greetings_reads:
  assumes "reads t s"
  shows "\<exists>t'. greetings t = Inr t' \<and> reads t' (s @ banner @ subtitle) \<and>
    (t_nocolor t \<longrightarrow> t_out t' = t_out t @ banner @ subtitle)"
proof -
  obtain t1 where t1: "term_color (color_number TERM_COLOR_MAGENTA) (term_bold t) = Inr t1" "reads t1 s"
    by (rule reads_color [OF reads_bold [OF assms] color_range])
  obtain t2 where t2: "term_color (color_number TERM_COLOR_GREEN) (term_reset (put banner t1)) = Inr t2" "reads t2 (s @ banner)"
    by (rule reads_color [OF reads_reset [OF reads_plain [OF t1(2) plain_texts(1)]] color_range])
  have "greetings t = Inr (term_reset (put subtitle t2))" using t1(1) t2(1) by (simp add: greetings_def)
  moreover have "reads (term_reset (put subtitle t2)) ((s @ banner) @ subtitle)"
    by (intro shown t2(2) plain_texts)
  moreover have "t_nocolor t \<longrightarrow> t_out (term_reset (put subtitle t2)) = t_out t @ banner @ subtitle"
    using t1(1) t2(1) by (auto simp: term_color_def term_bold_def term_reset_def put_def)
  ultimately show ?thesis by simp
qed

text \<open>The screen of \<open>project-4\<close>: a line for every test, between the two rules, with its verdict.\<close>

theorem project4_screen_reads:
  assumes "\<forall>r \<in> set out. plain (fst r)" and "\<forall>secs \<in> set tms. plain secs"
  shows "\<exists>t'. project4_screen out tms \<lparr>t_nocolor = c, t_out = []\<rparr> = Inr t' \<and>
    strip (t_out t') = ''---------- TEST BEG ----------'' @ [NL] @ report_text out tms @ ''---------- TEST END ----------'' @ [NL]"
proof -
  have "reads (term_init 0 \<lparr>t_nocolor = c, t_out = []\<rparr>) []" using reads_start by (simp add: term_init_def)
  then obtain t1 where t1: "rule ''BEG'' (term_init 0 \<lparr>t_nocolor = c, t_out = []\<rparr>) = Inr t1"
    "reads t1 (''---------- TEST BEG ----------'' @ [NL])"
    by (rule reads_rule [where x = "''BEG''"]) (simp_all add: plain_def ESC_def)
  obtain t2 where t2: "reports out tms t1 = Inr t2" "reads t2 ((''---------- TEST BEG ----------'' @ [NL]) @ report_text out tms)"
    using reads_reports [OF t1(2) assms] by blast
  obtain t3 where t3: "rule ''END'' t2 = Inr t3"
    "reads t3 (((''---------- TEST BEG ----------'' @ [NL]) @ report_text out tms) @ ''---------- TEST '' @ ''END'' @ '' ----------'' @ [NL])"
    by (rule reads_rule [OF t2(2), where x = "''END''"]) (simp_all add: plain_def ESC_def)
  show ?thesis using t1(1) t2(1) t3(1) reads_strip [OF t3(2)] by (simp add: project4_screen_def)
qed

theorem greetings_reads_witness:
  "\<exists>t'. greetings \<lparr>t_nocolor = False, t_out = ''> ''\<rparr> = Inr t' \<and> strip (t_out t') = ''> '' @ banner @ subtitle"
proof -
  have "reads \<lparr>t_nocolor = False, t_out = ''> ''\<rparr> ''> ''" by (simp add: reads_def ESC_def)
  from greetings_reads [OF this] show ?thesis using reads_strip by fastforce
qed

end
