(* ===== verification/Display.thy ===== *)
theory Display
  imports Terminal
begin

unbundle bit_operations_syntax

section \<open>The line editor on the terminal (\<open>project-3/shell.c\<close>)\<close>

text \<open>
  What \<open>Shell\<close> leaves out: the attributes of the terminal, the report of the cursor's position, and the redrawing of the line
  before every key. The lemmas say that the attributes are put back, that a report is read, and that the last line drawn is the
  one the editor works on; what that looks like is in \<open>Screen\<close>.
\<close>

subsection \<open>The attributes\<close>

text \<open>The fields of \<open>struct termios\<close> that are changed, and the others; the flags have the values of Linux.\<close>

record termios =
  c_lflag :: "32 word"
  c_vmin :: byte
  c_others :: bytes

definition ECHO :: "32 word" where "ECHO = 8"
definition ICANON :: "32 word" where "ICANON = 2"

text \<open>The attributes in force and the copy in \<open>state\<close>; \<open>ok\<close> says whether the system call succeeds.\<close>

record tty =
  tty_now :: termios
  tty_saved :: termios

definition configure :: "bool \<Rightarrow> bool \<Rightarrow> tty \<Rightarrow> tty outcome" where
  "configure got ok y =
     (if \<not> got then Inl Exit_called
      else
        let y = y\<lparr>tty_saved := tty_now y\<rparr>;
            a = (tty_saved y)\<lparr>c_lflag := c_lflag (tty_saved y) AND NOT (ECHO OR ICANON), c_vmin := 1\<rparr>
        in if \<not> ok then Inl Exit_called else Inr (y\<lparr>tty_now := a\<rparr>))"

definition restore :: "bool \<Rightarrow> tty \<Rightarrow> tty outcome" where
  "restore ok y = (if \<not> ok then Inl Exit_called else Inr (y\<lparr>tty_now := tty_saved y\<rparr>))"

lemma flags_cleared: "(x AND NOT (ECHO OR ICANON)) AND ECHO = 0" "(x AND NOT (ECHO OR ICANON)) AND ICANON = 0"
proof -
  have "NOT (ECHO OR ICANON) AND ECHO = 0" "NOT (ECHO OR ICANON) AND ICANON = 0" by (simp_all add: ECHO_def ICANON_def)
  then show "(x AND NOT (ECHO OR ICANON)) AND ECHO = 0" "(x AND NOT (ECHO OR ICANON)) AND ICANON = 0"
    by (simp_all only: and.assoc bit.conj_zero_right)
qed

lemma restore_configure:
  assumes "configure got ok y = Inr y1" and "restore ok' y1 = Inr y2"
  shows "tty_now y2 = tty_now y" and "c_lflag (tty_now y1) AND ECHO = 0" and "c_lflag (tty_now y1) AND ICANON = 0"
  using assms by (auto simp: configure_def restore_def Let_def flags_cleared simp del: bit.de_Morgan_disj split: if_splits)

subsection \<open>Where the cursor is\<close>

text \<open>\<open>%d\<close> of \<open>scanf\<close>: the number, if there is one, and the input after what was read.\<close>

definition scan_int :: "string \<Rightarrow> int option \<times> string" where
  "scan_int s =
     (let t = dropWhile is_space s;
          signed = (t \<noteq> [] \<and> (hd t = CHR ''-'' \<or> hd t = CHR ''+''));
          u = (if signed then tl t else t);
          ds = takeWhile is_digit u;
          v = int (digits_value ds)
      in (if ds = [] then None else Some (if signed \<and> hd t = CHR ''-'' then - v else v), dropWhile is_digit u))"

text \<open>\<open>scanf ("[%d;%dR", r, c)\<close>: the two numbers when it returns 2. A missing \<open>R\<close> makes no difference to that.\<close>

definition scan_report :: "string \<Rightarrow> (int \<times> int) option \<times> string" where
  "scan_report s =
     (if s = [] \<or> hd s \<noteq> CHR ''['' then (None, s)
      else
        (case scan_int (tl s) of
           (None, s) \<Rightarrow> (None, s)
         | (Some r, s) \<Rightarrow>
             if s = [] \<or> hd s \<noteq> CHR '';'' then (None, s)
             else
               (case scan_int (tl s) of
                  (None, s) \<Rightarrow> (None, s)
                | (Some c, s) \<Rightarrow> (Some (r, c), if s \<noteq> [] \<and> hd s = CHR ''R'' then tl s else s))))"

lemma scan_int_shorter: "length (snd (scan_int s)) \<le> length s"
proof -
  have "length (dropWhile is_digit (if b then tl (dropWhile is_space s) else dropWhile is_space s)) \<le> length s" for b
    using length_dropWhile_le [of is_digit "dropWhile is_space s"] length_dropWhile_le [of is_digit "tl (dropWhile is_space s)"]
      length_dropWhile_le [of is_space s] by (auto intro: order_trans)
  then show ?thesis by (simp add: scan_int_def Let_def)
qed

lemma scan_report_shorter: "length (snd (scan_report s)) \<le> length s"
proof -
  obtain a s1 where 1: "scan_int (tl s) = (a, s1)" by force
  obtain b s2 where 2: "scan_int (tl s1) = (b, s2)" by force
  have "length s1 \<le> length s" "length s2 \<le> length s1"
    using scan_int_shorter [of "tl s"] scan_int_shorter [of "tl s1"] 1 2 by auto
  then show ?thesis by (auto simp: scan_report_def 1 2 split: option.split)
qed

text \<open>
  \<open>location\<close>, on the input from the terminal: what comes before an escape is thrown away. \<open>None\<close> while it waits for more.
\<close>

function location :: "string \<Rightarrow> (int \<times> int \<times> string) option" where
  "location s =
     (case dropWhile (\<lambda>c. c \<noteq> ESC) s of
        [] \<Rightarrow> None
      | _ # s \<Rightarrow> (case scan_report s of (Some (r, c), s) \<Rightarrow> Some (r, c, s) | (None, s) \<Rightarrow> location s))"
  by pat_completeness auto
termination
proof (relation "measure length")
  fix s x s1 rc s2
  assume "dropWhile (\<lambda>c. c \<noteq> ESC) s = x # s1" "(rc, s2) = scan_report s1" "rc = None"
  then show "(s2, s) \<in> measure length"
    using length_dropWhile_le [of "\<lambda>c. c \<noteq> ESC" s] scan_report_shorter [of s1] by (metis Suc_le_lessD in_measure le_trans length_Cons not_less_eq_eq snd_conv)
qed simp

declare location.simps [simp del]

subsection \<open>Drawing\<close>

definition pos_text :: "int \<Rightarrow> int \<Rightarrow> string" where
  "pos_text r c = ESC # ''['' @ decimal r @ '';'' @ decimal c @ ''H''"

definition pos :: "int \<Rightarrow> int \<Rightarrow> terminal \<Rightarrow> terminal" where "pos r c = put (pos_text r c)"

definition clear :: "terminal \<Rightarrow> terminal" where "clear = put (ESC # ''[0J'')"

definition PROMPT :: string where "PROMPT = ''CS238P -> ''"

definition chars :: "bytes \<Rightarrow> string" where "chars = map (\<lambda>b. char_of (unat b))"

text \<open>What the loop of \<open>read_line\<close> writes before it reads a key, in row \<open>r\<close>.\<close>

definition redraw :: "int \<Rightarrow> line \<Rightarrow> terminal \<Rightarrow> terminal outcome" where
  "redraw r L t =
     obind (term_color (color_number TERM_COLOR_BLUE) (clear (pos r 1 t))) (\<lambda>t.
     obind (strlen_at (l_buf L) 0) (\<lambda>n.
       Inr (pos r (int (l_i L) + 1 + int (length PROMPT))
         (put (chars (take n (l_buf L))) (term_reset (put PROMPT (term_bold t)))))))"

text \<open>
  The loop again, with the terminal: the line, the keys not used (an escape that is not complete, or what begins with the
  newline), the row and the terminal, when it waits for a key or has read the newline.
\<close>

fun edit_screen :: "bytes list \<Rightarrow> nat \<Rightarrow> int \<Rightarrow> nat list \<Rightarrow> line \<Rightarrow> terminal \<Rightarrow> (line \<times> nat list \<times> int \<times> terminal) outcome" where
  "edit_screen hist slot r [] L t = obind (redraw r L t) (\<lambda>t. Inr (L, [], r, t))"
| "edit_screen hist slot r (k # ks) L t =
     (case redraw r L t of
        Inl e \<Rightarrow> Inl e
      | Inr t \<Rightarrow>
          if k = 27 then
            (case ks of
               _ # a # ks' \<Rightarrow> (case arrow_key hist slot a L of Inl e \<Rightarrow> Inl e | Inr L \<Rightarrow> edit_screen hist slot r ks' L t)
             | _ \<Rightarrow> Inr (L, k # ks, r, t))
          else if k = 10 then Inr (L, k # ks, r, put [NL] t)
          else if k = 12 then edit_screen hist slot 1 ks L (pos 1 1 (clear t))
          else (case plain_key k L of Inl e \<Rightarrow> Inl e | Inr L \<Rightarrow> edit_screen hist slot r ks L t))"

subsection \<open>The report is read\<close>

lemma scan_int_digits:
  assumes "ends_number rest"
  shows "scan_int (digits n @ rest) = (Some (int n), rest)"
proof -
  obtain c cs where d: "digits n = c # cs" by (cases "digits n") auto
  then have c: "is_digit c" using digits_are_digits [of c n] by simp
  have drop: "dropWhile is_space (digits n @ rest) = digits n @ rest" using d digit_no_space [OF c] by simp
  have all: "\<forall>x \<in> set (digits n). is_digit x" using digits_are_digits by blast
  have tk: "takeWhile is_digit (digits n @ rest) = digits n" "dropWhile is_digit (digits n @ rest) = rest"
    using all assms by (cases rest; simp add: ends_number_def takeWhile_append2 dropWhile_append2)+
  have sg: "\<not> (digits n @ rest \<noteq> [] \<and> (hd (digits n @ rest) = CHR ''-'' \<or> hd (digits n @ rest) = CHR ''+''))"
    using d digit_no_space [OF c] by simp
  show ?thesis unfolding scan_int_def drop Let_def if_not_P [OF sg] tk using sg by auto
qed

text \<open>The keys typed before the report are lost.\<close>

lemma location_report:
  assumes "plain typed"
  shows "location (typed @ ESC # ''['' @ digits r @ '';'' @ digits c @ ''R'' @ rest) = Some (int r, int c, rest)"
proof -
  let ?rep = "''['' @ digits r @ '';'' @ digits c @ ''R'' @ rest"
  have "dropWhile (\<lambda>c. c \<noteq> ESC) (typed @ ESC # ?rep) = ESC # ?rep"
    using assms by (subst dropWhile_append2) (auto simp: plain_def list_all_iff)
  moreover have "scan_report ?rep = (Some (int r, int c), rest)"
    using scan_int_digits [of "'';'' @ digits c @ ''R'' @ rest" r] scan_int_digits [of "''R'' @ rest" c]
    by (simp add: scan_report_def ends_number_def is_digit_def)
  ultimately show ?thesis by (subst location.simps) simp
qed

subsection \<open>The last line drawn\<close>

lemma reads_pos: "reads t s \<Longrightarrow> reads (pos r c t) s"
proof -
  have "escape (ESC # (''['' @ decimal r @ '';'' @ decimal c) @ ''H'')"
    by (rule escapeI) (simp_all add: decimal_no_letter letters is_letter_def [of "CHR '';''"] is_letter_def [of "CHR ''H''"])
  then show "reads t s \<Longrightarrow> reads (pos r c t) s" using reads_escape [of t s] by (simp add: pos_def pos_text_def)
qed

text \<open>What the terminal got last: the line drawn, and the newline when one was typed.\<close>

definition last_drawn :: "int \<Rightarrow> line \<Rightarrow> nat list \<Rightarrow> terminal \<Rightarrow> bool" where
  "last_drawn r L pending t \<longleftrightarrow>
     (\<exists>t0 t1. redraw r L t0 = Inr t1 \<and> t = (if pending \<noteq> [] \<and> hd pending = 10 then put [NL] t1 else t1))"

lemma edit_screen_edit:
  assumes "edit_screen hist slot r keys L t = Inr (L', pending, r', t')"
  shows "edit hist slot (keys @ later) L = edit hist slot (pending @ later) L' \<and> (r' = r \<or> r' = 1) \<and> last_drawn r' L' pending t'"
  using assms
proof (induction hist slot r keys L t rule: edit_screen.induct)
  case (1 hist slot r L t)
  then show ?case by (auto simp: obind_eq_Inr last_drawn_def)
next
  case (2 hist slot r k ks L t)
  then obtain t1 where d: "redraw r L t = Inr t1" by (cases "redraw r L t") auto
  consider (short) "k = 27" "length ks < 2" | (arrow) x a ks' where "k = 27" "ks = x # a # ks'"
    | (newline) "k = 10" | (clear) "k = 12" | (key) "k \<noteq> 27" "k \<noteq> 10" "k \<noteq> 12"
    by (cases ks rule: list.exhaust; cases "tl ks") auto
  then show ?case
  proof cases
    case short
    then have "Inr (L, k # ks, r, t1) = (Inr (L', pending, r', t') :: (line \<times> nat list \<times> int \<times> terminal) outcome)"
      using "2.prems" d by (cases ks rule: list.exhaust; cases "tl ks") auto
    then show ?thesis using short d by (auto simp: last_drawn_def)
  next
    case arrow
    then obtain L1 where "arrow_key hist slot a L = Inr L1" "edit_screen hist slot r ks' L1 t1 = Inr (L', pending, r', t')"
      using "2.prems" d by (auto split: sum.splits)
    then show ?thesis using "2.IH"(1) [OF d arrow(1,2) refl] arrow by simp
  next
    case newline
    then have "L = L'" "pending = 10 # ks" "r = r'" "t' = put [NL] t1" using "2.prems" d by auto
    then show ?thesis using newline d by (auto simp: last_drawn_def)
  next
    case clear
    then have "edit_screen hist slot 1 ks L (pos 1 1 (Display.clear t1)) = Inr (L', pending, r', t')" using "2.prems" d by simp
    from "2.IH"(2) [OF d _ _ clear this] clear show ?thesis by (auto simp: plain_key_def)
  next
    case key
    then obtain L1 where "plain_key k L = Inr L1" "edit_screen hist slot r ks L1 t1 = Inr (L', pending, r', t')"
      using "2.prems" d by (auto split: sum.splits)
    then show ?thesis using "2.IH"(3) [OF d key] key by simp
  qed
qed

subsection \<open>The parts put together\<close>

text \<open>
  \<open>read_line\<close> on the input from the terminal: the row and column that \<open>location\<close> got, and the line read from the keys after the
  terminal's answer. \<open>None\<close> while it waits.
\<close>

definition tty_read_line :: "string \<Rightarrow> shell_state \<Rightarrow> (int \<times> int \<times> bytes option \<times> nat list \<times> shell_state) option outcome" where
  "tty_read_line input s =
     (case location input of
        None \<Rightarrow> Inr None
      | Some (r, c, rest) \<Rightarrow> obind (read_line (map of_char rest) s) (\<lambda>x. Inr (map_option (\<lambda>x. (r, c, x)) x)))"

text \<open>What is typed before the answer arrives is lost.\<close>

theorem typed_ahead_lost:
  assumes "plain typed"
  shows "tty_read_line (typed @ ESC # ''['' @ digits r @ '';'' @ digits c @ ''R'' @ rest) s =
    tty_read_line (ESC # ''['' @ digits r @ '';'' @ digits c @ ''R'' @ rest) s"
  using location_report [OF assms, of r c rest] location_report [of "[]" r c rest] by (simp add: tty_read_line_def plain_def)

text \<open>\<open>shell\<close> between \<open>configure\<close> and \<open>restore\<close>, each of which may end the program.\<close>

definition tty_shell :: "bool \<Rightarrow> bool \<Rightarrow> bool \<Rightarrow> tty \<Rightarrow> ('a \<Rightarrow> bytes \<Rightarrow> (int \<times> bytes \<times> 'a) outcome) \<Rightarrow> nat list \<Rightarrow> shell_state \<Rightarrow> 'a \<Rightarrow>
    ('a \<times> shell_state \<times> tty) option outcome" where
  "tty_shell got ok ok' y fnc keys s x =
     obind (configure got ok y) (\<lambda>y.
     obind (shell fnc keys s x) (\<lambda>res.
       case res of
         None \<Rightarrow> Inr None
       | Some (x, s) \<Rightarrow> obind (restore ok' y) (\<lambda>y. Inr (Some (x, s, y)))))"

theorem tty_shell_restores:
  assumes "tty_shell got ok ok' y fnc keys s x = Inr (Some (x', s', y'))"
  shows "shell fnc keys s x = Inr (Some (x', s'))" and "tty_now y' = tty_now y"
  using assms restore_configure(1) by (auto simp: tty_shell_def obind_eq_Inr split: option.splits)

end
