(* ===== verification/Screen.thy ===== *)
theory Screen
  imports Display
begin

section \<open>What the terminal shows\<close>

text \<open>
  A terminal of \<open>w\<close> columns that understands what the line editor writes: characters, the newline, the movement of the cursor (\<open>POS\<close>) and the
  erasing of all behind it (\<open>CLEAR\<close>). Other escape sequences (colours) change nothing that is shown. Rows are not limited: scrolling is left
  out. With it, \<open>screen_shows_line\<close> says what is on the screen while a line is edited.
\<close>

subsection \<open>The screen\<close>

text \<open>The place of the cursor, the characters, and what was read of an escape sequence. Rows and columns count from 1.\<close>

record screen =
  sc_row :: nat
  sc_col :: nat
  sc_cell :: "nat \<Rightarrow> nat \<Rightarrow> char"
  sc_esc :: "string option"

definition write_char :: "nat \<Rightarrow> char \<Rightarrow> screen \<Rightarrow> screen" where
  "write_char w c S =
     (let S = (if w < sc_col S then S\<lparr>sc_row := sc_row S + 1, sc_col := 1\<rparr> else S)
      in S\<lparr>sc_col := sc_col S + 1, sc_cell := (sc_cell S)(sc_row S := (sc_cell S (sc_row S))(sc_col S := c))\<rparr>)"

definition erase_below :: "screen \<Rightarrow> screen" where
  "erase_below S = S\<lparr>sc_cell := \<lambda>r c. if sc_row S < r \<or> r = sc_row S \<and> sc_col S \<le> c then CHR '' '' else sc_cell S r c\<rparr>"

text \<open>The sequence that begins with \<open>ps\<close> and ends with the letter \<open>c\<close>.\<close>

definition control :: "nat \<Rightarrow> string \<Rightarrow> char \<Rightarrow> screen \<Rightarrow> screen" where
  "control w ps c S =
     (if c = CHR ''H'' then
        (let ds = tl ps; r = digits_value (takeWhile is_digit ds); k = digits_value (takeWhile is_digit (tl (dropWhile is_digit ds)))
         in S\<lparr>sc_row := max 1 r, sc_col := max 1 (min w k)\<rparr>)
      else if c = CHR ''J'' then erase_below S
      else S)"

definition feed :: "nat \<Rightarrow> char \<Rightarrow> screen \<Rightarrow> screen" where
  "feed w c S =
     (if c = ESC then S\<lparr>sc_esc := Some []\<rparr>
      else
        (case sc_esc S of
           Some ps \<Rightarrow> if is_letter c then control w ps c (S\<lparr>sc_esc := None\<rparr>) else S\<lparr>sc_esc := Some (ps @ [c])\<rparr>
         | None \<Rightarrow> if c = NL then S\<lparr>sc_row := sc_row S + 1, sc_col := 1\<rparr> else write_char w c S))"

definition display :: "nat \<Rightarrow> string \<Rightarrow> screen \<Rightarrow> screen" where
  "display w s = fold (feed w) s"

definition shown_row :: "nat \<Rightarrow> nat \<Rightarrow> screen \<Rightarrow> string" where
  "shown_row w r S = map (sc_cell S r) [1..<Suc w]"

definition printable :: "char \<Rightarrow> bool" where
  "printable c \<longleftrightarrow> 32 \<le> (of_char c :: nat) \<and> (of_char c :: nat) < 127"

subsection \<open>Pieces of output\<close>

lemma display_append: "display w (s @ s') S = display w s' (display w s S)"
  by (simp add: display_def)

lemma display_Nil [simp]: "display w [] S = S"
  by (simp add: display_def)

lemma display_simps: "display w [] S = S" "display w (c # s) S = display w s (feed w c S)"
  by (simp_all add: display_def)

lemma no_letters_no_esc: "list_all (\<lambda>c. \<not> is_letter c) ps \<Longrightarrow> ESC \<notin> set ps \<Longrightarrow> sc_esc S = Some qs \<Longrightarrow>
    display w ps S = S\<lparr>sc_esc := Some (qs @ ps)\<rparr>"
proof (induction ps arbitrary: S qs)
  case (Cons c ps)
  then have "feed w c S = S\<lparr>sc_esc := Some (qs @ [c])\<rparr>" by (auto simp: feed_def)
  with Cons.IH [of "S\<lparr>sc_esc := Some (qs @ [c])\<rparr>" "qs @ [c]"] Cons.prems show ?case by (simp add: display_simps)
qed (simp add: display_simps)

text \<open>An escape sequence, whatever came before it.\<close>

lemma display_escape:
  assumes "list_all (\<lambda>c. \<not> is_letter c) ps" and "ESC \<notin> set ps" and "is_letter c"
  shows "display w (ESC # ps @ [c]) S = control w ps c (S\<lparr>sc_esc := None\<rparr>)"
proof -
  have "c \<noteq> ESC" using assms(3) by (auto simp: is_letter_def ESC_def)
  moreover have "display w ps (S\<lparr>sc_esc := Some []\<rparr>) = S\<lparr>sc_esc := Some ps\<rparr>"
    using no_letters_no_esc [OF assms(1,2), of "S\<lparr>sc_esc := Some []\<rparr>" "[]"] by simp
  ultimately show ?thesis using assms(3) by (simp add: display_append display_simps feed_def)
qed

lemma ESC_no_digit: "\<not> is_digit ESC"
  by (simp add: is_digit_def ESC_def)

lemma digits_no_ESC: "ESC \<notin> set (digits n)"
  using digits_are_digits ESC_no_digit by blast

lemma takeWhile_digits: "ends_number rest \<Longrightarrow> takeWhile is_digit (digits n @ rest) = digits n \<and> dropWhile is_digit (digits n @ rest) = rest"
proof -
  assume e: "ends_number rest"
  have all: "\<forall>x \<in> set (digits n). is_digit x" using digits_are_digits by blast
  then show ?thesis using e by (cases rest; simp add: ends_number_def takeWhile_append2 dropWhile_append2)
qed

lemma display_pos:
  assumes "1 \<le> r" and "1 \<le> c" and "c \<le> w"
  shows "display w (pos_text (int r) (int c)) S = S\<lparr>sc_row := r, sc_col := c, sc_esc := None\<rparr>"
proof -
  let ?ps = "''['' @ digits r @ '';'' @ digits c"
  have "pos_text (int r) (int c) = ESC # ?ps @ ''H''" by (simp add: pos_text_def decimal_def)
  moreover have "list_all (\<lambda>c. \<not> is_letter c) ?ps" "ESC \<notin> set ?ps" "is_letter CHR ''H''"
    using digits_no_letter digits_no_ESC by (auto simp: is_letter_def ESC_def)
  moreover have "takeWhile is_digit (tl ?ps) = digits r" "dropWhile is_digit (tl ?ps) = '';'' @ digits c"
    using takeWhile_digits [of "'';'' @ digits c" r] by (auto simp: ends_number_def is_digit_def [of "CHR '';''"])
  moreover have "takeWhile is_digit (digits c) = digits c" using digits_are_digits by (intro takeWhile_eq_all_conv [THEN iffD2]) blast
  then have "digits_value (takeWhile is_digit (digits c)) = c" by (simp only: digits_value_digits)
  ultimately show ?thesis using display_escape [of ?ps "CHR ''H''" w S] by (simp only: control_def Let_def) (use assms in simp)
qed

lemma display_clear: "display w (ESC # ''[0J'') S = erase_below (S\<lparr>sc_esc := None\<rparr>)"
  using display_escape [of "''[0''" "CHR ''J''" w S] by (simp add: is_letter_def ESC_def control_def)

text \<open>A sequence for colours changes nothing.\<close>

definition invisible :: "string \<Rightarrow> bool" where
  "invisible s \<longleftrightarrow> (\<forall>w S. sc_esc S = None \<longrightarrow> display w s S = S)"

lemma invisible_append: "invisible s \<Longrightarrow> invisible s' \<Longrightarrow> invisible (s @ s')"
  by (simp add: invisible_def display_append)

lemma invisible_escape:
  "list_all (\<lambda>c. \<not> is_letter c) ps \<Longrightarrow> ESC \<notin> set ps \<Longrightarrow> is_letter c \<Longrightarrow> c \<noteq> CHR ''H'' \<Longrightarrow> c \<noteq> CHR ''J'' \<Longrightarrow> invisible (ESC # ps @ [c])"
  unfolding invisible_def by (simp add: display_escape control_def)

lemma invisible_color: "invisible (ESC # ''['' @ decimal (int k) @ ''m'')"
  using invisible_escape [of "''['' @ digits k" "CHR ''m''"] digits_no_letter digits_no_ESC
  by (simp add: is_letter_def ESC_def decimal_def)

lemma invisible_bold: "\<exists>s. t_out (term_bold t) = t_out t @ s \<and> invisible s"
  using invisible_escape [of "''[1''" "CHR ''m''"]
  by (cases "t_nocolor t") (auto simp: term_bold_def put_def is_letter_def ESC_def invisible_def)

lemma invisible_reset: "\<exists>s. t_out (term_reset t) = t_out t @ s \<and> invisible s"
  using invisible_append [OF invisible_escape [of "''[?25''" "CHR ''h''"] invisible_escape [of "''[0''" "CHR ''m''"]]
  by (cases "t_nocolor t") (auto simp: term_reset_def put_def is_letter_def ESC_def invisible_def)

text \<open>Text that fits into the row.\<close>

lemma display_text:
  assumes "\<forall>c \<in> set s. printable c" and "sc_esc S = None" and "sc_col S + length s \<le> Suc w"
  shows "display w s S = S\<lparr>sc_col := sc_col S + length s,
    sc_cell := \<lambda>r c. if r = sc_row S \<and> sc_col S \<le> c \<and> c < sc_col S + length s then s ! (c - sc_col S) else sc_cell S r c\<rparr>"
  using assms
proof (induction s arbitrary: S)
  case Nil
  then show ?case by (cases S) (auto simp: display_simps fun_eq_iff)
next
  case (Cons c s)
  have c: "c \<noteq> ESC" "c \<noteq> NL" using Cons.prems(1) by (auto simp: printable_def ESC_def NL_def)
  let ?S = "S\<lparr>sc_col := sc_col S + 1, sc_cell := (sc_cell S)(sc_row S := (sc_cell S (sc_row S))(sc_col S := c))\<rparr>"
  have f: "feed w c S = ?S" using c Cons.prems(2,3) by (simp add: feed_def write_char_def)
  have "display w s ?S = ?S\<lparr>sc_col := sc_col ?S + length s,
    sc_cell := \<lambda>r k. if r = sc_row ?S \<and> sc_col ?S \<le> k \<and> k < sc_col ?S + length s then s ! (k - sc_col ?S) else sc_cell ?S r k\<rparr>"
    by (rule Cons.IH) (use Cons.prems in auto)
  then show ?case unfolding display_simps f
    by (auto simp: fun_eq_iff nth_Cons' intro!: arg_cong [of _ _ "\<lambda>x. S\<lparr>sc_col := _, sc_cell := x\<rparr>"])
qed

lemma display_text_at:
  assumes "\<forall>c \<in> set s. printable c" and "sc_esc S = None" and "sc_row S = r" and "sc_col S = k" and "length s = n" and "k + n \<le> Suc w"
  shows "display w s S = S\<lparr>sc_col := k + n,
    sc_cell := \<lambda>r' c. if r' = r \<and> k \<le> c \<and> c < k + n then s ! (c - k) else sc_cell S r' c\<rparr>"
  using display_text [OF assms(1,2)] assms(6) unfolding assms(3-5) .

subsection \<open>A line that is drawn\<close>

lemma chars_printable: "\<forall>b \<in> set bs. 32 \<le> b \<and> b < 127 \<Longrightarrow> \<forall>c \<in> set (chars bs). printable c"
proof
  fix c
  assume bs: "\<forall>b \<in> set bs. 32 \<le> b \<and> b < 127" and "c \<in> set (chars bs)"
  then obtain b where b: "b \<in> set bs" "c = char_of (unat b)" by (auto simp: chars_def)
  have "32 \<le> unat b" "unat b < 127" using bs b(1) by (auto simp: word_le_nat_alt word_less_nat_alt)
  then show "printable c" using b(2) by (simp add: printable_def of_char_of)
qed

text \<open>
  \<open>redraw\<close> on any screen: the row has the prompt and the line and nothing else, all below is empty, the rows above are what they were, and
  the cursor is where the next key acts.
\<close>

definition shows_line :: "nat \<Rightarrow> nat \<Rightarrow> line \<Rightarrow> nat \<Rightarrow> screen \<Rightarrow> bool" where
  "shows_line w r L n S \<longleftrightarrow>
     shown_row w r S = PROMPT @ chars (take n (l_buf L)) @ replicate (w - (10 + n)) CHR '' '' \<and>
     (\<forall>k > r. \<forall>c. sc_cell S k c = CHR '' '')"

lemma redraw_output:
  assumes d: "redraw (int r) L t = Inr t'" and n: "strlen_at (l_buf L) 0 = Inr n"
  obtains s1 s2 where "t_out t' = t_out t @ pos_text (int r) (int 1) @ (ESC # ''[0J'') @ s1 @ PROMPT @ s2 @ chars (take n (l_buf L)) @
      pos_text (int r) (int (l_i L + 11))" "invisible s1" "invisible s2"
proof -
  let ?text = "chars (take n (l_buf L))"
  obtain b where b: "\<And>t. t_out (term_bold t) = t_out t @ b t" "\<And>t. invisible (b t)" using invisible_bold by metis
  obtain rs where rs: "\<And>t. t_out (term_reset t) = t_out t @ rs t" "\<And>t. invisible (rs t)" using invisible_reset by metis
  have inv0: "invisible []" by (simp add: invisible_def)
  obtain t1 col where t1: "term_color (color_number TERM_COLOR_BLUE) (clear (pos (int r) 1 t)) = Inr t1"
    "t_out t1 = t_out t @ pos_text (int r) (int 1) @ (ESC # ''[0J'') @ col" "invisible col"
  proof (cases "t_nocolor t")
    case True
    then show ?thesis using that [of "clear (pos (int r) 1 t)" "[]"] inv0 by (simp add: term_color_def clear_def pos_def put_def)
  next
    case False
    then show ?thesis using that [of "put (ESC # ''['' @ decimal (int 34) @ ''m'') (clear (pos (int r) 1 t))"] invisible_color [of 34]
      by (simp add: term_color_def clear_def pos_def put_def)
  qed
  have t': "t' = pos (int r) (int (l_i L) + 1 + int (length PROMPT)) (put ?text (term_reset (put PROMPT (term_bold t1))))"
    using d n t1(1) by (simp add: redraw_def)
  have "int (l_i L) + 1 + int (length PROMPT) = int (l_i L + 11)" by (simp add: PROMPT_def)
  then have "t_out t' = t_out t @ pos_text (int r) (int 1) @ (ESC # ''[0J'') @ (col @ b t1) @ PROMPT @ rs (put PROMPT (term_bold t1)) @
      ?text @ pos_text (int r) (int (l_i L + 11))"
    unfolding t' by (simp add: pos_def put_def b(1) rs(1) t1(2) add.commute)
  then show thesis using that invisible_append [OF t1(3) b(2)] rs(2) by blast
qed

lemma redraw_screen:
  assumes d: "redraw (int r) L t = Inr t'" and n: "strlen_at (l_buf L) 0 = Inr n"
    and p: "\<forall>b \<in> set (take n (l_buf L)). 32 \<le> b \<and> b < 127" and fit: "10 + n \<le> w" "l_i L + 11 \<le> w" and r: "1 \<le> r"
  shows "shows_line w r L n (display w (t_out t') S)" and "sc_row (display w (t_out t') S) = r"
    and "sc_col (display w (t_out t') S) = l_i L + 11" and "sc_esc (display w (t_out t') S) = None"
    and "\<forall>k < r. sc_cell (display w (t_out t') S) k = sc_cell (display w (t_out t) S) k"
proof -
  let ?text = "chars (take n (l_buf L))" and ?S0 = "display w (t_out t) S"
  have len: "length ?text = n" using n by (auto simp: chars_def strlen_at_def Let_def split: if_splits)
  obtain s1 s2 where out: "t_out t' = t_out t @ pos_text (int r) (int 1) @ (ESC # ''[0J'') @ s1 @ PROMPT @ s2 @ ?text @ pos_text (int r) (int (l_i L + 11))"
    "invisible s1" "invisible s2"
    using redraw_output [OF d n] .
  have w1: "1 \<le> w" using fit(1) by simp
  obtain S1 where S1: "display w (t_out t @ pos_text (int r) (int 1) @ (ESC # ''[0J'') @ s1) S = S1" "sc_esc S1 = None" "sc_col S1 = 1"
    "sc_row S1 = r" "sc_cell S1 = (\<lambda>k c. if r < k \<or> k = r \<and> 1 \<le> c then CHR '' '' else sc_cell ?S0 k c)"
  proof -
    have "display w (t_out t @ pos_text (int r) (int 1) @ (ESC # ''[0J'') @ s1) S = erase_below (?S0\<lparr>sc_row := r, sc_col := 1, sc_esc := None\<rparr>)"
      unfolding display_append display_pos [OF r order_refl w1] display_clear using out(2) by (simp add: invisible_def erase_below_def)
    then show ?thesis by (rule that) (simp_all add: erase_below_def fun_eq_iff)
  qed
  have pr: "\<forall>c \<in> set PROMPT. printable c" by (simp add: PROMPT_def printable_def)
  have len10: "length PROMPT = 10" by (simp add: PROMPT_def)
  let ?S2 = "S1\<lparr>sc_col := 11, sc_cell := \<lambda>k c. if k = r \<and> 1 \<le> c \<and> c < 11 then PROMPT ! (c - 1) else sc_cell S1 k c\<rparr>"
  have S2: "display w PROMPT S1 = ?S2"
    using display_text_at [OF pr S1(2) S1(4) S1(3) len10, of w] fit by simp
  let ?S3 = "?S2\<lparr>sc_col := 11 + n, sc_cell := \<lambda>k c. if k = r \<and> 11 \<le> c \<and> c < 11 + n then ?text ! (c - 11) else sc_cell ?S2 k c\<rparr>"
  have S3: "display w ?text ?S2 = ?S3"
    by (rule display_text_at [OF chars_printable [OF p] _ _ _ len]) (use fit S1(2-4) in simp_all)
  have fin: "display w (t_out t') S = ?S3\<lparr>sc_row := r, sc_col := l_i L + 11, sc_esc := None\<rparr>"
  proof -
    have split: "display w (X @ PROMPT @ s2 @ ?text @ P) S = display w P (display w ?text (display w s2 (display w PROMPT (display w X S))))"
      for X P by (simp only: display_append)
    have "t_out t' = (t_out t @ pos_text (int r) (int 1) @ (ESC # ''[0J'') @ s1) @ PROMPT @ s2 @ ?text @ pos_text (int r) (int (l_i L + 11))"
      unfolding out(1) by simp
    moreover have "display w s2 ?S2 = ?S2" using out(3) S1(2) by (simp add: invisible_def)
    moreover have "display w (pos_text (int r) (int (l_i L + 11))) X = X\<lparr>sc_row := r, sc_col := l_i L + 11, sc_esc := None\<rparr>" for X
      by (rule display_pos [OF r _ fit(2)]) simp
    ultimately show ?thesis by (simp only: split S1(1) S2 S3)
  qed
  show "sc_row (display w (t_out t') S) = r" "sc_col (display w (t_out t') S) = l_i L + 11" "sc_esc (display w (t_out t') S) = None"
    unfolding fin by simp_all
  show "\<forall>k < r. sc_cell (display w (t_out t') S) k = sc_cell ?S0 k" unfolding fin by (simp add: S1(5) fun_eq_iff)
  have "shown_row w r (display w (t_out t') S) = PROMPT @ ?text @ replicate (w - (10 + n)) CHR '' ''"
  proof (rule nth_equalityI)
    show "length (shown_row w r (display w (t_out t') S)) = length (PROMPT @ ?text @ replicate (w - (10 + n)) CHR '' '')"
      using fit by (simp add: shown_row_def len10 len del: upt_Suc)
    fix i
    assume "i < length (shown_row w r (display w (t_out t') S))"
    then have i: "i < w" by (simp add: shown_row_def del: upt_Suc)
    then have "shown_row w r (display w (t_out t') S) ! i = sc_cell (display w (t_out t') S) r (Suc i)"
      by (simp add: shown_row_def del: upt_Suc)
    also have "\<dots> = (if 10 \<le> i \<and> i < 10 + n then ?text ! (i - 10) else if i < 10 then PROMPT ! i else CHR '' '')"
      unfolding fin by (auto simp: S1(5))
    also have "\<dots> = (PROMPT @ ?text @ replicate (w - (10 + n)) CHR '' '') ! i"
      using i fit by (auto simp: nth_append len len10)
    finally show "shown_row w r (display w (t_out t') S) ! i = (PROMPT @ ?text @ replicate (w - (10 + n)) CHR '' '') ! i" .
  qed
  moreover have "\<forall>k > r. \<forall>c. sc_cell (display w (t_out t') S) k c = CHR '' ''" unfolding fin by (simp add: S1(5))
  ultimately show "shows_line w r L n (display w (t_out t') S)" by (simp add: shows_line_def)
qed

subsection \<open>Properties\<close>

text \<open>
  C33: after any keys, and whatever the terminal showed before, the line on the screen is the one the editor works on: the editor goes on from
  it as from the start, and if the line fits into its row and is printable, the row has the prompt and the line and nothing else, the screen below is
  empty, and the cursor is where the next key acts, or at the start of the next row after the newline.
\<close>

theorem screen_shows_line:
  assumes "edit_screen hist slot r keys L t = Inr (L', pending, r', t')" and "0 < r"
  shows "edit hist slot (keys @ later) L = edit hist slot (pending @ later) L' \<and>
    (\<exists>n. strlen_at (l_buf L') 0 = Inr n \<and>
      (10 + n \<le> w \<and> l_i L' + 11 \<le> w \<and> (\<forall>b \<in> set (take n (l_buf L')). 32 \<le> b \<and> b < 127) \<longrightarrow>
        (let T = display w (t_out t') S in
           shows_line w (nat r') L' n T \<and>
           (sc_row T, sc_col T) = (if pending \<noteq> [] \<and> hd pending = 10 then (nat r' + 1, 1) else (nat r', l_i L' + 11)))))"
proof -
  note e = edit_screen_edit [OF assms(1), of later]
  have r: "0 < r'" using e assms(2) by auto
  obtain t0 t1 where t1: "redraw (int (nat r')) L' t0 = Inr t1" "t' = (if pending \<noteq> [] \<and> hd pending = 10 then put [NL] t1 else t1)"
    using e r by (auto simp: last_drawn_def)
  then obtain n where n: "strlen_at (l_buf L') 0 = Inr n" by (auto simp: redraw_def obind_eq_Inr)
  let ?T = "display w (t_out t1) S"
  have T: "shows_line w (nat r') L' n ?T" "sc_row ?T = nat r'" "sc_col ?T = l_i L' + 11" "sc_esc ?T = None"
    if "10 + n \<le> w" "l_i L' + 11 \<le> w" "\<forall>b \<in> set (take n (l_buf L')). 32 \<le> b \<and> b < 127"
    using redraw_screen(1-4) [OF t1(1) n that(3,1,2)] r by auto
  have "NL \<noteq> ESC" by (simp add: NL_def ESC_def)
  then have "display w (t_out t') S = (if pending \<noteq> [] \<and> hd pending = 10 then ?T\<lparr>sc_row := sc_row ?T + 1, sc_col := 1\<rparr> else ?T)"
    if "sc_esc ?T = None"
    using that t1(2) by (simp add: put_def display_append display_simps feed_def)
  then show ?thesis using e n T by (auto simp: Let_def shows_line_def shown_row_def)
qed

text \<open>Three keys, \<open>h\<close>, \<open>i\<close> and the left arrow, on a terminal of 16 columns that was full of \<open>x\<close>.\<close>

theorem screen_shows_line_witness:
  "\<exists>L t. edit_screen [] 0 5 [104, 105, 27, 91, 68] \<lparr>l_buf = [0, 0, 0, 0], l_i = 0, l_n = 0, l_j = 0\<rparr>
      \<lparr>t_nocolor = True, t_out = []\<rparr> = Inr (L, [], 5, t) \<and>
    shown_row 16 5 (display 16 (t_out t) \<lparr>sc_row = 5, sc_col = 3, sc_cell = \<lambda>_ _. CHR ''x'', sc_esc = None\<rparr>) = ''CS238P -> hi    ''"
proof -
  let ?L = "\<lparr>l_buf = [104, 105, 0, 0], l_i = 1, l_n = 2, l_j = 0\<rparr>"
  let ?S = "\<lparr>sc_row = 5, sc_col = 3, sc_cell = \<lambda>_ _. CHR ''x'', sc_esc = None\<rparr>"
  have "\<exists>t. edit_screen [] 0 5 [104, 105, 27, 91, 68] \<lparr>l_buf = [0, 0, 0, 0], l_i = 0, l_n = 0, l_j = 0\<rparr>
      \<lparr>t_nocolor = True, t_out = []\<rparr> = Inr (?L, [], 5, t)"
    by (simp add: redraw_def term_color_def clear_def pos_def put_def term_bold_def term_reset_def strlen_at_def plain_key_def isprint_def
        print_key_def poke_def arrow_key_def N_def Let_def)
  then obtain t where t: "edit_screen [] 0 5 [104, 105, 27, 91, 68] \<lparr>l_buf = [0, 0, 0, 0], l_i = 0, l_n = 0, l_j = 0\<rparr>
      \<lparr>t_nocolor = True, t_out = []\<rparr> = Inr (?L, [], 5, t)" by blast
  have h: "char_of (104 :: nat) = CHR ''h''" "char_of (105 :: nat) = CHR ''i''" by code_simp+
  have blanks: "replicate 4 CHR '' '' = ''    ''" by (simp add: numeral_eq_Suc)
  have "shows_line 16 5 ?L 2 (display 16 (t_out t) ?S)"
    using screen_shows_line [OF t, of "[]" 16 ?S] by (auto simp: strlen_at_def Let_def simp flip: numeral_2_eq_2)
  then have "shown_row 16 5 (display 16 (t_out t) ?S) = ''CS238P -> hi    ''"
    by (simp add: shows_line_def PROMPT_def chars_def h blanks)
  with t show ?thesis by blast
qed

end
