(* ===== verification/Monitor.thy ===== *)
theory Monitor
  imports Scan
begin

section \<open>The system monitor (\<open>project-5/main.c\<close>)\<close>

text \<open>
  The monitor reads files of \<open>/proc\<close> and prints numbers computed from them. A file is its text, or \<open>None\<close> when it cannot be
  opened. Doubles are a type \<open>'d\<close> with the operations the program uses, of which nothing is assumed.
\<close>

record 'd double_ops =
  f_of :: "nat \<Rightarrow> 'd"
  f_sub :: "'d \<Rightarrow> 'd \<Rightarrow> 'd"
  f_mul :: "'d \<Rightarrow> 'd \<Rightarrow> 'd"
  f_div :: "'d \<Rightarrow> 'd \<Rightarrow> 'd"

datatype 'd printed =
    Memory 'd 'd 'd 'd 'd  \<comment> \<open>total, free, used and cached in MiB, and the use in per cent\<close>
  | Network 'd 'd  \<comment> \<open>transmitted and received, in per cent\<close>
  | Disk 'd 'd  \<comment> \<open>read and written, in per cent\<close>

subsection \<open>Lines\<close>

text \<open>\<open>fgets\<close> for a buffer of \<open>n + 1\<close> characters, and all the lines it gives.\<close>

definition fgets :: "nat \<Rightarrow> string \<Rightarrow> string" where
  "fgets n f =
     (let l = take n f; w = takeWhile (\<lambda>c. c \<noteq> CHR 0x0A) l in if length w < length l then w @ [CHR 0x0A] else l)"

lemma fgets_some: "0 < n \<Longrightarrow> f \<noteq> [] \<Longrightarrow> fgets n f \<noteq> []"
  by (auto simp: fgets_def Let_def)

function file_lines :: "nat \<Rightarrow> string \<Rightarrow> string list" where
  "file_lines n f = (if f = [] \<or> n = 0 then [] else fgets n f # file_lines n (drop (length (fgets n f)) f))"
  by pat_completeness auto
termination
  by (relation "measure (\<lambda>(n, f). length f)") (use fgets_some in \<open>auto\<close>)

declare file_lines.simps [simp del]

fun strstr :: "string \<Rightarrow> string \<Rightarrow> string option" where
  "strstr s p = (if take (length p) s = p then Some s else case s of [] \<Rightarrow> None | c # t \<Rightarrow> strstr t p)"

declare strstr.simps [simp del]

subsection \<open>The processor\<close>

text \<open>The static variables \<open>sum_\<close> and \<open>vector_\<close> are an argument and part of the result; \<open>unsigned\<close> has 32 bits.\<close>

definition add32 :: "nat \<Rightarrow> nat \<Rightarrow> nat" where "add32 a b = (a + b) mod 2 ^ 32"
definition sub32 :: "nat \<Rightarrow> nat \<Rightarrow> nat" where "sub32 a b = (a + (2 ^ 32 - b mod 2 ^ 32)) mod 2 ^ 32"

fun num_of :: "scanned \<Rightarrow> nat" where
  "num_of (Num n) = n"
| "num_of (Word w) = 0"

definition cpu_util :: "'d double_ops \<Rightarrow> nat \<times> nat list \<Rightarrow> string \<Rightarrow> 'd \<times> nat \<times> nat list" where
  "cpu_util F old s =
     (case old of (sum_, vector_) \<Rightarrow>
        (case strstr s '' '' of
           None \<Rightarrow> (f_of F 0, sum_, vector_)
         | Some p \<Rightarrow>
             let vector = map num_of (sscanf (replicate 7 (Uint 32)) p) in
             if length vector \<noteq> 7 then (f_of F 0, sum_, vector_)
             else
               let sum = fold (\<lambda>v s. add32 s v) vector 0;
                   util = f_mul F (f_sub F (f_of F 1)
                     (f_div F (f_of F (sub32 (vector ! 3) (vector_ ! 3))) (f_of F (sub32 sum sum_)))) (f_of F 100)
               in (util, sum, vector)))"

subsection \<open>The memory\<close>

record meminfo =
  mem_total :: nat
  mem_free :: nat
  mem_buffers :: nat
  mem_cached :: nat
  swap_total :: nat
  swap_free :: nat

definition kBtoB :: "nat \<Rightarrow> nat" where "kBtoB v = v * 1024 mod 2 ^ 64"

definition field :: "string \<Rightarrow> string \<Rightarrow> nat option" where
  "field name line =
     (case sscanf [Lit (name @ '':''), Uint 64] line of [Num n] \<Rightarrow> Some (kBtoB n) | _ \<Rightarrow> None)"

definition mem_line :: "string \<Rightarrow> meminfo \<Rightarrow> meminfo" where
  "mem_line line m =
     (case field ''MemTotal'' line of Some n \<Rightarrow> m\<lparr>mem_total := n\<rparr> | None \<Rightarrow>
      case field ''MemFree'' line of Some n \<Rightarrow> m\<lparr>mem_free := n\<rparr> | None \<Rightarrow>
      case field ''Buffers'' line of Some n \<Rightarrow> m\<lparr>mem_buffers := n\<rparr> | None \<Rightarrow>
      case field ''Cached'' line of Some n \<Rightarrow> m\<lparr>mem_cached := n\<rparr> | None \<Rightarrow>
      case field ''SwapTotal'' line of Some n \<Rightarrow> m\<lparr>swap_total := n\<rparr> | None \<Rightarrow>
      case field ''SwapFree'' line of Some n \<Rightarrow> m\<lparr>swap_free := n\<rparr> | None \<Rightarrow> m)"

definition read_meminfo :: "string \<Rightarrow> meminfo" where
  "read_meminfo f = fold mem_line (file_lines 1023 f) \<lparr>mem_total = 0, mem_free = 0, mem_buffers = 0, mem_cached = 0, swap_total = 0, swap_free = 0\<rparr>"

definition mem_used :: "meminfo \<Rightarrow> nat" where
  "mem_used m = sub64 (sub64 (sub64 (mem_total m) (mem_free m)) (mem_cached m)) (mem_buffers m)"

definition buff_cache :: "meminfo \<Rightarrow> nat" where
  "buff_cache m = add64 (mem_buffers m) (mem_cached m)"

definition display_memory_stats :: "'d double_ops \<Rightarrow> string option \<Rightarrow> 'd printed outcome" where
  "display_memory_stats F file =
     (case file of
        None \<Rightarrow> Inl Exit_called
      | Some f \<Rightarrow>
          let m = read_meminfo f;
              mib = (\<lambda>n. f_div F (f_of F n) (f_mul F (f_of F 1024) (f_of F 1024)))
          in Inr (Memory (mib (mem_total m)) (mib (mem_free m)) (mib (mem_used m)) (mib (buff_cache m))
               (f_mul F (f_div F (f_of F (mem_used m)) (f_of F (mem_total m))) (f_of F 100))))"

subsection \<open>The network\<close>

definition calculatePacketRate :: "'d double_ops \<Rightarrow> nat \<Rightarrow> nat \<Rightarrow> nat \<Rightarrow> 'd" where
  "calculatePacketRate F packets startTime endTime =
     (if startTime < endTime then f_div F (f_of F packets) (f_of F (endTime - startTime)) else f_of F 0)"

text \<open>
  The two counters are assigned by \<open>sscanf\<close> in the first line with the interface, as far as it has numbers; they are not
  initialised.
\<close>

definition net_counters :: "string \<Rightarrow> nat option \<times> nat option" where
  "net_counters f =
     (case find (\<lambda>line. strstr line ''enp0s1:'' \<noteq> None) (file_lines 255 f) of
        None \<Rightarrow> (None, None)
      | Some line \<Rightarrow>
          let ns = map num_of (sscanf (Skip # replicate 10 (Uint 64)) line)
          in (if 0 < length ns then Some (ns ! 0) else None, if 8 < length ns then Some (ns ! 8) else None))"

definition calculate_network_stats :: "'d double_ops \<Rightarrow> nat \<Rightarrow> nat \<Rightarrow> 'd \<Rightarrow> string option \<Rightarrow> 'd printed outcome" where
  "calculate_network_stats F startTime endTime maxExpectedRate file =
     (case file of
        None \<Rightarrow> Inl Exit_called
      | Some f \<Rightarrow>
          (case net_counters f of
             (Some received, Some transmitted) \<Rightarrow>
               let percent = (\<lambda>n. f_mul F (f_div F (calculatePacketRate F n startTime endTime) maxExpectedRate) (f_of F 100))
               in Inr (Network (percent transmitted) (percent received))
           | _ \<Rightarrow> Inl Uninit_read))"

subsection \<open>The disk\<close>

definition MAX_THROUGHPUT :: nat where "MAX_THROUGHPUT = 1000000000"

text \<open>
  The variables \<open>device_name\<close>, \<open>sectors_read\<close> and \<open>sectors_written\<close> when all eleven directives match, and the name contains
  \<open>sda\<close>. The previous counts are local variables that are 0.
\<close>

definition disk_line :: "string \<Rightarrow> (nat \<times> nat) option" where
  "disk_line line =
     (case sscanf [Uint 32, Uint 32, Str 31, Uint 64, Uint 32, Uint 32, Uint 32, Uint 64, Uint 32, Uint 32, Uint 32] line of
        [_, _, Word device_name, Num sectors_read, _, _, _, Num sectors_written, _, _, _] \<Rightarrow>
          if strstr device_name ''sda'' \<noteq> None then Some (sectors_read, sectors_written) else None
      | _ \<Rightarrow> None)"

definition calculate_block_device_stats :: "'d double_ops \<Rightarrow> string option \<Rightarrow> 'd printed option outcome" where
  "calculate_block_device_stats F file =
     (case file of
        None \<Rightarrow> Inl Exit_called
      | Some f \<Rightarrow>
          (case find (\<lambda>line. disk_line line \<noteq> None) (file_lines 255 f) of
             None \<Rightarrow> Inr None
           | Some line \<Rightarrow>
               (case the (disk_line line) of (curr_blocks_read, curr_blocks_written) \<Rightarrow>
                  let prev_blocks_read = 0; prev_blocks_written = 0;
                      percent = (\<lambda>n. f_mul F (f_div F (f_div F (f_of F n) (f_of F 1)) (f_of F MAX_THROUGHPUT)) (f_of F 100))
                  in Inr (Some (Disk (percent (sub64 curr_blocks_read prev_blocks_read))
                        (percent (sub64 curr_blocks_written prev_blocks_written)))))))"

subsection \<open>\<open>main\<close>\<close>

definition SIGINT :: int where "SIGINT = 2"

text \<open>\<open>_signal_\<close>: the value it gives to \<open>done\<close>.\<close>

definition signal_handler :: "int \<Rightarrow> bool outcome" where
  "signal_handler signum = (if signum \<noteq> SIGINT then Inl Assert_failed else Inr True)"

record proc_files =
  p_meminfo :: "string option"
  p_net_dev :: "string option"
  p_diskstats :: "string option"

text \<open>
  A round of the loop, and the loop: \<open>files i\<close> is what the \<open>i\<close>-th round reads, \<open>stopped i\<close> the value of \<open>done\<close> when it is
  tested for the \<open>i\<close>-th time, which the signal handler may have set. \<open>None\<close> when the loop does not end.
\<close>

definition monitor_round :: "'d double_ops \<Rightarrow> nat \<Rightarrow> nat \<Rightarrow> proc_files \<Rightarrow> 'd printed list outcome" where
  "monitor_round F startTime endTime p =
     obind (display_memory_stats F (p_meminfo p)) (\<lambda>m.
     obind (calculate_network_stats F startTime endTime (f_of F 500000000) (p_net_dev p)) (\<lambda>n.
     obind (calculate_block_device_stats F (p_diskstats p)) (\<lambda>d.
       Inr (m # n # (case d of None \<Rightarrow> [] | Some x \<Rightarrow> [x])))))"

partial_function (option) monitor_loop :: "'d double_ops \<Rightarrow> nat \<Rightarrow> nat \<Rightarrow> (nat \<Rightarrow> proc_files) \<Rightarrow> (nat \<Rightarrow> bool) \<Rightarrow> nat \<Rightarrow>
    'd printed list outcome option" where
  "monitor_loop F startTime endTime files stopped i =
     (if stopped i then Some (Inr [])
      else
        (case monitor_round F startTime endTime (files i) of
           Inl e \<Rightarrow> Some (Inl e)
         | Inr out \<Rightarrow>
             Option.bind (monitor_loop F startTime endTime files stopped (i + 1)) (\<lambda>r.
               Some (obind r (\<lambda>rest. Inr (out @ rest))))))"

definition project5_main :: "'d double_ops \<Rightarrow> nat \<Rightarrow> bool \<Rightarrow> (nat \<Rightarrow> proc_files) \<Rightarrow> (nat \<Rightarrow> bool) \<Rightarrow>
    (int \<times> 'd printed list) outcome option" where
  "project5_main F startTime sig_ok files stopped =
     (if \<not> sig_ok then Some (Inr (-1, []))
      else
        (case monitor_loop F startTime (startTime + 60) files stopped 0 of
           None \<Rightarrow> None
         | Some (Inl e) \<Rightarrow> Some (Inl e)
         | Some (Inr out) \<Rightarrow> Some (Inr (0, out))))"

end
