(* ===== verification/Monitor_Ref.thy ===== *)
theory Monitor_Ref
  imports Monitor Complex_Main
begin

section \<open>The monitor reads what the kernel prints\<close>

text \<open>
  The texts under \<open>/proc\<close> are sequences of lines of words and decimal numbers. Reading them back gives the numbers, and the
  monitor's figures follow from those.
\<close>

subsection \<open>Lines\<close>

lemma fgets_line_of:
  assumes "NL \<notin> set l" and "length l < n"
  shows "fgets n (l @ NL # f) = l @ [NL]"
proof -
  have "take n (l @ NL # f) = l @ NL # take (n - length l - 1) f"
    using assms(2) by (simp add: take_Cons' Suc_diff_Suc)
  moreover have "takeWhile (\<lambda>c. c \<noteq> NL) (l @ NL # r) = l" for r
    using assms(1) by (subst takeWhile_append2) auto
  ultimately show ?thesis by (simp add: fgets_def NL_def [symmetric])
qed

lemma file_lines_text:
  assumes "\<forall>l \<in> set ls. NL \<notin> set l \<and> length l < n"
  shows "file_lines n (concat (map (\<lambda>l. l @ [NL]) ls)) = map (\<lambda>l. l @ [NL]) ls"
  using assms
proof (induction ls)
  case Nil
  then show ?case by (simp add: file_lines.simps)
next
  case (Cons l ls)
  then have "fgets n (l @ NL # concat (map (\<lambda>l. l @ [NL]) ls)) = l @ [NL]" "0 < n" by (auto simp: fgets_line_of)
  then show ?case using Cons by (subst file_lines.simps) simp
qed

subsection \<open>The memory\<close>

text \<open>An entry of \<open>/proc/meminfo\<close>: its name, the number of spaces, and its value in kB.\<close>

type_synonym entry = "string \<times> nat \<times> nat"

fun entry_text :: "entry \<Rightarrow> string" where
  "entry_text (name, k, v) = name @ '':'' @ replicate k CHR '' '' @ digits v @ '' kB''"

definition meminfo_text :: "entry list \<Rightarrow> string" where
  "meminfo_text es = concat (map (\<lambda>l. l @ [NL]) (map entry_text es))"

fun entry_ok :: "entry \<Rightarrow> bool" where
  "entry_ok (name, k, v) \<longleftrightarrow> CHR '':'' \<notin> set name \<and> NL \<notin> set name \<and> length name + k + length (digits v) + 4 < 1023 \<and> v < 2 ^ 64"

text \<open>The last value of a name, 0 when there is none.\<close>

definition kb :: "entry list \<Rightarrow> string \<Rightarrow> nat" where
  "kb es name = (case map_of (rev (map (\<lambda>(n, k, v). (n, v)) es)) name of None \<Rightarrow> 0 | Some v \<Rightarrow> v)"

lemma colon_prefix:
  assumes "CHR '':'' \<notin> set a" and "CHR '':'' \<notin> set b"
  shows "take (length a + 1) (b @ CHR '':'' # r) = a @ '':'' \<longleftrightarrow> a = b"
proof
  assume t: "take (length a + 1) (b @ CHR '':'' # r) = a @ '':''"
  have "takeWhile (\<lambda>c. c \<noteq> CHR '':'') (a @ '':'') = a" using assms(1) by (subst takeWhile_append2) auto
  moreover have "takeWhile (\<lambda>c. c \<noteq> CHR '':'') (b @ CHR '':'' # r) = b" using assms(2) by (subst takeWhile_append2) auto
  moreover have "a @ '':'' @ drop (length a + 1) (b @ CHR '':'' # r) = b @ CHR '':'' # r"
    by (metis append_assoc append_take_drop_id t)
  moreover have "takeWhile (\<lambda>c. c \<noteq> CHR '':'') (a @ '':'' @ u) = a" for u using assms(1) by (subst takeWhile_append2) auto
  ultimately show "a = b" by metis
qed simp

lemma field_entry:
  assumes "entry_ok (name, k, v)" and "CHR '':'' \<notin> set nm"
  shows "field nm (entry_text (name, k, v) @ [NL]) = (if nm = name then Some (kBtoB v) else None)"
proof (cases "nm = name")
  case True
  have sp: "\<forall>c \<in> set (replicate k CHR '' ''). is_space c" by (simp add: is_space_def)
  have "ends_number ('' kB'' @ [NL])" by (simp add: ends_number_def is_digit_def)
  from scan_digits [OF sp this, of 64 v] show ?thesis using True assms(1) by (simp add: field_def)
next
  case False
  then have "take (length nm + 1) (name @ CHR '':'' # r) \<noteq> nm @ '':''" for r using colon_prefix assms by auto
  then show ?thesis using False by (simp add: field_def)
qed

lemma names_plain:
  "CHR '':'' \<notin> set ''MemTotal''" "CHR '':'' \<notin> set ''MemFree''" "CHR '':'' \<notin> set ''Buffers''" "CHR '':'' \<notin> set ''Cached''"
  "CHR '':'' \<notin> set ''SwapTotal''" "CHR '':'' \<notin> set ''SwapFree''"
  by simp_all

definition empty_meminfo :: meminfo where
  "empty_meminfo = \<lparr>mem_total = 0, mem_free = 0, mem_buffers = 0, mem_cached = 0, swap_total = 0, swap_free = 0\<rparr>"

lemma kBtoB_0 [simp]: "kBtoB 0 = 0"
  by (simp add: kBtoB_def)

lemma kb_snoc: "kb (es @ [(n, k, v)]) name = (if name = n then v else kb es name)"
  by (simp add: kb_def)

lemma mem_line_entry:
  assumes "entry_ok (n, k, v)"
  shows "mem_line (entry_text (n, k, v) @ [NL]) m =
    (if n = ''MemTotal'' then m\<lparr>mem_total := kBtoB v\<rparr> else if n = ''MemFree'' then m\<lparr>mem_free := kBtoB v\<rparr>
     else if n = ''Buffers'' then m\<lparr>mem_buffers := kBtoB v\<rparr> else if n = ''Cached'' then m\<lparr>mem_cached := kBtoB v\<rparr>
     else if n = ''SwapTotal'' then m\<lparr>swap_total := kBtoB v\<rparr> else if n = ''SwapFree'' then m\<lparr>swap_free := kBtoB v\<rparr> else m)"
  unfolding mem_line_def field_entry [OF assms names_plain(1)] field_entry [OF assms names_plain(2)] field_entry [OF assms names_plain(3)]
    field_entry [OF assms names_plain(4)] field_entry [OF assms names_plain(5)] field_entry [OF assms names_plain(6)]
  by simp

lemma mem_lines:
  assumes "\<forall>e \<in> set es. entry_ok e"
  shows "fold mem_line (map (\<lambda>e. entry_text e @ [NL]) es) empty_meminfo =
    \<lparr>mem_total = kBtoB (kb es ''MemTotal''), mem_free = kBtoB (kb es ''MemFree''), mem_buffers = kBtoB (kb es ''Buffers''),
     mem_cached = kBtoB (kb es ''Cached''), swap_total = kBtoB (kb es ''SwapTotal''), swap_free = kBtoB (kb es ''SwapFree'')\<rparr>"
  using assms
proof (induction es rule: rev_induct)
  case Nil
  then show ?case by (simp add: empty_meminfo_def kb_def)
next
  case (snoc e es)
  obtain n k v where e: "e = (n, k, v)" by (cases e)
  have ok: "entry_ok (n, k, v)" using snoc.prems e by simp
  have "fold mem_line (map (\<lambda>e. entry_text e @ [NL]) (es @ [e])) empty_meminfo =
      mem_line (entry_text e @ [NL]) (fold mem_line (map (\<lambda>e. entry_text e @ [NL]) es) empty_meminfo)" by simp
  also have "\<dots> = mem_line (entry_text e @ [NL]) \<lparr>mem_total = kBtoB (kb es ''MemTotal''), mem_free = kBtoB (kb es ''MemFree''),
     mem_buffers = kBtoB (kb es ''Buffers''), mem_cached = kBtoB (kb es ''Cached''), swap_total = kBtoB (kb es ''SwapTotal''),
     swap_free = kBtoB (kb es ''SwapFree'')\<rparr>" using snoc by simp
  also have "\<dots> = \<lparr>mem_total = kBtoB (kb (es @ [e]) ''MemTotal''), mem_free = kBtoB (kb (es @ [e]) ''MemFree''),
     mem_buffers = kBtoB (kb (es @ [e]) ''Buffers''), mem_cached = kBtoB (kb (es @ [e]) ''Cached''),
     swap_total = kBtoB (kb (es @ [e]) ''SwapTotal''), swap_free = kBtoB (kb (es @ [e]) ''SwapFree'')\<rparr>"
    unfolding e mem_line_entry [OF ok] by (auto simp: kb_snoc)
  finally show ?case .
qed

lemma read_meminfo_text:
  assumes "\<forall>e \<in> set es. entry_ok e"
  shows "read_meminfo (meminfo_text es) =
    \<lparr>mem_total = kBtoB (kb es ''MemTotal''), mem_free = kBtoB (kb es ''MemFree''), mem_buffers = kBtoB (kb es ''Buffers''),
     mem_cached = kBtoB (kb es ''Cached''), swap_total = kBtoB (kb es ''SwapTotal''), swap_free = kBtoB (kb es ''SwapFree'')\<rparr>"
proof -
  have "NL \<notin> set (digits v)" for v using digits_are_digits [of NL v] by (auto simp: NL_def is_digit_def)
  then have "\<forall>l \<in> set (map entry_text es). NL \<notin> set l \<and> length l < 1023"
    using assms by (auto simp: NL_def)
  from file_lines_text [OF this] mem_lines [OF assms] show ?thesis
    by (simp add: read_meminfo_def meminfo_text_def empty_meminfo_def comp_def)
qed

lemma kBtoB_small: "v * 1024 < 2 ^ 64 \<Longrightarrow> kBtoB v = v * 1024"
  by (simp add: kBtoB_def)

lemma memory_figures:
  assumes "\<forall>e \<in> set es. entry_ok e" and "kb es ''MemTotal'' * 1024 < 2 ^ 64"
    and "kb es ''MemFree'' + kb es ''Buffers'' + kb es ''Cached'' \<le> kb es ''MemTotal''"
  shows "mem_used (read_meminfo (meminfo_text es)) =
      (kb es ''MemTotal'' - (kb es ''MemFree'' + kb es ''Buffers'' + kb es ''Cached'')) * 1024"
    and "buff_cache (read_meminfo (meminfo_text es)) = (kb es ''Buffers'' + kb es ''Cached'') * 1024"
proof -
  let ?t = "kb es ''MemTotal''" and ?f = "kb es ''MemFree''" and ?b = "kb es ''Buffers''" and ?c = "kb es ''Cached''"
  have "sub64 (sub64 (sub64 (?t * 1024) (?f * 1024)) (?c * 1024)) (?b * 1024) = (?t - (?f + ?b + ?c)) * 1024"
    using assms(2,3) by (simp add: sub64_small diff_mult_distrib add_mult_distrib)
  then show "mem_used (read_meminfo (meminfo_text es)) = (?t - (?f + ?b + ?c)) * 1024"
    using assms(2,3) by (simp add: mem_used_def read_meminfo_text [OF assms(1)] kBtoB_small)
  show "buff_cache (read_meminfo (meminfo_text es)) = (?b + ?c) * 1024"
    using assms(2,3) by (simp add: buff_cache_def read_meminfo_text [OF assms(1)] kBtoB_small add64_small add_mult_distrib)
qed

subsection \<open>The processor\<close>

text \<open>A line of \<open>/proc/stat\<close> with counters that the kernel keeps in 32 bits.\<close>

definition numbers_text :: "nat list \<Rightarrow> string" where
  "numbers_text cs = concat (map (\<lambda>c. CHR '' '' # digits c) cs)"

lemma numbers_text_simps [simp]:
  "numbers_text [] = []" "numbers_text (c # cs) = CHR '' '' # digits c @ numbers_text cs"
  by (simp_all add: numbers_text_def)

lemma ends_number_text: "ends_number rest \<Longrightarrow> ends_number (numbers_text cs @ rest)"
  by (cases cs) (auto simp: ends_number_def is_digit_def)

lemma scan_numbers:
  assumes "list_all2 (\<lambda>w c. c < 2 ^ w) ws cs" and "ends_number rest"
  shows "sscanf (map Uint ws @ ds) (numbers_text cs @ rest) = map Num cs @ sscanf ds rest"
  using assms(1)
proof (induction ws cs rule: list_all2_induct)
  case (Cons w ws c cs)
  have "\<forall>x \<in> set '' ''. is_space x" by (simp add: is_space_def)
  from scan_digits [OF this ends_number_text [OF assms(2)], of w c cs] show ?case using Cons by simp
qed simp

lemma all_below: "length cs = n \<Longrightarrow> \<forall>c \<in> set cs. c < 2 ^ w \<Longrightarrow> list_all2 (\<lambda>w c. c < 2 ^ w) (replicate n w) cs"
  by (auto simp: list_all2_conv_all_nth)

lemma strstr_word:
  assumes "CHR '' '' \<notin> set name"
  shows "strstr (name @ CHR '' '' # s) '' '' = Some (CHR '' '' # s)"
  using assms
proof (induction name)
  case Nil
  then show ?case by (subst strstr.simps) simp
next
  case (Cons c name)
  then show ?case by (subst strstr.simps) auto
qed

lemma add32_sum: "fold (\<lambda>v s. add32 s v) vs (a mod 2 ^ 32) = (a + sum_list vs) mod 2 ^ 32"
proof (induction vs arbitrary: a)
  case (Cons v vs)
  have "add32 (a mod 2 ^ 32) v = (a + v) mod 2 ^ 32" by (simp add: add32_def mod_add_left_eq)
  then show ?case using Cons [of "a + v"] by (simp add: add.assoc)
qed simp

lemma sub32_mod:
  assumes "a \<le> b" and "b - a < 2 ^ 32"
  shows "sub32 (b mod 2 ^ 32) (a mod 2 ^ 32) = b - a"
proof -
  have "sub32 (b mod 2 ^ 32) (a mod 2 ^ 32) = (b + (2 ^ 32 - a mod 2 ^ 32)) mod 2 ^ 32"
    by (simp only: sub32_def mod_mod_trivial mod_add_left_eq)
  also have "b + (2 ^ 32 - a mod 2 ^ 32) = (b - a) + (a - a mod 2 ^ 32) + 2 ^ 32"
    using assms(1) mod_less_eq_dividend [of a "2 ^ 32"] mod_less_divisor [of "2 ^ 32" a] by simp
  also have "\<dots> mod 2 ^ 32 = (b - a) mod 2 ^ 32"
    by (metis minus_mod_eq_mult_div mod_add_self2 mod_mult_self2)
  finally show ?thesis using assms(2) by simp
qed

subsection \<open>The network and the disk\<close>

definition round_ok :: "proc_files \<Rightarrow> bool" where
  "round_ok p \<longleftrightarrow> p_meminfo p \<noteq> None \<and> p_diskstats p \<noteq> None \<and>
     (\<exists>f r t. p_net_dev p = Some f \<and> net_counters f = (Some r, Some t))"

lemma monitor_round_cases:
  "if round_ok p then \<exists>out. monitor_round F a b p = Inr out \<and> length out \<in> {2, 3}
   else monitor_round F a b p \<in> {Inl Exit_called, Inl Uninit_read}"
  by (auto simp: round_ok_def monitor_round_def display_memory_stats_def calculate_network_stats_def calculate_block_device_stats_def
      Let_def split: option.splits prod.splits)

lemma monitor_loop_ok:
  assumes "stopped (i + k)" and "\<forall>j < k. \<not> stopped (i + j)"
  shows "if \<forall>j < k. round_ok (files (i + j))
    then \<exists>out. monitor_loop F a b files stopped i = Some (Inr out) \<and> 2 * k \<le> length out \<and> length out \<le> 3 * k
    else monitor_loop F a b files stopped i \<in> {Some (Inl Exit_called), Some (Inl Uninit_read)}"
  using assms
proof (induction k arbitrary: i)
  case 0
  then show ?case by (subst monitor_loop.simps) simp
next
  case (Suc k)
  have go: "\<not> stopped i" using Suc.prems(2) by force
  have next1: "stopped (Suc i + k)" "\<forall>j < k. \<not> stopped (Suc i + j)"
    using Suc.prems by (auto dest: spec [of _ "Suc _"])
  have split: "(\<forall>j < Suc k. round_ok (files (i + j))) \<longleftrightarrow> round_ok (files i) \<and> (\<forall>j < k. round_ok (files (Suc i + j)))"
    by (auto simp: less_Suc_eq_0_disj)
  note IH = Suc.IH [OF next1]
  show ?case
  proof (cases "round_ok (files i)")
    case True
    then obtain out where out: "monitor_round F a b (files i) = Inr out" "2 \<le> length out" "length out \<le> 3"
      using monitor_round_cases [of "files i" F a b] by force
    have "monitor_loop F a b files stopped i =
        Option.bind (monitor_loop F a b files stopped (Suc i)) (\<lambda>r. Some (obind r (\<lambda>rest. Inr (out @ rest))))"
      using go out(1) by (subst monitor_loop.simps) simp
    then show ?thesis
      using IH out(2,3) True unfolding split by (auto split: if_splits)
  next
    case False
    then have "monitor_round F a b (files i) \<in> {Inl Exit_called, Inl Uninit_read}" using monitor_round_cases [of "files i" F a b] by simp
    then have "monitor_loop F a b files stopped i \<in> {Some (Inl Exit_called), Some (Inl Uninit_read)}"
      using go by (subst monitor_loop.simps) auto
    then show ?thesis using False unfolding split by simp
  qed
qed

text \<open>A line of \<open>/proc/diskstats\<close>: two numbers, the name of the device, eight counters, and more.\<close>

definition disk_text :: "nat \<Rightarrow> nat \<Rightarrow> string \<Rightarrow> nat list \<Rightarrow> string \<Rightarrow> string" where
  "disk_text major minor name cs rest = numbers_text [major, minor] @ '' '' @ name @ numbers_text cs @ rest"

lemma scan_word:
  assumes "name \<noteq> []" and "\<forall>c \<in> set name. \<not> is_space c" and "length name \<le> 31" and "is_space c"
  shows "sscanf (Str 31 # ds) (CHR '' '' # name @ c # s) = Word name # sscanf ds (c # s)"
proof -
  have sp: "is_space CHR '' ''" by (simp add: is_space_def)
  have d: "dropWhile is_space (CHR '' '' # name @ c # s) = name @ c # s"
    using sp assms(1,2) by (cases name) simp_all
  have "takeWhile (\<lambda>c. \<not> is_space c) (name @ c # s) = name" using assms(2,4) by (subst takeWhile_append2) auto
  then show ?thesis using d assms(1,3) by (simp add: Let_def)
qed

lemma disk_line_text:
  assumes "major < 2 ^ 32" and "minor < 2 ^ 32" and "length cs = 8" and "\<forall>c \<in> set cs. c < 2 ^ 32" and "ends_number rest"
    and "name \<noteq> []" and "\<forall>c \<in> set name. \<not> is_space c" and "length name \<le> 31" and "strstr name ''sda'' \<noteq> None"
  shows "disk_line (disk_text major minor name cs rest) = Some (cs ! 0, cs ! 4)"
proof -
  let ?ws = "[64, 32, 32, 32, 64, 32, 32, 32] :: nat list"
  obtain c1 c2 c3 c4 c5 c6 c7 c8 where cs: "cs = [c1, c2, c3, c4, c5, c6, c7, c8]"
    using assms(3) by (auto simp: numeral_eq_Suc length_Suc_conv)
  have "list_all2 (\<lambda>w c. c < 2 ^ w) ?ws cs" using assms(4) cs by simp
  from scan_numbers [OF this assms(5), of "[]"]
  have tail: "sscanf (map Uint ?ws) (numbers_text cs @ rest) = map Num cs" by simp
  have "list_all2 (\<lambda>w c. c < 2 ^ w) [32, 32] [major, minor]" using assms(1,2) by simp
  moreover have "ends_number ('' '' @ name @ numbers_text cs @ rest)" by (simp add: ends_number_def is_digit_def)
  ultimately have "sscanf (map Uint [32, 32] @ Str 31 # map Uint ?ws) (disk_text major minor name cs rest) =
      map Num [major, minor] @ sscanf (Str 31 # map Uint ?ws) ('' '' @ name @ numbers_text cs @ rest)"
    unfolding disk_text_def by (rule scan_numbers)
  also have "sscanf (Str 31 # map Uint ?ws) ('' '' @ name @ numbers_text cs @ rest) = Word name # map Num cs"
    using scan_word [OF assms(6-8), of "CHR '' ''" "map Uint ?ws" "digits c1 @ numbers_text (tl cs) @ rest"] tail cs
    by (simp add: is_space_def del: sscanf.simps)
  finally show ?thesis using assms(9) cs by (simp add: disk_line_def del: sscanf.simps)
qed

subsection \<open>Properties\<close>

text \<open>
  C36: \<open>display_memory_stats\<close> reads back a \<open>/proc/meminfo\<close>: whatever the entries and their order, it prints the total, the
  free memory, the total less the free, buffered and cached memory, and the sum of the last two, all in MiB, and the part
  that is used, provided that the parts do not exceed the total.
\<close>

theorem monitor_reads_meminfo:
  fixes F :: "'d double_ops"
  defines "mib \<equiv> \<lambda>kb. f_div F (f_of F (kb * 1024)) (f_mul F (f_of F 1024) (f_of F 1024))"
  assumes "\<forall>e \<in> set es. entry_ok e" and "kb es ''MemTotal'' * 1024 < 2 ^ 64"
    and "used + kb es ''MemFree'' + kb es ''Buffers'' + kb es ''Cached'' = kb es ''MemTotal''"
  shows "display_memory_stats F (Some (meminfo_text es)) =
    Inr (Memory (mib (kb es ''MemTotal'')) (mib (kb es ''MemFree'')) (mib used) (mib (kb es ''Buffers'' + kb es ''Cached''))
      (f_mul F (f_div F (f_of F (used * 1024)) (f_of F (kb es ''MemTotal'' * 1024))) (f_of F 100)))"
proof -
  have le: "kb es ''MemFree'' + kb es ''Buffers'' + kb es ''Cached'' \<le> kb es ''MemTotal''"
    and used: "used = kb es ''MemTotal'' - (kb es ''MemFree'' + kb es ''Buffers'' + kb es ''Cached'')" using assms(4) by linarith+
  have small: "kBtoB (kb es ''MemFree'') = kb es ''MemFree'' * 1024" "kBtoB (kb es ''MemTotal'') = kb es ''MemTotal'' * 1024"
    using assms(3) le by (simp_all add: kBtoB_small)
  show ?thesis
    unfolding display_memory_stats_def option.case Let_def memory_figures [OF assms(2,3) le] used [symmetric] mib_def
    by (simp add: read_meminfo_text [OF assms(2)] small)
qed

text \<open>
  C37: \<open>cpu_util\<close> keeps its counters in 32 bits, and so does the sum; the figure it returns is still one minus the share of
  idle time between the two calls, however often a counter or the sum has gone through \<open>2 ^ 32\<close>, as long as less than
  \<open>2 ^ 32\<close> ticks have passed.
\<close>

theorem cpu_util_across_wrap:
  assumes "length new = 7" and "length old = 7" and "old ! 3 \<le> new ! 3" and "new ! 3 - old ! 3 < 2 ^ 32"
    and "sum_list old \<le> sum_list new" and "sum_list new - sum_list old < 2 ^ 32"
    and "CHR '' '' \<notin> set name" and "ends_number rest"
  shows "cpu_util F (sum_list old mod 2 ^ 32, map (\<lambda>c. c mod 2 ^ 32) old) (name @ '' '' @ numbers_text (map (\<lambda>c. c mod 2 ^ 32) new) @ rest) =
    (f_mul F (f_sub F (f_of F 1) (f_div F (f_of F (new ! 3 - old ! 3)) (f_of F (sum_list new - sum_list old)))) (f_of F 100),
     sum_list new mod 2 ^ 32, map (\<lambda>c. c mod 2 ^ 32) new)"
proof -
  let ?new = "map (\<lambda>c. c mod 2 ^ 32) new"
  have "list_all2 (\<lambda>w c. c < 2 ^ w) (replicate 7 32) ?new" using assms(1) by (intro all_below) auto
  from scan_numbers [OF this assms(8), of "[]"]
  have "sscanf (replicate 7 (Uint 32)) (numbers_text ?new @ rest) = map Num ?new" by simp
  moreover have "scan_uint w (CHR '' '' # s) = scan_uint w s" for w s by (simp add: scan_uint_def is_space_def)
  ultimately have scan: "sscanf (replicate 7 (Uint 32)) (CHR '' '' # numbers_text ?new @ rest) = map Num ?new"
    using replicate_Suc [of 6 "Uint 32"] by simp
  have start: "strstr (name @ '' '' @ numbers_text ?new @ rest) '' '' = Some (CHR '' '' # numbers_text ?new @ rest)"
    using strstr_word [OF assms(7)] by simp
  have "sum_list ?new mod 2 ^ 32 = sum_list new mod 2 ^ 32" by (induction new) (simp_all, metis mod_add_cong mod_mod_trivial)
  then have total: "fold (\<lambda>v s. add32 s v) ?new 0 = sum_list new mod 2 ^ 32" using add32_sum [of ?new 0] by simp
  have nums: "map num_of (map Num ?new) = ?new" by (simp add: comp_def)
  have len: "length ?new = 7" and idle: "?new ! 3 = new ! 3 mod 2 ^ 32" "map (\<lambda>c. c mod 2 ^ 32) old ! 3 = old ! 3 mod 2 ^ 32"
    using assms(1,2) by simp_all
  show ?thesis
    unfolding cpu_util_def prod.case start option.case scan Let_def nums total idle sub32_mod [OF assms(3,4)] sub32_mod [OF assms(5,6)]
    using len by simp
qed

text \<open>
  The figures of \<open>calculate_block_device_stats\<close> are those of the whole time since the machine was started, not of the
  last second: they depend only on the first and the fifth counter of the disk (the completed reads and writes), because the
  previous values are 0 at every call.
\<close>

theorem disk_figures_are_totals:
  fixes F :: "'d double_ops"
  defines "percent \<equiv> \<lambda>n. f_mul F (f_div F (f_div F (f_of F n) (f_of F 1)) (f_of F MAX_THROUGHPUT)) (f_of F 100)"
  assumes "major < 2 ^ 32" and "minor < 2 ^ 32" and "length cs = 8" and "\<forall>c \<in> set cs. c < 2 ^ 32" and "ends_number rest"
    and "name \<noteq> []" and "\<forall>c \<in> set name. \<not> is_space c" and "length name \<le> 31" and "strstr name ''sda'' \<noteq> None"
    and "file_lines 255 f = before @ disk_text major minor name cs rest # after" and "\<forall>l \<in> set before. disk_line l = None"
  shows "calculate_block_device_stats F (Some f) = Inr (Some (Disk (percent (cs ! 0)) (percent (cs ! 4))))"
proof -
  note line = disk_line_text [OF assms(2-10)]
  have "find (\<lambda>l. disk_line l \<noteq> None) (before @ disk_text major minor name cs rest # after) = Some (disk_text major minor name cs rest)"
    using assms(12) line by (induction before) auto
  moreover have "cs ! 0 \<in> set cs" "cs ! 4 \<in> set cs" using assms(4) by simp_all
  then have "cs ! 0 < 2 ^ 32" "cs ! 4 < 2 ^ 32" using assms(5) by blast+
  ultimately show ?thesis
    using line assms(11) by (simp add: calculate_block_device_stats_def percent_def sub64_small)
qed

text \<open>
  C39: the monitor stops when it is told to: when \<open>done\<close> is seen set after \<open>n\<close> rounds and the files were there and had the
  interface each time, \<open>main\<close> returns 0 having printed two or three figures in each round; in a round in which a file is missing it
  exits, and in one without the interface it computes with a variable that was never written.
\<close>

theorem project5_main_ends:
  assumes "stopped n" and "\<forall>i < n. \<not> stopped i"
  shows "if \<forall>i < n. round_ok (files i)
    then \<exists>out. project5_main F startTime True files stopped = Some (Inr (0, out)) \<and> 2 * n \<le> length out \<and> length out \<le> 3 * n
    else project5_main F startTime True files stopped \<in> {Some (Inl Exit_called), Some (Inl Uninit_read)}"
  using monitor_loop_ok [of stopped 0 n files F startTime "startTime + 60"] assms
  by (auto simp: project5_main_def split: if_splits)

subsection \<open>Witnesses\<close>

definition real_ops :: "real double_ops" where
  "real_ops = \<lparr>f_of = of_nat, f_sub = (-), f_mul = (*), f_div = (/)\<rparr>"

definition demo_meminfo :: "entry list" where
  "demo_meminfo = [(''MemTotal'', 7, 8192), (''MemFree'', 3, 1024), (''MemAvailable'', 1, 5000), (''Buffers'', 2, 1024), (''Cached'', 5, 2048)]"

theorem monitor_reads_meminfo_witness:
  "display_memory_stats real_ops (Some (meminfo_text demo_meminfo)) = Inr (Memory 8 1 4 3 50)"
proof -
  note dl = digits_length
  have ok: "\<forall>e \<in> set demo_meminfo. entry_ok e"
    using dl [of 8192] dl [of 1024] dl [of 5000] dl [of 2048] by (simp add: demo_meminfo_def NL_def)
  have kb: "kb demo_meminfo ''MemTotal'' = 8192" "kb demo_meminfo ''MemFree'' = 1024" "kb demo_meminfo ''Buffers'' = 1024"
    "kb demo_meminfo ''Cached'' = 2048"
    by (simp_all add: kb_def demo_meminfo_def)
  show ?thesis using monitor_reads_meminfo [OF ok, of 4096 real_ops] kb by (simp add: real_ops_def)
qed

theorem cpu_util_across_wrap_witness:
  "fst (cpu_util real_ops (100 - 6, [2 ^ 32 - 6, 0, 0, 100, 0, 0, 0])
     (''cpu'' @ '' '' @ numbers_text [10, 0, 0, 104, 0, 0, 0] @ [NL])) = 80"
proof -
  let ?old = "[2 ^ 32 - 6, 0, 0, 100, 0, 0, 0] :: nat list" and ?new = "[2 ^ 32 + 10, 0, 0, 104, 0, 0, 0] :: nat list"
  have "length ?new = 7" "length ?old = 7" "?old ! 3 \<le> ?new ! 3" "?new ! 3 - ?old ! 3 < 2 ^ 32" "sum_list ?old \<le> sum_list ?new"
    "sum_list ?new - sum_list ?old < 2 ^ 32" "CHR '' '' \<notin> set ''cpu''" "ends_number [NL]"
    by (simp_all add: ends_number_def is_digit_def NL_def)
  from cpu_util_across_wrap [OF this, of real_ops] show ?thesis by (simp add: real_ops_def del: numbers_text_simps)
qed

definition demo_disk :: string where
  "demo_disk = disk_text 8 0 ''sda'' [100, 2, 3000, 4, 50, 6, 700, 8] [NL]"

theorem disk_figures_are_totals_witness:
  "calculate_block_device_stats real_ops (Some demo_disk) = Inr (Some (Disk (1 / 100000) (1 / 200000)))"
proof -
  have dig: "NL \<notin> set (digits v)" for v using digits_are_digits [of NL v] by (auto simp: NL_def is_digit_def)
  note dl = digits_length
  let ?line = "disk_text 8 0 ''sda'' [100, 2, 3000, 4, 50, 6, 700, 8] []"
  have "NL \<notin> set ?line" using dig by (simp add: disk_text_def NL_def)
  moreover have "length ?line < 255"
    using dl [of 8] dl [of 0] dl [of 100] dl [of 2] dl [of 3000] dl [of 4] dl [of 50] dl [of 6] dl [of 700] by (simp add: disk_text_def)
  moreover have "demo_disk = concat (map (\<lambda>l. l @ [NL]) [?line])" by (simp add: demo_disk_def disk_text_def)
  ultimately have lines: "file_lines 255 demo_disk = [] @ demo_disk # []" using file_lines_text [of "[?line]" 255] by simp
  have sda: "strstr ''sda'' ''sda'' \<noteq> None" by (subst strstr.simps) simp
  have ends: "ends_number [NL]" by (simp add: ends_number_def is_digit_def NL_def)
  from disk_figures_are_totals [of 8 0 "[100, 2, 3000, 4, 50, 6, 700, 8]" "[NL]" "''sda''" demo_disk "[]" "[]" real_ops] lines sda ends
  show ?thesis by (simp add: demo_disk_def [symmetric] is_space_def real_ops_def MAX_THROUGHPUT_def)
qed

definition demo_net :: string where
  "demo_net = (''enp0s1:'' @ numbers_text [6000, 2, 0, 0, 0, 0, 0, 0, 3000, 4]) @ [NL]"

lemma demo_net_counters: "net_counters demo_net = (Some 6000, Some 3000)"
proof -
  let ?cs = "[6000, 2, 0, 0, 0, 0, 0, 0, 3000, 4] :: nat list"
  let ?line = "''enp0s1:'' @ numbers_text ?cs"
  have dig: "NL \<notin> set (digits v)" for v using digits_are_digits [of NL v] by (auto simp: NL_def is_digit_def)
  have nl: "NL \<notin> set ?line" using dig by (simp add: NL_def)
  have "length ?line < 255" using digits_length [of 0] digits_length [of 2] digits_length [of 4] digits_length [of 6000] digits_length [of 3000] by simp
  then have lines: "file_lines 255 demo_net = [?line @ [NL]]"
    using file_lines_text [of "[?line]" 255] nl by (simp add: demo_net_def)
  have found: "strstr (?line @ [NL]) ''enp0s1:'' \<noteq> None" by (subst strstr.simps) simp
  have "list_all2 (\<lambda>w c. c < 2 ^ w) (replicate 10 64) ?cs" by (rule all_below) simp_all
  moreover have "ends_number [NL]" by (simp add: ends_number_def is_digit_def NL_def)
  ultimately have "sscanf (map Uint (replicate 10 64) @ []) (numbers_text ?cs @ [NL]) = map Num ?cs @ sscanf [] [NL]"
    by (rule scan_numbers)
  then have "sscanf (Skip # replicate 10 (Uint 64)) (?line @ [NL]) = map Num ?cs" by (simp add: is_space_def)
  then show ?thesis using lines found by (simp add: net_counters_def)
qed

theorem project5_main_ends_witness:
  "\<exists>out. project5_main real_ops 0 True (\<lambda>_. \<lparr>p_meminfo = Some (meminfo_text demo_meminfo), p_net_dev = Some demo_net,
       p_diskstats = Some demo_disk\<rparr>) (\<lambda>i. i = 5) = Some (Inr (0, out)) \<and> 10 \<le> length out \<and> length out \<le> 15"
proof -
  let ?p = "\<lparr>p_meminfo = Some (meminfo_text demo_meminfo), p_net_dev = Some demo_net, p_diskstats = Some demo_disk\<rparr>"
  have "round_ok ?p" using demo_net_counters by (simp add: round_ok_def)
  then show ?thesis using project5_main_ends [of "\<lambda>i. i = 5" 5 "\<lambda>_. ?p" real_ops 0] by auto
qed

end
