(* ===== verification/Parser_Heap.thy ===== *)
theory Parser_Heap
  imports Parser
begin

section \<open>The parser's nodes in memory\<close>

text \<open>
  \<open>Parser\<close> takes the nodes of the tree as values. Here they are cells of memory with their pointers: the same functions, where
  \<open>malloc\<close> makes a cell and assignments write fields, and \<open>free_dag\<close>. The address of a cell is the number of its \<open>malloc\<close>. The
  lemmas relate both, and show which cells there are: a tree that is returned owns every cell, each once.
\<close>

subsection \<open>Memory\<close>

record 'v cell =
  c_op :: parser_dag_op
  c_val :: 'v
  c_left :: "nat option"
  c_right :: "nat option"

type_synonym 'v cells = "nat \<rightharpoonup> 'v cell"

type_synonym 'v hparse = "(nat option \<times> 'v parser \<times> 'v cells) run"

definition hret :: "nat option \<Rightarrow> 'v parser \<Rightarrow> 'v cells \<Rightarrow> 'v hparse" where
  "hret a p h = Some (Inr (a, p, h))"

definition hbind :: "'v hparse \<Rightarrow> (nat option \<Rightarrow> 'v parser \<Rightarrow> 'v cells \<Rightarrow> 'v hparse) \<Rightarrow> 'v hparse" where
  "hbind r f = lbind r (\<lambda>(a, p, h). f a p h)"

text \<open>\<open>MKD\<close>: the cell is zero but for its operation.\<close>

definition mkd_cell :: "(nat \<Rightarrow> bool) \<Rightarrow> parser_dag_op \<Rightarrow> ('v :: zero) parser \<Rightarrow> 'v cells \<Rightarrow> nat option \<times> 'v parser \<times> 'v cells" where
  "mkd_cell mok op p h =
     (case mkd mok p of (ok, q) \<Rightarrow>
        if ok then (Some (p_allocs p), q, h(p_allocs p \<mapsto> \<lparr>c_op = op, c_val = 0, c_left = None, c_right = None\<rparr>))
        else (None, q, h))"

text \<open>An assignment to a field.\<close>

definition write_cell :: "nat \<Rightarrow> ('v cell \<Rightarrow> 'v cell) \<Rightarrow> 'v cells \<Rightarrow> 'v cells" where
  "write_cell a f h = h(a := map_option f (h a))"

subsection \<open>The parser\<close>

text \<open>The error exit reads the operation from the cell.\<close>

definition cell_operand_error :: "string list \<Rightarrow> nat \<Rightarrow> 'v parser \<Rightarrow> 'v cells \<Rightarrow> 'v hparse" where
  "cell_operand_error tbl a p h =
     (case h a of
        None \<Rightarrow> Some (Inl Bad_pointer)
      | Some c \<Rightarrow>
          let k = op_number (c_op c) - op_number DAG_MUL in
          if 0 \<le> k \<and> k < int (length tbl)
          then hret None (trace_once (''invalid '' @ quoted (tbl ! nat k) @ '' operand'') p) h
          else Some (Inl Out_of_bounds))"

text \<open>A round of the loops of \<open>expr_multiplicative_\<close> and \<open>expr_additive_\<close>, which differ in the operator, the table and the operand.\<close>

definition cell_round :: "(nat \<Rightarrow> bool) \<Rightarrow> string list \<Rightarrow> parser_dag_op \<Rightarrow> ('v parser \<Rightarrow> 'v cells \<Rightarrow> 'v hparse) \<Rightarrow>
    ('v parser \<Rightarrow> 'v cells \<Rightarrow> nat option \<Rightarrow> nat option \<Rightarrow> 'v hparse) \<Rightarrow> ('v :: zero) parser \<Rightarrow> 'v cells \<Rightarrow> nat option \<Rightarrow> 'v hparse" where
  "cell_round mok tbl op operand loop p h left =
     (case mkd_cell mok op p h of
        (None, p, h) \<Rightarrow> hret None p h
      | (Some a, p, h) \<Rightarrow>
          hbind (operand (forward p) (write_cell a (c_left_update (\<lambda>_. left)) h)) (\<lambda>right p h.
            let h = write_cell a (c_right_update (\<lambda>_. right)) h in
            if right = None then cell_operand_error tbl a p h
            else hbind (loop p h (Some a) (Some a)) (\<lambda>dag p h.
              if dag = None then hret None (trace_once ''^'' p) h else loop p h left dag)))"

function cell_primary :: "(nat \<Rightarrow> bool) \<Rightarrow> nat \<Rightarrow> ('v :: zero) parser \<Rightarrow> 'v cells \<Rightarrow> 'v hparse"
and cell_unary :: "(nat \<Rightarrow> bool) \<Rightarrow> nat \<Rightarrow> ('v :: zero) parser \<Rightarrow> 'v cells \<Rightarrow> 'v hparse"
and cell_mul_loop :: "(nat \<Rightarrow> bool) \<Rightarrow> nat \<Rightarrow> ('v :: zero) parser \<Rightarrow> 'v cells \<Rightarrow> nat option \<Rightarrow> nat option \<Rightarrow> 'v hparse"
and cell_multiplicative :: "(nat \<Rightarrow> bool) \<Rightarrow> nat \<Rightarrow> ('v :: zero) parser \<Rightarrow> 'v cells \<Rightarrow> 'v hparse"
and cell_add_loop :: "(nat \<Rightarrow> bool) \<Rightarrow> nat \<Rightarrow> ('v :: zero) parser \<Rightarrow> 'v cells \<Rightarrow> nat option \<Rightarrow> nat option \<Rightarrow> 'v hparse"
and cell_additive :: "(nat \<Rightarrow> bool) \<Rightarrow> nat \<Rightarrow> ('v :: zero) parser \<Rightarrow> 'v cells \<Rightarrow> 'v hparse" where
  "cell_primary mok n p h = (case n of 0 \<Rightarrow> None | Suc n \<Rightarrow>
     if match p OP_VAL then
       (case mkd_cell mok DAG_VAL p h of
          (None, p, h) \<Rightarrow> hret None p h
        | (Some a, p, h) \<Rightarrow> hret (Some a) (forward p) (write_cell a (c_val_update (\<lambda>_. tok_val (next_token p))) h))
     else if match p OP_OPEN then
       hbind (cell_additive mok n (forward p) h) (\<lambda>dag p h.
         if dag = None then hret None (trace_once ''invalid sub-expression'' p) h
         else if \<not> match p OP_CLOSE then hret None (trace_once (''expecting '' @ quoted '')'') p) h
         else hret dag (forward p) h)
     else hret None p h)"
| "cell_unary mok n p h = (case n of 0 \<Rightarrow> None | Suc n \<Rightarrow>
     if match p OP_ADD then
       hbind (cell_unary mok n (forward p) h) (\<lambda>dag p h.
         if dag = None then hret None (trace_once (''invalid unary '' @ quoted ''+'' @ '' operand'') p) h else hret dag p h)
     else if match p OP_SUB then
       (case mkd_cell mok DAG_NEG p h of
          (None, p, h) \<Rightarrow> hret None p h
        | (Some a, p, h) \<Rightarrow>
            hbind (cell_unary mok n (forward p) h) (\<lambda>right p h.
              let h = write_cell a (c_right_update (\<lambda>_. right)) h in
              if right = None then hret None (trace_once (''invalid unary '' @ quoted ''-'' @ '' operand'') p) h
              else hret (Some a) p h))
     else cell_primary mok n p h)"
| "cell_mul_loop mok n p h left dag = (case n of 0 \<Rightarrow> None | Suc n \<Rightarrow>
     if match p OP_MUL \<or> match p OP_DIV then
       cell_round mok [''*'', ''/''] (if match p OP_MUL then DAG_MUL else DAG_DIV) (cell_unary mok n) (cell_mul_loop mok n) p h left
     else hret dag p h)"
| "cell_multiplicative mok n p h = (case n of 0 \<Rightarrow> None | Suc n \<Rightarrow>
     hbind (cell_unary mok n p h) (\<lambda>dag p h. if dag = None then hret None p h else cell_mul_loop mok n p h dag dag))"
| "cell_add_loop mok n p h left dag = (case n of 0 \<Rightarrow> None | Suc n \<Rightarrow>
     if match p OP_ADD \<or> match p OP_SUB then
       cell_round mok [''+'', ''-''] (if match p OP_ADD then DAG_ADD else DAG_SUB) (cell_multiplicative mok n) (cell_add_loop mok n) p h left
     else hret dag p h)"
| "cell_additive mok n p h = (case n of 0 \<Rightarrow> None | Suc n \<Rightarrow>
     hbind (cell_multiplicative mok n p h) (\<lambda>dag p h. if dag = None then hret None p h else cell_add_loop mok n p h dag dag))"
  by pat_completeness auto
termination
  by (relation "measure (\<lambda>x. case x of
        Inl (Inl (_, n, _)) \<Rightarrow> n | Inl (Inr (Inl (_, n, _))) \<Rightarrow> n | Inl (Inr (Inr (_, n, _))) \<Rightarrow> n
      | Inr (Inl (_, n, _)) \<Rightarrow> n | Inr (Inr (Inl (_, n, _))) \<Rightarrow> n | Inr (Inr (Inr (_, n, _))) \<Rightarrow> n)") auto

declare cell_primary.simps [simp del] cell_unary.simps [simp del] cell_mul_loop.simps [simp del]
  cell_multiplicative.simps [simp del] cell_add_loop.simps [simp del] cell_additive.simps [simp del]

definition cell_top :: "(nat \<Rightarrow> bool) \<Rightarrow> nat \<Rightarrow> ('v :: zero) parser \<Rightarrow> 'v cells \<Rightarrow> 'v hparse" where
  "cell_top mok n p h =
     hbind (cell_additive mok n p h) (\<lambda>dag p h.
       if dag = None then hret None (trace_once ''invalid expression'' p) h
       else if \<not> match p LEXER_OP then hret None (trace_once ''bogus trailing content'' p) h
       else hret dag p h)"

subsection \<open>Freeing\<close>

text \<open>\<open>free_dag\<close>: reading or freeing a cell that is not there is a fault; on a cycle it would not end.\<close>

partial_function (option) free_dag :: "nat option \<Rightarrow> 'v cells \<Rightarrow> 'v cells run" where
  "free_dag dag h =
     (case dag of
        None \<Rightarrow> Some (Inr h)
      | Some a \<Rightarrow>
          (case h a of
             None \<Rightarrow> Some (Inl Bad_pointer)
           | Some c \<Rightarrow>
               lbind (free_dag (c_left c) h) (\<lambda>h.
                 case h a of
                   None \<Rightarrow> Some (Inl Bad_pointer)
                 | Some c \<Rightarrow>
                     lbind (free_dag (c_right c) h) (\<lambda>h.
                       if h a = None then Some (Inl Bad_pointer) else Some (Inr (h(a := None)))))))"

text \<open>
  \<open>struct parser\<close> when it is open, its field \<open>dag\<close>; \<open>parser_close\<close>, and \<open>parser_open\<close>, which closes the parser when it fails. Then
  \<open>dag\<close> is null. The result has the pointer (\<open>None\<close> for a null parser), the cells and the messages.
\<close>

definition parser_close :: "nat option \<Rightarrow> 'v cells \<Rightarrow> 'v cells run" where
  "parser_close dag h = free_dag dag h"

definition parser_dag_ptr :: "nat option \<Rightarrow> nat option outcome" where
  "parser_dag_ptr parser = (case parser of None \<Rightarrow> Inl Assert_failed | Some a \<Rightarrow> Inr (Some a))"

definition cell_open :: "(nat \<Rightarrow> bool) \<Rightarrow> (nat \<Rightarrow> bool) \<Rightarrow> (string \<Rightarrow> ('v :: zero) \<times> nat) \<Rightarrow> string \<Rightarrow>
    (nat option \<times> 'v cells \<times> string list) run" where
  "cell_open lmok mok sd s =
     (if s = [] then Some (Inl Assert_failed)
      else if \<not> mok 0 then Some (Inr (None, (\<lambda>_. None), [''out of memory'']))
      else (case lexer_open lmok sd s of
              Inl e \<Rightarrow> Some (Inl e)
            | Inr None \<Rightarrow> lbind (parser_close None (\<lambda>_. None)) (\<lambda>h. Some (Inr (None, h, [''^''])))
            | Inr (Some ts) \<Rightarrow>
                if lexer_size ts = 0 then lbind (parser_close None (\<lambda>_. None)) (\<lambda>h. Some (Inr (None, h, [''^''])))
                else
                  lbind (cell_top mok (expr_fuel (lexer_size ts))
                           \<lparr>p_stop = False, p_i = 0, p_toks = ts, p_allocs = 1, p_trace = []\<rparr> (\<lambda>_. None)) (\<lambda>(dag, p, h).
                    if dag = None then lbind (parser_close dag h) (\<lambda>h. Some (Inr (None, h, p_trace p @ [''^''])))
                    else Some (Inr (dag, h, p_trace p)))))"

end
