(* ===== verification/Parser_Heap_Ref.thy ===== *)
theory Parser_Heap_Ref
  imports Parser_Heap Parser_Ref
begin

section \<open>Every cell has one owner\<close>

text \<open>
  The parser on cells does what the parser on values does, step by step, and a tree it returns owns all the cells made meanwhile.
  So the tree is not a graph with shared nodes, and \<open>parser_close\<close> frees each cell once and leaves none. When the parser fails, the
  cells it has made are lost.
\<close>

lemmas cell_steps = cell_primary.simps [where n = "Suc n" for n, simplified nat.case]
  cell_unary.simps [where n = "Suc n" for n, simplified nat.case]
  cell_mul_loop.simps [where n = "Suc n" for n, simplified nat.case]
  cell_multiplicative.simps [where n = "Suc n" for n, simplified nat.case]
  cell_add_loop.simps [where n = "Suc n" for n, simplified nat.case]
  cell_additive.simps [where n = "Suc n" for n, simplified nat.case]

lemma cell_zero [simp]: "cell_primary mok 0 p h = None" "cell_unary mok 0 p h = None" "cell_mul_loop mok 0 p h l d = None"
  "cell_multiplicative mok 0 p h = None" "cell_add_loop mok 0 p h l d = None" "cell_additive mok 0 p h = None"
  by (simp_all add: cell_primary.simps cell_unary.simps cell_mul_loop.simps cell_multiplicative.simps cell_add_loop.simps
      cell_additive.simps)

subsection \<open>Owning a tree\<close>

inductive owns :: "'v cells \<Rightarrow> nat option \<Rightarrow> 'v parser_dag \<Rightarrow> nat set \<Rightarrow> bool" for h where
  owns_null: "owns h None Null {}"
| owns_node: "h a = Some c \<Longrightarrow> owns h (c_left c) l L \<Longrightarrow> owns h (c_right c) r R \<Longrightarrow> a \<notin> L \<union> R \<Longrightarrow> L \<inter> R = {} \<Longrightarrow>
    owns h (Some a) (Node (c_op c) (c_val c) l r) (insert a (L \<union> R))"

inductive_cases owns_NoneE: "owns h None d S"
inductive_cases owns_SomeE: "owns h (Some a) d S"
inductive_cases owns_NullE: "owns h a Null S"
inductive_simps owns_None: "owns h None d S"

lemma owns_dom: "owns h a d S \<Longrightarrow> S \<subseteq> dom h"
  by (induction rule: owns.induct) auto

lemma owns_finite: "owns h a d S \<Longrightarrow> finite S"
  by (induction rule: owns.induct) auto

lemma owns_frame: "owns h a d S \<Longrightarrow> (\<And>x. x \<in> S \<Longrightarrow> h' x = h x) \<Longrightarrow> owns h' a d S"
proof (induction rule: owns.induct)
  case (owns_node a c l L r R)
  then show ?case by (intro owns.owns_node) auto
qed (rule owns_null)

lemma owns_null_iff: "owns h a d S \<Longrightarrow> a = None \<longleftrightarrow> d = Null"
  by (erule owns.cases) auto

lemma owns_card: "owns h a d S \<Longrightarrow> card S = nodes d"
proof (induction rule: owns.induct)
  case (owns_node a c l L r R)
  then show ?case using owns_finite [OF owns_node(2)] owns_finite [OF owns_node(3)] by (simp add: card_Un_disjoint)
qed simp

text \<open>Freeing takes out the cells that are owned, each once.\<close>

lemma free_dag_owned: "owns h0 a d S \<Longrightarrow> (\<And>x. x \<in> S \<Longrightarrow> h x = h0 x) \<Longrightarrow> free_dag a h = Some (Inr (h |` (- S)))"
proof (induction arbitrary: h rule: owns.induct)
  case owns_null
  then show ?case by (subst free_dag.simps) (simp add: restrict_map_def)
next
  case (owns_node a c l L r R)
  have a: "h a = Some c" using owns_node by auto
  have l: "free_dag (c_left c) h = Some (Inr (h |` (- L)))" by (rule owns_node.IH(1)) (use owns_node.prems in auto)
  have a1: "(h |` (- L)) a = Some c" using a owns_node.hyps(4) by simp
  have "\<And>x. x \<in> R \<Longrightarrow> (h |` (- L)) x = h0 x" using owns_node.hyps(5) owns_node.prems by (auto simp: restrict_map_def)
  from owns_node.IH(2) [OF this] have r: "free_dag (c_right c) (h |` (- L)) = Some (Inr (h |` (- L) |` (- R)))" .
  have a2: "(h |` (- L) |` (- R)) a = Some c" using a owns_node.hyps(4) by simp
  have "(h |` (- L) |` (- R))(a := None) = h |` (- insert a (L \<union> R))" by (auto simp: restrict_map_def fun_eq_iff)
  then show ?case using a a1 a2 l r by (subst free_dag.simps) simp
qed

subsection \<open>The two parsers in step\<close>

text \<open>
  \<open>moved p h p' h'\<close>: from the state \<open>p\<close>, \<open>h\<close> to \<open>p'\<close>, \<open>h'\<close> cells were made, with the numbers from one to the other, and old ones
  were not changed. \<open>step p h F C A\<close>: the results \<open>C\<close> on cells and \<open>A\<close> on values agree, and a tree owns the cells \<open>F\<close>
  and those made from \<open>p\<close> on.
\<close>

definition moved :: "'v parser \<Rightarrow> 'v cells \<Rightarrow> 'v parser \<Rightarrow> 'v cells \<Rightarrow> bool" where
  "moved p h p' h' \<longleftrightarrow> p_allocs p \<le> p_allocs p' \<and> (\<forall>x < p_allocs p. h' x = h x) \<and> dom h' \<subseteq> {..< p_allocs p'}"

definition made :: "'v parser \<Rightarrow> 'v parser \<Rightarrow> nat set" where
  "made p p' = {p_allocs p ..< p_allocs p'}"

definition step :: "'v parser \<Rightarrow> 'v cells \<Rightarrow> nat set \<Rightarrow> 'v hparse \<Rightarrow> 'v parse \<Rightarrow> bool" where
  "step p h F C A \<longleftrightarrow>
     (case (C, A) of
        (None, None) \<Rightarrow> True
      | (Some (Inl e), Some (Inl e')) \<Rightarrow> e = e'
      | (Some (Inr (a, p', h')), Some (Inr (d, q))) \<Rightarrow>
          q = p' \<and> moved p h p' h' \<and> (a = None \<longleftrightarrow> d = Null) \<and> (d \<noteq> Null \<longrightarrow> owns h' a d (F \<union> made p p'))
      | _ \<Rightarrow> False)"

lemma step_simps [simp]:
  "step p h F None None" "step p h F (Some (Inl e)) (Some (Inl e)) "
  "step p h F (hret None p' h') (ret Null q) \<longleftrightarrow> q = p' \<and> moved p h p' h'"
  "step p h F (hret (Some a) p' h') (ret d q) \<longleftrightarrow> q = p' \<and> moved p h p' h' \<and> d \<noteq> Null \<and> owns h' (Some a) d (F \<union> made p p')"
  by (auto simp: step_def hret_def ret_def)

lemma step_cases:
  assumes "step p h F C A"
  obtains (none) "C = None" "A = None" | (fault) e where "C = Some (Inl e)" "A = Some (Inl e)"
    | (null) p' h' where "C = hret None p' h'" "A = ret Null p'" "moved p h p' h'"
    | (tree) a d p' h' where "C = hret (Some a) p' h'" "A = ret d p'" "moved p h p' h'" "d \<noteq> Null" "owns h' (Some a) d (F \<union> made p p')"
proof (cases C)
  case None
  with assms none show thesis by (cases A) (simp_all add: step_def)
next
  case (Some c)
  show thesis
  proof (cases c)
    case (Inl e)
    with Some assms fault [of e] show thesis by (auto simp: step_def split: option.splits sum.splits)
  next
    case (Inr x)
    obtain a p' h' where x: "x = (a, p', h')" by (cases x)
    from assms Some Inr x obtain d where A: "A = ret d p'" and m: "moved p h p' h'" and n: "a = None \<longleftrightarrow> d = Null"
      and o: "d \<noteq> Null \<Longrightarrow> owns h' a d (F \<union> made p p')"
      by (auto simp: step_def ret_def split: option.splits sum.splits prod.splits)
    show thesis
    proof (cases a)
      case None
      then show thesis using null [of p' h'] A m n Some Inr x by (simp add: hret_def)
    next
      case (Some b)
      then show thesis using tree [of b p' h' d] A m n o \<open>C = Some c\<close> Inr x by (simp add: hret_def)
    qed
  qed
qed

lemma hbind_simps [simp]:
  "hbind None f = None" "hbind (Some (Inl e)) f = Some (Inl e)" "hbind (hret a p h) f = f a p h"
  by (simp_all add: hbind_def hret_def)

lemma moved_trans: "moved p h p1 h1 \<Longrightarrow> moved p1 h1 p2 h2 \<Longrightarrow> moved p h p2 h2"
  by (auto simp: moved_def)

lemma moved_refl: "dom h \<subseteq> {..< p_allocs p} \<Longrightarrow> moved p h p h"
  by (simp add: moved_def)

lemma made_trans: "moved p h p1 h1 \<Longrightarrow> moved p1 h1 p2 h2 \<Longrightarrow> made p p1 \<union> made p1 p2 = made p p2"
  by (auto simp: moved_def made_def)

text \<open>A step that goes on from a later state.\<close>

lemma step_later:
  assumes "step p1 h1 G C A" and "moved p h p1 h1" and "G = F \<union> made p p1"
  shows "step p h F C A"
  using assms(1)
proof (cases rule: step_cases)
  case (tree a d p' h')
  then show ?thesis using moved_trans [OF assms(2)] made_trans [OF assms(2), of p' h'] assms(3) by (simp add: Un_assoc)
qed (use moved_trans [OF assms(2)] in auto)

lemma step_bind:
  assumes "step p1 h1 G C A" and "moved p h p1 h1"
    and "\<And>p' h'. moved p1 h1 p' h' \<Longrightarrow> moved p h p' h' \<Longrightarrow> step p h F (f None p' h') (g Null p')"
    and "\<And>a d p' h'. A = ret d p' \<Longrightarrow> moved p1 h1 p' h' \<Longrightarrow> moved p h p' h' \<Longrightarrow> d \<noteq> Null \<Longrightarrow> owns h' (Some a) d (G \<union> made p1 p') \<Longrightarrow>
      step p h F (f (Some a) p' h') (g d p')"
  shows "step p h F (hbind C f) (pbind A g)"
  using assms(1) by (cases rule: step_cases) (auto simp: assms(3,4) moved_trans [OF assms(2)])

lemma same_allocs [simp]: "p_allocs (trace_once m p) = p_allocs p" "p_allocs (forward p) = p_allocs p"
  by (simp_all add: trace_once_def forward_def)

lemma moved_same [simp]: "moved p h (trace_once m p') h' = moved p h p' h'" "moved p h (forward p') h' = moved p h p' h'"
  "moved (forward p) h p' h' = moved p h p' h'" "made p (forward p') = made p p'" "made (forward p) p' = made p p'"
  by (simp_all add: moved_def made_def)

lemma step_forward [simp]: "step (forward p) h F C A = step p h F C A"
  by (auto simp: step_def split: option.splits sum.splits)

lemma moved_fits: "moved p h p' h' \<Longrightarrow> dom h' \<subseteq> {..< p_allocs p'}"
  by (simp add: moved_def)

lemma moved_old: "moved p h p' h' \<Longrightarrow> x < p_allocs p \<Longrightarrow> h' x = h x"
  by (simp add: moved_def)

lemma made_same [simp]: "made p p = {}"
  by (simp add: made_def)

lemma write_cell_other [simp]: "x \<noteq> a \<Longrightarrow> write_cell a f h x = h x"
  by (simp add: write_cell_def)

lemma moved_write: "moved p h p' h' \<Longrightarrow> p_allocs p \<le> a \<Longrightarrow> a < p_allocs p' \<Longrightarrow> moved p h p' (write_cell a f h')"
  by (auto simp: moved_def write_cell_def)

text \<open>\<open>malloc\<close> in both.\<close>

lemma mkd_cell_cases:
  assumes "dom h \<subseteq> {..< p_allocs p}"
  obtains (fail) q where "mkd_cell mok op p h = (None, q, h)" "mkd mok p = (False, q)" "moved p h q h"
  | (made) q c where "mkd_cell mok op p h = (Some (p_allocs p), q, h(p_allocs p \<mapsto> c))" "mkd mok p = (True, q)"
      "c = \<lparr>c_op = op, c_val = 0, c_left = None, c_right = None\<rparr>" "p_allocs q = Suc (p_allocs p)" "moved p h q (h(p_allocs p \<mapsto> c))"
proof (cases "mok (p_allocs p)")
  case True
  show thesis by (rule made [OF _ _ refl]) (use True assms in \<open>auto simp: mkd_cell_def mkd_def moved_def\<close>)
next
  case False
  show thesis by (rule fail) (use False assms in \<open>auto simp: mkd_cell_def mkd_def moved_def\<close>)
qed

lemma owns_moved: "owns h a d S \<Longrightarrow> moved p h p' h' \<Longrightarrow> S \<subseteq> {..< p_allocs p} \<Longrightarrow> owns h' a d S"
  by (erule owns_frame) (auto intro: moved_old)

lemma step_error:
  assumes "moved p h p' h'" and "h' a = Some c"
  shows "step p h F (cell_operand_error tbl a p' h') (operand_error tbl (c_op c) p')"
  using assms by (simp add: cell_operand_error_def operand_error_def Let_def)

text \<open>Making a node for the owned trees to its left and right.\<close>

lemma binary_node:
  fixes c :: "('v :: zero) cell"
  assumes fits: "dom h \<subseteq> {..< p_allocs p}" and left: "owns h left l F"
    and c: "c = \<lparr>c_op = op, c_val = 0, c_left = None, c_right = None\<rparr>" and q: "p_allocs q = Suc (p_allocs p)"
    and m: "moved q (write_cell (p_allocs p) (c_left_update (\<lambda>_. left)) (h(p_allocs p \<mapsto> c))) p' h'"
    and g: "g = write_cell (p_allocs p) (c_right_update (\<lambda>_. right)) h'"
  shows "moved p h p' g" and "g (p_allocs p) = Some (c\<lparr>c_left := left, c_right := right\<rparr>)"
    and "owns h' right r (made q p') \<Longrightarrow> owns g (Some (p_allocs p)) (Node op 0 l r) (F \<union> made p p')"
proof -
  let ?a = "p_allocs p" and ?h = "write_cell (p_allocs p) (c_left_update (\<lambda>_. left)) (h(p_allocs p \<mapsto> c))"
  have a: "?a < p_allocs p'" using m q by (simp add: moved_def)
  have "moved p h q ?h" using fits by (auto simp: moved_def write_cell_def q)
  from moved_write [OF moved_trans [OF this m] order_refl a] show mg: "moved p h p' g" unfolding g .
  show ga: "g ?a = Some (c\<lparr>c_left := left, c_right := right\<rparr>)" using moved_old [OF m, of ?a] q by (simp add: g write_cell_def)
  assume "owns h' right r (made q p')"
  then have r: "owns g right r (made q p')" unfolding g by (auto simp: made_def q intro: owns_frame)
  have F: "F \<subseteq> {..< ?a}" using owns_dom [OF left] fits by blast
  then have "?a \<notin> F \<union> made q p'" "F \<inter> made q p' = {}" using q by (force simp: made_def)+
  then have "owns g (Some ?a) (Node op 0 l r) (insert ?a (F \<union> made q p'))"
    using owns_node [where h = g and a = ?a and c = "c\<lparr>c_left := left, c_right := right\<rparr>" and l = l and L = F and r = r and R = "made q p'"]
      ga r owns_moved [OF left mg F] c by simp
  moreover have "insert ?a (F \<union> made q p') = F \<union> made p p'" using a q by (auto simp: made_def)
  ultimately show "owns g (Some ?a) (Node op 0 l r) (F \<union> made p p')" by simp
qed

text \<open>
  The two calls of the loop in a round. The second is given a tree that the node already owns, so it must not come to another node: it does
  not, since the first has left no operator.
\<close>

lemma loop_twice:
  assumes "step p' g (F \<union> made p p') C A" and m: "moved p h p' g"
    and exit: "\<And>d p'' h'' a F. A = ret d p'' \<Longrightarrow> d \<noteq> Null \<Longrightarrow> dom h'' \<subseteq> {..< p_allocs p''} \<Longrightarrow> owns h'' a d F \<Longrightarrow>
      step p'' h'' F (CL p'' h'' left a) (AL p'' l d)"
  shows "step p h F (hbind C (\<lambda>dag p h. if dag = None then hret None (trace_once ''^'' p) h else CL p h left dag))
    (pbind A (\<lambda>dag p. if dag = Null then ret Null (trace_once ''^'' p) else AL p l dag))"
  using assms(1)
proof (cases rule: step_cases)
  case (tree a d p'' h'')
  have "F \<union> made p p' \<union> made p' p'' = F \<union> made p p''" using made_trans [OF m tree(3)] by (simp add: Un_assoc)
  then have "step p'' h'' (F \<union> made p p'') (CL p'' h'' left (Some a)) (AL p'' l d)"
    using exit [OF tree(2,4) moved_fits [OF tree(3)] tree(5)] by simp
  then show ?thesis using step_later [OF _ moved_trans [OF m tree(3)] refl] tree by simp
qed (use moved_trans [OF m] in auto)

lemma round_step:
  fixes p :: "('v :: zero) parser"
  assumes fits: "dom h \<subseteq> {..< p_allocs p}" and left: "owns h left l F"
    and operand: "\<And>(p :: 'v parser) h. dom h \<subseteq> {..< p_allocs p} \<Longrightarrow> step p h {} (C p h) (A p)"
    and loop: "\<And>(p :: 'v parser) h a d F. dom h \<subseteq> {..< p_allocs p} \<Longrightarrow> owns h a d F \<Longrightarrow> step p h F (CL p h a a) (AL p d d)"
    and exit: "\<And>(p :: 'v parser) d d' p' h' a F. AL p d d = ret d' p' \<Longrightarrow> d' \<noteq> Null \<Longrightarrow> dom h' \<subseteq> {..< p_allocs p'} \<Longrightarrow> owns h' a d' F \<Longrightarrow>
      step p' h' F (CL p' h' left a) (AL p' l d')"
  shows "step p h F (cell_round mok tbl op C CL p h left)
    (case mkd mok p of (ok, p) \<Rightarrow>
       if \<not> ok then ret Null p
       else pbind (A (forward p)) (\<lambda>right p.
         if right = Null then operand_error tbl op p
         else pbind (AL p (Node op 0 l right) (Node op 0 l right)) (\<lambda>dag p.
           if dag = Null then ret Null (trace_once ''^'' p) else AL p l dag)))"
  using fits
proof (cases rule: mkd_cell_cases [where mok = mok and op = op])
  case (made q c)
  let ?a = "p_allocs p" and ?h = "write_cell (p_allocs p) (c_left_update (\<lambda>_. left)) (h(p_allocs p \<mapsto> c))"
  note node = binary_node [OF fits left made(3,4) _ refl]
  have "dom ?h \<subseteq> {..< p_allocs (forward q)}" using fits made(4) by (auto simp: write_cell_def)
  from operand [OF this] have "step q ?h {} (C (forward q) ?h) (A (forward q))" by simp
  then show ?thesis
  proof (cases rule: step_cases)
    case (null p' h')
    have "step p h F (cell_operand_error tbl ?a p' (write_cell ?a (c_right_update (\<lambda>_. None)) h')) (operand_error tbl op p')"
      using step_error [OF node(1,2) [OF null(3)], of F tbl] made(3) by simp
    then show ?thesis using made(1,2) null(1,2) by (simp add: cell_round_def)
  next
    case (tree b r p' h')
    let ?g = "write_cell ?a (c_right_update (\<lambda>_. Some b)) h'"
    have o: "owns ?g (Some ?a) (Node op 0 l r) (F \<union> made p p')" using node(3) [OF tree(3)] tree(5) by simp
    have "step p h F (hbind (CL p' ?g (Some ?a) (Some ?a)) (\<lambda>dag p h. if dag = None then hret None (trace_once ''^'' p) h else CL p h left dag))
      (pbind (AL p' (Node op 0 l r) (Node op 0 l r)) (\<lambda>dag p. if dag = Null then ret Null (trace_once ''^'' p) else AL p l dag))"
      by (rule loop_twice [OF loop [OF moved_fits [OF node(1) [OF tree(3)]] o] node(1) [OF tree(3)]]) (rule exit)
    then show ?thesis using made(1,2) tree(1,2,4) by (simp add: cell_round_def)
  qed (use made(1,2) in \<open>simp_all add: cell_round_def\<close>)
qed (simp add: cell_round_def)

lemma neg_step:
  fixes p :: "('v :: zero) parser"
  assumes fits: "dom h \<subseteq> {..< p_allocs p}"
    and operand: "\<And>(p :: 'v parser) h. dom h \<subseteq> {..< p_allocs p} \<Longrightarrow> step p h {} (C p h) (A p)"
  shows "step p h {}
    (case mkd_cell mok DAG_NEG p h of
       (None, p, h) \<Rightarrow> hret None p h
     | (Some a, p, h) \<Rightarrow>
         hbind (C (forward p) h) (\<lambda>right p h.
           let h = write_cell a (c_right_update (\<lambda>_. right)) h in
           if right = None then hret None (trace_once m p) h else hret (Some a) p h))
    (case mkd mok p of (ok, p) \<Rightarrow>
       if \<not> ok then ret Null p
       else pbind (A (forward p)) (\<lambda>right p.
         if right = Null then ret Null (trace_once m p) else ret (Node DAG_NEG 0 Null right) p))"
  using fits
proof (cases rule: mkd_cell_cases [where mok = mok and op = DAG_NEG])
  case (made q c)
  let ?a = "p_allocs p" and ?h = "h(p_allocs p \<mapsto> c)"
  have "step q ?h {} (C (forward q) ?h) (A (forward q))" using operand [of ?h "forward q"] moved_fits [OF made(5)] by simp
  then show ?thesis
  proof (cases rule: step_cases)
    case (null p' h')
    then have "moved p h p' (write_cell ?a (c_right_update (\<lambda>_. None)) h')"
      using made(4) by (intro moved_write moved_trans [OF made(5)]) (auto simp: moved_def)
    with null made show ?thesis by simp
  next
    case (tree b r p' h')
    let ?g = "write_cell ?a (c_right_update (\<lambda>_. Some b)) h'"
    have a: "?a < p_allocs p'" using tree(3) made(4) by (simp add: moved_def)
    have m: "moved p h p' ?g" using a by (intro moved_write moved_trans [OF made(5) tree(3)]) simp_all
    have ga: "?g ?a = Some (c\<lparr>c_right := Some b\<rparr>)" using moved_old [OF tree(3), of ?a] made(4) by (simp add: write_cell_def)
    have "owns ?g (Some b) r (made q p')" using tree(5) by (auto simp: made_def made(4) intro: owns_frame)
    then have "owns ?g (Some ?a) (Node DAG_NEG 0 Null r) (insert ?a (made q p'))"
      using owns_node [where h = ?g and a = ?a and c = "c\<lparr>c_right := Some b\<rparr>" and l = Null and L = "{}" and r = r and R = "made q p'"]
        ga made(3,4) by (simp add: made_def owns_null)
    moreover have "insert ?a (made q p') = made p p'" using a made(4) by (auto simp: made_def)
    ultimately show ?thesis using m made(1,2) tree by simp
  qed (use made in simp_all)
qed simp_all

lemma start_step:
  fixes p :: "('v :: zero) parser"
  assumes "dom h \<subseteq> {..< p_allocs p}" and "step p h {} C A"
    and loop: "\<And>(p :: 'v parser) h a d F. dom h \<subseteq> {..< p_allocs p} \<Longrightarrow> owns h a d F \<Longrightarrow> step p h F (CL p h a a) (AL p d d)"
  shows "step p h {} (hbind C (\<lambda>dag p h. if dag = None then hret None p h else CL p h dag dag))
    (pbind A (\<lambda>dag p. if dag = Null then ret Null p else AL p dag dag))"
  using assms(2)
proof (cases rule: step_cases)
  case (tree a d p' h')
  then show ?thesis using step_later [OF loop [OF moved_fits [OF tree(3)] tree(5)] tree(3)] by simp
qed simp_all

lemma step_exit: "dom h \<subseteq> {..< p_allocs p} \<Longrightarrow> owns h a d F \<Longrightarrow> step p h F (hret a p h) (ret d p)"
  by (cases a) (auto simp: moved_refl elim: owns_NoneE owns_SomeE)

lemma parser_steps:
  fixes p :: "('v :: zero) parser"
  shows "dom h \<subseteq> {..< p_allocs p} \<Longrightarrow> step p h {} (cell_primary mok n p h) (expr_primary mok n p)"
    and "dom h \<subseteq> {..< p_allocs p} \<Longrightarrow> step p h {} (cell_unary mok n p h) (expr_unary mok n p)"
    and "dom h \<subseteq> {..< p_allocs p} \<Longrightarrow> owns h dag d F \<Longrightarrow> left = dag \<and> l = d \<or> \<not> match p OP_MUL \<and> \<not> match p OP_DIV \<Longrightarrow>
      step p h F (cell_mul_loop mok n p h left dag) (mul_loop mok n p l d)"
    and "dom h \<subseteq> {..< p_allocs p} \<Longrightarrow> step p h {} (cell_multiplicative mok n p h) (expr_multiplicative mok n p)"
    and "dom h \<subseteq> {..< p_allocs p} \<Longrightarrow> owns h dag d F \<Longrightarrow> left = dag \<and> l = d \<or> \<not> match p OP_ADD \<and> \<not> match p OP_SUB \<Longrightarrow>
      step p h F (cell_add_loop mok n p h left dag) (add_loop mok n p l d)"
    and "dom h \<subseteq> {..< p_allocs p} \<Longrightarrow> step p h {} (cell_additive mok n p h) (expr_additive mok n p)"
proof (induction n arbitrary: p h dag d F left l)
  case (Suc n)
  {
    case 1
    show ?case
    proof (cases "match p OP_VAL")
      case True
      from 1 show ?thesis
      proof (cases rule: mkd_cell_cases [where mok = mok and op = DAG_VAL])
        case (made q c)
        let ?h = "write_cell (p_allocs p) (c_val_update (\<lambda>_. tok_val (next_token q))) (h(p_allocs p \<mapsto> c))"
        have "owns ?h (Some (p_allocs p)) (Node DAG_VAL (tok_val (next_token q)) Null Null) (made p q)"
          using owns_node [of ?h "p_allocs p" "c\<lparr>c_val := tok_val (next_token q)\<rparr>" Null "{}" Null "{}"] made(3,4)
          by (simp add: made_def write_cell_def owns_null)
        moreover have "moved p h q ?h" by (rule moved_write [OF made(5)]) (simp_all add: made(4))
        ultimately show ?thesis using made(1,2) True by (simp add: cell_steps parse_steps)
      qed (use True in \<open>simp add: cell_steps parse_steps\<close>)
    next
      case False
      have "step p h {} (cell_additive mok n (forward p) h) (expr_additive mok n (forward p))"
        using Suc.IH(6) [of h "forward p"] 1 by simp
      from step_bind [OF this moved_refl [OF 1]] False 1 show ?thesis by (simp add: cell_steps parse_steps moved_refl)
    qed
  next
    case 2
    have fw: "step p h {} (cell_unary mok n (forward p) h) (expr_unary mok n (forward p))" if "dom h \<subseteq> {..< p_allocs p}" for p :: "'v parser" and h
      using Suc.IH(2) [of h "forward p"] that by simp
    consider (plus) "match p OP_ADD" | (minus) "\<not> match p OP_ADD" "match p OP_SUB" | (other) "\<not> match p OP_ADD" "\<not> match p OP_SUB" by blast
    then show ?case
    proof cases
      case plus
      from step_bind [OF fw [OF 2] moved_refl [OF 2]] plus show ?thesis by (simp add: cell_steps parse_steps)
    next
      case minus
      from neg_step [where C = "cell_unary mok n" and A = "expr_unary mok n", OF 2 Suc.IH(2)] minus
      show ?thesis by (simp add: cell_steps parse_steps)
    next
      case other
      then show ?thesis using Suc.IH(1) [OF 2] by (simp add: cell_steps parse_steps)
    qed
  next
    case 3
    have e: "step p' h' F (cell_mul_loop mok n p' h' left a) (mul_loop mok n p' l d')"
      if "mul_loop mok n p d d = ret d' p'" "d' \<noteq> Null" "dom h' \<subseteq> {..< p_allocs p'}" "owns h' a d' F" for p p' :: "'v parser" and d d' h' a F
      using loop_exit(1) [OF that(1) [unfolded ret_def] that(2)] by (intro Suc.IH(3) that) simp
    show ?case
    proof (cases "match p OP_MUL \<or> match p OP_DIV")
      case True
      with 3 have "owns h left l F" by auto
      from round_step [where C = "cell_unary mok n" and A = "expr_unary mok n" and CL = "cell_mul_loop mok n" and AL = "mul_loop mok n",
          OF 3(1) this Suc.IH(2) Suc.IH(3) e] True
      show ?thesis by (simp add: cell_steps parse_steps Let_def)
    next
      case False
      with 3 show ?thesis by (simp add: cell_steps parse_steps step_exit)
    qed
  next
    case 4
    from start_step [where CL = "cell_mul_loop mok n" and AL = "mul_loop mok n", OF 4 Suc.IH(2) [OF 4] Suc.IH(3)]
    show ?case by (simp add: cell_steps parse_steps)
  next
    case 5
    have e: "step p' h' F (cell_add_loop mok n p' h' left a) (add_loop mok n p' l d')"
      if "add_loop mok n p d d = ret d' p'" "d' \<noteq> Null" "dom h' \<subseteq> {..< p_allocs p'}" "owns h' a d' F" for p p' :: "'v parser" and d d' h' a F
      using loop_exit(2) [OF that(1) [unfolded ret_def] that(2)] by (intro Suc.IH(5) that) simp
    show ?case
    proof (cases "match p OP_ADD \<or> match p OP_SUB")
      case True
      with 5 have "owns h left l F" by auto
      from round_step [where C = "cell_multiplicative mok n" and A = "expr_multiplicative mok n" and CL = "cell_add_loop mok n" and AL = "add_loop mok n",
          OF 5(1) this Suc.IH(4) Suc.IH(5) e] True
      show ?thesis by (simp add: cell_steps parse_steps Let_def)
    next
      case False
      with 5 show ?thesis by (simp add: cell_steps parse_steps step_exit)
    qed
  next
    case 6
    from start_step [where CL = "cell_add_loop mok n" and AL = "add_loop mok n", OF 6 Suc.IH(4) [OF 6] Suc.IH(5)]
    show ?case by (simp add: cell_steps parse_steps)
  }
qed simp_all

lemma top_step:
  assumes "dom h \<subseteq> {..< p_allocs p}"
  shows "step p h {} (cell_top mok n p h) (top_expr mok n p)"
  unfolding cell_top_def top_expr_def expr_def
  by (rule step_bind [OF parser_steps(6) [OF assms] moved_refl [OF assms]]) simp_all

subsection \<open>Opening and closing\<close>

text \<open>From no cells on, the cells of a tree are all there are.\<close>

lemma owns_all:
  assumes "moved p (\<lambda>_. None) p' h'" and "owns h' a d ({} \<union> made p p')"
  shows "owns h' a d (dom h')"
proof -
  have "dom h' \<subseteq> made p p'" using assms(1) by (force simp: moved_def made_def)
  with owns_dom [OF assms(2)] assms(2) show ?thesis by (simp add: subset_antisym)
qed

lemma free_all:
  assumes "owns h a d (dom h)"
  shows "parser_close a h = Some (Inr (\<lambda>_. None))"
  using free_dag_owned [OF assms refl] by (auto simp: parser_close_def restrict_map_def fun_eq_iff domIff)

lemma close_null [simp]: "parser_close None h = Some (Inr h)"
  unfolding parser_close_def by (subst free_dag.simps) simp

lemma cell_open_eq:
  "(cell_open lmok mok sd s = None \<and> parser_open lmok mok sd s = None)
   \<or> (\<exists>e. cell_open lmok mok sd s = Some (Inl e) \<and> parser_open lmok mok sd s = Some (Inl e))
   \<or> (\<exists>h tr. cell_open lmok mok sd s = Some (Inr (None, h, tr)) \<and> parser_open lmok mok sd s = Some (Inr (None, tr)))
   \<or> (\<exists>a h d tr. cell_open lmok mok sd s = Some (Inr (Some a, h, tr)) \<and> parser_open lmok mok sd s = Some (Inr (Some d, tr)) \<and>
        owns h (Some a) d (dom h))"
proof (cases "\<exists>ts. s \<noteq> [] \<and> mok 0 \<and> lexer_open lmok sd s = Inr (Some ts) \<and> lexer_size ts \<noteq> 0")
  case True
  then obtain ts where ts: "s \<noteq> []" "mok 0" "lexer_open lmok sd s = Inr (Some ts)" "lexer_size ts \<noteq> 0" by blast
  let ?p = "\<lparr>p_stop = False, p_i = 0, p_toks = ts, p_allocs = 1, p_trace = []\<rparr>"
  have "step ?p (\<lambda>_. None) {} (cell_top mok (expr_fuel (lexer_size ts)) ?p (\<lambda>_. None)) (top_expr mok (expr_fuel (lexer_size ts)) ?p)"
    by (rule top_step) simp
  then show ?thesis
  proof (cases rule: step_cases)
    case (tree a d p' h')
    from owns_all [OF tree(3,5)] ts tree(1,2,4) show ?thesis by (simp add: cell_open_def parser_open_def hret_def ret_def)
  qed (use ts in \<open>simp_all add: cell_open_def parser_open_def hret_def ret_def\<close>)
next
  case False
  then show ?thesis by (auto simp: cell_open_def parser_open_def split: sum.splits option.splits)
qed

text \<open>
  C20: a tree that \<open>parser_open\<close> returns owns every cell that was made, one for each node, and \<open>parser_close\<close> frees them all, each
  once and never one that is gone; in all cases the parser on cells returns as the parser on values does.
\<close>

theorem parser_close_frees:
  "case parser_open lmok mok sd s of
     None \<Rightarrow> False
   | Some (Inl e) \<Rightarrow> cell_open lmok mok sd s = Some (Inl e)
   | Some (Inr (None, tr)) \<Rightarrow> (\<exists>h. cell_open lmok mok sd s = Some (Inr (None, h, tr)))
   | Some (Inr (Some d, tr)) \<Rightarrow>
       (\<exists>a h. cell_open lmok mok sd s = Some (Inr (Some a, h, tr)) \<and> owns h (Some a) d (dom h) \<and> card (dom h) = nodes d \<and>
         parser_close (Some a) h = Some (Inr (\<lambda>_. None)))"
  using cell_open_eq [of lmok mok sd s] parser_open_returns [of lmok mok sd s]
  by (elim disjE exE conjE) (auto dest: free_all owns_card)

text \<open>The fields of a cell fit its operation.\<close>

definition cell_typed :: "('v :: zero) cells \<Rightarrow> 'v cell \<Rightarrow> bool" where
  "cell_typed h c =
     (case c_op c of
        DAG_NONE \<Rightarrow> False
      | DAG_VAL \<Rightarrow> c_left c = None \<and> c_right c = None
      | DAG_NEG \<Rightarrow> c_val c = 0 \<and> c_left c = None \<and> c_right c \<in> Some ` dom h
      | _ \<Rightarrow> c_val c = 0 \<and> c_left c \<in> Some ` dom h \<and> c_right c \<in> Some ` dom h)"

lemma owns_head: "owns h a d S \<Longrightarrow> d \<noteq> Null \<Longrightarrow> a \<in> Some ` dom h"
  by (erule owns.cases) auto

lemma owns_typed: "owns h a d S \<Longrightarrow> well_formed d \<or> d = Null \<Longrightarrow> b \<in> S \<Longrightarrow> \<exists>c. h b = Some c \<and> cell_typed h c"
proof (induction rule: owns.induct)
  case (owns_node a c l L r R)
  have "cell_typed h c"
    using owns_node.prems(1) owns_head [OF owns_node.hyps(2)] owns_head [OF owns_node.hyps(3)] owns_null_iff [OF owns_node.hyps(2)]
      owns_null_iff [OF owns_node.hyps(3)]
    by (cases "c_op c") (auto simp: cell_typed_def)
  moreover have "well_formed l \<or> l = Null" "well_formed r \<or> r = Null"
    using owns_node.prems(1) by (auto split: parser_dag_op.splits)
  ultimately show ?case using owns_node by blast
qed simp

text \<open>
  C34: in the memory that \<open>parser_open\<close> leaves with a tree, every node is of a known operation and its fields are those of the
  operation: a value has no operands, a negation only a right one, the others both, and each operand is a cell there. So what walks the
  tree (\<open>gen\<close>, \<open>free_dag\<close>) never follows a null or a stale pointer.
\<close>

theorem parser_cells_typed:
  assumes "cell_open lmok mok sd s = Some (Inr (Some a, h, tr))"
  shows "a \<in> dom h \<and> (\<forall>b. case h b of None \<Rightarrow> True | Some c \<Rightarrow> cell_typed h c)"
proof -
  obtain d where d: "parser_open lmok mok sd s = Some (Inr (Some d, tr))" "owns h (Some a) d (dom h)"
    using cell_open_eq [of lmok mok sd s] assms by auto
  then obtain ts where "lexer_open lmok sd s = Inr (Some ts)" by (auto simp: parser_open_def split: if_splits sum.splits option.splits)
  then have "additive ts d" using parser_open_sound d(1) by blast
  then have w: "well_formed d" using grammar_well_formed by blast
  have "\<exists>c. h b = Some c \<and> cell_typed h c" if "b \<in> dom h" for b using owns_typed [OF d(2) _ that] w by blast
  moreover have "Some a \<in> Some ` dom h" using owns_head [OF d(2)] w by (cases d) simp_all
  ultimately show ?thesis by (fastforce split: option.splits)
qed

theorem parser_cells_typed_witness:
  "\<exists>h. cell_open (\<lambda>_. True) (\<lambda>_. True) unary_sd ''-1'' = Some (Inr (Some 1, h, [])) \<and>
     (\<forall>b. case h b of None \<Rightarrow> True | Some c \<Rightarrow> cell_typed h c)"
proof -
  have "(case cell_open (\<lambda>_. True) (\<lambda>_. True) unary_sd ''-1'' of Some (Inr (Some a, h, tr)) \<Rightarrow> a = 1 \<and> tr = [] | _ \<Rightarrow> False)" by code_simp
  then obtain h where "cell_open (\<lambda>_. True) (\<lambda>_. True) unary_sd ''-1'' = Some (Inr (Some 1, h, []))"
    by (auto split: option.splits sum.splits prod.splits list.splits)
  with parser_cells_typed [OF this] show ?thesis by blast
qed

subsection \<open>Lost cells\<close>

text \<open>
  When the text goes on after an expression (with anything but an operator), \<open>top\<close> gives up, but nothing holds the tree any more:
  \<open>parser_close\<close> frees a null pointer, and all the nodes stay.
\<close>

theorem parser_loses_cells:
  assumes "lexer_open lmok sd s = Inr (Some (w @ [t]))" and "additive w d"
    and "mul_op (tok_op t) = None" and "add_op (tok_op t) = None"
  shows "\<exists>h. cell_open lmok (\<lambda>_. True) sd s = Some (Inr (None, h, [''bogus trailing content'', ''^''])) \<and> card (dom h) = nodes d"
proof -
  let ?p = "start (w @ [t])" and ?q = "skip (start (w @ [t])) (length w) (nodes d)" and ?n = "expr_fuel (length (w @ [t]))"
  have d: "d \<noteq> Null" by (rule grammar_not_null(4) [OF assms(2)])
  have tok: "tok_at ?p (length w) = t" by (simp add: tok_at_def next_token_def del: next_token_skip)
  have t: "tok_op t \<noteq> LEXER_OP" by (rule lexer_open_ops [OF assms(1)]) simp
  have "runs (\<lambda>n. add_loop always n ?q d d) (Inr (d, ?q))"
    by (rule runs_add_loop_exit) (use assms(4) tok in \<open>auto simp: match_skip\<close>)
  then have "runs (\<lambda>n. expr_additive always n ?p) (Inr (d, ?q))"
    using parser_complete(4) [OF assms(2), rule_format, of ?p "Inr (d, ?q)"] d tok assms(3) by (simp add: settled_def)
  from expr_at_fuel [OF this] have e: "expr_additive always ?n ?p = ret d ?q" by (simp add: expr_def ret_def)
  have "step ?p (\<lambda>_. None) {} (cell_additive always ?n ?p (\<lambda>_. None)) (expr_additive always ?n ?p)"
    by (rule parser_steps(6)) simp
  then obtain a h where c: "cell_additive always ?n ?p (\<lambda>_. None) = hret (Some a) ?q h" "owns h (Some a) d (dom h)"
    using e d by (cases rule: step_cases) (auto simp: ret_def dest: owns_all)
  have "cell_top always ?n ?p (\<lambda>_. None) = hret None (?q\<lparr>p_stop := True, p_trace := [''bogus trailing content'']\<rparr>) h"
    using t tok by (simp add: cell_top_def c(1) [simplified] match_skip trace_once_def) (simp add: skip_def start_def)
  then show ?thesis
    using lexer_open_text [OF assms(1)] assms(1) owns_card [OF c(2)]
    by (simp add: cell_open_def lexer_size_def start_def hret_def)
qed

theorem parser_loses_cells_witness:
  "\<exists>h. cell_open (\<lambda>_. True) (\<lambda>_. True) unary_sd ''-1)'' =
     Some (Inr (None, h :: nat cells, [''bogus trailing content'', ''^''])) \<and> card (dom h) = 2"
proof -
  have lex: "lexer_open (\<lambda>_. True) unary_sd ''-1)'' =
      Inr (Some ([tk OP_SUB, \<lparr>tok_op = OP_VAL, tok_val = 0 :: nat\<rparr>] @ [tk OP_CLOSE]))"
    by code_simp
  have "additive ([tk OP_SUB, \<lparr>tok_op = OP_VAL, tok_val = 0 :: nat\<rparr>]) (Node DAG_NEG 0 Null (Node DAG_VAL 0 Null Null))"
    using unary_minus [OF unary_primary [OF primary_val [of "\<lparr>tok_op = OP_VAL, tok_val = 0 :: nat\<rparr>"]], of "tk OP_SUB"]
    by (auto intro: mul_unary add_mul)
  from parser_loses_cells [OF lex this] show ?thesis by (simp add: numeral_2_eq_2)
qed

end
