(* ===== verification/Codegen_Heap.thy ===== *)
theory Codegen_Heap
  imports Codegen Parser_Heap_Ref
begin

section \<open>Generating code from the nodes in memory (\<open>project-1/main.c\<close>)\<close>

text \<open>
  \<open>genFuncBodyFromDag\<close> and \<open>generate\<close> again, following the pointers of the cells that the parser has made, and the part of \<open>main\<close> from
  \<open>parser_open\<close> to \<open>parser_close\<close>. The cells of a tree that is owned give the code of that tree, and are gone afterwards.
\<close>

text \<open>A pointer to no cell is a fault; on a cycle the recursion would not end.\<close>

partial_function (option) cell_gen :: "nat option \<Rightarrow> 'v cells \<Rightarrow> int \<Rightarrow> ('v stmt list \<times> int \<times> int) run" where
  "cell_gen dag h varId =
     (case dag of
        None \<Rightarrow> Some (Inr ([], -1, varId))
      | Some a \<Rightarrow>
          (case h a of
             None \<Rightarrow> Some (Inl Bad_pointer)
           | Some c \<Rightarrow>
               lbind (cell_gen (c_left c) h varId) (\<lambda>(sl, leftVarId, varId).
               lbind (cell_gen (c_right c) h varId) (\<lambda>(sr, rightVarId, varId).
                 case node_rhs (c_op c) (c_val c) leftVarId rightVarId of
                   None \<Rightarrow> Some (Inr (sl @ sr, -1, varId))
                 | Some e \<Rightarrow> Some (Inr (sl @ sr @ [(varId, e)], varId, varId + 1))))))"

definition cell_generate :: "('v \<Rightarrow> string) \<Rightarrow> nat option \<Rightarrow> 'v cells \<Rightarrow> int \<Rightarrow> (string \<times> int) run" where
  "cell_generate fmt dag h varId =
     lbind (cell_gen dag h varId) (\<lambda>(ss, valueVarId, varId). Some (Inr (program_text fmt ss valueVarId, varId)))"

text \<open>
  \<open>main\<close> up to \<open>fclose\<close>: the text in the file, if there is one, and the cells left. \<open>fopen_ok\<close> says whether \<open>fopen\<close> succeeds; when it does
  not, \<open>main\<close> returns with the parser open.
\<close>

definition front_end :: "(nat \<Rightarrow> bool) \<Rightarrow> (nat \<Rightarrow> bool) \<Rightarrow> (string \<Rightarrow> ('v :: zero) \<times> nat) \<Rightarrow> ('v \<Rightarrow> string) \<Rightarrow> bool \<Rightarrow> string \<Rightarrow>
    (string option \<times> 'v cells) run" where
  "front_end lmok mok sd fmt fopen_ok s =
     lbind (cell_open lmok mok sd s) (\<lambda>(parser, h, tr).
       if parser = None then Some (Inr (None, h))
       else if \<not> fopen_ok then Some (Inr (None, h))
       else
         lbind (Some (parser_dag_ptr parser)) (\<lambda>dag.
         lbind (cell_generate fmt dag h 0) (\<lambda>(txt, _).
         lbind (parser_close parser h) (\<lambda>h. Some (Inr (Some txt, h))))))"

lemma cell_gen_owned: "owns h a d S \<Longrightarrow> cell_gen a h varId = Some (Inr (genFuncBodyFromDag d varId))"
proof (induction arbitrary: varId rule: owns.induct)
  case (owns_node a c l L r R)
  obtain sl i v1 where l: "genFuncBodyFromDag l varId = (sl, i, v1)" by (cases "genFuncBodyFromDag l varId")
  obtain sr j v2 where r: "genFuncBodyFromDag r v1 = (sr, j, v2)" by (cases "genFuncBodyFromDag r v1")
  show ?case using owns_node.hyps(1) owns_node.IH
    by (subst cell_gen.simps) (simp add: l r split: option.split)
qed (subst cell_gen.simps, simp)

lemma cell_generate_owned: "owns h a d S \<Longrightarrow> cell_generate fmt a h varId = Some (Inr (generate fmt d varId))"
  by (simp add: cell_generate_def generate_def cell_gen_owned split: prod.split)

text \<open>
  C21: when the text is an expression of the grammar and memory is available, the front end of \<open>main\<close> writes the text that the generator
  gives for the tree of the expression, following the pointers in memory, and then has freed every node.
\<close>

theorem front_end_writes:
  assumes "lexer_open lmok sd s = Inr (Some ts)" and "additive ts d"
  shows "front_end lmok (\<lambda>_. True) sd fmt True s = Some (Inr (Some (fst (generate fmt d 0)), (\<lambda>_. None)))"
proof -
  have "parser_open lmok always sd s = Some (Inr (Some d, []))" by (rule parser_open_complete [OF assms])
  then obtain a h where c: "cell_open lmok always sd s = Some (Inr (Some a, h, []))" "owns h (Some a) d (dom h)"
    using cell_open_eq [of lmok always sd s] by auto
  show ?thesis
    by (simp add: front_end_def c(1) parser_dag_ptr_def cell_generate_owned [OF c(2)] free_all [OF c(2)] split: prod.split)
qed

theorem front_end_writes_witness:
  "front_end (\<lambda>_. True) (\<lambda>_. True) unary_sd (\<lambda>n. replicate n CHR ''1'') True ''-1'' =
     Some (Inr (Some (program_text (\<lambda>n. replicate n CHR ''1'') [(0, Const (0 :: nat)), (1, Negate 0)] 1), (\<lambda>_. None)))"
proof -
  have lex: "lexer_open (\<lambda>_. True) unary_sd ''-1'' = Inr (Some [tk OP_SUB, \<lparr>tok_op = OP_VAL, tok_val = 0 :: nat\<rparr>])"
    by code_simp
  have "additive [tk OP_SUB, \<lparr>tok_op = OP_VAL, tok_val = 0 :: nat\<rparr>] (Node DAG_NEG 0 Null (Node DAG_VAL 0 Null Null))"
    using unary_minus [OF unary_primary [OF primary_val [of "\<lparr>tok_op = OP_VAL, tok_val = 0 :: nat\<rparr>"]], of "tk OP_SUB"]
    by (auto intro: mul_unary add_mul)
  from front_end_writes [OF lex this, of "\<lambda>n. replicate n CHR ''1''"] show ?thesis
    by (simp add: generate_def node_rhs_def)
qed

end
