(* ===== verification/Shutdown.thy ===== *)
theory Shutdown
  imports Prelude
begin

section \<open>Ending the worker thread (\<open>logfs_close\<close>, \<open>project-4/logfs.c\<close>)\<close>

text \<open>
  \<open>logfs_close\<close> sets \<open>done\<close> and signals without taking the mutex, destroys the mutex and the conditions, and only then waits for the worker. Here
  the two threads are interleaved call by call. A mutex that is destroyed while it is held, a condition that is destroyed while a thread sleeps on
  it, and a call on an object that has been destroyed have no defined effect: the outcome is \<^const>\<open>Sync_misuse\<close>.
\<close>

subsection \<open>The two threads\<close>

text \<open>
  Where the worker is, in \<open>thread\<close> and \<open>write_to_device\<close>: at the test of the loop, before it takes the mutex, at the test of the inner loop (with the
  mutex), about to wait, asleep, woken and about to take the mutex again, about to take an item and unlock, about to unlock and
  return, writing to the device, or ended.
\<close>

datatype worker_pc = At_loop | At_lock | At_test | At_wait | Asleep | Woken | At_take | At_leave | At_write | Gone

text \<open>
  The closing thread is at the \<open>cl_pc\<close>-th of its calls: it sets \<open>done\<close> (0), signals \<open>item\<close> (1) and \<open>space\<close> (2), destroys the mutex (3), \<open>space\<close> (4) and
  \<open>item\<close> (5), and joins (6). No one sleeps on \<open>space\<close>: only the closing thread ever does.
\<close>

record closing =
  wk_pc :: worker_pc
  cl_pc :: nat
  cl_done :: bool
  cl_queued :: nat
  mutex_gone :: bool
  space_gone :: bool
  item_gone :: bool

definition holds_mutex :: "worker_pc \<Rightarrow> bool" where
  "holds_mutex pc \<longleftrightarrow> pc \<in> {At_test, At_wait, At_take, At_leave}"

definition unless_gone :: "bool \<Rightarrow> closing \<Rightarrow> closing outcome" where
  "unless_gone gone s = (if gone then Inl Sync_misuse else Inr s)"

definition worker_move :: "closing \<Rightarrow> closing outcome" where
  "worker_move s =
     (case wk_pc s of
        At_loop \<Rightarrow> Inr (s\<lparr>wk_pc := if cl_done s then Gone else At_lock\<rparr>)
      | At_lock \<Rightarrow> unless_gone (mutex_gone s) (s\<lparr>wk_pc := At_test\<rparr>)
      | At_test \<Rightarrow>
          Inr (s\<lparr>wk_pc := if \<not> cl_done s \<and> cl_queued s = 0 then At_wait else if cl_done s then At_leave else At_take\<rparr>)
      | At_wait \<Rightarrow> unless_gone (mutex_gone s \<or> item_gone s) (s\<lparr>wk_pc := Asleep\<rparr>)
      | Asleep \<Rightarrow> Inr s
      | Woken \<Rightarrow> unless_gone (mutex_gone s) (s\<lparr>wk_pc := At_test\<rparr>)
      | At_take \<Rightarrow> unless_gone (mutex_gone s \<or> space_gone s) (s\<lparr>cl_queued := cl_queued s - 1, wk_pc := At_write\<rparr>)
      | At_leave \<Rightarrow> unless_gone (mutex_gone s) (s\<lparr>wk_pc := At_loop\<rparr>)
      | At_write \<Rightarrow> Inr (s\<lparr>wk_pc := At_loop\<rparr>)
      | Gone \<Rightarrow> Inr s)"

definition wake :: "closing \<Rightarrow> closing" where
  "wake s = (if wk_pc s = Asleep then s\<lparr>wk_pc := Woken\<rparr> else s)"

definition closer_move :: "closing \<Rightarrow> closing outcome" where
  "closer_move s =
     (let t = s\<lparr>cl_pc := cl_pc s + 1\<rparr> in
      if cl_pc s = 0 then Inr (t\<lparr>cl_done := True\<rparr>)
      else if cl_pc s = 1 then Inr (wake t)
      else if cl_pc s = 2 then Inr t
      else if cl_pc s = 3 then unless_gone (holds_mutex (wk_pc s)) (t\<lparr>mutex_gone := True\<rparr>)
      else if cl_pc s = 4 then Inr (t\<lparr>space_gone := True\<rparr>)
      else if cl_pc s = 5 then unless_gone (wk_pc s = Asleep) (t\<lparr>item_gone := True\<rparr>)
      else if cl_pc s = 6 \<and> wk_pc s = Gone then Inr t
      else Inr s)"

text \<open>A schedule; a sleeping thread may also wake up for no reason.\<close>

datatype turn = Worker_turn | Closer_turn | Spurious

definition move :: "turn \<Rightarrow> closing \<Rightarrow> closing outcome" where
  "move x s = (case x of Worker_turn \<Rightarrow> worker_move s | Closer_turn \<Rightarrow> closer_move s | Spurious \<Rightarrow> Inr (wake s))"

fun closing_run :: "turn list \<Rightarrow> closing \<Rightarrow> closing outcome" where
  "closing_run [] s = Inr s"
| "closing_run (x # xs) s = obind (move x s) (closing_run xs)"

text \<open>
  How it ends under a schedule: the join has returned, it has not, or an object was misused. (\<open>pthread_join\<close> of a thread that was
  created and not joined before does not fail.)
\<close>

datatype ending = Ended | Waiting | Misused

definition shutdown :: "turn list \<Rightarrow> closing \<Rightarrow> ending" where
  "shutdown sch s = (case closing_run sch s of Inl _ \<Rightarrow> Misused | Inr t \<Rightarrow> if cl_pc t = 7 then Ended else Waiting)"

definition about_to_close :: "closing \<Rightarrow> bool" where
  "about_to_close s \<longleftrightarrow> cl_pc s = 0 \<and> \<not> cl_done s \<and> \<not> mutex_gone s \<and> \<not> space_gone s \<and> \<not> item_gone s \<and> wk_pc s \<noteq> Gone"

subsection \<open>How it ends\<close>

lemma closing_run_append: "closing_run (xs @ ys) s = obind (closing_run xs s) (closing_run ys)"
  by (induction xs arbitrary: s) (auto simp: obind_def split: sum.split)

lemma move_safe:
  assumes "move x s = Inr t" and "cl_pc s = 7 \<longrightarrow> wk_pc s = Gone"
  shows "cl_pc t = 7 \<longrightarrow> wk_pc t = Gone"
  using assms
  by (cases x; cases "wk_pc s")
    (auto simp: move_def worker_move_def closer_move_def wake_def unless_gone_def Let_def split: if_splits)

text \<open>When the join has returned, the worker has ended.\<close>

theorem ended_worker_gone:
  assumes "about_to_close s" and "shutdown sch s = Ended"
  shows "\<exists>t. closing_run sch s = Inr t \<and> wk_pc t = Gone"
proof -
  have "cl_pc t = 7 \<longrightarrow> wk_pc t = Gone" if "closing_run sch s = Inr t" "cl_pc s = 7 \<longrightarrow> wk_pc s = Gone" for t s
    using that by (induction sch arbitrary: s) (auto simp: obind_eq_Inr dest: move_safe)
  then show ?thesis using assms by (auto simp: shutdown_def about_to_close_def split: sum.splits if_splits)
qed

lemmas closing_defs = shutdown_def move_def worker_move_def closer_move_def wake_def unless_gone_def holds_mutex_def Let_def

text \<open>
  If the worker gets five turns between the signal and the destruction, closing ends, wherever the worker was, but for one place: between its test of
  \<open>done\<close> and its wait. Then the signal comes too early, and the worker sleeps on.
\<close>

theorem patient_close:
  assumes "about_to_close s"
  shows "shutdown ([Closer_turn, Closer_turn] @ replicate 5 Worker_turn @ replicate 5 Closer_turn) s =
    (if wk_pc s = At_wait then Misused else Ended)"
  using assms by (cases "wk_pc s") (simp_all add: closing_defs about_to_close_def numeral_eq_Suc)

text \<open>Not even without the destruction would it be woken: as long as no spurious wake-up comes, it sleeps.\<close>

theorem wakeup_lost:
  assumes "about_to_close s" and "wk_pc s = At_wait" and "Spurious \<notin> set sch"
    and "closing_run ([Closer_turn, Closer_turn, Worker_turn] @ sch) s = Inr t"
  shows "wk_pc t = Asleep"
proof -
  have sleeps: "wk_pc t = Asleep" if "closing_run sch u = Inr t" "wk_pc u = Asleep" "2 \<le> cl_pc u" "Spurious \<notin> set sch" for u sch
    using that
  proof (induction sch arbitrary: u)
    case (Cons x sch)
    then obtain v where v: "move x u = Inr v" "closing_run sch v = Inr t" by (auto simp: obind_eq_Inr)
    have "x \<noteq> Spurious" using Cons.prems(4) by auto
    then have "wk_pc v = Asleep \<and> 2 \<le> cl_pc v" using v(1) Cons.prems(2,3)
      by (cases x) (auto simp: closing_defs split: if_splits)
    then show ?case using Cons.IH v(2) Cons.prems(4) by simp
  qed simp
  obtain u where u: "closing_run [Closer_turn, Closer_turn, Worker_turn] s = Inr u" "closing_run sch u = Inr t"
    using assms(4) by (auto simp: obind_eq_Inr)
  then have "wk_pc u = Asleep \<and> 2 \<le> cl_pc u" using assms(1,2) by (auto simp: closing_defs about_to_close_def)
  then show ?thesis using sleeps u(2) assms(3) by blast
qed

text \<open>
  The ordinary case goes wrong too: the worker is asleep, for the queue is empty, and the closing thread does not stop after its signal; the woken
  worker then takes a mutex that is no more.
\<close>

theorem hasty_close:
  assumes "about_to_close s" and "wk_pc s = Asleep"
  shows "shutdown (replicate 4 Closer_turn @ [Worker_turn]) s = Misused"
  using assms by (simp add: closing_defs about_to_close_def numeral_eq_Suc)

end
