(* ===== verification/Resources.thy ===== *)
theory Resources
  imports Kvdb Shutdown "HOL-Library.Multiset"
begin

section \<open>What the store holds of the system (\<open>project-4\<close>, opening and closing)\<close>

text \<open>
  The other theories take memory as values. Here is the other half of opening and closing: the blocks of memory, the file descriptor and
  the thread that each layer takes and gives back, with the pointers through which it does. The layers are the same functions as
  in \<open>Device\<close>, \<open>Logfs\<close>, \<open>Kvraw\<close>, \<open>Index\<close> and \<open>Kvdb\<close>; where the control depends on data (the geometry of the device, the load of the
  index), the data are those of these theories.
\<close>

subsection \<open>The system's side\<close>

text \<open>The live blocks, named by the number of their \<open>malloc\<close>, the open descriptors, the running workers and the number of \<open>malloc\<close> calls.\<close>

record ledger =
  blocks :: "nat set"
  fds :: "int set"
  workers :: nat
  mallocs :: nat

definition alloc :: "(nat \<Rightarrow> bool) \<Rightarrow> ledger \<Rightarrow> nat option \<times> ledger" where
  "alloc mok L =
     (let k = mallocs L; L' = L\<lparr>mallocs := k + 1\<rparr>
      in if mok k then (Some k, L'\<lparr>blocks := insert k (blocks L)\<rparr>) else (None, L'))"

fun alloc_bufs :: "(nat \<Rightarrow> bool) \<Rightarrow> nat \<Rightarrow> ledger \<Rightarrow> nat option list \<times> ledger" where
  "alloc_bufs mok 0 L = ([], L)"
| "alloc_bufs mok (Suc n) L = (case alloc mok L of (a, L) \<Rightarrow> case alloc_bufs mok n L of (as, L) \<Rightarrow> (a # as, L))"

text \<open>\<open>free\<close> of a null pointer does nothing; of anything but a live block it is a fault.\<close>

definition free_block :: "nat option \<Rightarrow> ledger \<Rightarrow> ledger outcome" where
  "free_block a L =
     (case a of
        None \<Rightarrow> Inr L
      | Some p \<Rightarrow> if p \<in> blocks L then Inr (L\<lparr>blocks := blocks L - {p}\<rparr>) else Inl Bad_pointer)"

fun free_bufs :: "nat option list \<Rightarrow> ledger \<Rightarrow> ledger outcome" where
  "free_bufs [] L = Inr L"
| "free_bufs (a # as) L = obind (free_block a L) (free_bufs as)"

definition open_fd :: "int \<Rightarrow> ledger \<Rightarrow> ledger" where
  "open_fd opened L = (if 0 \<le> opened then L\<lparr>fds := insert opened (fds L)\<rparr> else L)"

subsection \<open>The device\<close>

text \<open>The pointer and what it points to. The arguments of \<open>dev_open\<close> are those of \<open>device_open\<close>.\<close>

type_synonym dev_h = "nat \<times> device"

definition dev_close :: "dev_h option \<Rightarrow> ledger \<Rightarrow> ledger outcome" where
  "dev_close h L =
     (case h of
        None \<Rightarrow> Inr L
      | Some (p, d) \<Rightarrow> free_block (Some p) (if 0 < fd d then L\<lparr>fds := fds L - {fd d}\<rparr> else L))"

definition dev_open :: "(nat \<Rightarrow> bool) \<Rightarrow> string \<Rightarrow> int \<Rightarrow> stat option \<Rightarrow> bytes \<Rightarrow> (nat \<Rightarrow> nat \<Rightarrow> bool) \<Rightarrow> ledger \<Rightarrow> (dev_h option \<times> ledger) outcome" where
  "dev_open mok pathname opened st content io L =
     (if pathname = [] then Inl Assert_failed
      else (case alloc mok L of
              (None, L) \<Rightarrow> Inr (None, L)
            | (Some p, L) \<Rightarrow>
                let L = open_fd opened L; d = \<lparr>fd = opened, dsize = 0, dblock = 0, dfile = content, dio = io\<rparr> in
                if opened \<le> 0 then obind (dev_close (Some (p, d)) L) (\<lambda>L. Inr (None, L))
                else (case geometry st d of
                        (rc, d) \<Rightarrow> if rc \<noteq> 0 then obind (dev_close (Some (p, d)) L) (\<lambda>L. Inr (None, L)) else Inr (Some (p, d), L))))"

subsection \<open>The log\<close>

record log_h =
  lg_ptr :: nat
  lg_dev :: "dev_h option"
  lg_cur :: nat
  lg_rcache :: "nat option list"
  lg_wcache :: "nat option list"

text \<open>
  \<open>opener\<close> is what \<open>device_open\<close> does. \<open>malloc\<close> of the structure and of \<open>cur_blk\<close> are not checked, and both are written at once;
  \<open>pth\<close> says whether the \<open>pthread\<close> calls succeed.
\<close>

definition log_open :: "(nat \<Rightarrow> bool) \<Rightarrow> (ledger \<Rightarrow> (dev_h option \<times> ledger) outcome) \<Rightarrow> bool \<Rightarrow> ledger \<Rightarrow> (log_h option \<times> ledger) outcome" where
  "log_open mok opener pth L =
     (case alloc mok L of
        (a, L) \<Rightarrow>
          obind (opener L) (\<lambda>(dev, L).
            case a of
              None \<Rightarrow> Inl Null_deref
            | Some p \<Rightarrow>
                if dev = None then obind (free_block (Some p) L) (\<lambda>L. Inr (None, L))
                else (case alloc mok L of
                        (None, L) \<Rightarrow> Inl Null_deref
                      | (Some c, L) \<Rightarrow>
                          (case alloc_bufs mok RCACHE_BLOCKS L of
                             (rs, L) \<Rightarrow>
                               (case alloc_bufs mok WCACHE_BLOCKS L of
                                  (ws, L) \<Rightarrow>
                                    if \<not> pth then Inl Exit_called
                                    else Inr (Some \<lparr>lg_ptr = p, lg_dev = dev, lg_cur = c, lg_rcache = rs, lg_wcache = ws\<rparr>,
                                           L\<lparr>workers := workers L + 1\<rparr>))))))"

text \<open>
  \<open>logfs_close\<close>; \<open>e\<close> is how the shutdown of the worker ends (\<open>shutdown\<close>): the descriptor is closed and the memory freed only after the join.
\<close>

definition log_close :: "ending \<Rightarrow> log_h option \<Rightarrow> ledger \<Rightarrow> ledger outcome" where
  "log_close e h L =
     (case h of
        None \<Rightarrow> Inl Null_deref
      | Some h \<Rightarrow>
          if e = Misused then Inl Sync_misuse
          else if e = Waiting then Inl Stuck
          else if workers L = 0 then Inl Bad_pointer
          else
            obind (dev_close (lg_dev h) (L\<lparr>workers := workers L - 1\<rparr>)) (\<lambda>L.
            obind (free_block (Some (lg_cur h)) L) (\<lambda>L.
            obind (free_bufs (lg_rcache h) L) (\<lambda>L.
            obind (free_bufs (lg_wcache h) L) (free_block (Some (lg_ptr h)))))))"

subsection \<open>The record store\<close>

record raw_h =
  rw_ptr :: nat
  rw_log :: "log_h option"

definition raw_close :: "ending \<Rightarrow> raw_h option \<Rightarrow> ledger \<Rightarrow> ledger outcome" where
  "raw_close e h L = (case h of None \<Rightarrow> Inr L | Some h \<Rightarrow> obind (log_close e (rw_log h) L) (free_block (Some (rw_ptr h))))"

text \<open>\<open>opener\<close> is what \<open>logfs_open\<close> does, \<open>rc\<close> what the \<open>kvraw_append\<close> of the first record returns.\<close>

definition raw_open :: "ending \<Rightarrow> (nat \<Rightarrow> bool) \<Rightarrow> (ledger \<Rightarrow> (log_h option \<times> ledger) outcome) \<Rightarrow> int \<Rightarrow> ledger \<Rightarrow> (raw_h option \<times> ledger) outcome" where
  "raw_open e mok opener rc L =
     (case alloc mok L of
        (None, L) \<Rightarrow> Inr (None, L)
      | (Some p, L) \<Rightarrow>
          obind (opener L) (\<lambda>(log, L).
            if log = None \<or> rc \<noteq> 0 then obind (raw_close e (Some \<lparr>rw_ptr = p, rw_log = log\<rparr>) L) (\<lambda>L. Inr (None, L))
            else Inr (Some \<lparr>rw_ptr = p, rw_log = log\<rparr>, L)))"

subsection \<open>The index\<close>

record ix_h =
  ix_ptr :: nat
  ix_maps :: "nat option"
  ix_data :: index

definition ix_open :: "(nat \<Rightarrow> bool) \<Rightarrow> ledger \<Rightarrow> ix_h option \<times> ledger" where
  "ix_open mok L =
     (case alloc mok L of
        (None, L) \<Rightarrow> (None, L)
      | (Some p, L) \<Rightarrow> (Some \<lparr>ix_ptr = p, ix_maps = None, ix_data = index_open\<rparr>, L))"

text \<open>\<open>destroy\<close>, and \<open>index_close\<close>, which does the same and frees the structure.\<close>

definition ix_destroy :: "ix_h \<Rightarrow> ledger \<Rightarrow> (ix_h \<times> ledger) outcome" where
  "ix_destroy h L = obind (free_block (ix_maps h) L) (\<lambda>L. Inr (h\<lparr>ix_maps := None, ix_data := index_open\<rparr>, L))"

definition ix_close :: "ix_h option \<Rightarrow> ledger \<Rightarrow> ledger outcome" where
  "ix_close h L = (case h of None \<Rightarrow> Inr L | Some h \<Rightarrow> obind (ix_destroy h L) (\<lambda>(h, L). free_block (Some (ix_ptr h)) L))"

text \<open>
  \<open>grow\<close>: the new table is filled, the old one destroyed, and the structure overwritten with the new one.
\<close>

definition ix_grow :: "(nat \<Rightarrow> bool) \<Rightarrow> ix_h \<Rightarrow> ledger \<Rightarrow> (int \<times> ix_h \<times> ledger) outcome" where
  "ix_grow mok h L =
     (if over_load (ix_data h) then
        (case alloc mok L of
           (a, L) \<Rightarrow>
             obind (grow (\<lambda>_. a \<noteq> None) (ix_data h)) (\<lambda>(rc, ix).
               if rc \<noteq> 0 then Inr (rc, h, L)
               else obind (ix_destroy h L) (\<lambda>(h, L). Inr (0, h\<lparr>ix_maps := a, ix_data := ix\<rparr>, L))))
      else Inr (0, h, L))"

definition ix_update :: "(nat \<Rightarrow> bool) \<Rightarrow> bytes \<Rightarrow> ix_h \<Rightarrow> ledger \<Rightarrow> (nat option \<times> ix_h \<times> ledger) outcome" where
  "ix_update mok key h L =
     (if key = [] then Inl Assert_failed
      else obind (ix_grow mok h L) (\<lambda>(rc, h, L).
        if rc \<noteq> 0 then Inr (None, h, L)
        else obind (update_from (ix_data h) (hash_key key) 0) (\<lambda>(j, ix). Inr (Some j, h\<lparr>ix_data := ix\<rparr>, L))))"

subsection \<open>The store\<close>

record db_h =
  dbh_ptr :: nat
  dbh_raw :: "raw_h option"
  dbh_index :: "ix_h option"

definition db_close :: "ending \<Rightarrow> db_h option \<Rightarrow> ledger \<Rightarrow> ledger outcome" where
  "db_close e h L =
     (case h of
        None \<Rightarrow> Inr L
      | Some h \<Rightarrow>
          obind (raw_close e (dbh_raw h) L) (\<lambda>L. obind (ix_close (dbh_index h) L) (free_block (Some (dbh_ptr h)))))"

text \<open>\<open>opener\<close> is what \<open>kvraw_open\<close> does; the index is not opened when it fails.\<close>

definition db_open :: "ending \<Rightarrow> (nat \<Rightarrow> bool) \<Rightarrow> (ledger \<Rightarrow> (raw_h option \<times> ledger) outcome) \<Rightarrow> ledger \<Rightarrow> (db_h option \<times> ledger) outcome" where
  "db_open e mok opener L =
     (case alloc mok L of
        (None, L) \<Rightarrow> Inr (None, L)
      | (Some p, L) \<Rightarrow>
          obind (opener L) (\<lambda>(raw, L).
            case (if raw = None then (None, L) else ix_open mok L) of
              (ix, L) \<Rightarrow>
                let h = \<lparr>dbh_ptr = p, dbh_raw = raw, dbh_index = ix\<rparr> in
                if ix = None then obind (db_close e (Some h) L) (\<lambda>L. Inr (None, L)) else Inr (Some h, L)))"

text \<open>
  The layers put together, and an open store in use: of the memory its operations take, the store keeps only the tables of the index.
  The others free their buffers, but for \<open>read_mem\<close> below.
\<close>

definition store_open :: "ending \<Rightarrow> (nat \<Rightarrow> bool) \<Rightarrow> string \<Rightarrow> int \<Rightarrow> stat option \<Rightarrow> bytes \<Rightarrow> (nat \<Rightarrow> nat \<Rightarrow> bool) \<Rightarrow> bool \<Rightarrow> int \<Rightarrow> ledger \<Rightarrow>
    (db_h option \<times> ledger) outcome" where
  "store_open e mok pathname opened st content io pth rc L =
     (if pathname = [] then Inl Assert_failed
      else db_open e mok (raw_open e mok (log_open mok (dev_open mok pathname opened st content io) pth) rc) L)"

fun store_updates :: "(nat \<Rightarrow> bool) \<Rightarrow> bytes list \<Rightarrow> ix_h \<Rightarrow> ledger \<Rightarrow> (ix_h \<times> ledger) outcome" where
  "store_updates mok [] h L = Inr (h, L)"
| "store_updates mok (key # keys) h L = obind (ix_update mok key h L) (\<lambda>(_, h, L). store_updates mok keys h L)"

definition store_use :: "(nat \<Rightarrow> bool) \<Rightarrow> bytes list \<Rightarrow> db_h \<Rightarrow> ledger \<Rightarrow> (db_h \<times> ledger) outcome" where
  "store_use mok keys h L =
     (case dbh_index h of
        None \<Rightarrow> Inl Null_deref
      | Some ix \<Rightarrow> obind (store_updates mok keys ix L) (\<lambda>(ix, L). Inr (h\<lparr>dbh_index := Some ix\<rparr>, L)))"

text \<open>
  \<open>read_mem\<close> with the buffer it takes, \<open>tmp_buf\<close>: the data are those of \<open>Logfs\<close>. When \<open>malloc\<close> fails (which is not checked), a copy to the
  buffer is a fault, and \<open>pread\<close> into it fails.
\<close>

definition read_mem_buf :: "(nat \<Rightarrow> bool) \<Rightarrow> logfs \<Rightarrow> nat \<Rightarrow> nat \<Rightarrow> nat \<Rightarrow> ledger \<Rightarrow> (int \<times> bytes \<times> logfs \<times> ledger) outcome" where
  "read_mem_buf mok s b off len L =
     (case alloc mok L of
        (Some p, L) \<Rightarrow>
          obind (read_mem s b off len) (\<lambda>(rc, data, s).
            if rc \<noteq> 0 then Inr (rc, data, s, L) else obind (free_block (Some p) L) (\<lambda>L. Inr (rc, data, s, L)))
      | (None, L) \<Rightarrow>
          let i = rc_index s b in
          if b = blk (rcache s ! i) then obind (read_mem s b off len) (\<lambda>(rc, data, s). Inr (rc, data, s, L))
          else
            (let s = s\<lparr>rcache := (rcache s)[i := (rcache s ! i)\<lparr>blk := b\<rparr>]\<rparr> in
             if b = block_start s (lf_off s) then Inl Null_deref
             else obind (check_in_wcache s b) (\<lambda>(hit, s).
               if hit \<noteq> None then Inl Null_deref
               else obind (check_transfer (lf_device s) b (blk_sz s)) (\<lambda>_. Inr (-1, [], s, L)))))"

end
