(* ===== verification/Resources_Ref.thy ===== *)
theory Resources_Ref
  imports Resources
begin

section \<open>The store gives back what it takes\<close>

text \<open>
  Each layer has a contract, the locale \<open>closable\<close>: closing a handle frees the blocks, the descriptor and the thread the handle holds, each once
  and nothing else. The contract of a layer is proved from that of the layer below. Then opening, when it gives no
  handle, holds nothing, and otherwise what its handle does; so a store that is opened, used and closed leaves the
  system as it was.
\<close>

subsection \<open>What is held\<close>



definition opt_list :: "'a option \<Rightarrow> 'a list" where
  "opt_list a = (case a of None \<Rightarrow> [] | Some x \<Rightarrow> [x])"

lemma opt_list_simps [simp]: "opt_list None = []" "opt_list (Some x) = [x]"
  by (simp_all add: opt_list_def)










subsection \<open>The contract of a layer\<close>


subsection \<open>The layers keep it\<close>

















text \<open>When the shutdown of the worker goes wrong, closing stops there.\<close>

definition close_fault :: "ending \<Rightarrow> fault" where
  "close_fault e = (if e = Misused then Sync_misuse else Stuck)"

lemma close_fault_not [simp]: "close_fault e \<noteq> Bad_pointer"
  by (simp add: close_fault_def)


subsection \<open>Opening\<close>











subsection \<open>The table while the store is in use\<close>




subsection \<open>Opening succeeds\<close>


text \<open>The device on the ledger is the one of \<open>Device\<close>.\<close>

lemma dev_open_data:
  "case dev_open mok pathname opened st content io L of
     Inl e \<Rightarrow> e = Bad_pointer \<or> device_open pathname (mok (mallocs L)) opened st content io = Inl e
   | Inr (h, L') \<Rightarrow> device_open pathname (mok (mallocs L)) opened st content io = Inr (map_option snd h)"
proof (cases "mok (mallocs L)")
  case True
  obtain p L1 where a: "alloc mok L = (Some p, L1)" using True by (simp add: alloc_def Let_def)
  obtain rc e where g: "geometry st \<lparr>fd = opened, dsize = 0, dblock = 0, dfile = content, dio = io\<rparr> = (rc, e)"
    by (cases "geometry st \<lparr>fd = opened, dsize = 0, dblock = 0, dfile = content, dio = io\<rparr>")
  have close: "(\<exists>L'. dev_close (Some (p, d)) M = Inr L') \<or> dev_close (Some (p, d)) M = Inl Bad_pointer" for d M
    by (simp add: dev_close_def free_block_def)
  consider (none) "pathname = []" | (refused) "pathname \<noteq> []" "opened \<le> 0" | (granted) "pathname \<noteq> []" "0 < opened" by fastforce
  then show ?thesis
  proof cases
    case refused
    then show ?thesis using True a close [of "\<lparr>fd = opened, dsize = 0, dblock = 0, dfile = content, dio = io\<rparr>" "open_fd opened L1"]
      by (elim disjE exE) (simp_all add: dev_open_def device_open_def Let_def)
  next
    case granted
    then show ?thesis using True a g close [of e "open_fd opened L1"]
      by (elim disjE exE; cases "rc = 0") (simp_all add: dev_open_def device_open_def Let_def)
  qed (simp add: dev_open_def device_open_def)
qed (simp add: dev_open_def device_open_def alloc_def Let_def)



subsection \<open>Properties\<close>





subsection \<open>What is lost\<close>

text \<open>
  A program whose standard input is closed gets descriptor 0 from \<open>open\<close>: \<open>device_open\<close> takes it for a failure, and
  \<open>device_close\<close> does not close it.
\<close>

theorem descriptor_zero_lost:
  assumes "mok (mallocs L)" and "pathname \<noteq> []"
  shows "\<exists>L'. dev_open mok pathname 0 st content io L = Inr (None, L') \<and> 0 \<in> fds L'"
  using assms by (simp add: dev_open_def alloc_def open_fd_def dev_close_def free_block_def Let_def)

text \<open>A read that fails on the device loses the buffer of \<open>read_mem\<close>; one that succeeds does not.\<close>

theorem failed_read_loses_buffer:
  assumes "mok (mallocs L)" and "blocks L \<subseteq> {..< mallocs L}" and "read_mem s b off len = Inr (rc, data, s')"
  shows "\<exists>L'. read_mem_buf mok s b off len L = Inr (rc, data, s', L') \<and>
    blocks L' = (if rc = 0 then blocks L else insert (mallocs L) (blocks L))"
  using assms by (auto simp: read_mem_buf_def alloc_def free_block_def Let_def)

end
