(* ===== verification/Avl_Mem.thy ===== *)
theory Avl_Mem
  imports Avl
begin

section \<open>The tree in the bytes of the region (\<open>project-3/avl.c\<close>)\<close>

text \<open>
  \<open>Avl\<close> has the nodes as values. Here they are bytes of the persistent region, as in the code: \<open>struct node\<close> and \<open>struct state\<close> with
  their fields at their offsets (those of a 64-bit machine), pointers as stored words, and every read and write of a field a load or store. The
  region is mapped at a fixed address, so a pointer in it is that address plus an offset; the model computes with the offset,
  \<^const>\<open>None\<close> is the null pointer. A word that is no address of the mapping is \<^const>\<open>Bad_pointer\<close> when it is read as a
  pointer. The functions are those of \<open>Avl\<close> with the prefix \<open>m_\<close>; a loop or recursion over the pointers may not end, which is
  \<^const>\<open>None\<close>. A depth is a signed 32-bit integer; it is stored modulo \<open>2 ^ 32\<close>.
\<close>

subsection \<open>Fields\<close>

definition VM_START_ADDR :: nat where "VM_START_ADDR = 0x700000000000"

type_synonym ptr = "nat option"

definition ptr_word :: "ptr \<Rightarrow> nat" where
  "ptr_word p = (case p of None \<Rightarrow> 0 | Some a \<Rightarrow> VM_START_ADDR + a)"

definition word_ptr :: "nat \<Rightarrow> ptr outcome" where
  "word_ptr v = (if v = 0 then Inr None else if v < VM_START_ADDR then Inl Bad_pointer else Inr (Some (v - VM_START_ADDR)))"

definition load_int :: "bytes \<Rightarrow> nat \<Rightarrow> int outcome" where
  "load_int m a = (if a + 4 \<le> length m then Inr (int32 (le_val (slice a 4 m))) else Inl Out_of_bounds)"

definition int_bytes :: "int \<Rightarrow> bytes" where
  "int_bytes v = le_bytes 4 (nat (v mod 2 ^ 32))"

text \<open>The string at an address: the bytes up to the zero.\<close>

definition load_string :: "bytes \<Rightarrow> nat \<Rightarrow> bytes outcome" where
  "load_string m a =
     (let xs = takeWhile (\<lambda>b. b \<noteq> 0) (drop a m) in if a + length xs < length m then Inr xs else Inl Out_of_bounds)"

text \<open>The offsets of the fields of \<open>struct node\<close> and \<open>struct state\<close>.\<close>

definition COUNT :: nat where "COUNT = 8"
definition ITEM :: nat where "ITEM = 16"
definition LEFT :: nat where "LEFT = 24"
definition RIGHT :: nat where "RIGHT = 32"
definition UNIQUE :: nat where "UNIQUE = 8"
definition ROOT :: nat where "ROOT = 16"

lemmas offsets = COUNT_def ITEM_def LEFT_def RIGHT_def UNIQUE_def ROOT_def

text \<open>\<open>p->field\<close> and \<open>p->field = v\<close>, for the field \<open>depth\<close> at offset 0, a \<open>count\<close> and a pointer.\<close>

definition deref :: "ptr \<Rightarrow> nat outcome" where
  "deref p = (case p of None \<Rightarrow> Inl Null_deref | Some a \<Rightarrow> Inr a)"

definition get_depth :: "bytes \<Rightarrow> ptr \<Rightarrow> int outcome" where
  "get_depth m p = obind (deref p) (load_int m)"

definition put_depth :: "bytes \<Rightarrow> ptr \<Rightarrow> int \<Rightarrow> bytes outcome" where
  "put_depth m p v = obind (deref p) (\<lambda>a. store_bytes m a (int_bytes v))"

definition get_num :: "nat \<Rightarrow> bytes \<Rightarrow> ptr \<Rightarrow> nat outcome" where
  "get_num off m p = obind (deref p) (\<lambda>a. load64 m (a + off))"

definition put_num :: "nat \<Rightarrow> bytes \<Rightarrow> ptr \<Rightarrow> nat \<Rightarrow> bytes outcome" where
  "put_num off m p v = obind (deref p) (\<lambda>a. store64 m (a + off) v)"

definition get_ptr :: "nat \<Rightarrow> bytes \<Rightarrow> ptr \<Rightarrow> ptr outcome" where
  "get_ptr off m p = obind (get_num off m p) word_ptr"

definition put_ptr :: "nat \<Rightarrow> bytes \<Rightarrow> ptr \<Rightarrow> ptr \<Rightarrow> bytes outcome" where
  "put_ptr off m p v = put_num off m p (ptr_word v)"

text \<open>A string argument: one of the caller, or one in the region. Both are read when they are compared.\<close>

datatype cstring = Chars bytes | At ptr

fun chars :: "bytes \<Rightarrow> cstring \<Rightarrow> bytes outcome" where
  "chars m (Chars xs) = Inr xs"
| "chars m (At p) = obind (deref p) (load_string m)"

definition item_cmp :: "bytes \<Rightarrow> cstring \<Rightarrow> ptr \<Rightarrow> int outcome" where
  "item_cmp m item node =
     obind (chars m item) (\<lambda>x. obind (get_ptr ITEM m node) (\<lambda>q. obind (chars m (At q)) (\<lambda>y. Inr (strcmp x y))))"

record m_avl =
  m_scm :: scm
  m_state :: nat

subsection \<open>Depths and rotations\<close>

definition m_delta :: "bytes \<Rightarrow> ptr \<Rightarrow> int outcome" where
  "m_delta m node = (if node = None then Inr (-1) else get_depth m node)"

definition m_balance :: "bytes \<Rightarrow> ptr \<Rightarrow> int outcome" where
  "m_balance m node =
     obind (get_ptr LEFT m node) (\<lambda>l. obind (m_delta m l) (\<lambda>dl.
     obind (get_ptr RIGHT m node) (\<lambda>r. obind (m_delta m r) (\<lambda>dr. Inr (dl - dr)))))"

definition m_depth :: "bytes \<Rightarrow> ptr \<Rightarrow> ptr \<Rightarrow> int outcome" where
  "m_depth m a b = obind (m_delta m a) (\<lambda>da. obind (m_delta m b) (\<lambda>db. Inr (if da > db then da + 1 else db + 1)))"

text \<open>\<open>node->depth = depth(node->left, node->right)\<close>\<close>

definition m_set_depth :: "bytes \<Rightarrow> ptr \<Rightarrow> bytes outcome" where
  "m_set_depth m node =
     obind (get_ptr LEFT m node) (\<lambda>l. obind (get_ptr RIGHT m node) (\<lambda>r. obind (m_depth m l r) (put_depth m node)))"

definition m_rotate_right :: "bytes \<Rightarrow> ptr \<Rightarrow> (ptr \<times> bytes) outcome" where
  "m_rotate_right m node =
     obind (get_ptr LEFT m node) (\<lambda>root.
     obind (get_ptr RIGHT m root) (\<lambda>x.
     obind (put_ptr LEFT m node x) (\<lambda>m.
     obind (put_ptr RIGHT m root node) (\<lambda>m.
     obind (m_set_depth m node) (\<lambda>m.
     obind (get_ptr LEFT m root) (\<lambda>l.
     obind (m_depth m l node) (\<lambda>d.
     obind (put_depth m root d) (\<lambda>m. Inr (root, m)))))))))"

definition m_rotate_left :: "bytes \<Rightarrow> ptr \<Rightarrow> (ptr \<times> bytes) outcome" where
  "m_rotate_left m node =
     obind (get_ptr RIGHT m node) (\<lambda>root.
     obind (get_ptr LEFT m root) (\<lambda>x.
     obind (put_ptr RIGHT m node x) (\<lambda>m.
     obind (put_ptr LEFT m root node) (\<lambda>m.
     obind (m_set_depth m node) (\<lambda>m.
     obind (get_ptr RIGHT m root) (\<lambda>r.
     obind (m_depth m r node) (\<lambda>d.
     obind (put_depth m root d) (\<lambda>m. Inr (root, m)))))))))"

definition m_rotate_left_right :: "bytes \<Rightarrow> ptr \<Rightarrow> (ptr \<times> bytes) outcome" where
  "m_rotate_left_right m node =
     obind (get_ptr LEFT m node) (\<lambda>l. obind (m_rotate_left m l) (\<lambda>(l, m).
     obind (put_ptr LEFT m node l) (\<lambda>m. m_rotate_right m node)))"

definition m_rotate_right_left :: "bytes \<Rightarrow> ptr \<Rightarrow> (ptr \<times> bytes) outcome" where
  "m_rotate_right_left m node =
     obind (get_ptr RIGHT m node) (\<lambda>r. obind (m_rotate_right m r) (\<lambda>(r, m).
     obind (put_ptr RIGHT m node r) (\<lambda>m. m_rotate_left m node)))"

subsection \<open>Insertion\<close>

definition with_mem :: "scm \<Rightarrow> (ptr \<times> bytes) outcome \<Rightarrow> (ptr \<times> scm) outcome" where
  "with_mem s r = obind r (\<lambda>(p, m). Inr (p, s\<lparr>mem := m\<rparr>))"

text \<open>\<open>++p->field\<close>\<close>

definition bump :: "nat \<Rightarrow> bytes \<Rightarrow> ptr \<Rightarrow> bytes outcome" where
  "bump off m p = obind (get_num off m p) (\<lambda>n. put_num off m p (inc64 n))"

definition m_new_node :: "nat \<Rightarrow> scm \<Rightarrow> bytes \<Rightarrow> (ptr \<times> scm) outcome" where
  "m_new_node state s item =
     obind (scm_malloc s NODE_SIZE) (\<lambda>(p, s).
     obind (store_bytes (mem s) p (replicate NODE_SIZE 0)) (\<lambda>m.
     obind (scm_strdup (s\<lparr>mem := m\<rparr>) item) (\<lambda>(q, s).
     obind (put_ptr ITEM (mem s) (Some p) (Some q)) (\<lambda>m.
     obind (bump COUNT m (Some p)) (\<lambda>m.
     obind (bump 0 m (Some state)) (\<lambda>m.
     obind (bump UNIQUE m (Some state)) (\<lambda>m. Inr (Some p, s\<lparr>mem := m\<rparr>))))))))"

definition m_count_item :: "nat \<Rightarrow> bytes \<Rightarrow> ptr \<Rightarrow> (ptr \<times> bytes) outcome" where
  "m_count_item state m root = obind (bump COUNT m root) (\<lambda>m. obind (bump 0 m (Some state)) (\<lambda>m. Inr (root, m)))"

text \<open>The child is assigned, then the balance is looked at.\<close>

definition m_fix_left :: "bytes \<Rightarrow> bytes \<Rightarrow> ptr \<Rightarrow> ptr \<Rightarrow> (ptr \<times> bytes) outcome" where
  "m_fix_left item m root l =
     obind (put_ptr LEFT m root l) (\<lambda>m. obind (m_balance m root) (\<lambda>b.
       if 1 < \<bar>b\<bar> then
         obind (get_ptr LEFT m root) (\<lambda>l. obind (item_cmp m (Chars item) l) (\<lambda>k.
           if 0 > k then m_rotate_right m root else m_rotate_left_right m root))
       else Inr (root, m)))"

definition m_fix_right :: "bytes \<Rightarrow> bytes \<Rightarrow> ptr \<Rightarrow> ptr \<Rightarrow> (ptr \<times> bytes) outcome" where
  "m_fix_right item m root r =
     obind (put_ptr RIGHT m root r) (\<lambda>m. obind (m_balance m root) (\<lambda>b.
       if 1 < \<bar>b\<bar> then
         obind (get_ptr RIGHT m root) (\<lambda>r. obind (item_cmp m (Chars item) r) (\<lambda>k.
           if 0 < k then m_rotate_left m root else m_rotate_right_left m root))
       else Inr (root, m)))"

text \<open>The last assignment of \<open>update\<close>, to the node that is the root by then.\<close>

definition m_settle :: "(ptr \<times> bytes) outcome \<Rightarrow> (ptr \<times> bytes) outcome" where
  "m_settle r = obind r (\<lambda>(root, m). obind (m_set_depth m root) (\<lambda>m. Inr (root, m)))"

partial_function (option) m_update :: "nat \<Rightarrow> scm \<Rightarrow> ptr \<Rightarrow> bytes \<Rightarrow> (ptr \<times> scm) run" where
  "m_update state s root item =
     (if root = None then Some (m_new_node state s item)
      else
        lbind (Some (item_cmp (mem s) (Chars item) root)) (\<lambda>d.
          if d = 0 then Some (with_mem s (m_settle (m_count_item state (mem s) root)))
          else if 0 > d then
            lbind (Some (get_ptr LEFT (mem s) root)) (\<lambda>l.
            lbind (m_update state s l item) (\<lambda>(l, s).
              Some (with_mem s (m_settle (m_fix_left item (mem s) root l)))))
          else
            lbind (Some (get_ptr RIGHT (mem s) root)) (\<lambda>r.
            lbind (m_update state s r item) (\<lambda>(r, s).
              Some (with_mem s (m_settle (m_fix_right item (mem s) root r)))))))"

definition m_avl_insert :: "m_avl \<Rightarrow> bytes \<Rightarrow> (int \<times> m_avl) run" where
  "m_avl_insert x item =
     (if item = [] then Some (Inl Assert_failed)
      else
        lbind (Some (get_ptr ROOT (mem (m_scm x)) (Some (m_state x)))) (\<lambda>root.
        lbind (m_update (m_state x) (m_scm x) root item) (\<lambda>(root, s).
          if root = None then Some (Inr (-1, x\<lparr>m_scm := s\<rparr>))
          else Some (obind (put_ptr ROOT (mem s) (Some (m_state x)) root) (\<lambda>m. Inr (0, x\<lparr>m_scm := s\<lparr>mem := m\<rparr>\<rparr>))))))"

subsection \<open>Lookup and traversal\<close>

partial_function (option) m_find :: "bytes \<Rightarrow> ptr \<Rightarrow> bytes \<Rightarrow> nat run" where
  "m_find m node item =
     (if node = None then Some (Inr 0)
      else
        lbind (Some (item_cmp m (Chars item) node)) (\<lambda>d.
          if d = 0 then Some (get_num COUNT m node)
          else lbind (Some (get_ptr (if 0 > d then LEFT else RIGHT) m node)) (\<lambda>node. m_find m node item)))"

definition m_avl_exists :: "m_avl \<Rightarrow> bytes \<Rightarrow> nat run" where
  "m_avl_exists x item =
     (if item = [] then Some (Inl Assert_failed)
      else lbind (Some (get_ptr ROOT (mem (m_scm x)) (Some (m_state x)))) (\<lambda>node. m_find (mem (m_scm x)) node item))"

partial_function (option) m_traverse :: "bytes \<Rightarrow> ('a \<Rightarrow> bytes \<Rightarrow> nat \<Rightarrow> 'a) \<Rightarrow> ptr \<Rightarrow> 'a \<Rightarrow> 'a run" where
  "m_traverse m fnc node arg =
     (if node = None then Some (Inr arg)
      else
        lbind (Some (get_ptr LEFT m node)) (\<lambda>l.
        lbind (m_traverse m fnc l arg) (\<lambda>arg.
        lbind (Some (obind (get_ptr ITEM m node) (\<lambda>q. chars m (At q)))) (\<lambda>it.
        lbind (Some (get_num COUNT m node)) (\<lambda>c.
        lbind (Some (get_ptr RIGHT m node)) (\<lambda>r. m_traverse m fnc r (fnc arg it c)))))))"

definition m_avl_traverse :: "('a \<Rightarrow> bytes \<Rightarrow> nat \<Rightarrow> 'a) \<Rightarrow> m_avl \<Rightarrow> 'a \<Rightarrow> 'a run" where
  "m_avl_traverse fnc x arg =
     lbind (Some (get_ptr ROOT (mem (m_scm x)) (Some (m_state x)))) (\<lambda>root. m_traverse (mem (m_scm x)) fnc root arg)"

definition m_avl_items :: "m_avl \<Rightarrow> nat outcome" where
  "m_avl_items x = get_num 0 (mem (m_scm x)) (Some (m_state x))"

definition m_avl_unique :: "m_avl \<Rightarrow> nat outcome" where
  "m_avl_unique x = get_num UNIQUE (mem (m_scm x)) (Some (m_state x))"

subsection \<open>Deletion\<close>

partial_function (option) m_find_min :: "bytes \<Rightarrow> ptr \<Rightarrow> ptr run" where
  "m_find_min m node =
     lbind (Some (get_ptr LEFT m node)) (\<lambda>l. if l = None then Some (Inr node) else m_find_min m l)"

definition free_ptr :: "scm \<Rightarrow> ptr \<Rightarrow> scm outcome" where
  "free_ptr s p = (case p of None \<Rightarrow> Inr s | Some a \<Rightarrow> scm_free s a)"

text \<open>A node with one child at most: its string and the node are freed, and \<open>next\<close> takes its place.\<close>

definition m_free_node :: "scm \<Rightarrow> ptr \<Rightarrow> ptr \<Rightarrow> (ptr \<times> scm) outcome" where
  "m_free_node s root child =
     obind (get_ptr ITEM (mem s) root) (\<lambda>q. obind (free_ptr s q) (\<lambda>s. obind (free_ptr s root) (\<lambda>s. Inr (child, s))))"

text \<open>A node with two children: it takes over the item and the count of \<open>temp\<close>, whose count becomes 1.\<close>

definition m_take_over :: "scm \<Rightarrow> ptr \<Rightarrow> ptr \<Rightarrow> scm outcome" where
  "m_take_over s root temp =
     obind (get_ptr ITEM (mem s) root) (\<lambda>old.
     obind (get_ptr ITEM (mem s) temp) (\<lambda>q.
     obind (chars (mem s) (At q)) (\<lambda>it.
     obind (scm_strdup s it) (\<lambda>(q, s).
     obind (put_ptr ITEM (mem s) root (Some q)) (\<lambda>m.
     obind (get_num COUNT m temp) (\<lambda>c.
     obind (put_num COUNT m root c) (\<lambda>m.
     obind (free_ptr (s\<lparr>mem := m\<rparr>) old) (\<lambda>s.
     obind (put_num COUNT (mem s) temp 1) (\<lambda>m. Inr (s\<lparr>mem := m\<rparr>))))))))))"

text \<open>The end of \<open>delete\<close>: the depth and the rotations.\<close>

definition m_rebalance :: "bytes \<Rightarrow> ptr \<Rightarrow> (ptr \<times> bytes) outcome" where
  "m_rebalance m root =
     obind (m_set_depth m root) (\<lambda>m. obind (m_balance m root) (\<lambda>b.
       if b > 1 then
         obind (get_ptr LEFT m root) (\<lambda>l. obind (m_balance m l) (\<lambda>bl.
           if bl \<ge> 0 then m_rotate_right m root else m_rotate_left_right m root))
       else if b < -1 then
         obind (get_ptr RIGHT m root) (\<lambda>r. obind (m_balance m r) (\<lambda>br.
           if br \<le> 0 then m_rotate_left m root else m_rotate_right_left m root))
       else Inr (root, m)))"

partial_function (option) m_delete :: "scm \<Rightarrow> ptr \<Rightarrow> cstring \<Rightarrow> (ptr \<times> scm) run" where
  "m_delete s root item =
     (if root = None then Some (Inr (root, s))
      else
        lbind (Some (item_cmp (mem s) item root)) (\<lambda>cmp.
          if cmp < 0 then
            lbind (Some (get_ptr LEFT (mem s) root)) (\<lambda>l.
            lbind (m_delete s l item) (\<lambda>(l, s).
              Some (with_mem s (obind (put_ptr LEFT (mem s) root l) (\<lambda>m. m_rebalance m root)))))
          else if cmp > 0 then
            lbind (Some (get_ptr RIGHT (mem s) root)) (\<lambda>r.
            lbind (m_delete s r item) (\<lambda>(r, s).
              Some (with_mem s (obind (put_ptr RIGHT (mem s) root r) (\<lambda>m. m_rebalance m root)))))
          else
            lbind (Some (get_num COUNT (mem s) root)) (\<lambda>c.
              if c > 1 then
                Some (with_mem s (obind (put_num COUNT (mem s) root (c - 1)) (\<lambda>m. m_rebalance m root)))
              else
                lbind (Some (get_ptr LEFT (mem s) root)) (\<lambda>l.
                lbind (Some (get_ptr RIGHT (mem s) root)) (\<lambda>r.
                  if l = None then Some (m_free_node s root r)
                  else if r = None then Some (m_free_node s root l)
                  else
                    lbind (m_find_min (mem s) r) (\<lambda>temp.
                    lbind (Some (m_take_over s root temp)) (\<lambda>s.
                    lbind (Some (get_ptr RIGHT (mem s) root)) (\<lambda>r.
                    lbind (Some (get_ptr ITEM (mem s) temp)) (\<lambda>q.
                    lbind (m_delete s r (At q)) (\<lambda>(r, s).
                      Some (with_mem s (obind (put_ptr RIGHT (mem s) root r) (\<lambda>m. m_rebalance m root)))))))))))))"

definition m_avl_delete :: "m_avl \<Rightarrow> bytes \<Rightarrow> (int \<times> m_avl) run" where
  "m_avl_delete x item =
     lbind (m_avl_exists x item) (\<lambda>n.
       let count = int32 n; s = m_scm x; state = Some (m_state x) in
       if count = 0 then Some (Inl Assert_failed)
       else
         lbind (Some (obind (get_num 0 (mem s) state) (\<lambda>i. put_num 0 (mem s) state (dec64 i)))) (\<lambda>m.
         lbind (Some (if count = 1 then obind (get_num UNIQUE m state) (\<lambda>u. put_num UNIQUE m state (dec64 u)) else Inr m)) (\<lambda>m.
         lbind (Some (get_ptr ROOT m state)) (\<lambda>root.
         lbind (m_delete (s\<lparr>mem := m\<rparr>) root (Chars item)) (\<lambda>(root, s).
           Some (obind (put_ptr ROOT (mem s) state root) (\<lambda>m. Inr (0, x\<lparr>m_scm := s\<lparr>mem := m\<rparr>\<rparr>))))))))"

subsection \<open>Opening and closing\<close>

definition m_avl_open :: "string \<Rightarrow> bool \<Rightarrow> (bool \<times> bytes) option \<Rightarrow> bool \<Rightarrow> bool \<Rightarrow> m_avl option outcome" where
  "m_avl_open pathname mok img mapped trunc =
     (if \<not> mok then Inr None
      else obind (scm_open pathname img mapped trunc) (\<lambda>so.
        case so of
          None \<Rightarrow> Inl Null_deref
        | Some s \<Rightarrow>
            if scm_utilized s \<noteq> 0 then Inr (Some \<lparr>m_scm = s, m_state = scm_mbase s\<rparr>)
            else
              obind (scm_malloc s STATE_SIZE) (\<lambda>(state, s).
              obind (store_bytes (mem s) state (replicate STATE_SIZE 0)) (\<lambda>m.
                if state \<noteq> scm_mbase s then Inl Assert_failed
                else Inr (Some \<lparr>m_scm = s\<lparr>mem := m\<rparr>, m_state = state\<rparr>)))))"

definition m_avl_close :: "m_avl \<Rightarrow> bytes outcome" where
  "m_avl_close x = scm_close (m_scm x)"

end
