(* ===== verification/Avl_Mem_Inv.thy ===== *)
theory Avl_Mem_Inv
  imports Avl_Mem Avl_Inv
begin

section \<open>The bytes hold the tree\<close>

subsection \<open>Blocks in use and what a step leaves alone\<close>

text \<open>
  \<open>live bs p n\<close>: the block at \<open>p\<close> is in use and has at least \<open>n\<close> bytes. \<open>frame F\<close>: every block in use but those at
  the addresses \<open>F\<close> stays in use and keeps its bytes.
\<close>

definition live :: "blocks \<Rightarrow> nat \<Rightarrow> nat \<Rightarrow> bool" where
  "live bs p n \<longleftrightarrow> (\<exists>k \<ge> n. (p, k, True) \<in> set (regions base_addr bs))"

definition frame :: "nat set \<Rightarrow> blocks \<Rightarrow> bytes \<Rightarrow> blocks \<Rightarrow> bytes \<Rightarrow> bool" where
  "frame F bs m bs' m' \<longleftrightarrow>
     length m' = length m \<and> (\<forall>p n. live bs p n \<longrightarrow> p \<notin> F \<longrightarrow> live bs' p n \<and> slice p n m' = slice p n m)"

text \<open>The blocks are laid out in memory, and its addresses are pointers.\<close>

definition sane :: "blocks \<Rightarrow> bytes \<Rightarrow> bool" where
  "sane bs m \<longleftrightarrow> layout m base_addr bs \<and> base_addr + extent bs \<le> length m \<and> VM_START_ADDR + length m < 2 ^ 64"

definition writes :: "nat set \<Rightarrow> blocks \<Rightarrow> bytes \<Rightarrow> bytes \<Rightarrow> bool" where
  "writes F bs m m' \<longleftrightarrow> frame F bs m bs m' \<and> sane bs m'"

lemma live_less: "live bs p n \<Longrightarrow> k \<le> n \<Longrightarrow> live bs p k"
  by (auto simp: live_def intro: order.trans)

lemma frame_refl: "frame F bs m bs m"
  by (simp add: frame_def)

text \<open>The second step may touch blocks that were not in use before the first.\<close>

lemma frame_trans_fresh:
  assumes "frame F bs m bs1 m1" and "frame G bs1 m1 bs2 m2" and "F \<subseteq> H" and "G \<subseteq> H \<union> {x. \<not> live bs x 0}"
  shows "frame H bs m bs2 m2"
  unfolding frame_def
proof (intro conjI allI impI)
  fix p n
  assume p: "live bs p n" "p \<notin> H"
  then have F: "p \<notin> F" and G: "p \<notin> G" using assms(3,4) live_less [OF p(1), of 0] by auto
  have 1: "live bs1 p n" "slice p n m1 = slice p n m" using assms(1) p(1) F by (simp_all add: frame_def)
  then show "live bs2 p n" "slice p n m2 = slice p n m" using assms(2) G by (simp_all add: frame_def)
qed (use assms in \<open>simp add: frame_def\<close>)

lemma frame_trans: "frame F bs m bs1 m1 \<Longrightarrow> frame G bs1 m1 bs2 m2 \<Longrightarrow> F \<union> G \<subseteq> H \<Longrightarrow> frame H bs m bs2 m2"
  by (rule frame_trans_fresh) auto

lemma frame_mono: "frame F bs m bs' m' \<Longrightarrow> F \<subseteq> G \<Longrightarrow> frame G bs m bs' m'"
  by (auto simp: frame_def subset_iff)

lemma writes_trans: "writes F bs m m1 \<Longrightarrow> writes G bs m1 m2 \<Longrightarrow> F \<union> G \<subseteq> H \<Longrightarrow> writes H bs m m2"
  unfolding writes_def using frame_trans by blast

lemma writes_mono: "writes F bs m m' \<Longrightarrow> F \<subseteq> G \<Longrightarrow> writes G bs m m'"
  unfolding writes_def using frame_mono by blast

lemma writes_refl: "sane bs m \<Longrightarrow> writes F bs m m"
  by (simp add: writes_def frame_refl)

lemma writes_sane: "writes F bs m m' \<Longrightarrow> sane bs m'"
  by (simp add: writes_def)

lemma regions_split:
  "(p, k, u) \<in> set (regions a bs) \<longleftrightarrow> (\<exists>xs ys. bs = xs @ (u, k) # ys \<and> p = a + extent xs + 16)"
proof (induction a bs rule: regions.induct)
  case (2 a v n bs)
  show ?case
  proof
    assume "(p, k, u) \<in> set (regions a ((v, n) # bs))"
    then consider "p = a + 16" "k = n" "u = v" | "(p, k, u) \<in> set (regions (a + 16 + n) bs)" by auto
    then show "\<exists>xs ys. (v, n) # bs = xs @ (u, k) # ys \<and> p = a + extent xs + 16"
    proof cases
      case 1
      then have "(v, n) # bs = [] @ (u, k) # bs" "p = a + extent [] + 16" by simp_all
      then show ?thesis by blast
    next
      case 2
      then obtain xs ys where "bs = xs @ (u, k) # ys" "p = a + 16 + n + extent xs + 16" using "2.IH" by blast
      then have "(v, n) # bs = ((v, n) # xs) @ (u, k) # ys" "p = a + extent ((v, n) # xs) + 16" by simp_all
      then show ?thesis by blast
    qed
  next
    assume "\<exists>xs ys. (v, n) # bs = xs @ (u, k) # ys \<and> p = a + extent xs + 16"
    then obtain xs ys where "(v, n) # bs = xs @ (u, k) # ys" "p = a + extent xs + 16" by blast
    then show "(p, k, u) \<in> set (regions a ((v, n) # bs))" by (cases xs) (auto simp: regions_append)
  qed
qed simp

lemma live_bounds: "live bs p n \<Longrightarrow> base_addr + 16 \<le> p \<and> p + n \<le> base_addr + extent bs"
  using regions_bounds by (fastforce simp: live_def)

lemma live_in: "live bs p n \<Longrightarrow> sane bs m \<Longrightarrow> p + n \<le> length m"
  using live_bounds by (fastforce simp: sane_def)

lemma live_word: "live bs p n \<Longrightarrow> sane bs m \<Longrightarrow> ptr_word (Some p) < 2 ^ 64"
  using live_in [of bs p n m] by (simp add: sane_def ptr_word_def)

lemma live_apart: "live bs p n \<Longrightarrow> live bs x k \<Longrightarrow> x \<noteq> p \<Longrightarrow> x + k \<le> p \<or> p + n \<le> x"
  by (auto simp: live_def dest: regions_disjoint)

text \<open>A store into a block.\<close>

lemma layout_store:
  assumes "layout m a bs" and "(p, k, u) \<in> set (regions a bs)" and "p \<le> x" and "x + length ys \<le> p + k"
  shows "layout (splice m x ys) a bs"
proof -
  obtain xs zs where b: "bs = xs @ (u, k) # zs" "p = a + extent xs + 16" using assms(2) by (auto simp: regions_split)
  have ly: "layout m a xs" "layout m (a + extent xs) ((u, k) # zs)" using assms(1) b(1) by (simp_all add: layout_append)
  then have fit: "x + length ys \<le> length m" using assms(4) b(2) by simp
  let ?m = "splice m x ys"
  have len: "length ?m = length m" using fit by simp
  have tk: "take p ?m = take p m" using fit assms(3) by (intro take_splice) simp_all
  have dr: "drop (p + k) ?m = drop (p + k) m" using fit assms(4) by (intro drop_splice) simp_all
  have "layout ?m a xs" using ly(1) layout_take [OF tk len] b(2) by simp
  moreover have "layout ?m (a + extent xs) ((u, k) # zs)"
    using ly(2) slice_take_cong [OF tk] b(2) len layout_drop [OF dr len, of zs] by simp
  ultimately show ?thesis unfolding b(1) layout_append by blast
qed

lemma store_block:
  assumes sane: "sane bs m" and live: "live bs p n" and fit: "off + length ys \<le> n"
  obtains m' where "store_bytes m (p + off) ys = Inr m'" "writes {p} bs m m'" "slice (p + off) (length ys) m' = ys"
    "length m' = length m" "\<And>i k. i + k \<le> off \<or> off + length ys \<le> i \<Longrightarrow> slice (p + i) k m' = slice (p + i) k m"
proof -
  let ?m = "splice m (p + off) ys"
  have b: "p + off + length ys \<le> length m" using live_in [OF live sane] fit by simp
  obtain k where k: "n \<le> k" "(p, k, True) \<in> set (regions base_addr bs)" using live by (auto simp: live_def)
  have "layout ?m base_addr bs" using sane k fit by (intro layout_store [OF _ k(2)]) (simp_all add: sane_def)
  then have "sane bs ?m" using sane b by (simp add: sane_def)
  moreover have "frame {p} bs m bs ?m"
    unfolding frame_def
  proof (intro conjI allI impI)
    fix x j assume x: "live bs x j" "x \<notin> {p}"
    then have "x + j \<le> p \<or> p + n \<le> x" using live_apart [OF live] by blast
    then show "slice x j ?m = slice x j m" using b fit by (intro slice_splice_disjoint) auto
  qed (use b in simp_all)
  ultimately have w: "writes {p} bs m ?m" by (simp add: writes_def)
  have "slice (p + i) k ?m = slice (p + i) k m" if "i + k \<le> off \<or> off + length ys \<le> i" for i k
    using that b by (intro slice_splice_disjoint) auto
  then show ?thesis using that [of ?m] w b slice_splice_same [of "p + off" ys m] by (simp add: store_bytes_def)
qed

subsection \<open>A node and its string\<close>

definition node_at :: "blocks \<Rightarrow> bytes \<Rightarrow> nat \<Rightarrow> int \<Rightarrow> nat \<Rightarrow> ptr \<Rightarrow> ptr \<Rightarrow> ptr \<Rightarrow> bool" where
  "node_at bs m p d c q l r \<longleftrightarrow>
     live bs p NODE_SIZE \<and> load_int m p = Inr d \<and> load64 m (p + COUNT) = Inr c \<and> load64 m (p + ITEM) = Inr (ptr_word q) \<and>
     load64 m (p + LEFT) = Inr (ptr_word l) \<and> load64 m (p + RIGHT) = Inr (ptr_word r)"

definition text_at :: "blocks \<Rightarrow> bytes \<Rightarrow> nat \<Rightarrow> bytes \<Rightarrow> bool" where
  "text_at bs m q it \<longleftrightarrow> live bs q (length it + 1) \<and> 0 \<notin> set it \<and> q + (length it + 1) \<le> length m \<and>
     slice q (length it + 1) m = it @ [0]"

lemma word_ptr_word [simp]: "word_ptr (ptr_word p) = Inr p"
  by (cases p) (simp_all add: word_ptr_def ptr_word_def VM_START_ADDR_def)

lemma node_gets [simp]:
  assumes "node_at bs m p d c q l r"
  shows "get_depth m (Some p) = Inr d" "get_num COUNT m (Some p) = Inr c" "get_ptr ITEM m (Some p) = Inr q"
    "get_ptr LEFT m (Some p) = Inr l" "get_ptr RIGHT m (Some p) = Inr r"
  using assms by (simp_all add: node_at_def get_depth_def get_num_def get_ptr_def deref_def)

lemma load64_bound: "load64 m a = Inr v \<Longrightarrow> v < 2 ^ 64"
  using le_val_bound [of "slice a 8 m"] by (auto simp: load64_def length_slice split: if_splits)

lemma node_words:
  assumes "node_at bs m p d c q l r"
  shows "c < 2 ^ 64" "ptr_word q < 2 ^ 64" "ptr_word l < 2 ^ 64" "ptr_word r < 2 ^ 64"
  using assms load64_bound unfolding node_at_def by blast+

lemma load64_cong: "slice a 8 m' = slice a 8 m \<Longrightarrow> length m' = length m \<Longrightarrow> load64 m' a = load64 m a"
  by (simp add: load64_def)

lemma load_int_cong: "slice a 4 m' = slice a 4 m \<Longrightarrow> length m' = length m \<Longrightarrow> load_int m' a = load_int m a"
  by (simp add: load_int_def)

lemma sub_slice: "slice p n m' = slice p n m \<Longrightarrow> i + k \<le> n \<Longrightarrow> slice (p + i) k m' = slice (p + i) k m"
  by (metis slice_slice add.commute)

lemma node_frame:
  assumes "node_at bs m p d c q l r" and "frame F bs m bs' m'" and "p \<notin> F"
  shows "node_at bs' m' p d c q l r"
proof -
  have s: "slice p NODE_SIZE m' = slice p NODE_SIZE m" and lv: "live bs' p NODE_SIZE" and len: "length m' = length m"
    using assms by (auto simp: node_at_def frame_def)
  have f: "load64 m' (p + i) = load64 m (p + i)" if "i \<le> 32" for i
    using sub_slice [OF s, of i 8] that len by (intro load64_cong) (simp_all add: NODE_SIZE_def)
  have "load_int m' p = load_int m p"
    using sub_slice [OF s, of 0 4] len by (intro load_int_cong) (simp_all add: NODE_SIZE_def)
  then show ?thesis using assms(1) lv f by (simp add: node_at_def offsets)
qed

lemma text_frame: "text_at bs m q it \<Longrightarrow> frame F bs m bs' m' \<Longrightarrow> q \<notin> F \<Longrightarrow> text_at bs' m' q it"
  by (auto simp: text_at_def frame_def)

lemma takeWhile_text: "0 \<notin> set it \<Longrightarrow> takeWhile (\<lambda>b. b \<noteq> (0 :: byte)) (it @ 0 # xs) = it"
  by (induction it) auto

lemma text_load: "text_at bs m q it \<Longrightarrow> load_string m q = Inr it"
proof -
  assume t: "text_at bs m q it"
  then have "take (length it + 1) (drop q m) = it @ [0]" by (simp add: text_at_def slice_def)
  then have "drop q m = it @ 0 # drop (length it + 1) (drop q m)"
    using append_take_drop_id [of "length it + 1" "drop q m"] by simp
  then have "takeWhile (\<lambda>b. b \<noteq> 0) (drop q m) = it" using takeWhile_text t by (metis text_at_def)
  then show ?thesis using t by (simp add: load_string_def text_at_def)
qed

lemma text_chars [simp]: "text_at bs m q it \<Longrightarrow> chars m (At (Some q)) = Inr it"
  by (simp add: deref_def text_load)

text \<open>Writing a field.\<close>

lemma node_put64:
  assumes "sane bs m" and "node_at bs m p d c q l r" and "off \<in> {COUNT, ITEM, LEFT, RIGHT}" and "v < 2 ^ 64"
  shows "\<exists>m'. put_num off m (Some p) v = Inr m' \<and> writes {p} bs m m' \<and> load64 m' (p + off) = Inr v \<and> load_int m' p = Inr d \<and>
    (\<forall>i \<in> {COUNT, ITEM, LEFT, RIGHT}. i \<noteq> off \<longrightarrow> load64 m' (p + i) = load64 m (p + i))"
proof -
  have lv: "live bs p NODE_SIZE" using assms(2) by (simp add: node_at_def)
  have "off + length (le_bytes 8 v) \<le> NODE_SIZE" using assms(3) by (auto simp: offsets NODE_SIZE_def)
  from store_block [OF assms(1) lv this] obtain m' where m': "store_bytes m (p + off) (le_bytes 8 v) = Inr m'" "writes {p} bs m m'"
    "slice (p + off) 8 m' = le_bytes 8 v" "length m' = length m"
    "\<And>i k. i + k \<le> off \<or> off + 8 \<le> i \<Longrightarrow> slice (p + i) k m' = slice (p + i) k m" by auto
  have "p + off + 8 \<le> length m'"
    using live_in [OF lv assms(1)] m'(4) assms(3) by (auto simp: NODE_SIZE_def offsets)
  then have "load64 m' (p + off) = Inr v" using m'(3) assms(4) by (intro load64_le) auto
  moreover have "load_int m' p = load_int m p"
    using m'(4) m'(5) [of 0 4] assms(3) by (intro load_int_cong) (auto simp: offsets)
  moreover have "load64 m' (p + i) = load64 m (p + i)" if "i \<in> {COUNT, ITEM, LEFT, RIGHT}" "i \<noteq> off" for i
    using m'(4) m'(5) [of i 8] that assms(3) by (intro load64_cong) (auto simp: offsets)
  ultimately show ?thesis
    using m'(1,2) assms(2) by (intro exI [of _ m']) (simp add: put_num_def deref_def store64_def node_at_def)
qed

lemma put_count:
  assumes "sane bs m" and "node_at bs m p d c q l r" and "v < 2 ^ 64"
  obtains m' where "put_num COUNT m (Some p) v = Inr m'" "writes {p} bs m m'" "node_at bs m' p d v q l r"
  using node_put64 [OF assms(1,2) _ assms(3), of COUNT] assms(2) that by (auto simp: node_at_def offsets put_ptr_def)

lemma put_item:
  assumes "sane bs m" and "node_at bs m p d c q l r" and "ptr_word v < 2 ^ 64"
  obtains m' where "put_ptr ITEM m (Some p) v = Inr m'" "writes {p} bs m m'" "node_at bs m' p d c v l r"
  using node_put64 [OF assms(1,2) _ assms(3), of ITEM] assms(2) that by (auto simp: node_at_def offsets put_ptr_def)

lemma put_left:
  assumes "sane bs m" and "node_at bs m p d c q l r" and "ptr_word v < 2 ^ 64"
  obtains m' where "put_ptr LEFT m (Some p) v = Inr m'" "writes {p} bs m m'" "node_at bs m' p d c q v r"
  using node_put64 [OF assms(1,2) _ assms(3), of LEFT] assms(2) that by (auto simp: node_at_def offsets put_ptr_def)

lemma put_right:
  assumes "sane bs m" and "node_at bs m p d c q l r" and "ptr_word v < 2 ^ 64"
  obtains m' where "put_ptr RIGHT m (Some p) v = Inr m'" "writes {p} bs m m'" "node_at bs m' p d c q l v"
  using node_put64 [OF assms(1,2) _ assms(3), of RIGHT] assms(2) that by (auto simp: node_at_def offsets put_ptr_def)

lemma int_bytes_back: "- (2 ^ 31) \<le> v \<Longrightarrow> v < 2 ^ 31 \<Longrightarrow> int32 (le_val (int_bytes v)) = v"
proof -
  assume v: "- (2 ^ 31) \<le> v" "v < 2 ^ 31"
  have "int32 (le_val (int_bytes v)) = signed_take_bit 31 (take_bit 32 v)"
    by (simp add: int32_def int_bytes_def le_val_le_bytes signed_of_int take_bit_eq_mod)
  also have "\<dots> = v" using v by (simp add: signed_take_bit_take_bit signed_take_bit_int_eq_self)
  finally show ?thesis .
qed

lemma put_depth:
  assumes "sane bs m" and "node_at bs m p d c q l r" and "- (2 ^ 31) \<le> v" "v < 2 ^ 31"
  obtains m' where "put_depth m (Some p) v = Inr m'" "writes {p} bs m m'" "node_at bs m' p v c q l r"
proof -
  have lv: "live bs p NODE_SIZE" using assms(2) by (simp add: node_at_def)
  have len: "length (int_bytes v) = 4" by (simp add: int_bytes_def)
  then have "0 + length (int_bytes v) \<le> NODE_SIZE" by (simp add: NODE_SIZE_def)
  from store_block [OF assms(1) lv this] obtain m' where m': "store_bytes m p (int_bytes v) = Inr m'" "writes {p} bs m m'"
    "slice p 4 m' = int_bytes v" "length m' = length m"
    "\<And>i k. i + k \<le> 0 \<or> 0 + 4 \<le> i \<Longrightarrow> slice (p + i) k m' = slice (p + i) k m"
    unfolding len by auto
  have "p + 4 \<le> length m'" using live_in [OF lv assms(1)] m'(4) by (simp add: NODE_SIZE_def)
  then have "load_int m' p = Inr v" using m'(3) int_bytes_back [OF assms(3,4)] by (simp add: load_int_def)
  moreover have "load64 m' (p + i) = load64 m (p + i)" if "4 \<le> i" for i using m'(4) m'(5) [of i 8] that by (intro load64_cong) auto
  ultimately show ?thesis
    using that [of m'] m'(1,2) assms(2) by (simp add: put_depth_def deref_def node_at_def offsets)
qed

subsection \<open>A tree\<close>

text \<open>
  \<open>own t\<close>: the addresses of the blocks of a tree, its nodes and its strings. \<open>tree_at\<close>: the blocks hold the tree, each in one place.
\<close>

fun root_ptr :: "tree \<Rightarrow> ptr" where
  "root_ptr Leaf = None"
| "root_ptr (Node p d c q it l r) = Some p"

fun own :: "tree \<Rightarrow> nat set" where
  "own Leaf = {}"
| "own (Node p d c q it l r) = {p, q} \<union> own l \<union> own r"

fun tree_at :: "blocks \<Rightarrow> bytes \<Rightarrow> tree \<Rightarrow> bool" where
  "tree_at bs m Leaf = True"
| "tree_at bs m (Node p d c q it l r) =
     (node_at bs m p d c (Some q) (root_ptr l) (root_ptr r) \<and> text_at bs m q it \<and>
      p \<noteq> q \<and> {p, q} \<inter> (own l \<union> own r) = {} \<and> own l \<inter> own r = {} \<and> tree_at bs m l \<and> tree_at bs m r)"

lemma root_ptr_None [simp]: "root_ptr t = None \<longleftrightarrow> t = Leaf"
  by (cases t) auto

lemma tree_frame: "tree_at bs m t \<Longrightarrow> frame F bs m bs' m' \<Longrightarrow> own t \<inter> F = {} \<Longrightarrow> tree_at bs' m' t"
  by (induction t) (auto intro: node_frame text_frame)

lemma tree_live: "tree_at bs m t \<Longrightarrow> p \<in> own t \<Longrightarrow> live bs p 0"
  by (induction t) (auto simp: node_at_def text_at_def intro: live_less)

lemma tree_word: "tree_at bs m t \<Longrightarrow> sane bs m \<Longrightarrow> ptr_word (root_ptr t) < 2 ^ 64"
  by (cases t) (auto simp: node_at_def ptr_word_def [of None] dest: live_word)

lemma tree_delta [simp]: "tree_at bs m t \<Longrightarrow> m_delta m (root_ptr t) = Inr (delta t)"
  by (cases t) (auto simp: m_delta_def)

lemma tree_depth [simp]: "tree_at bs m a \<Longrightarrow> tree_at bs m b \<Longrightarrow> m_depth m (root_ptr a) (root_ptr b) = Inr (depth a b)"
  by (simp add: m_depth_def depth_def)

lemma tree_balance [simp]: "tree_at bs m t \<Longrightarrow> t \<noteq> Leaf \<Longrightarrow> m_balance m (root_ptr t) = Inr (balance t)"
  by (cases t) (auto simp: m_balance_def)

lemma tree_cmp [simp]:
  "tree_at bs m t \<Longrightarrow> t \<noteq> Leaf \<Longrightarrow> chars m item = Inr x \<Longrightarrow> item_cmp m item (root_ptr t) = Inr (strcmp x (node_item t))"
  by (cases t) (auto simp: item_cmp_def simp del: chars.simps)

lemmas writes_frame = writes_def [THEN iffD1, THEN conjunct1]

text \<open>A child is replaced by another tree; meanwhile the rest of the node has not changed.\<close>

lemma attach_left:
  assumes t: "tree_at bs0 m0 (Node p d c q it l r)" and f: "frame F bs0 m0 bs m" "F \<inter> ({p, q} \<union> own r) = {}"
    and sane: "sane bs m" and l': "tree_at bs m l'" "own l' \<inter> ({p, q} \<union> own r) = {}"
  obtains m' where "put_ptr LEFT m (Some p) (root_ptr l') = Inr m'" "writes {p} bs m m'" "tree_at bs m' (Node p d c q it l' r)"
proof -
  have n: "node_at bs m p d c (Some q) (root_ptr l) (root_ptr r)" "text_at bs m q it" "tree_at bs m r"
    using t f(2) by (auto intro!: node_frame [OF _ f(1)] text_frame [OF _ f(1)] tree_frame [OF _ f(1)])
  obtain m' where m': "put_ptr LEFT m (Some p) (root_ptr l') = Inr m'" "writes {p} bs m m'"
    "node_at bs m' p d c (Some q) (root_ptr l') (root_ptr r)"
    using put_left [OF sane n(1) tree_word [OF l'(1) sane]] .
  note g = writes_frame [OF m'(2)]
  have "tree_at bs m' (Node p d c q it l' r)"
    using m'(3) t l' n text_frame [OF _ g, of q it] tree_frame [OF l'(1) g] tree_frame [OF _ g, of r] by auto
  then show ?thesis using that m' by blast
qed

lemma attach_right:
  assumes t: "tree_at bs0 m0 (Node p d c q it l r)" and f: "frame F bs0 m0 bs m" "F \<inter> ({p, q} \<union> own l) = {}"
    and sane: "sane bs m" and r': "tree_at bs m r'" "own r' \<inter> ({p, q} \<union> own l) = {}"
  obtains m' where "put_ptr RIGHT m (Some p) (root_ptr r') = Inr m'" "writes {p} bs m m'" "tree_at bs m' (Node p d c q it l r')"
proof -
  have n: "node_at bs m p d c (Some q) (root_ptr l) (root_ptr r)" "text_at bs m q it" "tree_at bs m l"
    using t f(2) by (auto intro!: node_frame [OF _ f(1)] text_frame [OF _ f(1)] tree_frame [OF _ f(1)])
  obtain m' where m': "put_ptr RIGHT m (Some p) (root_ptr r') = Inr m'" "writes {p} bs m m'"
    "node_at bs m' p d c (Some q) (root_ptr l) (root_ptr r')"
    using put_right [OF sane n(1) tree_word [OF r'(1) sane]] .
  note g = writes_frame [OF m'(2)]
  have "tree_at bs m' (Node p d c q it l r')"
    using m'(3) t r' n text_frame [OF _ g, of q it] tree_frame [OF r'(1) g] tree_frame [OF _ g, of l] by auto
  then show ?thesis using that m' by blast
qed

text \<open>The depth of the root is written.\<close>

lemma put_depth_tree:
  assumes "sane bs m" and t: "tree_at bs m (Node p d c q it l r)" and v: "- (2 ^ 31) \<le> v" "v < 2 ^ 31"
  obtains m' where "put_depth m (Some p) v = Inr m'" "writes {p} bs m m'" "tree_at bs m' (Node p v c q it l r)"
proof -
  have n: "node_at bs m p d c (Some q) (root_ptr l) (root_ptr r)" using t by simp
  obtain m' where m': "put_depth m (Some p) v = Inr m'" "writes {p} bs m m'"
    "node_at bs m' p v c (Some q) (root_ptr l) (root_ptr r)"
    using put_depth [OF assms(1) n v] .
  note f = writes_frame [OF m'(2)]
  have "tree_at bs m' (Node p v c q it l r)"
    using m'(3) t text_frame [OF _ f, of q it] tree_frame [OF _ f, of l] tree_frame [OF _ f, of r] by auto
  then show ?thesis using that m' by blast
qed

lemma put_count_tree:
  assumes "sane bs m" and t: "tree_at bs m (Node p d c q it l r)" and v: "v < 2 ^ 64"
  obtains m' where "put_num COUNT m (Some p) v = Inr m'" "writes {p} bs m m'" "tree_at bs m' (Node p d v q it l r)"
proof -
  have n: "node_at bs m p d c (Some q) (root_ptr l) (root_ptr r)" using t by simp
  obtain m' where m': "put_num COUNT m (Some p) v = Inr m'" "writes {p} bs m m'"
    "node_at bs m' p d v (Some q) (root_ptr l) (root_ptr r)"
    using put_count [OF assms(1) n v] .
  note f = writes_frame [OF m'(2)]
  have "tree_at bs m' (Node p d v q it l r)"
    using m'(3) t text_frame [OF _ f, of q it] tree_frame [OF _ f, of l] tree_frame [OF _ f, of r] by auto
  then show ?thesis using that m' by blast
qed

subsection \<open>Rotations\<close>

text \<open>All depths of a tree lie between -1 and \<open>N\<close>, the stale ones too.\<close>

fun low :: "int \<Rightarrow> tree \<Rightarrow> bool" where
  "low N Leaf = True"
| "low N (Node p d c q it l r) = (-1 \<le> d \<and> d \<le> N \<and> low N l \<and> low N r)"

lemma low_delta: "low N t \<Longrightarrow> -1 \<le> N \<Longrightarrow> -1 \<le> delta t \<and> delta t \<le> N"
  by (cases t) auto

lemma low_mono: "low N t \<Longrightarrow> N \<le> M \<Longrightarrow> low M t"
  by (induction t) auto

lemma low_depth: "low N a \<Longrightarrow> low N b \<Longrightarrow> -1 \<le> N \<Longrightarrow> 0 \<le> depth a b \<and> depth a b \<le> N + 1"
  using low_delta [of N a] low_delta [of N b] by (auto simp: depth_def)

lemma balanced_low: "balanced t \<Longrightarrow> delta t \<le> N \<Longrightarrow> low N t"
proof (induction t)
  case (Node p d c q it l r)
  then show ?case using delta_bound [of l] delta_bound [of r] by (auto simp: depth_def split: if_splits)
qed simp

lemma low_up: "low N t \<Longrightarrow> low (N + 1) t"
  by (rule low_mono [of N]) simp_all

text \<open>A node on top of a subtree whose depth has just been written.\<close>

lemma low_depth2:
  assumes "low N a" "low N b" "low N r" "-1 \<le> N"
  shows "0 \<le> depth a (Node p (depth b r) c q it b' r') \<and> depth a (Node p (depth b r) c q it b' r') \<le> N + 2"
  using low_depth [OF assms(2,3,4)] low_delta [OF assms(1,4)] by (auto simp: depth_def [of a])

lemma set_depth_low: "low N t \<Longrightarrow> -1 \<le> N \<Longrightarrow> low (N + 1) (set_depth t)"
  using low_depth [of N] by (cases t) (force intro: low_up)+

lemma set_depth_own [simp]: "own (set_depth t) = own t" "root_ptr (set_depth t) = root_ptr t"
  by (cases t; simp)+

text \<open>
  A function on bytes does what one on trees does: the resulting tree is there, made of the same blocks, and nothing else has changed.
\<close>

definition mimics :: "blocks \<Rightarrow> bytes \<Rightarrow> tree \<Rightarrow> (ptr \<times> bytes) outcome \<Rightarrow> tree \<Rightarrow> bool" where
  "mimics bs m t R t' \<longleftrightarrow>
     (\<exists>m'. R = Inr (root_ptr t', m') \<and> tree_at bs m' t' \<and> own t' = own t \<and> writes (own t) bs m m')"

lemma m_set_depth_tree:
  assumes "sane bs m" and t: "tree_at bs m t" "t \<noteq> Leaf" and low: "low N t" "-1 \<le> N" "N + 1 < 2 ^ 31"
  obtains m' where "m_set_depth m (root_ptr t) = Inr m'" "writes (own t) bs m m'" "tree_at bs m' (set_depth t)"
proof -
  obtain p d c q it l r where e: "t = Node p d c q it l r" using t(2) by (cases t) auto
  have "0 \<le> depth l r \<and> depth l r \<le> N + 1" using low low_depth [of N l r] by (simp add: e)
  then obtain m' where m': "put_depth m (Some p) (depth l r) = Inr m'" "writes {p} bs m m'" "tree_at bs m' (Node p (depth l r) c q it l r)"
    using put_depth_tree [OF assms(1) t(1) [unfolded e], of "depth l r"] low(3) by auto
  then show ?thesis using that [of m'] t(1) writes_mono [OF m'(2), of "own t"] by (auto simp: e m_set_depth_def)
qed

lemma m_rotate_right_mimics:
  assumes sane: "sane bs m" and t: "tree_at bs m t" and rot: "rotate_right t = Inr t'" and low: "low N t" "-1 \<le> N" "N + 2 < 2 ^ 31"
  shows "mimics bs m t (m_rotate_right m (root_ptr t)) t'"
proof -
  obtain p d c q it p1 d1 c1 q1 it1 a b r where e: "t = Node p d c q it (Node p1 d1 c1 q1 it1 a b) r"
    using rot by (cases t rule: rotate_right.cases) auto
  let ?node = "Node p (depth b r) c q it b r"
  have e': "t' = Node p1 (depth a ?node) c1 q1 it1 a ?node" using rot e by (simp add: Let_def)
  obtain m1 where m1: "put_ptr LEFT m (Some p) (root_ptr b) = Inr m1" "writes {p} bs m m1" "tree_at bs m1 (Node p d c q it b r)"
    by (rule attach_left [OF t [unfolded e] frame_refl [of "{}"] _ sane, of b]) (use t e in auto)
  have root: "tree_at bs m1 (Node p1 d1 c1 q1 it1 a b)"
    by (rule tree_frame [OF _ writes_frame [OF m1(2)]]) (use t e in auto)
  obtain m2 where m2: "put_ptr RIGHT m1 (Some p1) (root_ptr (Node p d c q it b r)) = Inr m2" "writes {p1} bs m1 m2"
    "tree_at bs m2 (Node p1 d1 c1 q1 it1 a (Node p d c q it b r))"
    by (rule attach_right [OF root frame_refl [of "{}"] _ writes_sane [OF m1(2)] m1(3)]) (use t e in auto)
  have node: "tree_at bs m2 (Node p d c q it b r)" using m2(3) by simp
  obtain m3 where m3: "m_set_depth m2 (Some p) = Inr m3" "writes (own (Node p d c q it b r)) bs m2 m3" "tree_at bs m3 ?node"
    by (rule m_set_depth_tree [OF writes_sane [OF m2(2)] node, of N]) (use low e in auto)
  note f3 = writes_frame [OF m3(2)]
  have "node_at bs m3 p1 d1 c1 (Some q1) (root_ptr a) (Some p)" "text_at bs m3 q1 it1" "tree_at bs m3 a"
    using m2(3) by (auto intro!: node_frame [OF _ f3] text_frame [OF _ f3] tree_frame [OF _ f3])
  then have t3: "tree_at bs m3 (Node p1 d1 c1 q1 it1 a ?node)" using m3(3) m2(3) by auto
  have "0 \<le> depth a ?node \<and> depth a ?node \<le> N + 2"
    using low e by (intro low_depth2) auto
  then obtain m4 where m4: "put_depth m3 (Some p1) (depth a ?node) = Inr m4" "writes {p1} bs m3 m4" "tree_at bs m4 t'"
    using put_depth_tree [OF writes_sane [OF m3(2)] t3, of "depth a ?node"] low(3) e' by auto
  have o: "own t' = own t" by (auto simp: e e')
  have "writes (own t) bs m m2" by (rule writes_trans [OF m1(2) m2(2)]) (simp add: e)
  moreover have "writes (own t) bs m2 m4" by (rule writes_trans [OF m3(2) m4(2)]) (auto simp: e)
  ultimately have "writes (own t) bs m m4" by (rule writes_trans) simp
  moreover have "m_depth m3 (root_ptr a) (Some p) = Inr (depth a ?node)" using tree_depth [of bs m3 a ?node] t3 by simp
  then have "m_rotate_right m (root_ptr t) = Inr (Some p1, m4)"
    using t t3 e m1(1) m2(1) m3(1) m4(1) by (auto simp: m_rotate_right_def)
  ultimately show ?thesis using m4(3) o e' by (auto simp: mimics_def)
qed

lemma m_rotate_left_mimics:
  assumes sane: "sane bs m" and t: "tree_at bs m t" and rot: "rotate_left t = Inr t'" and low: "low N t" "-1 \<le> N" "N + 2 < 2 ^ 31"
  shows "mimics bs m t (m_rotate_left m (root_ptr t)) t'"
proof -
  obtain p d c q it p1 d1 c1 q1 it1 a b l where e: "t = Node p d c q it l (Node p1 d1 c1 q1 it1 a b)"
    using rot by (cases t rule: rotate_left.cases) auto
  let ?node = "Node p (depth l a) c q it l a"
  have e': "t' = Node p1 (depth b ?node) c1 q1 it1 ?node b" using rot e by (simp add: Let_def)
  obtain m1 where m1: "put_ptr RIGHT m (Some p) (root_ptr a) = Inr m1" "writes {p} bs m m1" "tree_at bs m1 (Node p d c q it l a)"
    by (rule attach_right [OF t [unfolded e] frame_refl [of "{}"] _ sane, of a]) (use t e in auto)
  have root: "tree_at bs m1 (Node p1 d1 c1 q1 it1 a b)"
    by (rule tree_frame [OF _ writes_frame [OF m1(2)]]) (use t e in auto)
  obtain m2 where m2: "put_ptr LEFT m1 (Some p1) (root_ptr (Node p d c q it l a)) = Inr m2" "writes {p1} bs m1 m2"
    "tree_at bs m2 (Node p1 d1 c1 q1 it1 (Node p d c q it l a) b)"
    by (rule attach_left [OF root frame_refl [of "{}"] _ writes_sane [OF m1(2)] m1(3)]) (use t e in auto)
  have node: "tree_at bs m2 (Node p d c q it l a)" using m2(3) by simp
  obtain m3 where m3: "m_set_depth m2 (Some p) = Inr m3" "writes (own (Node p d c q it l a)) bs m2 m3" "tree_at bs m3 ?node"
    by (rule m_set_depth_tree [OF writes_sane [OF m2(2)] node, of N]) (use low e in auto)
  note f3 = writes_frame [OF m3(2)]
  have "node_at bs m3 p1 d1 c1 (Some q1) (Some p) (root_ptr b)" "text_at bs m3 q1 it1" "tree_at bs m3 b"
    using m2(3) by (auto intro!: node_frame [OF _ f3] text_frame [OF _ f3] tree_frame [OF _ f3])
  then have t3: "tree_at bs m3 (Node p1 d1 c1 q1 it1 ?node b)" using m3(3) m2(3) by auto
  have "0 \<le> depth b ?node \<and> depth b ?node \<le> N + 2"
    using low e by (intro low_depth2) auto
  then obtain m4 where m4: "put_depth m3 (Some p1) (depth b ?node) = Inr m4" "writes {p1} bs m3 m4" "tree_at bs m4 t'"
    using put_depth_tree [OF writes_sane [OF m3(2)] t3, of "depth b ?node"] low(3) e' by auto
  have o: "own t' = own t" by (auto simp: e e')
  have "writes (own t) bs m m2" by (rule writes_trans [OF m1(2) m2(2)]) (simp add: e)
  moreover have "writes (own t) bs m2 m4" by (rule writes_trans [OF m3(2) m4(2)]) (auto simp: e)
  ultimately have "writes (own t) bs m m4" by (rule writes_trans) simp
  moreover have "m_depth m3 (root_ptr b) (Some p) = Inr (depth b ?node)" using tree_depth [of bs m3 b ?node] t3 by simp
  then have "m_rotate_left m (root_ptr t) = Inr (Some p1, m4)"
    using t t3 e m1(1) m2(1) m3(1) m4(1) by (auto simp: m_rotate_left_def)
  ultimately show ?thesis using m4(3) o e' by (auto simp: mimics_def)
qed

text \<open>How a rotation changes the depths.\<close>

lemma rotate_low:
  assumes "low N t" "-1 \<le> N"
  shows "rotate_right t = Inr t' \<Longrightarrow> low (N + 2) t'" and "rotate_left t = Inr t' \<Longrightarrow> low (N + 2) t'"
proof -
  have up: "low (N + 2) x" if "low N x" for x using that by (rule low_mono) simp
  show "low (N + 2) t'" if rot: "rotate_right t = Inr t'"
  proof -
    obtain p d c q it p1 d1 c1 q1 it1 a b r where e: "t = Node p d c q it (Node p1 d1 c1 q1 it1 a b) r"
      using rot by (cases t rule: rotate_right.cases) auto
    then show ?thesis using rot assms up low_depth [of N b r] low_depth2 [of N a b r p c q it b r] by (auto simp: Let_def)
  qed
  show "low (N + 2) t'" if rot: "rotate_left t = Inr t'"
  proof -
    obtain p d c q it p1 d1 c1 q1 it1 a b l where e: "t = Node p d c q it l (Node p1 d1 c1 q1 it1 a b)"
      using rot by (cases t rule: rotate_left.cases) auto
    then show ?thesis using rot assms up low_depth [of N l a] low_depth2 [of N b l a p c q it l a] by (auto simp: Let_def)
  qed
qed

text \<open>A function on a child, within the tree.\<close>

lemma mimics_left:
  assumes sane: "sane bs m" and t: "tree_at bs m (Node p d c q it l r)" and R: "mimics bs m l R l'"
  obtains m1 m2 where "R = Inr (root_ptr l', m1)" "put_ptr LEFT m1 (Some p) (root_ptr l') = Inr m2"
    "tree_at bs m2 (Node p d c q it l' r)" "own l' = own l" "writes (own (Node p d c q it l r)) bs m m2"
proof -
  obtain m1 where m1: "R = Inr (root_ptr l', m1)" "tree_at bs m1 l'" "own l' = own l" "writes (own l) bs m m1"
    using R by (auto simp: mimics_def)
  obtain m2 where m2: "put_ptr LEFT m1 (Some p) (root_ptr l') = Inr m2" "writes {p} bs m1 m2"
    "tree_at bs m2 (Node p d c q it l' r)"
    by (rule attach_left [OF t writes_frame [OF m1(4)] _ writes_sane [OF m1(4)] m1(2)]) (use t m1(3) in auto)
  have "writes (own (Node p d c q it l r)) bs m m2" by (rule writes_trans [OF m1(4) m2(2)]) auto
  then show ?thesis using that m1(1,3) m2 by blast
qed

lemma mimics_right:
  assumes sane: "sane bs m" and t: "tree_at bs m (Node p d c q it l r)" and R: "mimics bs m r R r'"
  obtains m1 m2 where "R = Inr (root_ptr r', m1)" "put_ptr RIGHT m1 (Some p) (root_ptr r') = Inr m2"
    "tree_at bs m2 (Node p d c q it l r')" "own r' = own r" "writes (own (Node p d c q it l r)) bs m m2"
proof -
  obtain m1 where m1: "R = Inr (root_ptr r', m1)" "tree_at bs m1 r'" "own r' = own r" "writes (own r) bs m m1"
    using R by (auto simp: mimics_def)
  obtain m2 where m2: "put_ptr RIGHT m1 (Some p) (root_ptr r') = Inr m2" "writes {p} bs m1 m2"
    "tree_at bs m2 (Node p d c q it l r')"
    by (rule attach_right [OF t writes_frame [OF m1(4)] _ writes_sane [OF m1(4)] m1(2)]) (use t m1(3) in auto)
  have "writes (own (Node p d c q it l r)) bs m m2" by (rule writes_trans [OF m1(4) m2(2)]) auto
  then show ?thesis using that m1(1,3) m2 by blast
qed

lemma mimics_after:
  assumes "mimics bs m1 t1 R t'" and "writes (own t) bs m m1" and "own t1 = own t"
  shows "mimics bs m t R t'"
  using assms writes_trans [OF assms(2), of "own t"] by (fastforce simp: mimics_def)

lemma m_rotate_left_right_mimics:
  assumes sane: "sane bs m" and t: "tree_at bs m t" and rot: "rotate_left_right t = Inr t'"
    and low: "low N t" "-1 \<le> N" "N + 4 < 2 ^ 31"
  shows "mimics bs m t (m_rotate_left_right m (root_ptr t)) t'"
proof -
  obtain p d c q it l r l' where e: "t = Node p d c q it l r" "rotate_left l = Inr l'" "rotate_right (Node p d c q it l' r) = Inr t'"
    using rot by (cases t) (auto simp: obind_eq_Inr)
  have l: "mimics bs m l (m_rotate_left m (root_ptr l)) l'"
    by (rule m_rotate_left_mimics [OF sane _ e(2), of N]) (use t e(1) low in auto)
  obtain m1 m2 where m: "m_rotate_left m (root_ptr l) = Inr (root_ptr l', m1)" "put_ptr LEFT m1 (Some p) (root_ptr l') = Inr m2"
    "tree_at bs m2 (Node p d c q it l' r)" "own l' = own l" "writes (own t) bs m m2"
    using mimics_left [OF sane t [unfolded e(1)] l] e(1) by metis
  have "low (N + 2) (Node p d c q it l' r)" using low e(1) rotate_low(2) [OF _ low(2) e(2)] low_mono [of N r "N + 2"] by auto
  then have "mimics bs m2 (Node p d c q it l' r) (m_rotate_right m2 (root_ptr (Node p d c q it l' r))) t'"
    using low by (intro m_rotate_right_mimics [where N = "N + 2", OF writes_sane [OF m(5)] m(3) e(3)]) auto
  from mimics_after [OF this m(5)] have "mimics bs m t (m_rotate_right m2 (Some p)) t'" using m(4) e(1) by simp
  moreover have "m_rotate_left_right m (root_ptr t) = m_rotate_right m2 (Some p)"
    using t e(1) m(1,2) by (auto simp: m_rotate_left_right_def)
  ultimately show ?thesis by simp
qed

lemma m_rotate_right_left_mimics:
  assumes sane: "sane bs m" and t: "tree_at bs m t" and rot: "rotate_right_left t = Inr t'"
    and low: "low N t" "-1 \<le> N" "N + 4 < 2 ^ 31"
  shows "mimics bs m t (m_rotate_right_left m (root_ptr t)) t'"
proof -
  obtain p d c q it l r r' where e: "t = Node p d c q it l r" "rotate_right r = Inr r'" "rotate_left (Node p d c q it l r') = Inr t'"
    using rot by (cases t) (auto simp: obind_eq_Inr)
  have l: "mimics bs m r (m_rotate_right m (root_ptr r)) r'"
    by (rule m_rotate_right_mimics [OF sane _ e(2), of N]) (use t e(1) low in auto)
  obtain m1 m2 where m: "m_rotate_right m (root_ptr r) = Inr (root_ptr r', m1)" "put_ptr RIGHT m1 (Some p) (root_ptr r') = Inr m2"
    "tree_at bs m2 (Node p d c q it l r')" "own r' = own r" "writes (own t) bs m m2"
    using mimics_right [OF sane t [unfolded e(1)] l] e(1) by metis
  have "low (N + 2) (Node p d c q it l r')" using low e(1) rotate_low(1) [OF _ low(2) e(2)] low_mono [of N l "N + 2"] by auto
  then have "mimics bs m2 (Node p d c q it l r') (m_rotate_left m2 (root_ptr (Node p d c q it l r'))) t'"
    using low by (intro m_rotate_left_mimics [where N = "N + 2", OF writes_sane [OF m(5)] m(3) e(3)]) auto
  from mimics_after [OF this m(5)] have "mimics bs m t (m_rotate_left m2 (Some p)) t'" using m(4) e(1) by simp
  moreover have "m_rotate_right_left m (root_ptr t) = m_rotate_left m2 (Some p)"
    using t e(1) m(1,2) by (auto simp: m_rotate_right_left_def)
  ultimately show ?thesis by simp
qed

subsection \<open>The rotations after an insertion and a deletion\<close>

lemma root_node [simp]: "own (Node p d c q it l r) = insert p (insert q (own l \<union> own r))"
  by auto

lemma rotations_low:
  assumes "low N t" "-1 \<le> N" and "rotate_right t = Inr t' \<or> rotate_left t = Inr t' \<or> rotate_left_right t = Inr t' \<or> rotate_right_left t = Inr t'"
  shows "low (N + 4) t'"
proof -
  have a: "low (M + 2) x'" if "low M x" "-1 \<le> M" "rotate_right x = Inr x' \<or> rotate_left x = Inr x'" for M x x'
    using rotate_low [OF that(1,2)] that(3) by blast
  consider "rotate_right t = Inr t' \<or> rotate_left t = Inr t'" | "rotate_left_right t = Inr t'" | "rotate_right_left t = Inr t'"
    using assms(3) by blast
  then show ?thesis
  proof cases
    case 1
    then show ?thesis using a [OF assms(1,2)] low_mono [of "N + 2" t' "N + 4"] by simp
  next
    case 2
    then obtain p d c q it l r l' where e: "t = Node p d c q it l r" "rotate_left l = Inr l'" "rotate_right (Node p d c q it l' r) = Inr t'"
      by (cases t) (auto simp: obind_eq_Inr)
    have "low (N + 2) (Node p d c q it l' r)" using assms(1) e a [of N l l'] assms(2) low_mono [of N r "N + 2"] by auto
    from a [OF this _ disjI1 [OF e(3)]] show ?thesis using assms(2) by (simp add: add.assoc)
  next
    case 3
    then obtain p d c q it l r r' where e: "t = Node p d c q it l r" "rotate_right r = Inr r'" "rotate_left (Node p d c q it l r') = Inr t'"
      by (cases t) (auto simp: obind_eq_Inr)
    have "low (N + 2) (Node p d c q it l r')" using assms(1) e a [of N r r'] assms(2) low_mono [of N l "N + 2"] by auto
    from a [OF this _ disjI2 [OF e(3)]] show ?thesis using assms(2) by (simp add: add.assoc)
  qed
qed

lemma mimics_refl: "sane bs m \<Longrightarrow> tree_at bs m t \<Longrightarrow> mimics bs m t (Inr (root_ptr t, m)) t"
  by (simp add: mimics_def writes_refl)

lemma fix_left_low: "fix_left item t = Inr t' \<Longrightarrow> low N t \<Longrightarrow> -1 \<le> N \<Longrightarrow> low (N + 4) t'"
  using rotations_low [of N t t'] low_mono [of N t "N + 4"] by (auto simp: fix_left_def split: if_splits tree.splits)

lemma fix_right_low: "fix_right item t = Inr t' \<Longrightarrow> low N t \<Longrightarrow> -1 \<le> N \<Longrightarrow> low (N + 4) t'"
  using rotations_low [of N t t'] low_mono [of N t "N + 4"] by (auto simp: fix_right_def split: if_splits tree.splits)

lemma rebalance_low: "rebalance t = Inr t' \<Longrightarrow> low N t \<Longrightarrow> -1 \<le> N \<Longrightarrow> low (N + 4) t'"
  using rotations_low [of N t t'] low_mono [of N t "N + 4"] by (auto simp: rebalance_def split: if_splits)

text \<open>The test and the rotations, when the child has been assigned.\<close>

lemma m_fix_left_mimics:
  assumes put: "put_ptr LEFT m0 (Some p) l0 = Inr m" and sane: "sane bs m" and t: "tree_at bs m t" "t = Node p d c q it l r"
    and fx: "fix_left item t = Inr t'" and low: "low N t" "-1 \<le> N" "N + 4 < 2 ^ 31"
  shows "mimics bs m t (m_fix_left item m0 (Some p) l0) t'"
proof (cases "1 < \<bar>balance t\<bar>")
  case False
  then have "t' = t" using fx by (simp add: fix_left_def)
  moreover have "m_fix_left item m0 (Some p) l0 = Inr (root_ptr t, m)"
    using put tree_balance [OF t(1)] t(2) False by (simp add: m_fix_left_def)
  ultimately show ?thesis using mimics_refl [OF sane t(1)] by simp
next
  case True
  then have l: "l \<noteq> Leaf" using fx t(2) by (auto simp: fix_left_def split: tree.splits)
  then have f: "(if 0 > strcmp item (node_item l) then rotate_right t else rotate_left_right t) = Inr t'"
    using fx True t(2) by (cases l) (auto simp: fix_left_def)
  have "tree_at bs m l" using t by simp
  then have c: "item_cmp m (Chars item) (root_ptr l) = Inr (strcmp item (node_item l))" using tree_cmp [of bs m l "Chars item"] l by simp
  have "get_ptr LEFT m (Some p) = Inr (root_ptr l)" using t by auto
  then have "m_fix_left item m0 (Some p) l0 =
      (if 0 > strcmp item (node_item l) then m_rotate_right m (root_ptr t) else m_rotate_left_right m (root_ptr t))"
    using put tree_balance [OF t(1)] t(2) True c by (simp add: m_fix_left_def)
  then show ?thesis
    using f m_rotate_right_mimics [OF sane t(1) _ low(1,2)] m_rotate_left_right_mimics [OF sane t(1) _ low] low(3) by (auto split: if_splits)
qed

lemma m_fix_right_mimics:
  assumes put: "put_ptr RIGHT m0 (Some p) r0 = Inr m" and sane: "sane bs m" and t: "tree_at bs m t" "t = Node p d c q it l r"
    and fx: "fix_right item t = Inr t'" and low: "low N t" "-1 \<le> N" "N + 4 < 2 ^ 31"
  shows "mimics bs m t (m_fix_right item m0 (Some p) r0) t'"
proof (cases "1 < \<bar>balance t\<bar>")
  case False
  then have "t' = t" using fx by (simp add: fix_right_def)
  moreover have "m_fix_right item m0 (Some p) r0 = Inr (root_ptr t, m)"
    using put tree_balance [OF t(1)] t(2) False by (simp add: m_fix_right_def)
  ultimately show ?thesis using mimics_refl [OF sane t(1)] by simp
next
  case True
  then have r: "r \<noteq> Leaf" using fx t(2) by (auto simp: fix_right_def split: tree.splits)
  then have f: "(if 0 < strcmp item (node_item r) then rotate_left t else rotate_right_left t) = Inr t'"
    using fx True t(2) by (cases r) (auto simp: fix_right_def)
  have "tree_at bs m r" using t by simp
  then have c: "item_cmp m (Chars item) (root_ptr r) = Inr (strcmp item (node_item r))" using tree_cmp [of bs m r "Chars item"] r by simp
  have "get_ptr RIGHT m (Some p) = Inr (root_ptr r)" using t by auto
  then have "m_fix_right item m0 (Some p) r0 =
      (if 0 < strcmp item (node_item r) then m_rotate_left m (root_ptr t) else m_rotate_right_left m (root_ptr t))"
    using put tree_balance [OF t(1)] t(2) True c by (simp add: m_fix_right_def)
  then show ?thesis
    using f m_rotate_left_mimics [OF sane t(1) _ low(1,2)] m_rotate_right_left_mimics [OF sane t(1) _ low] low(3) by (auto split: if_splits)
qed

lemma m_settle_mimics:
  assumes R: "mimics bs m t R t1" and t1: "t1 \<noteq> Leaf" "low N t1" "-1 \<le> N" "N + 1 < 2 ^ 31"
  shows "mimics bs m t (m_settle R) (set_depth t1)"
proof -
  obtain m1 where m1: "R = Inr (root_ptr t1, m1)" "tree_at bs m1 t1" "own t1 = own t" "writes (own t) bs m m1"
    using R by (auto simp: mimics_def)
  obtain m2 where m2: "m_set_depth m1 (root_ptr t1) = Inr m2" "writes (own t1) bs m1 m2" "tree_at bs m2 (set_depth t1)"
    by (rule m_set_depth_tree [OF writes_sane [OF m1(4)] m1(2) t1])
  have "writes (own t) bs m m2" by (rule writes_trans [OF m1(4) m2(2)]) (simp add: m1(3))
  then show ?thesis using m1(1,3) m2(1,3) by (auto simp: m_settle_def mimics_def)
qed

lemma m_rebalance_mimics:
  assumes sane: "sane bs m" and t: "tree_at bs m t" "t \<noteq> Leaf" and reb: "rebalance (set_depth t) = Inr t'"
    and low: "low N t" "-1 \<le> N" "N + 5 < 2 ^ 31"
  shows "mimics bs m t (m_rebalance m (root_ptr t)) t'"
proof -
  obtain m1 where m1: "m_set_depth m (root_ptr t) = Inr m1" "writes (own t) bs m m1" "tree_at bs m1 (set_depth t)"
    by (rule m_set_depth_tree [OF sane t low(1,2)]) (use low(3) in simp)
  let ?t = "set_depth t"
  have sane1: "sane bs m1" using writes_sane [OF m1(2)] .
  have low1: "low (N + 1) ?t" "-1 \<le> N + 1" "N + 1 + 4 < 2 ^ 31" using set_depth_low [OF low(1,2)] low by simp_all
  obtain p d c q it l r where e: "?t = Node p d c q it l r" using t(2) by (cases t) auto
  have b: "m_balance m1 (root_ptr t) = Inr (balance ?t)" using tree_balance [OF m1(3) tree.distinct(2) [of p d c q it l r, folded e]] by simp
  have g: "get_ptr LEFT m1 (root_ptr t) = Inr (root_ptr l)" "get_ptr RIGHT m1 (root_ptr t) = Inr (root_ptr r)"
    "root_ptr t = root_ptr ?t" "tree_at bs m1 l" "tree_at bs m1 r"
    using m1(3) e set_depth_own(2) [of t, symmetric] by (auto simp del: set_depth_own)
  have "mimics bs m1 ?t (m_rebalance m (root_ptr t)) t'"
  proof -
    consider "balance ?t > 1" | "balance ?t < -1" "\<not> balance ?t > 1" | "\<not> balance ?t > 1" "\<not> balance ?t < -1" by linarith
    then show ?thesis
    proof cases
      case 1
      then have "l \<noteq> Leaf" using reb e by (auto simp: rebalance_def split: if_splits)
      then have bl: "m_balance m1 (root_ptr l) = Inr (balance l)" using tree_balance [OF g(4)] by simp
      have f: "(if balance l \<ge> 0 then rotate_right ?t else rotate_left_right ?t) = Inr t'" using reb 1 e by (auto simp: rebalance_def simp del: rotate_left_right.simps split: if_splits)
      have "m_rebalance m (root_ptr t) = (if balance l \<ge> 0 then m_rotate_right m1 (root_ptr ?t) else m_rotate_left_right m1 (root_ptr ?t))"
        using m1(1) b g(1) bl 1 by (simp add: m_rebalance_def)
      then show ?thesis
        using f m_rotate_right_mimics [OF sane1 m1(3) _ low1(1,2)] m_rotate_left_right_mimics [OF sane1 m1(3) _ low1] low1(3)
        by (auto split: if_splits)
    next
      case 2
      then have "r \<noteq> Leaf" using reb e by (auto simp: rebalance_def split: if_splits)
      then have br: "m_balance m1 (root_ptr r) = Inr (balance r)" using tree_balance [OF g(5)] by simp
      have f: "(if balance r \<le> 0 then rotate_left ?t else rotate_right_left ?t) = Inr t'" using reb 2 e by (auto simp: rebalance_def simp del: rotate_right_left.simps split: if_splits)
      have "m_rebalance m (root_ptr t) = (if balance r \<le> 0 then m_rotate_left m1 (root_ptr ?t) else m_rotate_right_left m1 (root_ptr ?t))"
        using m1(1) b g(2) br 2 by (simp add: m_rebalance_def)
      then show ?thesis
        using f m_rotate_left_mimics [OF sane1 m1(3) _ low1(1,2)] m_rotate_right_left_mimics [OF sane1 m1(3) _ low1] low1(3)
        by (auto split: if_splits)
    next
      case 3
      then have "t' = ?t" using reb by (simp add: rebalance_def)
      moreover have "m_rebalance m (root_ptr t) = Inr (root_ptr ?t, m1)" using m1(1) b 3 by (simp add: m_rebalance_def)
      ultimately show ?thesis using mimics_refl [OF sane1 m1(3)] by simp
    qed
  qed
  from mimics_after [OF this m1(2)] show ?thesis by simp
qed

end
