(* ===== verification/Avl_Mem_Heap.thy ===== *)
theory Avl_Mem_Heap
  imports Avl_Mem_Inv
begin

section \<open>Allocating and freeing under the tree\<close>

text \<open>
  The functions on tree values run on a region of their own, which has the same blocks but not the bytes of the nodes. Here: both
  regions stay in step, and what is allocated, copied or freed leaves the other blocks alone.
\<close>

subsection \<open>The two heaps\<close>

text \<open>
  \<open>linked st bs s h\<close>: the region \<open>s\<close> of the bytes and that of the tree values have the same blocks and sizes, and \<open>struct state\<close>
  at \<open>st\<close> holds the counters.
\<close>

definition linked :: "nat \<Rightarrow> blocks \<Rightarrow> scm \<Rightarrow> heap \<Rightarrow> bool" where
  "linked st bs s h \<longleftrightarrow>
     scm_ok s bs \<and> scm_ok (hscm h) bs \<and> ssize (hscm h) = ssize s \<and> user_bytes (hscm h) = user_bytes s \<and>
     VM_START_ADDR + ssize s < 2 ^ 64 \<and> live bs st STATE_SIZE \<and>
     load64 (mem s) st = Inr (hitems h) \<and> load64 (mem s) (st + UNIQUE) = Inr (hunique h)"

abbreviation root_word :: "nat \<Rightarrow> bytes \<Rightarrow> bytes" where
  "root_word st m \<equiv> slice (st + ROOT) 8 m"

lemma linked_sane: "linked st bs s h \<Longrightarrow> sane bs (mem s)"
  by (simp add: linked_def sane_def scm_ok_def)

lemma linked_room: "linked st bs s h \<Longrightarrow> scm_room (hscm h) = scm_room s"
  using scm_room_blocks [of s bs] scm_room_blocks [of "hscm h" bs] by (simp add: linked_def)

lemma linked_valid: "linked st bs s h \<Longrightarrow> scm_valid (hscm h)"
  by (auto simp: linked_def scm_valid_def)

lemma linked_live: "linked st bs s h \<Longrightarrow> live bs st STATE_SIZE" "linked st bs s h \<Longrightarrow> live bs st 0"
  by (auto simp: linked_def intro: live_less)

lemma scm_ok_write: "scm_ok s bs \<Longrightarrow> sane bs m' \<Longrightarrow> length m' = length (mem s) \<Longrightarrow> scm_ok (s\<lparr>mem := m'\<rparr>) bs"
  by (simp add: scm_ok_def sane_def)

lemma frame_length: "frame F bs m bs' m' \<Longrightarrow> length m' = length m"
  by (simp add: frame_def)

lemma frame_slice: "frame F bs m bs' m' \<Longrightarrow> live bs p n \<Longrightarrow> p \<notin> F \<Longrightarrow> i + k \<le> n \<Longrightarrow> slice (p + i) k m' = slice (p + i) k m"
  using sub_slice [of p n m' m i k] by (auto simp: frame_def)

lemma frame_root: "frame F bs m bs' m' \<Longrightarrow> linked st bs s h \<Longrightarrow> st \<notin> F \<Longrightarrow> root_word st m' = root_word st m"
  by (rule frame_slice [where n = STATE_SIZE]) (auto simp: ROOT_def STATE_SIZE_def dest: linked_live)

lemma linked_frame:
  assumes l: "linked st bs s h" and f: "frame F bs (mem s) bs' (mem s')" "st \<notin> F" and ok: "scm_ok s' bs'" "scm_ok c bs'"
    and sz: "ssize s' = ssize s" "ssize c = ssize s" "user_bytes c = user_bytes s'"
  shows "linked st bs' s' (h\<lparr>hscm := c\<rparr>)"
proof -
  note lv = linked_live(1) [OF l]
  have "live bs' st STATE_SIZE" using f lv by (simp add: frame_def)
  moreover have "load64 (mem s') st = load64 (mem s) st"
    using frame_slice [OF f(1) lv f(2), of 0 8] frame_length [OF f(1)] by (intro load64_cong) (simp_all add: STATE_SIZE_def)
  moreover have "load64 (mem s') (st + UNIQUE) = load64 (mem s) (st + UNIQUE)"
    using frame_slice [OF f(1) lv f(2), of UNIQUE 8] frame_length [OF f(1)] by (intro load64_cong) (simp_all add: STATE_SIZE_def UNIQUE_def)
  ultimately show ?thesis using l ok sz by (simp add: linked_def)
qed

lemma linked_write:
  assumes "linked st bs s h" and "writes F bs (mem s) m'" and "st \<notin> F"
  shows "linked st bs (s\<lparr>mem := m'\<rparr>) h"
proof -
  note f = writes_frame [OF assms(2)]
  have "scm_ok (s\<lparr>mem := m'\<rparr>) bs"
    using assms(1) writes_sane [OF assms(2)] frame_length [OF f] by (intro scm_ok_write) (simp_all add: linked_def)
  then have "linked st bs (s\<lparr>mem := m'\<rparr>) (h\<lparr>hscm := hscm h\<rparr>)"
    using assms f by (intro linked_frame [OF assms(1), of F]) (simp_all add: linked_def)
  then show ?thesis by simp
qed

text \<open>The counters of \<open>struct state\<close>.\<close>

lemma put_state:
  assumes l: "linked st bs s h" and off: "off \<in> {0, UNIQUE}" and v: "v < 2 ^ 64"
  obtains m' where "put_num off (mem s) (Some st) v = Inr m'" "writes {st} bs (mem s) m'" "root_word st m' = root_word st (mem s)"
    "linked st bs (s\<lparr>mem := m'\<rparr>) (if off = 0 then h\<lparr>hitems := v\<rparr> else h\<lparr>hunique := v\<rparr>)"
proof -
  note sane = linked_sane [OF l] and lv = linked_live(1) [OF l]
  have "off + length (le_bytes 8 v) \<le> STATE_SIZE" using off by (auto simp: UNIQUE_def STATE_SIZE_def)
  from store_block [OF sane lv this] obtain m' where m': "store_bytes (mem s) (st + off) (le_bytes 8 v) = Inr m'"
    "writes {st} bs (mem s) m'" "slice (st + off) 8 m' = le_bytes 8 v" "length m' = length (mem s)"
    "\<And>i k. i + k \<le> off \<or> off + 8 \<le> i \<Longrightarrow> slice (st + i) k m' = slice (st + i) k (mem s)" by auto
  have "st + off + 8 \<le> length m'" using live_in [OF lv sane] off m'(4) by (auto simp: UNIQUE_def STATE_SIZE_def)
  then have v': "load64 m' (st + off) = Inr v" using m'(3) v by (intro load64_le) auto
  have other: "load64 m' (st + i) = load64 (mem s) (st + i)" if "i + 8 \<le> off \<or> off + 8 \<le> i" for i
    using m'(4) m'(5) [of i 8] that by (intro load64_cong) auto
  have ok: "scm_ok (s\<lparr>mem := m'\<rparr>) bs"
    using l writes_sane [OF m'(2)] m'(4) by (intro scm_ok_write) (simp_all add: linked_def)
  have "linked st bs (s\<lparr>mem := m'\<rparr>) (if off = 0 then h\<lparr>hitems := v\<rparr> else h\<lparr>hunique := v\<rparr>)"
    using l ok v' other [of 0] other [of UNIQUE] off by (auto simp: linked_def UNIQUE_def)
  moreover have "root_word st m' = root_word st (mem s)" using m'(5) off by (auto simp: ROOT_def UNIQUE_def)
  ultimately show ?thesis using that [of m'] m'(1,2) by (simp add: put_num_def deref_def store64_def)
qed

lemma get_state [simp]:
  "linked st bs s h \<Longrightarrow> get_num 0 (mem s) (Some st) = Inr (hitems h)"
  "linked st bs s h \<Longrightarrow> get_num UNIQUE (mem s) (Some st) = Inr (hunique h)"
  by (simp_all add: linked_def get_num_def deref_def)

lemma inc64_bound: "inc64 n < 2 ^ 64"
  by (simp add: inc64_def)

lemma bump_state:
  assumes l: "linked st bs s h" and off: "off \<in> {0, UNIQUE}"
  obtains m' where "bump off (mem s) (Some st) = Inr m'" "writes {st} bs (mem s) m'" "root_word st m' = root_word st (mem s)"
    "linked st bs (s\<lparr>mem := m'\<rparr>) (if off = 0 then h\<lparr>hitems := inc64 (hitems h)\<rparr> else h\<lparr>hunique := inc64 (hunique h)\<rparr>)"
proof -
  let ?n = "if off = 0 then hitems h else hunique h"
  obtain m' where "put_num off (mem s) (Some st) (inc64 ?n) = Inr m'" "writes {st} bs (mem s) m'"
    "root_word st m' = root_word st (mem s)"
    "linked st bs (s\<lparr>mem := m'\<rparr>) (if off = 0 then h\<lparr>hitems := inc64 ?n\<rparr> else h\<lparr>hunique := inc64 ?n\<rparr>)"
    using put_state [OF l off inc64_bound] .
  moreover have "get_num off (mem s) (Some st) = Inr ?n" using l off by (auto simp: UNIQUE_def get_state [unfolded UNIQUE_def])
  ultimately show ?thesis using that by (auto simp: bump_def split: if_splits)
qed

text \<open>Allocation and freeing in both.\<close>

lemma frame_payload:
  assumes "payload_same bs m m'" and "length m' = length m"
    and "\<And>p k. (p, k, True) \<in> set (regions base_addr bs) \<Longrightarrow> p \<notin> F \<Longrightarrow> (p, k, True) \<in> set (regions base_addr bs')"
  shows "frame F bs m bs' m'"
  unfolding frame_def
proof (intro conjI allI impI)
  fix p n assume "live bs p n" "p \<notin> F"
  then obtain k where k: "n \<le> k" "(p, k, True) \<in> set (regions base_addr bs)" by (auto simp: live_def)
  then show "live bs' p n" using assms(3) \<open>p \<notin> F\<close> by (auto simp: live_def)
  have "slice p k m' = slice p k m" using assms(1) k(2) by (auto simp: payload_same_def)
  from sub_slice [OF this, of 0 n] k(1) show "slice p n m' = slice p n m" by simp
qed (rule assms(2))

lemma set_flag_regions:
  "(x, k, u) \<in> set (regions a bs) \<Longrightarrow> x \<noteq> p \<or> u = v \<Longrightarrow> (x, k, u) \<in> set (regions a (set_flag a bs p v))"
  by (induction a bs p v rule: set_flag.induct) auto

lemma regions_unique: "(x, k, u) \<in> set (regions a bs) \<Longrightarrow> (x, j, v) \<in> set (regions a bs) \<Longrightarrow> k = j \<and> u = v"
proof (induction a bs rule: regions.induct)
  case (2 a w n bs)
  then show ?case using regions_bounds [of x k u "a + 16 + n" bs] regions_bounds [of x j v "a + 16 + n" bs] by auto
qed simp

lemma malloc_user:
  assumes "scm_ok s bs" and "scm_malloc s n = Inr (p, s')"
  shows "user_bytes s' = (if first_fit base_addr bs n = None then add64 (user_bytes s) n else user_bytes s)"
  using assms(2) scm_find [OF assms(1), of n]
  by (auto simp: scm_malloc_def add_block_def save_sizes_def Let_def obind_eq_Inr split: option.splits if_splits)

lemma strdup_user: "scm_strdup s str = Inr (p, s') \<Longrightarrow> user_bytes s' = add64 (user_bytes s) (length str + 1)"
  by (auto simp: scm_strdup_def add_block_def save_sizes_def Let_def obind_eq_Inr)

lemma linked_malloc:
  assumes l: "linked st bs s h" and room: "n + 16 \<le> scm_room s"
  obtains p bs' s' c where "scm_malloc s n = Inr (p, s')" "scm_malloc (hscm h) n = Inr (p, c)" "linked st bs' s' (h\<lparr>hscm := c\<rparr>)"
    "live bs' p n" "\<not> live bs p 0" "frame {} bs (mem s) bs' (mem s')" "scm_room s \<le> scm_room s' + n + 16"
proof -
  have ok: "scm_ok s bs" "scm_ok (hscm h) bs" and sz: "ssize (hscm h) = ssize s" "user_bytes (hscm h) = user_bytes s"
    using l by (simp_all add: linked_def)
  have "base_addr + extent bs + 16 + n \<le> ssize s" using room scm_room_blocks [OF ok(1)] by simp
  then have fits: "malloc_fits s bs n" "malloc_fits (hscm h) bs n" using sz(1) by (simp_all add: malloc_fits_def)
  let ?p = "fst (spec_malloc bs n)" and ?bs = "snd (spec_malloc bs n)"
  obtain s' where s': "scm_malloc s n = Inr (?p, s')" "scm_ok s' ?bs" "payload_same bs (mem s) (mem s')" "ssize s' = ssize s"
    using scm_malloc_ok [OF ok(1) fits(1)] .
  obtain c where c: "scm_malloc (hscm h) n = Inr (?p, c)" "scm_ok c ?bs" "ssize c = ssize (hscm h)"
    using scm_malloc_ok [OF ok(2) fits(2)] .
  have len: "length (mem s') = length (mem s)" using ok(1) s'(2,4) by (simp add: scm_ok_def)
  have new: "live ?bs ?p n \<and> \<not> live bs ?p 0 \<and> extent ?bs \<le> extent bs + n + 16 \<and>
    (\<forall>x k. (x, k, True) \<in> set (regions base_addr bs) \<longrightarrow> (x, k, True) \<in> set (regions base_addr ?bs))"
  proof (cases "first_fit base_addr bs n")
    case None
    then show ?thesis using regions_bounds [of ?p _ True base_addr bs] by (auto simp: spec_malloc_def live_def regions_append)
  next
    case (Some p)
    then obtain xs k ys where b: "bs = xs @ (False, k) # ys" "p = base_addr + extent xs + 16" "n \<le> k"
      using first_fit_split by blast
    have e: "?p = p" "?bs = set_flag base_addr bs p True" using Some by (simp_all add: spec_malloc_def)
    have "?bs = xs @ (True, k) # ys" using e(2) b set_flag_split by simp
    then have "live ?bs ?p n" using b e(1) by (auto simp: live_def regions_append)
    moreover have "(p, k, False) \<in> set (regions base_addr bs)" using b by (simp add: regions_append)
    then have "\<not> live bs ?p 0" using regions_unique e(1) by (fastforce simp: live_def)
    ultimately show ?thesis using e set_flag_regions extent_set_flag by auto
  qed
  then have f: "frame {} bs (mem s) ?bs (mem s')" by (intro frame_payload [OF s'(3) len]) auto
  have "linked st ?bs s' (h\<lparr>hscm := c\<rparr>)"
    using s'(4) c(3) sz malloc_user [OF ok(1) s'(1)] malloc_user [OF ok(2) c(1)]
    by (intro linked_frame [OF l f _ s'(2) c(2)]) simp_all
  then show ?thesis
    using that [OF s'(1) c(1)] new f s'(4) scm_room_blocks [OF ok(1)] scm_room_blocks [OF s'(2)] by auto
qed

lemma linked_strdup:
  assumes l: "linked st bs s h" and room: "length str + 17 \<le> scm_room s" and str: "0 \<notin> set str"
  obtains q bs' s' c where "scm_strdup s str = Inr (q, s')" "scm_strdup (hscm h) str = Inr (q, c)"
    "linked st bs' s' (h\<lparr>hscm := c\<rparr>)" "text_at bs' (mem s') q str" "\<not> live bs q 0" "frame {} bs (mem s) bs' (mem s')"
    "scm_room s \<le> scm_room s' + length str + 17"
proof -
  have ok: "scm_ok s bs" "scm_ok (hscm h) bs" and sz: "ssize (hscm h) = ssize s" "user_bytes (hscm h) = user_bytes s"
    using l by (simp_all add: linked_def)
  let ?q = "base_addr + extent bs + 16" and ?bs = "bs @ [(True, length str + 1)]"
  have fits: "base_addr + extent bs + 16 + (length str + 1) \<le> ssize s" "base_addr + extent bs + 16 + (length str + 1) \<le> ssize (hscm h)"
    using room scm_room_blocks [OF ok(1)] sz(1) by simp_all
  obtain s' where s': "scm_strdup s str = Inr (?q, s')" "scm_ok s' ?bs" "payload_same bs (mem s) (mem s')" "ssize s' = ssize s"
    "slice ?q (length str + 1) (mem s') = str @ [0]"
    using scm_strdup_ok [OF ok(1) fits(1)] .
  obtain c where c: "scm_strdup (hscm h) str = Inr (?q, c)" "scm_ok c ?bs" "ssize c = ssize (hscm h)"
    using scm_strdup_ok [OF ok(2) fits(2)] .
  have len: "length (mem s') = length (mem s)" using ok(1) s'(2,4) by (simp add: scm_ok_def)
  have f: "frame {} bs (mem s) ?bs (mem s')" by (intro frame_payload [OF s'(3) len]) (simp add: regions_append)
  have "linked st ?bs s' (h\<lparr>hscm := c\<rparr>)"
    using s'(4) c(3) sz strdup_user [OF s'(1)] strdup_user [OF c(1)] by (intro linked_frame [OF l f _ s'(2) c(2)]) simp_all
  moreover have lv: "live ?bs ?q (length str + 1)" by (auto simp: live_def regions_append)
  moreover have "\<not> live bs ?q 0" using regions_bounds by (fastforce simp: live_def)
  moreover have "?q + (length str + 1) \<le> length (mem s')" using fits(1) s'(2,4) by (simp add: scm_ok_def)
  ultimately show ?thesis
    using that [OF s'(1) c(1)] f str s'(5) s'(4) scm_room_blocks [OF ok(1)] scm_room_blocks [OF s'(2)] by (simp add: text_at_def)
qed

lemma linked_free:
  assumes l: "linked st bs s h" and p: "p \<noteq> st"
  obtains bs' s' c where "scm_free s p = Inr s'" "scm_free (hscm h) p = Inr c" "linked st bs' s' (h\<lparr>hscm := c\<rparr>)"
    "frame {p} bs (mem s) bs' (mem s')"
proof -
  have ok: "scm_ok s bs" "scm_ok (hscm h) bs" and sz: "ssize (hscm h) = ssize s" "user_bytes (hscm h) = user_bytes s"
    using l by (simp_all add: linked_def)
  let ?bs = "set_flag base_addr bs p False"
  obtain s' where s': "scm_free s p = Inr s'" "scm_ok s' ?bs" "payload_same bs (mem s) (mem s')" "ssize s' = ssize s"
    "user_bytes s' = (case size_at base_addr bs p of None \<Rightarrow> user_bytes s | Some k \<Rightarrow> sub64 (user_bytes s) k)"
    using scm_free_ok [OF ok(1)] .
  obtain c where c: "scm_free (hscm h) p = Inr c" "scm_ok c ?bs" "ssize c = ssize (hscm h)"
    "user_bytes c = (case size_at base_addr bs p of None \<Rightarrow> user_bytes (hscm h) | Some k \<Rightarrow> sub64 (user_bytes (hscm h)) k)"
    using scm_free_ok [OF ok(2)] .
  have len: "length (mem s') = length (mem s)" using ok(1) s'(2,4) by (simp add: scm_ok_def)
  have f: "frame {p} bs (mem s) ?bs (mem s')" by (intro frame_payload [OF s'(3) len] set_flag_regions) auto
  have "linked st ?bs s' (h\<lparr>hscm := c\<rparr>)"
    using s'(4,5) c(3,4) sz p by (intro linked_frame [OF l f _ s'(2) c(2)]) (simp_all split: option.split)
  then show ?thesis using that s'(1) c(1) f by blast
qed

end
