(* ===== verification/Avl_Mem_Ref.thy ===== *)
theory Avl_Mem_Ref
  imports Avl_Mem_Heap
begin

section \<open>The operations on bytes are those on trees\<close>

text \<open>
  By induction on the tree: a function on pointers comes back, with the pointer to the tree that the function on values gives, and the bytes hold
  that tree. The depths fit into 32 bits, since a balanced tree with fewer than \<open>2 ^ 64\<close> items is flat.
\<close>

subsection \<open>Insertion\<close>

text \<open>
  What an operation on the subtree \<open>t\<close> may do: it leaves \<open>t'\<close> in memory, made of the blocks of \<open>t\<close> and new ones, and touches nothing
  else but the counters; the pointer to the root of the tree is not theirs.
\<close>

definition evolves :: "nat \<Rightarrow> blocks \<Rightarrow> scm \<Rightarrow> tree \<Rightarrow> blocks \<Rightarrow> scm \<Rightarrow> tree \<Rightarrow> bool" where
  "evolves st bs s t bs' s' t' \<longleftrightarrow>
     tree_at bs' (mem s') t' \<and> frame (insert st (own t)) bs (mem s) bs' (mem s') \<and> own t' \<subseteq> own t \<union> {x. \<not> live bs x 0} \<and>
     root_word st (mem s') = root_word st (mem s)"

lemma evolves_old: "evolves st bs s t bs' s' t' \<Longrightarrow> live bs x 0 \<Longrightarrow> x \<notin> own t \<Longrightarrow> x \<notin> own t'"
  by (auto simp: evolves_def)

text \<open>After that, the node on top of it is worked on.\<close>

lemma evolves_mimics:
  assumes l: "linked st bs s h" "linked st bs1 s1 h1" and t: "st \<notin> own t"
    and f: "frame (insert st (own t)) bs (mem s) bs1 (mem s1)" "root_word st (mem s1) = root_word st (mem s)"
    and own: "own t1 \<subseteq> own t \<union> {x. \<not> live bs x 0}" and R: "mimics bs1 (mem s1) t1 R t2"
  obtains s2 where "with_mem s1 R = Inr (root_ptr t2, s2)" "linked st bs1 s2 h1" "evolves st bs s t bs1 s2 t2"
proof -
  obtain m where m: "R = Inr (root_ptr t2, m)" "tree_at bs1 m t2" "own t2 = own t1" "writes (own t1) bs1 (mem s1) m"
    using R by (auto simp: mimics_def)
  have st: "st \<notin> own t1" using own t linked_live(2) [OF l(1)] by auto
  have "frame (insert st (own t)) bs (mem s) bs1 m"
    by (rule frame_trans_fresh [OF f(1) writes_frame [OF m(4)]]) (use own in auto)
  moreover have "root_word st m = root_word st (mem s)" using frame_root [OF writes_frame [OF m(4)] l(2) st] f(2) by simp
  ultimately have "evolves st bs s t bs1 (s1\<lparr>mem := m\<rparr>) t2" using m(2,3) own by (simp add: evolves_def)
  then show ?thesis using that linked_write [OF l(2) m(4) st] m(1) by (simp add: with_mem_def)
qed

lemma evolves_self: "tree_at bs (mem s) t \<Longrightarrow> evolves st bs s t bs s t"
  by (auto simp: evolves_def frame_refl)

text \<open>The node made for a null pointer.\<close>

lemma zero_node:
  assumes "sane bs m" and "live bs p NODE_SIZE"
  obtains m' where "store_bytes m p (replicate NODE_SIZE 0) = Inr m'" "writes {p} bs m m'" "node_at bs m' p 0 0 None None None"
proof -
  obtain m' where m': "store_bytes m p (replicate NODE_SIZE 0) = Inr m'" "writes {p} bs m m'" "slice p NODE_SIZE m' = replicate NODE_SIZE 0"
    "length m' = length m"
    by (rule store_block [OF assms, of 0 "replicate NODE_SIZE 0"]) auto
  have len: "p + NODE_SIZE \<le> length m'" using live_in [OF assms(2,1)] m'(4) by simp
  have z: "slice (p + i) k m' = replicate k 0" if "i + k \<le> NODE_SIZE" for i k
  proof -
    have "slice (p + i) k m' = slice i k (slice p NODE_SIZE m')" using that by (simp add: slice_slice add.commute)
    also have "\<dots> = replicate k 0" using that unfolding m'(3) by (simp add: slice_def)
    finally show ?thesis .
  qed
  have v: "le_val (replicate k 0) = 0" for k by (induction k) simp_all
  have "load64 m' (p + i) = Inr 0" if "i \<le> 32" for i using z [of i 8] that len v [of 8] by (simp add: load64_def NODE_SIZE_def)
  moreover have "load_int m' p = Inr 0" using z [of 0 4] len v [of 4] by (simp add: load_int_def NODE_SIZE_def int32_def)
  ultimately have "node_at bs m' p 0 0 None None None" using assms(2) by (simp add: node_at_def offsets ptr_word_def)
  then show ?thesis using that m'(1,2) by blast
qed

lemma m_new_node_ok:
  assumes l: "linked st bs s h" and room: "length item + 73 \<le> scm_room s" and item: "0 \<notin> set item"
  obtains p q c bs' s' h' where "new_node h item = Inr (Node p 0 1 q item Leaf Leaf, h')"
    "m_new_node st s item = Inr (Some p, s')" "linked st bs' s' h'" "evolves st bs s Leaf bs' s' (Node p 0 1 q item Leaf Leaf)"
proof -
  have "NODE_SIZE + 16 \<le> scm_room s" using room by (simp add: NODE_SIZE_def)
  then obtain p bs1 s1 c1 where a: "scm_malloc s NODE_SIZE = Inr (p, s1)" "scm_malloc (hscm h) NODE_SIZE = Inr (p, c1)"
    "linked st bs1 s1 (h\<lparr>hscm := c1\<rparr>)" "live bs1 p NODE_SIZE" "\<not> live bs p 0" "frame {} bs (mem s) bs1 (mem s1)"
    "scm_room s \<le> scm_room s1 + NODE_SIZE + 16"
    using linked_malloc [OF l] by metis
  have p: "st \<noteq> p" using a(5) linked_live(2) [OF l] by blast
  obtain m1 where z: "store_bytes (mem s1) p (replicate NODE_SIZE 0) = Inr m1" "writes {p} bs1 (mem s1) m1" "node_at bs1 m1 p 0 0 None None None"
    using zero_node [OF linked_sane [OF a(3)] a(4)] .
  let ?s1 = "s1\<lparr>mem := m1\<rparr>"
  have l1: "linked st bs1 ?s1 (h\<lparr>hscm := c1\<rparr>)" using linked_write [OF a(3) z(2)] p by simp
  have r1: "length item + 17 \<le> scm_room ?s1" using room a(7) by (simp add: scm_room_def NODE_SIZE_def)
  obtain q bs2 s2 c2 where d: "scm_strdup ?s1 item = Inr (q, s2)" "scm_strdup c1 item = Inr (q, c2)"
    "linked st bs2 s2 (h\<lparr>hscm := c2\<rparr>)" "text_at bs2 (mem s2) q item" "\<not> live bs1 q 0" "frame {} bs1 m1 bs2 (mem s2)"
    by (rule linked_strdup [OF l1 r1 item]) auto
  have q: "\<not> live bs q 0" "q \<noteq> p" "q \<noteq> st"
    using d(5) a(6) live_less [OF a(4), of 0] linked_live(2) [OF l1] by (auto simp: frame_def)
  note n2 = node_frame [OF z(3) d(6)] and sane2 = linked_sane [OF d(3)]
  have "live bs2 q 0" using d(4) live_less by (auto simp: text_at_def)
  then obtain m3 where m3: "put_ptr ITEM (mem s2) (Some p) (Some q) = Inr m3" "writes {p} bs2 (mem s2) m3"
    "node_at bs2 m3 p 0 0 (Some q) None None"
    using put_item [OF sane2 n2 live_word [OF _ sane2]] by auto
  obtain m4 where m4: "put_num COUNT m3 (Some p) 1 = Inr m4" "writes {p} bs2 m3 m4" "node_at bs2 m4 p 0 1 (Some q) None None"
    using put_count [OF writes_sane [OF m3(2)] m3(3), of 1] by auto
  have w4: "writes {p} bs2 (mem s2) m4" using writes_trans [OF m3(2) m4(2)] by simp
  have l4: "linked st bs2 (s2\<lparr>mem := m4\<rparr>) (h\<lparr>hscm := c2\<rparr>)" using linked_write [OF d(3) w4] p by simp
  obtain m5 where m5: "bump 0 m4 (Some st) = Inr m5" "writes {st} bs2 m4 m5" "root_word st m5 = root_word st m4"
    "linked st bs2 (s2\<lparr>mem := m5\<rparr>) (h\<lparr>hscm := c2, hitems := inc64 (hitems h)\<rparr>)"
    using bump_state [OF l4, of 0] by auto
  let ?h = "h\<lparr>hscm := c2, hitems := inc64 (hitems h), hunique := inc64 (hunique h)\<rparr>"
  obtain m6 where m6: "bump UNIQUE m5 (Some st) = Inr m6" "writes {st} bs2 m5 m6" "root_word st m6 = root_word st m5"
    "linked st bs2 (s2\<lparr>mem := m6\<rparr>) ?h"
    using bump_state [OF m5(4), of UNIQUE] by (auto simp: UNIQUE_def)
  have w6: "writes {st} bs2 m4 m6" using writes_trans [OF m5(2) m6(2)] by simp
  have "bump COUNT m3 (Some p) = Inr m4" using m3(3) m4(1) by (auto simp: bump_def inc64_def)
  then have run: "m_new_node st s item = Inr (Some p, s2\<lparr>mem := m6\<rparr>)"
    using a(1) z(1) d(1) m3(1) m5(1) m6(1) by (simp add: m_new_node_def)
  have f2: "frame {} bs (mem s) bs2 (mem s2)"
    by (rule frame_trans_fresh [OF frame_trans_fresh [OF a(6) writes_frame [OF z(2)], of "{}"] d(6)]) (use a(5) in auto)
  have f4: "frame {} bs (mem s) bs2 m4" by (rule frame_trans_fresh [OF f2 writes_frame [OF w4]]) (use a(5) in auto)
  have f6: "frame {st} bs (mem s) bs2 m6" by (rule frame_trans [OF f4 writes_frame [OF w6]]) simp
  have text6: "text_at bs2 m6 q item"
    using text_frame [OF text_frame [OF d(4) writes_frame [OF w4]] writes_frame [OF w6]] q by simp
  have node6: "node_at bs2 m6 p 0 1 (Some q) None None" using node_frame [OF m4(3) writes_frame [OF w6]] p by simp
  have "tree_at bs2 m6 (Node p 0 1 q item Leaf Leaf)" using node6 text6 q by simp
  moreover have "root_word st m6 = root_word st (mem s)" using m5(3) m6(3) frame_root [OF f4 l] by simp
  ultimately have "evolves st bs s Leaf bs2 (s2\<lparr>mem := m6\<rparr>) (Node p 0 1 q item Leaf Leaf)"
    using f6 a(5) q(1) by (simp add: evolves_def)
  moreover have "new_node h item = Inr (Node p 0 1 q item Leaf Leaf, ?h)" using a(2) d(2) by (simp add: new_node_def)
  ultimately show ?thesis using that run m6(4) by blast
qed

text \<open>Where the two children of a node are when a child has been worked on.\<close>

lemma child_frame:
  assumes l: "linked st bs s h" and t: "tree_at bs (mem s) (Node p d c q it l r)" and st: "st \<notin> own (Node p d c q it l r)"
    and e: "evolves st bs s x bs1 s1 x'" and x: "x \<in> {l, r}"
  shows "frame (insert st (own (Node p d c q it l r))) bs (mem s) bs1 (mem s1)" "root_word st (mem s1) = root_word st (mem s)"
    "own x' \<subseteq> own (Node p d c q it l r) \<union> {y. \<not> live bs y 0}"
    "own x' \<inter> ({p, q} \<union> own (if x = l then r else l)) = {}" "st \<notin> own x'"
proof -
  let ?t = "Node p d c q it l r"
  have sub: "own x \<subseteq> own ?t" using x by auto
  show "frame (insert st (own ?t)) bs (mem s) bs1 (mem s1)" "root_word st (mem s1) = root_word st (mem s)"
    using e sub frame_mono [of "insert st (own x)" bs "mem s" bs1 "mem s1" "insert st (own ?t)"] by (auto simp: evolves_def)
  show "own x' \<subseteq> own ?t \<union> {y. \<not> live bs y 0}" using e sub by (auto simp: evolves_def)
  show "st \<notin> own x'" using evolves_old [OF e linked_live(2) [OF l]] st sub by blast
  have lv: "live bs y 0" if "y \<in> own ?t" for y using tree_live [OF t that] .
  have "y \<notin> own x'" if "y \<in> {p, q} \<union> own (if x = l then r else l)" for y
    using evolves_old [OF e, of y] lv [of y] that t x by (auto split: if_splits)
  then show "own x' \<inter> ({p, q} \<union> own (if x = l then r else l)) = {}" by blast
qed

lemma update_left_ok:
  assumes l: "linked st bs s h" and t: "tree_at bs (mem s) (Node p d c q it l r)" and st: "st \<notin> own (Node p d c q it l r)"
    and low: "low N (Node p d c q it l' r)" "-1 \<le> N" "N + 5 < 2 ^ 31"
    and child: "linked st bs1 s1 h1" "evolves st bs s l bs1 s1 l'" and fx: "fix_left item (Node p d c q it l' r) = Inr t'" "t' \<noteq> Leaf"
  obtains s2 where "with_mem s1 (m_settle (m_fix_left item (mem s1) (Some p) (root_ptr l'))) = Inr (root_ptr t', s2)"
    "linked st bs1 s2 h1" "evolves st bs s (Node p d c q it l r) bs1 s2 (set_depth t')"
proof -
  note k = child_frame [OF l t st child(2) insertI1]
  have f: "frame (insert st (own l)) bs (mem s) bs1 (mem s1)" "tree_at bs1 (mem s1) l'" using child(2) by (simp_all add: evolves_def)
  have apart: "own l' \<inter> ({p, q} \<union> own r) = {}" using k(4) t by (cases "l = r") auto
  obtain m where m: "put_ptr LEFT (mem s1) (Some p) (root_ptr l') = Inr m" "writes {p} bs1 (mem s1) m" "tree_at bs1 m (Node p d c q it l' r)"
    by (rule attach_left [OF t f(1) _ linked_sane [OF child(1)] f(2) apart]) (use t st in auto)
  have "mimics bs1 m (Node p d c q it l' r) (m_fix_left item (mem s1) (Some p) (root_ptr l')) t'"
    by (rule m_fix_left_mimics [OF m(1) writes_sane [OF m(2)] m(3) refl fx(1) low(1,2)]) (use low(3) in simp)
  from mimics_after [OF this writes_mono [OF m(2)]]
  have "mimics bs1 (mem s1) (Node p d c q it l' r) (m_fix_left item (mem s1) (Some p) (root_ptr l')) t'" by auto
  from m_settle_mimics [OF this fx(2) fix_left_low [OF fx(1) low(1,2)]] low
  have R: "mimics bs1 (mem s1) (Node p d c q it l' r) (m_settle (m_fix_left item (mem s1) (Some p) (root_ptr l'))) (set_depth t')" by simp
  show thesis by (rule evolves_mimics [OF l child(1) st k(1,2) _ R]) (use k(3) that in auto)
qed

lemma update_right_ok:
  assumes l: "linked st bs s h" and t: "tree_at bs (mem s) (Node p d c q it l r)" and st: "st \<notin> own (Node p d c q it l r)"
    and low: "low N (Node p d c q it l r')" "-1 \<le> N" "N + 5 < 2 ^ 31"
    and child: "linked st bs1 s1 h1" "evolves st bs s r bs1 s1 r'" and fx: "fix_right item (Node p d c q it l r') = Inr t'" "t' \<noteq> Leaf"
  obtains s2 where "with_mem s1 (m_settle (m_fix_right item (mem s1) (Some p) (root_ptr r'))) = Inr (root_ptr t', s2)"
    "linked st bs1 s2 h1" "evolves st bs s (Node p d c q it l r) bs1 s2 (set_depth t')"
proof -
  note k = child_frame [OF l t st child(2) insertI2 [OF singletonI]]
  have f: "frame (insert st (own r)) bs (mem s) bs1 (mem s1)" "tree_at bs1 (mem s1) r'" using child(2) by (simp_all add: evolves_def)
  have apart: "own r' \<inter> ({p, q} \<union> own l) = {}" using k(4) t by (cases "l = r") auto
  obtain m where m: "put_ptr RIGHT (mem s1) (Some p) (root_ptr r') = Inr m" "writes {p} bs1 (mem s1) m" "tree_at bs1 m (Node p d c q it l r')"
    by (rule attach_right [OF t f(1) _ linked_sane [OF child(1)] f(2) apart]) (use t st in auto)
  have "mimics bs1 m (Node p d c q it l r') (m_fix_right item (mem s1) (Some p) (root_ptr r')) t'"
    by (rule m_fix_right_mimics [OF m(1) writes_sane [OF m(2)] m(3) refl fx(1) low(1,2)]) (use low(3) in simp)
  from mimics_after [OF this writes_mono [OF m(2)]]
  have "mimics bs1 (mem s1) (Node p d c q it l r') (m_fix_right item (mem s1) (Some p) (root_ptr r')) t'" by auto
  from m_settle_mimics [OF this fx(2) fix_right_low [OF fx(1) low(1,2)]] low
  have R: "mimics bs1 (mem s1) (Node p d c q it l r') (m_settle (m_fix_right item (mem s1) (Some p) (root_ptr r'))) (set_depth t')" by simp
  show thesis by (rule evolves_mimics [OF l child(1) st k(1,2) _ R]) (use k(3) that in auto)
qed

lemma with_mem_twice: "with_mem (s\<lparr>mem := m\<rparr>) r = with_mem s r"
  by (simp add: with_mem_def)

lemma update_same_ok:
  assumes l: "linked st bs s h" and t: "tree_at bs (mem s) (Node p d c q it l r)" and st: "st \<notin> own (Node p d c q it l r)"
    and low: "low N (Node p d c q it l r)" "-1 \<le> N" "N + 1 < 2 ^ 31"
  obtains s2 where "with_mem s (m_settle (m_count_item st (mem s) (Some p))) = Inr (Some p, s2)"
    "linked st bs s2 (count_item h)" "evolves st bs s (Node p d c q it l r) bs s2 (set_depth (Node p d (inc64 c) q it l r))"
proof -
  let ?t = "Node p d (inc64 c) q it l r"
  obtain m1 where m1: "put_num COUNT (mem s) (Some p) (inc64 c) = Inr m1" "writes {p} bs (mem s) m1" "tree_at bs m1 ?t"
    using put_count_tree [OF linked_sane [OF l] t inc64_bound] .
  have p: "st \<noteq> p" using st by auto
  have l1: "linked st bs (s\<lparr>mem := m1\<rparr>) h" using linked_write [OF l m1(2)] p by simp
  obtain m2 where m2: "bump 0 m1 (Some st) = Inr m2" "writes {st} bs m1 m2" "root_word st m2 = root_word st m1"
    "linked st bs (s\<lparr>mem := m2\<rparr>) (count_item h)"
    using bump_state [OF l1, of 0] by (auto simp: count_item_def)
  have t2: "tree_at bs m2 ?t" by (rule tree_frame [OF m1(3) writes_frame [OF m2(2)]]) (use st in auto)
  have "mimics bs m2 ?t (m_settle (Inr (root_ptr ?t, m2))) (set_depth ?t)"
    by (rule m_settle_mimics [OF mimics_refl [OF writes_sane [OF m2(2)] t2], of N]) (use low in auto)
  then have R: "mimics bs (mem (s\<lparr>mem := m2\<rparr>)) ?t (m_settle (Inr (root_ptr ?t, m2))) (set_depth ?t)" by simp
  have f: "frame (insert st (own (Node p d c q it l r))) bs (mem s) bs m2"
    by (rule frame_trans [OF writes_frame [OF m1(2)] writes_frame [OF m2(2)]]) auto
  have rw: "root_word st m2 = root_word st (mem s)" using frame_root [OF writes_frame [OF m1(2)] l] p m2(3) by simp
  have "bump COUNT (mem s) (Some p) = Inr m1" using t m1(1) by (auto simp: bump_def)
  then have e: "with_mem s (m_settle (m_count_item st (mem s) (Some p))) = with_mem (s\<lparr>mem := m2\<rparr>) (m_settle (Inr (root_ptr ?t, m2)))"
    using m2(1) by (simp add: m_count_item_def with_mem_twice)
  show thesis
    by (rule evolves_mimics [OF l m2(4) st _ _ _ R]) (use f rw e that in auto)
qed

lemma m_update_ok:
  assumes "linked st bs s h" and "tree_at bs (mem s) t" and "st \<notin> own t" and "balanced t" and "search_tree t" and "delta t < 2 ^ 30"
    and item: "0 \<notin> set item" and room: "length item + 73 \<le> scm_room s"
  shows "\<exists>t' h' bs' s'. update h t item = Inr (t', h') \<and> m_update st s (root_ptr t) item = Some (Inr (root_ptr t', s')) \<and>
    linked st bs' s' h' \<and> evolves st bs s t bs' s' t'"
  using assms(1-6)
proof (induction t)
  case Leaf
  obtain p q bs' s' h' where "new_node h item = Inr (Node p 0 1 q item Leaf Leaf, h')"
    "m_new_node st s item = Inr (Some p, s')" "linked st bs' s' h'" "evolves st bs s Leaf bs' s' (Node p 0 1 q item Leaf Leaf)"
    by (rule m_new_node_ok [OF Leaf(1) room item])
  then show ?case by (subst m_update.simps) auto
next
  case (Node p d c q it l r)
  note lk = Node.prems(1) and t = Node.prems(2) and st = Node.prems(3)
  have b: "balanced l" "balanced r" "\<bar>delta l - delta r\<bar> \<le> 1" "d = depth l r" using Node.prems(4) by simp_all
  have sr: "search_tree l" "search_tree r" and D: "d < 2 ^ 30" using Node.prems(5,6) by auto
  have lr: "delta l < d" "delta r < d" using b(4) by (auto simp: depth_def)
  have low: "low d (Node p d c q it l r)" using balanced_low [OF Node.prems(4), of d] by simp
  have d0: "0 \<le> d" using b(4) delta_bound [OF b(1)] delta_bound [OF b(2)] by (auto simp: depth_def)
  have cmp: "item_cmp (mem s) (Chars item) (Some p) = Inr (strcmp item it)" using tree_cmp [OF t, of "Chars item" item] by simp
  have kids: "get_ptr LEFT (mem s) (Some p) = Inr (root_ptr l)" "get_ptr RIGHT (mem s) (Some p) = Inr (root_ptr r)" using t by auto
  obtain p0 q0 h0 where new: "new_node h item = Inr (Node p0 0 1 q0 item Leaf Leaf, h0)"
    using new_node_ok [OF linked_valid [OF lk], of item] room linked_room [OF lk] by metis
  consider "item = it" | "item < it" | "it < item" by force
  then show ?case
  proof cases
    case 1
    obtain s2 where "with_mem s (m_settle (m_count_item st (mem s) (Some p))) = Inr (Some p, s2)"
      "linked st bs s2 (count_item h)" "evolves st bs s (Node p d c q it l r) bs s2 (set_depth (Node p d (inc64 c) q it l r))"
      by (rule update_same_ok [OF lk t st low]) (use d0 D in auto)
    then show ?thesis using 1 cmp by (subst m_update.simps) (auto simp: Let_def)
  next
    case 2
    obtain l' h1 bs1 s1 where ih: "update h l item = Inr (l', h1)" "m_update st s (root_ptr l) item = Some (Inr (root_ptr l', s1))"
      "linked st bs1 s1 h1" "evolves st bs s l bs1 s1 l'"
      using Node.IH(1) [OF lk _ _ b(1) sr(1)] t st lr D by auto
    have l': "balanced l'" "grown item l l'" using update_ok [OF b(1) sr(1) new] ih(1) by auto
    obtain t' where t': "fix_left item (Node p d c q it l' r) = Inr t'" "inorder t' = inorder l' @ (it, c) # inorder r"
      using fix_left_ok [OF b(1) l'(1) b(2,3) l'(2) 2] by metis
    have "delta l' \<le> d" using l'(2) lr by (auto simp: grown_def)
    then have low': "low d (Node p d c q it l' r)" using balanced_low [OF l'(1)] low by auto
    have "t' \<noteq> Leaf" using t'(2) by auto
    then obtain s2 where "with_mem s1 (m_settle (m_fix_left item (mem s1) (Some p) (root_ptr l'))) = Inr (root_ptr t', s2)"
      "linked st bs1 s2 h1" "evolves st bs s (Node p d c q it l r) bs1 s2 (set_depth t')"
      using update_left_ok [OF lk t st low' _ _ ih(3,4) t'(1)] d0 D by auto
    then show ?thesis using 2 less_not_sym [OF 2] cmp kids ih(1,2) t'(1) by (subst m_update.simps) (auto simp: Let_def)
  next
    case 3
    obtain r' h1 bs1 s1 where ih: "update h r item = Inr (r', h1)" "m_update st s (root_ptr r) item = Some (Inr (root_ptr r', s1))"
      "linked st bs1 s1 h1" "evolves st bs s r bs1 s1 r'"
      using Node.IH(2) [OF lk _ _ b(2) sr(2)] t st lr D by auto
    have r': "balanced r'" "grown item r r'" using update_ok [OF b(2) sr(2) new] ih(1) by auto
    obtain t' where t': "fix_right item (Node p d c q it l r') = Inr t'" "inorder t' = inorder l @ (it, c) # inorder r'"
      using fix_right_ok [OF b(1,2) r'(1) b(3) r'(2) 3] by metis
    have "delta r' \<le> d" using r'(2) lr by (auto simp: grown_def)
    then have low': "low d (Node p d c q it l r')" using balanced_low [OF r'(1)] low by auto
    have "t' \<noteq> Leaf" using t'(2) by auto
    then obtain s2 where "with_mem s1 (m_settle (m_fix_right item (mem s1) (Some p) (root_ptr r'))) = Inr (root_ptr t', s2)"
      "linked st bs1 s2 h1" "evolves st bs s (Node p d c q it l r) bs1 s2 (set_depth t')"
      using update_right_ok [OF lk t st low' _ _ ih(3,4) t'(1)] d0 D by auto
    then show ?thesis using 3 less_not_sym [OF 3] cmp kids ih(1,2) t'(1) by (subst m_update.simps) (auto simp: Let_def)
  qed
qed

subsection \<open>The whole tree\<close>

text \<open>The open tree \<open>x\<close> in memory is the tree value \<open>a\<close>: \<open>struct state\<close> is the first block and points to the root.\<close>

definition rep :: "blocks \<Rightarrow> m_avl \<Rightarrow> avl \<Rightarrow> bool" where
  "rep bs x a \<longleftrightarrow>
     m_state x = base_addr + ADDR_INFO_BYTES \<and> linked (m_state x) bs (m_scm x) (a_heap a) \<and>
     tree_at bs (mem (m_scm x)) (a_root a) \<and> m_state x \<notin> own (a_root a) \<and>
     get_ptr ROOT (mem (m_scm x)) (Some (m_state x)) = Inr (root_ptr (a_root a))"

definition represents :: "m_avl \<Rightarrow> avl \<Rightarrow> bool" where
  "represents x a \<longleftrightarrow> (\<exists>bs. rep bs x a)"

lemma get_root_cong: "root_word st m' = root_word st m \<Longrightarrow> length m' = length m \<Longrightarrow> get_ptr ROOT m' (Some st) = get_ptr ROOT m (Some st)"
  by (simp add: get_ptr_def get_num_def deref_def load64_def)

lemma put_root:
  assumes l: "linked st bs s h" and v: "ptr_word v < 2 ^ 64"
  obtains m' where "put_ptr ROOT (mem s) (Some st) v = Inr m'" "writes {st} bs (mem s) m'" "linked st bs (s\<lparr>mem := m'\<rparr>) h"
    "get_ptr ROOT m' (Some st) = Inr v"
proof -
  note sane = linked_sane [OF l] and lv = linked_live(1) [OF l]
  have "ROOT + length (le_bytes 8 (ptr_word v)) \<le> STATE_SIZE" by (simp add: ROOT_def STATE_SIZE_def)
  from store_block [OF sane lv this] obtain m' where m': "store_bytes (mem s) (st + ROOT) (le_bytes 8 (ptr_word v)) = Inr m'"
    "writes {st} bs (mem s) m'" "slice (st + ROOT) 8 m' = le_bytes 8 (ptr_word v)" "length m' = length (mem s)"
    "\<And>i k. i + k \<le> ROOT \<or> ROOT + 8 \<le> i \<Longrightarrow> slice (st + i) k m' = slice (st + i) k (mem s)" by auto
  have "st + ROOT + 8 \<le> length m'" using live_in [OF lv sane] m'(4) by (simp add: ROOT_def STATE_SIZE_def)
  then have "load64 m' (st + ROOT) = Inr (ptr_word v)" using m'(3) v by (intro load64_le) auto
  then have g: "get_ptr ROOT m' (Some st) = Inr v" by (simp add: get_ptr_def get_num_def deref_def)
  have other: "load64 m' (st + i) = load64 (mem s) (st + i)" if "i + 8 \<le> ROOT" for i
    using m'(4) m'(5) [of i 8] that by (intro load64_cong) auto
  have ok: "scm_ok (s\<lparr>mem := m'\<rparr>) bs" using l writes_sane [OF m'(2)] m'(4) by (intro scm_ok_write) (simp_all add: linked_def)
  have "linked st bs (s\<lparr>mem := m'\<rparr>) h"
    using l ok other [of 0] other [of UNIQUE] by (simp add: linked_def UNIQUE_def ROOT_def)
  then show ?thesis using that m'(1,2) g by (simp add: put_ptr_def put_num_def deref_def store64_def)
qed

text \<open>The new root is stored.\<close>

lemma rep_new_root:
  assumes l: "linked st bs s h" "linked st bs' s' h'" and e: "evolves st bs s t bs' s' t'" and st: "st \<notin> own t" "st = base_addr + ADDR_INFO_BYTES"
  obtains m where "put_ptr ROOT (mem s') (Some st) (root_ptr t') = Inr m"
    "rep bs' \<lparr>m_scm = s'\<lparr>mem := m\<rparr>, m_state = st\<rparr> \<lparr>a_root = t', a_heap = h'\<rparr>"
proof -
  have t': "tree_at bs' (mem s') t'" using e by (simp add: evolves_def)
  obtain m where m: "put_ptr ROOT (mem s') (Some st) (root_ptr t') = Inr m" "writes {st} bs' (mem s') m"
    "linked st bs' (s'\<lparr>mem := m\<rparr>) h'" "get_ptr ROOT m (Some st) = Inr (root_ptr t')"
    using put_root [OF l(2) tree_word [OF t' linked_sane [OF l(2)]]] .
  have n: "st \<notin> own t'" using evolves_old [OF e linked_live(2) [OF l(1)] st(1)] .
  have "tree_at bs' m t'" by (rule tree_frame [OF t' writes_frame [OF m(2)]]) (use n in auto)
  then have "rep bs' \<lparr>m_scm = s'\<lparr>mem := m\<rparr>, m_state = st\<rparr> \<lparr>a_root = t', a_heap = h'\<rparr>" using m n st(2) by (simp add: rep_def)
  then show ?thesis using that m(1) by blast
qed

lemma avl_ok_flat:
  assumes "avl_ok a"
  shows "delta (a_root a) < 2 ^ 30"
proof (rule ccontr)
  let ?n = "nat (delta (a_root a) + 1) div 2"
  assume "\<not> delta (a_root a) < 2 ^ 30"
  then have "64 < ?n" by simp
  then have "(2 :: nat) ^ 65 \<le> 2 ^ ?n" by (intro power_increasing) simp_all
  moreover have "2 ^ ?n \<le> length (inorder (a_root a)) + 1" using avl_height assms by (simp add: avl_ok_def)
  moreover have "length (inorder (a_root a)) < 2 ^ 64"
    using assms length_le_total [of "inorder (a_root a)"] unfolding avl_ok_def by linarith
  ultimately show False by simp
qed

lemma m_avl_insert_ok:
  assumes r: "rep bs x a" and ok: "avl_ok a" and item: "item \<noteq> []" "0 \<notin> set item" and room: "length item + 73 \<le> avl_room a"
  obtains bs' x' a' where "m_avl_insert x item = Some (Inr (0, x'))" "avl_insert a item = Inr (0, a')" "rep bs' x' a'"
proof -
  let ?st = "m_state x" and ?s = "m_scm x"
  have l: "linked ?st bs ?s (a_heap a)" and t: "tree_at bs (mem ?s) (a_root a)" "?st \<notin> own (a_root a)"
    and root: "get_ptr ROOT (mem ?s) (Some ?st) = Inr (root_ptr (a_root a))" and st: "?st = base_addr + ADDR_INFO_BYTES"
    using r unfolding rep_def by blast+
  have b: "balanced (a_root a)" "search_tree (a_root a)" using ok by (simp_all add: avl_ok_def)
  have rm: "length item + 73 \<le> scm_room ?s" using room linked_room [OF l] by (simp add: avl_room_def)
  obtain t' h' bs' s' where u: "update (a_heap a) (a_root a) item = Inr (t', h')"
    "m_update ?st ?s (root_ptr (a_root a)) item = Some (Inr (root_ptr t', s'))" "linked ?st bs' s' h'" "evolves ?st bs ?s (a_root a) bs' s' t'"
    using m_update_ok [OF l t b avl_ok_flat [OF ok] item(2) rm] by blast
  obtain p q s where "new_node (a_heap a) item = Inr (Node p 0 1 q item Leaf Leaf, s)"
    using new_node_ok [OF linked_valid [OF l], of item] room by (metis avl_room_def)
  then have "inorder t' = ins_list item (inorder (a_root a))" using update_ok [OF b] u(1) by fastforce
  then have t': "t' \<noteq> Leaf" by (cases "inorder (a_root a)") (auto split: if_splits)
  obtain m where m: "put_ptr ROOT (mem s') (Some ?st) (root_ptr t') = Inr m"
    "rep bs' \<lparr>m_scm = s'\<lparr>mem := m\<rparr>, m_state = ?st\<rparr> \<lparr>a_root = t', a_heap = h'\<rparr>"
    using rep_new_root [OF l u(3,4) t(2) st] .
  have "m_avl_insert x item = Some (Inr (0, \<lparr>m_scm = s'\<lparr>mem := m\<rparr>, m_state = ?st\<rparr>))"
    using item(1) root u(2) t' m(1) by (simp add: m_avl_insert_def)
  then show ?thesis using that m(2) u(1) item(1) by (simp add: avl_insert_def)
qed

subsection \<open>Lookup and traversal\<close>

lemma m_find_ok: "tree_at bs m t \<Longrightarrow> m_find m (root_ptr t) item = Some (Inr (exists_in t item))"
proof (induction t)
  case Leaf
  then show ?case by (subst m_find.simps) simp
next
  case (Node p d c q it l r)
  have cmp: "item_cmp m (Chars item) (Some p) = Inr (strcmp item it)" using tree_cmp [OF Node.prems, of "Chars item" item] by simp
  have "tree_at bs m l" "tree_at bs m r" "get_num COUNT m (Some p) = Inr c" "get_ptr LEFT m (Some p) = Inr (root_ptr l)"
    "get_ptr RIGHT m (Some p) = Inr (root_ptr r)" using Node.prems by auto
  then show ?case using cmp Node.IH by (subst m_find.simps) (simp add: Let_def)
qed

lemma m_traverse_ok: "tree_at bs m t \<Longrightarrow> m_traverse m fnc (root_ptr t) arg = Some (Inr (traverse fnc t arg))"
proof (induction t arbitrary: arg)
  case Leaf
  then show ?case by (subst m_traverse.simps) simp
next
  case (Node p d c q it l r)
  then have "tree_at bs m l" "tree_at bs m r" "get_num COUNT m (Some p) = Inr c" "get_ptr ITEM m (Some p) = Inr (Some q)"
    "chars m (At (Some q)) = Inr it" "get_ptr LEFT m (Some p) = Inr (root_ptr l)" "get_ptr RIGHT m (Some p) = Inr (root_ptr r)"
    by (auto simp del: chars.simps)
  then show ?case using Node.IH by (subst m_traverse.simps) (simp del: chars.simps)
qed

lemma rep_finds:
  assumes "rep bs x a"
  shows "item \<noteq> [] \<Longrightarrow> m_avl_exists x item = Some (avl_exists a item)"
    and "m_avl_traverse fnc x arg = Some (Inr (avl_traverse fnc a arg))"
    and "m_avl_items x = Inr (avl_items a)" and "m_avl_unique x = Inr (avl_unique a)"
  using assms m_find_ok [of bs "mem (m_scm x)" "a_root a"] m_traverse_ok [of bs "mem (m_scm x)" "a_root a"]
  by (auto simp: rep_def m_avl_exists_def avl_exists_def m_avl_traverse_def avl_traverse_def m_avl_items_def avl_items_def
      m_avl_unique_def avl_unique_def)

subsection \<open>Deletion\<close>

lemma evolves_trans:
  assumes "evolves st bs s t bs1 s1 t1" and "evolves st bs1 s1 t1 bs2 s2 t2" and l: "linked st bs1 s1 h1"
  shows "evolves st bs s t bs2 s2 t2"
proof -
  have f: "frame (insert st (own t)) bs (mem s) bs1 (mem s1)" and o: "own t1 \<subseteq> own t \<union> {x. \<not> live bs x 0}"
    using assms(1) by (simp_all add: evolves_def)
  have "live bs1 x 0" if "live bs x 0" "x \<notin> own t" for x
    using that f linked_live(2) [OF l] by (cases "x = st") (auto simp: frame_def)
  then have "own t2 \<subseteq> own t \<union> {x. \<not> live bs x 0}" using assms(2) o by (auto simp: evolves_def)
  moreover have "frame (insert st (own t)) bs (mem s) bs2 (mem s2)"
    by (rule frame_trans_fresh [OF f]) (use assms(2) o in \<open>auto simp: evolves_def\<close>)
  ultimately show ?thesis using assms by (simp add: evolves_def)
qed

lemma delete_left_ok:
  assumes l: "linked st bs s h" and t: "tree_at bs (mem s) (Node p d c q it l r)" and st: "st \<notin> own (Node p d c q it l r)"
    and low: "low N (Node p d c q it l' r)" "-1 \<le> N" "N + 5 < 2 ^ 31"
    and child: "linked st bs1 s1 h1" "evolves st bs s l bs1 s1 l'" and reb: "rebalance (set_depth (Node p d c q it l' r)) = Inr t'"
  obtains s2 where "with_mem s1 (obind (put_ptr LEFT (mem s1) (Some p) (root_ptr l')) (\<lambda>m. m_rebalance m (Some p))) = Inr (root_ptr t', s2)"
    "linked st bs1 s2 h1" "evolves st bs s (Node p d c q it l r) bs1 s2 t'"
proof -
  note k = child_frame [OF l t st child(2) insertI1]
  have f: "frame (insert st (own l)) bs (mem s) bs1 (mem s1)" "tree_at bs1 (mem s1) l'" using child(2) by (simp_all add: evolves_def)
  have apart: "own l' \<inter> ({p, q} \<union> own r) = {}" using k(4) t by (cases "l = r") auto
  obtain m where m: "put_ptr LEFT (mem s1) (Some p) (root_ptr l') = Inr m" "writes {p} bs1 (mem s1) m" "tree_at bs1 m (Node p d c q it l' r)"
    by (rule attach_left [OF t f(1) _ linked_sane [OF child(1)] f(2) apart]) (use t st in auto)
  have "mimics bs1 m (Node p d c q it l' r) (m_rebalance m (Some p)) t'"
    using m_rebalance_mimics [OF writes_sane [OF m(2)] m(3) _ reb low] by simp
  from mimics_after [OF this writes_mono [OF m(2)]]
  have R: "mimics bs1 (mem s1) (Node p d c q it l' r)
      (obind (put_ptr LEFT (mem s1) (Some p) (root_ptr l')) (\<lambda>m. m_rebalance m (Some p))) t'" using m(1) by simp
  show thesis by (rule evolves_mimics [OF l child(1) st k(1,2) _ R]) (use k(3) that in auto)
qed

lemma delete_right_ok:
  assumes l: "linked st bs s h" and t: "tree_at bs (mem s) (Node p d c q it l r)" and st: "st \<notin> own (Node p d c q it l r)"
    and low: "low N (Node p d c q it l r')" "-1 \<le> N" "N + 5 < 2 ^ 31"
    and child: "linked st bs1 s1 h1" "evolves st bs s r bs1 s1 r'" and reb: "rebalance (set_depth (Node p d c q it l r')) = Inr t'"
  obtains s2 where "with_mem s1 (obind (put_ptr RIGHT (mem s1) (Some p) (root_ptr r')) (\<lambda>m. m_rebalance m (Some p))) = Inr (root_ptr t', s2)"
    "linked st bs1 s2 h1" "evolves st bs s (Node p d c q it l r) bs1 s2 t'"
proof -
  note k = child_frame [OF l t st child(2) insertI2 [OF singletonI]]
  have f: "frame (insert st (own r)) bs (mem s) bs1 (mem s1)" "tree_at bs1 (mem s1) r'" using child(2) by (simp_all add: evolves_def)
  have apart: "own r' \<inter> ({p, q} \<union> own l) = {}" using k(4) t by (cases "l = r") auto
  obtain m where m: "put_ptr RIGHT (mem s1) (Some p) (root_ptr r') = Inr m" "writes {p} bs1 (mem s1) m" "tree_at bs1 m (Node p d c q it l r')"
    by (rule attach_right [OF t f(1) _ linked_sane [OF child(1)] f(2) apart]) (use t st in auto)
  have "mimics bs1 m (Node p d c q it l r') (m_rebalance m (Some p)) t'"
    using m_rebalance_mimics [OF writes_sane [OF m(2)] m(3) _ reb low] by simp
  from mimics_after [OF this writes_mono [OF m(2)]]
  have R: "mimics bs1 (mem s1) (Node p d c q it l r')
      (obind (put_ptr RIGHT (mem s1) (Some p) (root_ptr r')) (\<lambda>m. m_rebalance m (Some p))) t'" using m(1) by simp
  show thesis by (rule evolves_mimics [OF l child(1) st k(1,2) _ R]) (use k(3) that in auto)
qed

lemma delete_count_ok:
  assumes l: "linked st bs s h" and t: "tree_at bs (mem s) (Node p d c q it l r)" and st: "st \<notin> own (Node p d c q it l r)"
    and low: "low N (Node p d c q it l r)" "-1 \<le> N" "N + 5 < 2 ^ 31" and v: "v < 2 ^ 64"
    and reb: "rebalance (set_depth (Node p d v q it l r)) = Inr t'"
  obtains s2 where "with_mem s (obind (put_num COUNT (mem s) (Some p) v) (\<lambda>m. m_rebalance m (Some p))) = Inr (root_ptr t', s2)"
    "linked st bs s2 h" "evolves st bs s (Node p d c q it l r) bs s2 t'"
proof -
  let ?t = "Node p d v q it l r"
  obtain m where m: "put_num COUNT (mem s) (Some p) v = Inr m" "writes {p} bs (mem s) m" "tree_at bs m ?t"
    using put_count_tree [OF linked_sane [OF l] t v] .
  have "mimics bs m ?t (m_rebalance m (Some p)) t'"
    using m_rebalance_mimics [OF writes_sane [OF m(2)] m(3) _ reb _ low(2,3)] low(1) by simp
  from mimics_after [OF this writes_mono [OF m(2)]]
  have R: "mimics bs (mem s) ?t (obind (put_num COUNT (mem s) (Some p) v) (\<lambda>m. m_rebalance m (Some p))) t'" using m(1) by simp
  show thesis by (rule evolves_mimics [OF l l st frame_refl refl _ R]) (use that in auto)
qed

text \<open>A node with one child at most goes.\<close>

lemma free_node_evolves:
  assumes l: "linked st bs s h" and t: "tree_at bs (mem s) (Node p d c q it l r)" and st: "st \<notin> own (Node p d c q it l r)"
    and x: "x \<in> {l, r}"
  obtains bs' s' h' where "free_node h q p = Inr h'" "m_free_node s (Some p) (root_ptr x) = Inr (root_ptr x, s')"
    "linked st bs' s' h'" "evolves st bs s (Node p d c q it l r) bs' s' x"
proof -
  obtain bs1 s1 c1 where 1: "scm_free s q = Inr s1" "scm_free (hscm h) q = Inr c1" "linked st bs1 s1 (h\<lparr>hscm := c1\<rparr>)"
    "frame {q} bs (mem s) bs1 (mem s1)"
    by (rule linked_free [OF l, of q]) (use st in auto)
  obtain bs2 s2 c2 where 2: "scm_free s1 p = Inr s2" "scm_free c1 p = Inr c2" "linked st bs2 s2 (h\<lparr>hscm := c2\<rparr>)"
    "frame {p} bs1 (mem s1) bs2 (mem s2)"
    by (rule linked_free [OF 1(3), of p]) (use st in auto)
  have f: "frame {p, q} bs (mem s) bs2 (mem s2)" by (rule frame_trans [OF 1(4) 2(4)]) auto
  have "tree_at bs2 (mem s2) x" by (rule tree_frame [OF _ f]) (use t x in auto)
  moreover have "root_word st (mem s2) = root_word st (mem s)" by (rule frame_root [OF f l]) (use st in auto)
  moreover have "frame (insert st (own (Node p d c q it l r))) bs (mem s) bs2 (mem s2)" by (rule frame_mono [OF f]) auto
  ultimately have "evolves st bs s (Node p d c q it l r) bs2 s2 x" using x by (auto simp: evolves_def)
  moreover have "m_free_node s (Some p) (root_ptr x) = Inr (root_ptr x, s2)"
    using t 1(1) 2(1) by (auto simp: m_free_node_def free_ptr_def)
  moreover have "free_node h q p = Inr (h\<lparr>hscm := c2\<rparr>)" using 1(2) 2(2) by (simp add: free_node_def)
  ultimately show ?thesis using that 2(3) by blast
qed

text \<open>The leftmost node.\<close>

lemma find_min_tree:
  "tree_at bs m t \<Longrightarrow> t \<noteq> Leaf \<Longrightarrow>
    m_find_min m (root_ptr t) = Some (Inr (root_ptr (find_min t))) \<and> tree_at bs m (find_min t) \<and> find_min t \<noteq> Leaf"
proof (induction t)
  case (Node p d c q it l r)
  have "get_ptr LEFT m (Some p) = Inr (root_ptr l)" using Node.prems by auto
  then show ?case using Node by (subst m_find_min.simps) auto
qed simp

lemma set_min_count_blocks [simp]: "own (set_min_count t) = own t" "root_ptr (set_min_count t) = root_ptr t" "low N (set_min_count t) = low N t"
proof -
  show o: "root_ptr (set_min_count t) = root_ptr t" by (cases t) auto
  show "own (set_min_count t) = own t" "low N (set_min_count t) = low N t" by (induction t) auto
qed

lemma find_min_set:
  "root_ptr (find_min (set_min_count t)) = root_ptr (find_min t)" "item_addr (find_min (set_min_count t)) = item_addr (find_min t)"
  "node_item (find_min (set_min_count t)) = node_item (find_min t)"
  by (induction t) auto

lemma put_min_count:
  assumes "sane bs m" and "tree_at bs m t" and "t \<noteq> Leaf"
  shows "\<exists>m'. put_num COUNT m (root_ptr (find_min t)) 1 = Inr m' \<and> writes (own t) bs m m' \<and> tree_at bs m' (set_min_count t)"
  using assms
proof (induction t)
  case (Node p d c q it l r)
  note t = Node.prems(2)
  show ?case
  proof (cases "l = Leaf")
    case True
    obtain m' where m': "put_num COUNT m (Some p) 1 = Inr m'" "writes {p} bs m m'" "tree_at bs m' (Node p d 1 q it l r)"
      by (rule put_count_tree [OF Node.prems(1) t, of 1]) auto
    then show ?thesis using True writes_mono [OF m'(2), of "own (Node p d c q it l r)"] by auto
  next
    case False
    then obtain m' where m': "put_num COUNT m (root_ptr (find_min l)) 1 = Inr m'" "writes (own l) bs m m'" "tree_at bs m' (set_min_count l)"
      using Node.IH(1) [OF Node.prems(1)] t by auto
    note f = writes_frame [OF m'(2)]
    have "node_at bs m' p d c (Some q) (root_ptr l) (root_ptr r)" "text_at bs m' q it" "tree_at bs m' r"
      using t by (auto intro!: node_frame [OF _ f] text_frame [OF _ f] tree_frame [OF _ f])
    then have "tree_at bs m' (set_min_count (Node p d c q it l r))" using False t m'(3) by auto
    then show ?thesis using False m'(1) writes_mono [OF m'(2), of "own (Node p d c q it l r)"] by auto
  qed
qed simp

text \<open>A node with two children takes over the next item.\<close>

lemma take_over_ok:
  assumes l: "linked st bs s h" and t: "tree_at bs (mem s) (Node p d c q it l r)" and st: "st \<notin> own (Node p d c q it l r)"
    and r: "r \<noteq> Leaf" and room: "length (node_item (find_min r)) + 17 \<le> scm_room s"
  obtains q' c1 c2 bs' s' where "scm_strdup (hscm h) (node_item (find_min r)) = Inr (q', c1)" "scm_free c1 q = Inr c2"
    "m_take_over s (Some p) (root_ptr (find_min r)) = Inr s'" "linked st bs' s' (h\<lparr>hscm := c2\<rparr>)"
    "evolves st bs s (Node p d c q it l r) bs' s' (Node p d (node_count (find_min r)) q' (node_item (find_min r)) l (set_min_count r))"
proof -
  have tr: "tree_at bs (mem s) r" using t by simp
  note sub = find_min_tree [OF tr r]
  obtain pm dm cm qm x lm rm where min: "find_min r = Node pm dm cm qm x lm rm" using sub by (cases "find_min r") auto
  have tm: "get_ptr ITEM (mem s) (Some pm) = Inr (Some qm)" "text_at bs (mem s) qm x" using sub unfolding min by auto
  then have x: "0 \<notin> set x" "chars (mem s) (At (Some qm)) = Inr x" by (auto simp: text_at_def simp del: chars.simps)
  obtain q' bs1 s1 c1 where 1: "scm_strdup s x = Inr (q', s1)" "scm_strdup (hscm h) x = Inr (q', c1)"
    "linked st bs1 s1 (h\<lparr>hscm := c1\<rparr>)" "text_at bs1 (mem s1) q' x" "\<not> live bs q' 0" "frame {} bs (mem s) bs1 (mem s1)"
    by (rule linked_strdup [OF l _ x(1)]) (use room min in auto)
  let ?own = "own (Node p d c q it l r)"
  have q': "q' \<notin> ?own" "q' \<noteq> st" using tree_live [OF t] 1(5) linked_live(2) [OF l] by blast+
  have t1: "tree_at bs1 (mem s1) (Node p d c q it l r)" by (rule tree_frame [OF t 1(6)]) simp
  note sane1 = linked_sane [OF 1(3)]
  have "ptr_word (Some q') < 2 ^ 64" using 1(4) live_word [OF _ sane1] by (auto simp: text_at_def)
  then obtain m1 where m1: "put_ptr ITEM (mem s1) (Some p) (Some q') = Inr m1" "writes {p} bs1 (mem s1) m1"
    "node_at bs1 m1 p d c (Some q') (root_ptr l) (root_ptr r)"
    using put_item [OF sane1, of p d c "Some q" "root_ptr l" "root_ptr r"] t1 by auto
  note f1 = writes_frame [OF m1(2)]
  have "text_at bs1 m1 q' x" "tree_at bs1 m1 l" "tree_at bs1 m1 r"
    using t1 q' 1(4) by (auto intro!: text_frame [OF _ f1] tree_frame [OF _ f1])
  then have tm1: "tree_at bs1 m1 (Node p d c q' x l r)" using m1(3) t q' by auto
  have cm: "get_num COUNT m1 (Some pm) = Inr cm" "cm < 2 ^ 64"
    using find_min_tree [OF _ r, of bs1 m1] tm1 node_words(1) unfolding min by auto
  obtain m2 where m2: "put_num COUNT m1 (Some p) cm = Inr m2" "writes {p} bs1 m1 m2" "tree_at bs1 m2 (Node p d cm q' x l r)"
    using put_count_tree [OF writes_sane [OF m1(2)] tm1 cm(2)] .
  have w2: "writes {p} bs1 (mem s1) m2" by (rule writes_trans [OF m1(2) m2(2)]) simp
  have l2: "linked st bs1 (s1\<lparr>mem := m2\<rparr>) (h\<lparr>hscm := c1\<rparr>)" by (rule linked_write [OF 1(3) w2]) (use st in auto)
  obtain bs2 s2 c2 where 2: "scm_free (s1\<lparr>mem := m2\<rparr>) q = Inr s2" "scm_free c1 q = Inr c2" "linked st bs2 s2 (h\<lparr>hscm := c2\<rparr>)"
    "frame {q} bs1 m2 bs2 (mem s2)"
    by (rule linked_free [OF l2, of q]) (use st in auto)
  have t2: "tree_at bs2 (mem s2) (Node p d cm q' x l r)" by (rule tree_frame [OF m2(3) 2(4)]) (use t q' in auto)
  have "tree_at bs2 (mem s2) r" using t2 by simp
  from put_min_count [OF linked_sane [OF 2(3)] this r] obtain m3 where m3: "put_num COUNT (mem s2) (Some pm) 1 = Inr m3"
    "writes (own r) bs2 (mem s2) m3" "tree_at bs2 m3 (set_min_count r)" unfolding min by auto
  note f3 = writes_frame [OF m3(2)]
  have "node_at bs2 m3 p d cm (Some q') (root_ptr l) (root_ptr r)" "text_at bs2 m3 q' x" "tree_at bs2 m3 l"
    using t2 by (auto intro!: node_frame [OF _ f3] text_frame [OF _ f3] tree_frame [OF _ f3])
  then have t3: "tree_at bs2 m3 (Node p d cm q' x l (set_min_count r))" using t2 m3(3) by simp
  have g1: "frame {} bs (mem s) bs1 (mem s1)" using 1(6) .
  have g2: "frame {p} bs (mem s) bs1 m2" by (rule frame_trans [OF g1 writes_frame [OF w2]]) simp
  have g3: "frame {p, q} bs (mem s) bs2 (mem s2)" by (rule frame_trans [OF g2 2(4)]) auto
  have g4: "frame ?own bs (mem s) bs2 m3" by (rule frame_trans [OF g3 f3]) auto
  have "root_word st m3 = root_word st (mem s)" using frame_root [OF g4 l st] .
  then have e: "evolves st bs s (Node p d c q it l r) bs2 (s2\<lparr>mem := m3\<rparr>) (Node p d cm q' x l (set_min_count r))"
    using t3 frame_mono [OF g4, of "insert st ?own"] 1(5) by (auto simp: evolves_def)
  have "linked st bs2 (s2\<lparr>mem := m3\<rparr>) (h\<lparr>hscm := c2\<rparr>)" by (rule linked_write [OF 2(3) m3(2)]) (use st in auto)
  moreover have "get_ptr ITEM (mem s) (Some p) = Inr (Some q)" using t by auto
  then have "m_take_over s (Some p) (Some pm) = Inr (s2\<lparr>mem := m3\<rparr>)"
    using tm(1) x(2) 1(1) m1(1) cm(1) m2(1) 2(1) m3(1) by (simp add: m_take_over_def free_ptr_def del: chars.simps)
  ultimately show ?thesis using that 1(2) 2(2) e min by simp
qed

lemma m_delete_min_ok:
  assumes "linked st bs s h" and "tree_at bs (mem s) t" and "st \<notin> own t" and "balanced t" and "search_tree t" and "delta t < 2 ^ 30"
    and "inorder t = (x, 1) # xs" and "chars (mem s) item = Inr x"
  shows "\<exists>t' h' bs' s'. delete h t x = Inr (t', h') \<and> m_delete s (root_ptr t) item = Some (Inr (root_ptr t', s')) \<and>
    linked st bs' s' h' \<and> evolves st bs s t bs' s' t'"
  using assms
proof (induction t arbitrary: xs)
  case (Node p d c q it l r)
  note lk = Node.prems(1) and t = Node.prems(2) and st = Node.prems(3)
  have b: "balanced l" "balanced r" "\<bar>delta l - delta r\<bar> \<le> 1" "d = depth l r" using Node.prems(4) by simp_all
  have low: "low d (Node p d c q it l r)" using balanced_low [OF Node.prems(4), of d] by simp
  have D: "d < 2 ^ 30" "0 \<le> d" using Node.prems(6) b(4) delta_bound [OF b(1)] delta_bound [OF b(2)] by (auto simp: depth_def)
  have cmp: "item_cmp (mem s) item (Some p) = Inr (strcmp x it)" using tree_cmp [OF t _ Node.prems(8)] by simp
  have kids: "get_ptr LEFT (mem s) (Some p) = Inr (root_ptr l)" "get_ptr RIGHT (mem s) (Some p) = Inr (root_ptr r)"
    "get_num COUNT (mem s) (Some p) = Inr c" using t by auto
  show ?case
  proof (cases "l = Leaf")
    case True
    then have e: "x = it" "c = 1" using Node.prems(7) by auto
    obtain bs' s' h' where "free_node h q p = Inr h'" "m_free_node s (Some p) (root_ptr r) = Inr (root_ptr r, s')"
      "linked st bs' s' h'" "evolves st bs s (Node p d c q it l r) bs' s' r"
      by (rule free_node_evolves [OF lk t st, of r]) auto
    then show ?thesis using e True cmp kids by (subst m_delete.simps) (auto simp: delete.simps Let_def)
  next
    case False
    then obtain ys where ys: "inorder l = (x, 1) # ys" "xs = ys @ (it, c) # inorder r"
      using Node.prems(7) by (cases "inorder l") (auto, cases l, auto)
    have sl: "search_tree l" and lt: "x < it" using Node.prems(5) ys by (auto simp: keys_def)
    have dl: "delta l < 2 ^ 30" using D b(4) by (auto simp: depth_def split: if_splits)
    obtain l' h1 bs1 s1 where ih: "delete h l x = Inr (l', h1)" "m_delete s (root_ptr l) item = Some (Inr (root_ptr l', s1))"
      "linked st bs1 s1 h1" "evolves st bs s l bs1 s1 l'"
      using Node.IH(1) [OF lk _ _ b(1) sl dl ys(1) Node.prems(8)] t st by auto
    have l': "balanced l'" "shrunk l l'" using delete_min_ok [OF b(1) sl ys(1) linked_valid [OF lk]] ih(1) by auto
    obtain t' where t': "rebalance (set_depth (Node p d c q it l' r)) = Inr t'"
      using rebalance_left [OF b(1) l'(1) b(2,3) l'(2)] by metis
    have "delta l' \<le> d" using l'(2) b(4) by (auto simp: shrunk_def depth_def)
    then have low': "low d (Node p d c q it l' r)" using balanced_low [OF l'(1)] low by auto
    obtain s2 where "with_mem s1 (obind (put_ptr LEFT (mem s1) (Some p) (root_ptr l')) (\<lambda>m. m_rebalance m (Some p))) = Inr (root_ptr t', s2)"
      "linked st bs1 s2 h1" "evolves st bs s (Node p d c q it l r) bs1 s2 t'"
      by (rule delete_left_ok [OF lk t st low' _ _ ih(3,4) t']) (use D in auto)
    then show ?thesis using lt cmp kids ih(1,2) t' by (subst m_delete.simps) (auto simp: delete.simps Let_def)
  qed
qed simp

text \<open>The root with two children.\<close>

lemma m_delete_two_ok:
  assumes lk: "linked st bs s h" and t: "tree_at bs (mem s) (Node p d c q it l r)" and st: "st \<notin> own (Node p d c q it l r)"
    and b: "balanced (Node p d c q it l r)" and sr: "search_tree r" and D: "d < 2 ^ 30" and c: "\<not> c > 1"
    and two: "l \<noteq> Leaf" "r \<noteq> Leaf" and item: "chars (mem s) item = Inr it"
    and room: "length (node_item (find_min r)) + 17 \<le> scm_room s"
  shows "\<exists>t' h' bs' s'. delete h (Node p d c q it l r) it = Inr (t', h') \<and> m_delete s (Some p) item = Some (Inr (root_ptr t', s')) \<and>
    linked st bs' s' h' \<and> evolves st bs s (Node p d c q it l r) bs' s' t'"
proof -
  let ?x = "node_item (find_min r)" and ?c = "node_count (find_min r)" and ?r = "set_min_count r"
  have b1: "balanced l" "balanced r" "\<bar>delta l - delta r\<bar> \<le> 1" "d = depth l r" using b by simp_all
  obtain q' c1 c2 bs1 s1 where 1: "scm_strdup (hscm h) ?x = Inr (q', c1)" "scm_free c1 q = Inr c2"
    "m_take_over s (Some p) (root_ptr (find_min r)) = Inr s1" "linked st bs1 s1 (h\<lparr>hscm := c2\<rparr>)"
    "evolves st bs s (Node p d c q it l r) bs1 s1 (Node p d ?c q' ?x l ?r)"
    using take_over_ok [OF lk t st two(2) room] .
  have t1: "tree_at bs1 (mem s1) (Node p d ?c q' ?x l ?r)" using 1(5) by (simp add: evolves_def)
  have st1: "st \<notin> own (Node p d ?c q' ?x l ?r)" using evolves_old [OF 1(5) linked_live(2) [OF lk] st] .
  obtain xs where xs: "inorder ?r = (?x, 1) # xs" using find_min_inorder [OF two(2)] by blast
  have tr: "tree_at bs1 (mem s1) ?r" using t1 by simp
  have "tree_at bs1 (mem s1) (find_min ?r)" "find_min ?r \<noteq> Leaf" using find_min_tree [OF tr] two(2) by auto
  then obtain pm dm cm qm lm rm where min: "find_min ?r = Node pm dm cm qm ?x lm rm" "root_ptr (find_min r) = Some pm"
    "tree_at bs1 (mem s1) (Node pm dm cm qm ?x lm rm)"
    using find_min_set(1,3) [of r] by (cases "find_min ?r") auto
  have q: "get_ptr ITEM (mem s1) (Some pm) = Inr (Some qm)" "chars (mem s1) (At (Some qm)) = Inr ?x"
    using min(3) by (auto simp del: chars.simps)
  obtain r' h2 bs2 s2 where d: "delete (h\<lparr>hscm := c2\<rparr>) ?r ?x = Inr (r', h2)"
    "m_delete s1 (root_ptr ?r) (At (Some qm)) = Some (Inr (root_ptr r', s2))" "linked st bs2 s2 h2" "evolves st bs1 s1 ?r bs2 s2 r'"
    using m_delete_min_ok [OF 1(4) tr _ _ _ _ xs q(2)] st1 b1 sr D by (auto simp: depth_def split: if_splits)
  have r': "balanced r'" "shrunk r r'"
    using delete_min_ok [of ?r ?x xs "h\<lparr>hscm := c2\<rparr>"] b1(2) sr xs linked_valid [OF 1(4)] d(1) by (auto simp: shrunk_def)
  obtain t' where t': "rebalance (set_depth (Node p d ?c q' ?x l r')) = Inr t'"
    using rebalance_right [OF b1(1,2) r'(1) b1(3) r'(2)] by metis
  have "delta r' \<le> d" using r'(2) b1(4) by (auto simp: shrunk_def depth_def)
  then have low: "low d (Node p d ?c q' ?x l r')" using balanced_low [OF r'(1), of d] balanced_low [OF b, of d] by auto
  have d0: "0 \<le> d" using b1(4) delta_bound [OF b1(1)] delta_bound [OF b1(2)] by (auto simp: depth_def)
  obtain s3 where s3: "with_mem s2 (obind (put_ptr RIGHT (mem s2) (Some p) (root_ptr r')) (\<lambda>m. m_rebalance m (Some p))) = Inr (root_ptr t', s3)"
    "linked st bs2 s3 h2" "evolves st bs1 s1 (Node p d ?c q' ?x l ?r) bs2 s3 t'"
    by (rule delete_right_ok [OF 1(4) t1 st1 low _ _ d(3,4) t']) (use D d0 in auto)
  have "delete h (Node p d c q it l r) it = Inr (t', h2)"
    using c two 1(1,2) d(1) t' by (simp add: delete.simps Let_def)
  moreover have "m_delete s (Some p) item = Some (Inr (root_ptr t', s3))"
  proof -
    have cmp: "item_cmp (mem s) item (Some p) = Inr 0" using tree_cmp [OF t _ item] by simp
    have kids: "get_ptr LEFT (mem s) (Some p) = Inr (root_ptr l)" "get_ptr RIGHT (mem s) (Some p) = Inr (root_ptr r)"
      "get_num COUNT (mem s) (Some p) = Inr c" "tree_at bs (mem s) r" using t by auto
    have "get_ptr RIGHT (mem s1) (Some p) = Inr (root_ptr ?r)" using t1 by auto
    then show ?thesis
      using cmp kids c two min(2) find_min_tree [OF kids(4) two(2)] 1(3) q(1) d(2) s3(1) by (subst m_delete.simps) simp
  qed
  ultimately show ?thesis using s3(2) evolves_trans [OF 1(5) s3(3) 1(4)] by blast
qed

lemma m_delete_ok:
  assumes "linked st bs s h" and "tree_at bs (mem s) t" and "st \<notin> own t" and "balanced t" and "search_tree t" and "delta t < 2 ^ 30"
    and "\<forall>y \<in> set (keys t). length y + 17 \<le> scm_room s" and "chars (mem s) item = Inr x"
  shows "\<exists>t' h' bs' s'. delete h t x = Inr (t', h') \<and> m_delete s (root_ptr t) item = Some (Inr (root_ptr t', s')) \<and>
    linked st bs' s' h' \<and> evolves st bs s t bs' s' t'"
  using assms
proof (induction t)
  case Leaf
  then show ?case using evolves_self [of bs s Leaf st] by (subst m_delete.simps) (auto simp: delete.simps)
next
  case (Node p d c q it l r)
  note lk = Node.prems(1) and t = Node.prems(2) and st = Node.prems(3) and room = Node.prems(7) and item = Node.prems(8)
  have b: "balanced l" "balanced r" "\<bar>delta l - delta r\<bar> \<le> 1" "d = depth l r" using Node.prems(4) by simp_all
  have sr: "search_tree l" "search_tree r" using Node.prems(5) by simp_all
  have low: "low d (Node p d c q it l r)" using balanced_low [OF Node.prems(4), of d] by simp
  have D: "d < 2 ^ 30" "0 \<le> d" using Node.prems(6) b(4) delta_bound [OF b(1)] delta_bound [OF b(2)] by (auto simp: depth_def)
  have lr: "delta l < d" "delta r < d" using b(4) by (auto simp: depth_def)
  have v: "scm_valid (hscm h)" and rm: "scm_room (hscm h) = scm_room s" using linked_valid [OF lk] linked_room [OF lk] by simp_all
  have cmp: "item_cmp (mem s) item (Some p) = Inr (strcmp x it)" using tree_cmp [OF t _ item] by simp
  have kids: "get_ptr LEFT (mem s) (Some p) = Inr (root_ptr l)" "get_ptr RIGHT (mem s) (Some p) = Inr (root_ptr r)"
    "get_num COUNT (mem s) (Some p) = Inr c" "c < 2 ^ 64" using t node_words(1) by auto
  consider "x < it" | "it < x" | "x = it" by force
  then show ?case
  proof cases
    case 1
    obtain l' h1 bs1 s1 where ih: "delete h l x = Inr (l', h1)" "m_delete s (root_ptr l) item = Some (Inr (root_ptr l', s1))"
      "linked st bs1 s1 h1" "evolves st bs s l bs1 s1 l'"
      using Node.IH(1) [OF lk _ _ b(1) sr(1) _ _ item] t st lr D room by auto
    have l': "balanced l'" "shrunk l l'" using delete_ok [OF b(1) sr(1) v, of x] room rm ih(1) by auto
    obtain t' where t': "rebalance (set_depth (Node p d c q it l' r)) = Inr t'"
      using rebalance_left [OF b(1) l'(1) b(2,3) l'(2)] by metis
    have "delta l' \<le> d" using l'(2) lr by (auto simp: shrunk_def)
    then have low': "low d (Node p d c q it l' r)" using balanced_low [OF l'(1)] low by auto
    obtain s2 where "with_mem s1 (obind (put_ptr LEFT (mem s1) (Some p) (root_ptr l')) (\<lambda>m. m_rebalance m (Some p))) = Inr (root_ptr t', s2)"
      "linked st bs1 s2 h1" "evolves st bs s (Node p d c q it l r) bs1 s2 t'"
      by (rule delete_left_ok [OF lk t st low' _ _ ih(3,4) t']) (use D in auto)
    then show ?thesis using 1 cmp kids ih(1,2) t' by (subst m_delete.simps) (auto simp: delete.simps Let_def)
  next
    case 2
    obtain r' h1 bs1 s1 where ih: "delete h r x = Inr (r', h1)" "m_delete s (root_ptr r) item = Some (Inr (root_ptr r', s1))"
      "linked st bs1 s1 h1" "evolves st bs s r bs1 s1 r'"
      using Node.IH(2) [OF lk _ _ b(2) sr(2) _ _ item] t st lr D room by auto
    have r': "balanced r'" "shrunk r r'" using delete_ok [OF b(2) sr(2) v, of x] room rm ih(1) by auto
    obtain t' where t': "rebalance (set_depth (Node p d c q it l r')) = Inr t'"
      using rebalance_right [OF b(1,2) r'(1) b(3) r'(2)] by metis
    have "delta r' \<le> d" using r'(2) lr by (auto simp: shrunk_def)
    then have low': "low d (Node p d c q it l r')" using balanced_low [OF r'(1)] low by auto
    obtain s2 where "with_mem s1 (obind (put_ptr RIGHT (mem s1) (Some p) (root_ptr r')) (\<lambda>m. m_rebalance m (Some p))) = Inr (root_ptr t', s2)"
      "linked st bs1 s2 h1" "evolves st bs s (Node p d c q it l r) bs1 s2 t'"
      by (rule delete_right_ok [OF lk t st low' _ _ ih(3,4) t']) (use D in auto)
    then show ?thesis using 2 less_not_sym [OF 2] cmp kids ih(1,2) t' by (subst m_delete.simps) (auto simp: delete.simps Let_def)
  next
    case 3
    consider "c > 1" | "\<not> c > 1" "l = Leaf \<or> r = Leaf" | "\<not> c > 1" "l \<noteq> Leaf" "r \<noteq> Leaf" by blast
    then show ?thesis
    proof cases
      case 1
      obtain t' where t': "rebalance (set_depth (Node p d (c - 1) q it l r)) = Inr t'"
        using rebalance_ok [OF b(1,2), of p d "c - 1" q it] b(3) by auto
      obtain s2 where "with_mem s (obind (put_num COUNT (mem s) (Some p) (c - 1)) (\<lambda>m. m_rebalance m (Some p))) = Inr (root_ptr t', s2)"
        "linked st bs s2 h" "evolves st bs s (Node p d c q it l r) bs s2 t'"
        by (rule delete_count_ok [OF lk t st low _ _ _ t']) (use D kids(4) in auto)
      then show ?thesis using 1 3 cmp kids t' by (subst m_delete.simps) (auto simp: delete.simps Let_def)
    next
      case 2
      let ?x = "if l = Leaf then r else l"
      obtain bs' s' h' where "free_node h q p = Inr h'" "m_free_node s (Some p) (root_ptr ?x) = Inr (root_ptr ?x, s')"
        "linked st bs' s' h'" "evolves st bs s (Node p d c q it l r) bs' s' ?x"
        by (rule free_node_evolves [OF lk t st, of ?x]) auto
      then show ?thesis using 2 3 cmp kids by (subst m_delete.simps) (auto simp: delete.simps Let_def)
    next
      case 33: 3
      have "node_item (find_min r) \<in> set (keys r)" using find_min_inorder [OF 33(3)] by (auto simp: keys_def)
      then have "length (node_item (find_min r)) + 17 \<le> scm_room s" using room by auto
      then show ?thesis
        using m_delete_two_ok [OF lk t st Node.prems(4) sr(2) D(1) 33] item 3 by simp
    qed
  qed
qed

lemma m_avl_delete_ok:
  assumes r: "rep bs x a" and ok: "avl_ok a" and item: "item \<noteq> []" and present: "0 < count_in a item" and small: "count_in a item < 2 ^ 31"
    and room: "\<And>y. 0 < count_in a y \<Longrightarrow> length y + 17 \<le> avl_room a"
  obtains bs' x' a' where "m_avl_delete x item = Some (Inr (0, x'))" "avl_delete a item = Inr (0, a')" "rep bs' x' a'"
proof -
  let ?st = "m_state x" and ?s = "m_scm x" and ?h = "a_heap a" and ?n = "count_in a item"
  have l: "linked ?st bs ?s ?h" and t: "tree_at bs (mem ?s) (a_root a)" "?st \<notin> own (a_root a)"
    and root: "get_ptr ROOT (mem ?s) (Some ?st) = Inr (root_ptr (a_root a))" and st: "?st = base_addr + ADDR_INFO_BYTES"
    using r unfolding rep_def by blast+
  have b: "balanced (a_root a)" "search_tree (a_root a)" using ok by (simp_all add: avl_ok_def)
  have n: "avl_exists a item = Inr ?n" using item exists_in_ok [OF b(2)] by (simp add: avl_exists_def count_in_def)
  then have mn: "m_avl_exists x item = Some (Inr ?n)" using rep_finds(1) [OF r item] by simp
  have i: "int32 ?n = int ?n" using int32_small [OF small] .
  have dec: "dec64 k < 2 ^ 64" if "k < 2 ^ 64" for k using that by (cases k) (simp_all add: dec64_def)
  have bound: "hitems ?h < 2 ^ 64" "hunique ?h < 2 ^ 64" using l load64_bound by (auto simp: linked_def)
  let ?h1 = "?h\<lparr>hitems := dec64 (hitems ?h)\<rparr>"
  let ?h2 = "?h\<lparr>hitems := dec64 (hitems ?h), hunique := (if ?n = 1 then dec64 (hunique ?h) else hunique ?h)\<rparr>"
  obtain m1 where m1: "put_num 0 (mem ?s) (Some ?st) (dec64 (hitems ?h)) = Inr m1" "writes {?st} bs (mem ?s) m1"
    "root_word ?st m1 = root_word ?st (mem ?s)" "linked ?st bs (?s\<lparr>mem := m1\<rparr>) ?h1"
    using put_state [OF l, of 0, OF _ dec [OF bound(1)]] by auto
  have "\<exists>m2. (if ?n = 1 then obind (get_num UNIQUE m1 (Some ?st)) (\<lambda>u. put_num UNIQUE m1 (Some ?st) (dec64 u)) else Inr m1) = Inr m2 \<and>
      writes {?st} bs (mem ?s) m2 \<and> root_word ?st m2 = root_word ?st (mem ?s) \<and> linked ?st bs (?s\<lparr>mem := m2\<rparr>) ?h2"
  proof (cases "?n = 1")
    case True
    have g: "get_num UNIQUE m1 (Some ?st) = Inr (hunique ?h)" using get_state(2) [OF m1(4)] by simp
    obtain m2 where m2: "put_num UNIQUE m1 (Some ?st) (dec64 (hunique ?h)) = Inr m2" "writes {?st} bs m1 m2"
      "root_word ?st m2 = root_word ?st m1" "linked ?st bs (?s\<lparr>mem := m2\<rparr>) ?h2"
      using put_state [OF m1(4), of UNIQUE, OF _ dec [OF bound(2)]] True by (auto simp: UNIQUE_def)
    then show ?thesis using True g m1(3) writes_trans [OF m1(2) m2(2)] by simp
  next
    case False
    then show ?thesis using m1 by simp
  qed
  then obtain m2 where m2: "(if ?n = 1 then obind (get_num UNIQUE m1 (Some ?st)) (\<lambda>u. put_num UNIQUE m1 (Some ?st) (dec64 u)) else Inr m1) = Inr m2"
    "writes {?st} bs (mem ?s) m2" "root_word ?st m2 = root_word ?st (mem ?s)" "linked ?st bs (?s\<lparr>mem := m2\<rparr>) ?h2" by blast
  let ?s2 = "?s\<lparr>mem := m2\<rparr>"
  note f2 = writes_frame [OF m2(2)]
  have t2: "tree_at bs (mem ?s2) (a_root a)" using tree_frame [OF t(1) f2] t(2) by simp
  have root2: "get_ptr ROOT m2 (Some ?st) = Inr (root_ptr (a_root a))" using get_root_cong [OF m2(3) frame_length [OF f2]] root by simp
  have rm: "\<forall>y \<in> set (keys (a_root a)). length y + 17 \<le> scm_room ?s2"
    using room count_in_keys [OF ok] linked_room [OF l] by (simp add: avl_room_def scm_room_def)
  obtain t' h' bs' s' where d: "delete ?h2 (a_root a) item = Inr (t', h')"
    "m_delete ?s2 (root_ptr (a_root a)) (Chars item) = Some (Inr (root_ptr t', s'))" "linked ?st bs' s' h'"
    "evolves ?st bs ?s2 (a_root a) bs' s' t'"
    using m_delete_ok [OF m2(4) t2 t(2) b avl_ok_flat [OF ok] rm, of "Chars item" item] by auto
  obtain m where m: "put_ptr ROOT (mem s') (Some ?st) (root_ptr t') = Inr m"
    "rep bs' \<lparr>m_scm = s'\<lparr>mem := m\<rparr>, m_state = ?st\<rparr> \<lparr>a_root = t', a_heap = h'\<rparr>"
    using rep_new_root [OF m2(4) d(3,4) t(2) st] .
  have nz: "int32 ?n \<noteq> 0" and n1: "int32 ?n = 1 \<longleftrightarrow> ?n = 1" using i present by auto
  have "m_avl_delete x item = Some (Inr (0, \<lparr>m_scm = s'\<lparr>mem := m\<rparr>, m_state = ?st\<rparr>))"
    unfolding m_avl_delete_def mn lbind_simps Let_def if_not_P [OF nz] n1
    using m1(1) m2(1) root2 d(2) m(1) l by simp
  moreover have "avl_delete a item = Inr (0, \<lparr>a_root = t', a_heap = h'\<rparr>)"
    unfolding avl_delete_def n obind_simps Let_def if_not_P [OF nz] n1 d(1) by simp
  ultimately show ?thesis using that m(2) by blast
qed

end
