(* ===== verification/Avl_Persist.thy ===== *)
theory Avl_Persist
  imports Avl_Mem_Ref
begin

section \<open>The tree outlives the program\<close>

text \<open>
  Opening, closing and opening again, and the properties of the tree in memory: what the operations on bytes do, that the tree is found again in the
  file, and a session after which it is not.
\<close>

subsection \<open>Opening and closing\<close>

lemma m_avl_open_fresh:
  assumes "pathname \<noteq> []" and "64 \<le> length img" and "VM_START_ADDR + length img < 2 ^ 64"
  obtains x a bs where "m_avl_open pathname True (Some (True, img)) True True = Inr (Some x)"
    "avl_open pathname True (Some (True, img)) True True stored = Inr (Some a)" "rep bs x a"
    "scm_ok (hscm (a_heap a)) [(True, STATE_SIZE)]" "user_bytes (hscm (a_heap a)) = STATE_SIZE"
proof -
  have big: "24 \<le> length img" "length img < 2 ^ 64" using assms(2,3) by simp_all
  obtain s where s: "scm_open pathname (Some (True, img)) True True = Inr (Some s)" "scm_ok s []"
    "ssize s = length img" "user_bytes s = 0" "used_bytes s = 0"
    using scm_open_fresh [OF assms(1) big] .
  let ?st = "base_addr + ADDR_INFO_BYTES" and ?bs = "[(True, STATE_SIZE)]"
  have st: "?st = 40" by (simp add: base_addr_def SIZE_INFO_BYTES_def ADDR_INFO_BYTES_def)
  have "malloc_fits s [] STATE_SIZE"
    using s(3) assms(2) by (simp add: malloc_fits_def base_addr_def SIZE_INFO_BYTES_def STATE_SIZE_def)
  then obtain s1 where s1: "scm_malloc s STATE_SIZE = Inr (?st, s1)" "scm_ok s1 ?bs" "ssize s1 = ssize s"
    using scm_malloc_ok [OF s(2)] by (auto simp: spec_malloc_def ADDR_INFO_BYTES_def)
  have user: "user_bytes s1 = STATE_SIZE"
    using malloc_user [OF s(2) s1(1)] s(4) by (simp add: add64_small STATE_SIZE_def)
  have mb: "scm_mbase s1 = ?st" using s1(2) by (simp add: scm_mbase_def scm_ok_def)
  have sane: "sane ?bs (mem s1)" using s1(2,3) s(3) assms(3) by (simp add: sane_def scm_ok_def)
  have lv: "live ?bs ?st STATE_SIZE" by (auto simp: live_def ADDR_INFO_BYTES_def)
  obtain m where m: "store_bytes (mem s1) ?st (replicate STATE_SIZE 0) = Inr m" "writes {?st} ?bs (mem s1) m"
    "slice ?st STATE_SIZE m = replicate STATE_SIZE 0" "length m = length (mem s1)"
    by (rule store_block [OF sane lv, of 0 "replicate STATE_SIZE 0"]) auto
  have len: "?st + STATE_SIZE \<le> length m" using live_in [OF lv sane] m(4) by simp
  have z: "load64 m (?st + i) = Inr 0" if "i \<le> 16" for i
  proof -
    have "slice (?st + i) 8 m = slice i 8 (slice ?st STATE_SIZE m)" using that by (simp add: slice_slice STATE_SIZE_def add.commute)
    also have "\<dots> = replicate 8 0" using that unfolding m(3) by (simp add: slice_def STATE_SIZE_def)
    finally have e: "slice (?st + i) 8 m = replicate 8 0" .
    have v: "le_val (replicate k 0) = 0" for k by (induction k) simp_all
    have "?st + i + 8 \<le> length m" using that len by (simp add: STATE_SIZE_def)
    then show ?thesis using e v [of 8] by (simp add: load64_def)
  qed
  let ?x = "\<lparr>m_scm = s1\<lparr>mem := m\<rparr>, m_state = ?st\<rparr>"
  let ?a = "\<lparr>a_root = Leaf, a_heap = \<lparr>hscm = s1, hitems = 0, hunique = 0\<rparr>\<rparr>"
  have "m_avl_open pathname True (Some (True, img)) True True = Inr (Some ?x)"
    using s s1(1) m(1) mb by (simp add: m_avl_open_def scm_utilized_def)
  moreover have "avl_open pathname True (Some (True, img)) True True stored = Inr (Some ?a)"
    using s s1(1) mb by (simp add: avl_open_def scm_utilized_def)
  moreover have "scm_ok (s1\<lparr>mem := m\<rparr>) ?bs" using scm_ok_write [OF s1(2) writes_sane [OF m(2)] m(4)] .
  then have "linked ?st ?bs (s1\<lparr>mem := m\<rparr>) \<lparr>hscm = s1, hitems = 0, hunique = 0\<rparr>"
    using s1(2,3) s(3) assms(3) lv z [of 0] z [of UNIQUE] by (simp add: linked_def UNIQUE_def)
  then have "rep ?bs ?x ?a"
    using z [of ROOT] by (simp add: rep_def get_ptr_def get_num_def deref_def ROOT_def word_ptr_def)
  ultimately show ?thesis using that s1(2) user by simp
qed

lemma m_avl_reopen:
  assumes r: "rep bs x a" and used: "scm_utilized (m_scm x) \<noteq> 0" and path: "pathname \<noteq> []"
  obtains img x' where "m_avl_close x = Inr img" "m_avl_open pathname True (Some (True, img)) True False = Inr (Some x')" "rep bs x' a"
proof -
  let ?st = "m_state x" and ?s = "m_scm x"
  have l: "linked ?st bs ?s (a_heap a)" and t: "tree_at bs (mem ?s) (a_root a)" "?st \<notin> own (a_root a)"
    and root: "get_ptr ROOT (mem ?s) (Some ?st) = Inr (root_ptr (a_root a))" and st: "?st = base_addr + ADDR_INFO_BYTES"
    using r unfolding rep_def by blast+
  have ok: "scm_ok ?s bs" "scm_ok (hscm (a_heap a)) bs" "ssize (hscm (a_heap a)) = ssize ?s"
    "user_bytes (hscm (a_heap a)) = user_bytes ?s" using l by (simp_all add: linked_def)
  obtain img s' where s': "scm_close ?s = Inr img" "scm_open pathname (Some (True, img)) True False = Inr (Some s')" "scm_ok s' bs"
    "payload_same bs (mem ?s) (mem s')" "ssize s' = ssize ?s" "user_bytes s' = user_bytes ?s"
    using scm_close_open [OF ok(1) path] .
  have len: "length (mem s') = length (mem ?s)" using ok(1) s'(3,5) by (simp add: scm_ok_def)
  have f: "frame {} bs (mem ?s) bs (mem s')" by (rule frame_payload [OF s'(4) len])
  have "linked ?st bs s' (a_heap a\<lparr>hscm := hscm (a_heap a)\<rparr>)"
    using s'(5,6) ok(3,4) by (intro linked_frame [OF l f _ s'(3) ok(2)]) simp_all
  then have l': "linked ?st bs s' (a_heap a)" by simp
  have "bs \<noteq> []" using linked_live(2) [OF l] by (auto simp: live_def)
  then have "scm_mbase s' = ?st" using s'(3) extent_0 [of bs] st by (simp add: scm_mbase_def scm_ok_def)
  moreover have "get_ptr ROOT (mem s') (Some ?st) = Inr (root_ptr (a_root a))"
    using get_root_cong [OF frame_root [OF f l] len] root by simp
  ultimately have "rep bs \<lparr>m_scm = s', m_state = scm_mbase s'\<rparr> a"
    using l' tree_frame [OF t(1) f] t(2) st by (simp add: rep_def)
  moreover have "m_avl_open pathname True (Some (True, img)) True False = Inr (Some \<lparr>m_scm = s', m_state = scm_mbase s'\<rparr>)"
    using s'(2,6) used by (simp add: m_avl_open_def scm_utilized_def)
  ultimately show ?thesis using that s'(1) by (simp add: m_avl_close_def)
qed

text \<open>A region whose counter of bytes in use is 0 is taken for an empty one.\<close>

lemma m_avl_reopen_lost:
  assumes r: "rep bs x a" and used: "scm_utilized (m_scm x) = 0" and path: "pathname \<noteq> []" and room: "40 \<le> scm_room (m_scm x)"
  obtains img where "m_avl_close x = Inr img" "m_avl_open pathname True (Some (True, img)) True False = Inl Assert_failed"
proof -
  let ?st = "m_state x" and ?s = "m_scm x"
  have l: "linked ?st bs ?s (a_heap a)" and st: "?st = base_addr + ADDR_INFO_BYTES" using r unfolding rep_def by blast+
  have ok: "scm_ok ?s bs" "VM_START_ADDR + ssize ?s < 2 ^ 64" using l by (simp_all add: linked_def)
  obtain img s' where s': "scm_close ?s = Inr img" "scm_open pathname (Some (True, img)) True False = Inr (Some s')" "scm_ok s' bs"
    "ssize s' = ssize ?s" "user_bytes s' = user_bytes ?s"
    using scm_close_open [OF ok(1) path] .
  have "scm_room s' = scm_room ?s" using scm_room_blocks [OF ok(1)] scm_room_blocks [OF s'(3)] s'(4) by simp
  then have rm: "STATE_SIZE + 16 \<le> scm_room s'" using room by (simp add: STATE_SIZE_def)
  have "base_addr + extent bs + 16 + STATE_SIZE \<le> ssize s'" using rm scm_room_blocks [OF s'(3)] by simp
  then have fits: "malloc_fits s' bs STATE_SIZE" by (simp add: malloc_fits_def)
  let ?p = "fst (spec_malloc bs STATE_SIZE)" and ?bs = "snd (spec_malloc bs STATE_SIZE)"
  obtain s1 where s1: "scm_malloc s' STATE_SIZE = Inr (?p, s1)" "scm_ok s1 ?bs" "ssize s1 = ssize s'"
    using scm_malloc_ok [OF s'(3) fits] .
  have sane: "sane ?bs (mem s1)" using s1(2,3) s'(4) ok(2) by (simp add: sane_def scm_ok_def)
  have "live bs ?st STATE_SIZE" using linked_live(1) [OF l] .
  then obtain k where k: "(?st, k, True) \<in> set (regions base_addr bs)" "STATE_SIZE \<le> k" by (auto simp: live_def)
  have "?p \<noteq> ?st" using malloc_disjoint [OF k(1), of STATE_SIZE] k(2) by (auto simp: STATE_SIZE_def)
  moreover have "?bs \<noteq> []"
  proof
    assume "?bs = []"
    moreover have "extent bs \<le> extent ?bs" by (simp add: spec_malloc_def extent_set_flag split: option.split)
    ultimately have "extent bs = 0" by simp
    then show False using k(1) extent_0 [of bs] by simp
  qed
  then have "scm_mbase s1 = ?st" using s1(2) extent_0 [of ?bs] st by (simp add: scm_mbase_def scm_ok_def)
  moreover obtain m where "store_bytes (mem s1) ?p (replicate STATE_SIZE 0) = Inr m"
  proof -
    have "?p + STATE_SIZE \<le> length (mem s1)"
    proof (cases "first_fit base_addr bs STATE_SIZE")
      case None
      then show ?thesis using fits s1(2,3) by (simp add: spec_malloc_def malloc_fits_def scm_ok_def)
    next
      case (Some p)
      then obtain xs j ys where "bs = xs @ (False, j) # ys" "p = base_addr + extent xs + 16" "STATE_SIZE \<le> j"
        using first_fit_split by blast
      then show ?thesis using Some s'(3) s1(2,3) by (simp add: spec_malloc_def scm_ok_def)
    qed
    then show ?thesis using that by (simp add: store_bytes_def)
  qed
  ultimately have "m_avl_open pathname True (Some (True, img)) True False = Inl Assert_failed"
    using s'(2,5) s1(1) used by (simp add: m_avl_open_def scm_utilized_def)
  then show ?thesis using that s'(1) by (simp add: m_avl_close_def)
qed

subsection \<open>Sessions\<close>

text \<open>As long as nothing is freed, the counter of bytes in use is the size of the blocks, the first of them \<open>struct state\<close>.\<close>

definition unfreed :: "scm \<Rightarrow> bool" where
  "unfreed s \<longleftrightarrow>
     (\<exists>bs. scm_ok s ((True, STATE_SIZE) # bs) \<and> (\<forall>b \<in> set bs. fst b) \<and> user_bytes s = STATE_SIZE + sum_list (map snd bs))"

lemma payload_extent: "sum_list (map snd bs) \<le> extent bs"
  by (induction bs rule: extent.induct) auto

lemma unfreed_used: "unfreed s \<Longrightarrow> scm_utilized s \<noteq> 0"
  by (auto simp: unfreed_def scm_utilized_def STATE_SIZE_def)

lemma first_fit_used: "\<forall>b \<in> set bs. fst b \<Longrightarrow> first_fit a bs n = None"
  by (induction a bs n rule: first_fit.induct) auto

lemma unfreed_append:
  assumes ok: "scm_ok s ((True, STATE_SIZE) # bs)" "scm_ok s' (((True, STATE_SIZE) # bs) @ [(True, n)])"
    and u: "\<forall>b \<in> set bs. fst b" "user_bytes s = STATE_SIZE + sum_list (map snd bs)" "user_bytes s' = add64 (user_bytes s) n"
  shows "unfreed s'"
proof -
  have "extent (((True, STATE_SIZE) # bs) @ [(True, n)]) < 2 ^ 64" using ok(2) by (simp add: scm_ok_def)
  then have "add64 (user_bytes s) n = STATE_SIZE + sum_list (map snd (bs @ [(True, n)]))"
    using u(2) payload_extent [of bs] by (simp add: add64_small)
  then show ?thesis using ok(2) u by (auto simp: unfreed_def intro!: exI [of _ "bs @ [(True, n)]"])
qed

lemma unfreed_malloc:
  assumes "unfreed s" and "n + 16 \<le> scm_room s" and m: "scm_malloc s n = Inr (p, s')"
  shows "unfreed s'"
proof -
  obtain bs where bs: "scm_ok s ((True, STATE_SIZE) # bs)" "\<forall>b \<in> set bs. fst b" "user_bytes s = STATE_SIZE + sum_list (map snd bs)"
    using assms(1) by (auto simp: unfreed_def)
  let ?bs = "(True, STATE_SIZE) # bs"
  have n: "first_fit base_addr ?bs n = None" using bs(2) by (intro first_fit_used) auto
  have "base_addr + extent ?bs + 16 + n \<le> ssize s" using assms(2) scm_room_blocks [OF bs(1)] by simp
  then have "malloc_fits s ?bs n" by (simp add: malloc_fits_def)
  from scm_malloc_ok [OF bs(1) this] have "scm_ok s' (?bs @ [(True, n)])" using m n by (auto simp: spec_malloc_def)
  then show ?thesis using unfreed_append [OF bs(1) _ bs(2,3)] malloc_user [OF bs(1) m] n by simp
qed

lemma unfreed_strdup:
  assumes "unfreed s" and "length str + 17 \<le> scm_room s" and m: "scm_strdup s str = Inr (p, s')"
  shows "unfreed s'"
proof -
  obtain bs where bs: "scm_ok s ((True, STATE_SIZE) # bs)" "\<forall>b \<in> set bs. fst b" "user_bytes s = STATE_SIZE + sum_list (map snd bs)"
    using assms(1) by (auto simp: unfreed_def)
  let ?bs = "(True, STATE_SIZE) # bs"
  have "base_addr + extent ?bs + 16 + (length str + 1) \<le> ssize s" using assms(2) scm_room_blocks [OF bs(1)] by simp
  from scm_strdup_ok [OF bs(1) this] have "scm_ok s' (?bs @ [(True, length str + 1)])" using m by auto
  then show ?thesis using unfreed_append [OF bs(1) _ bs(2,3)] strdup_user [OF m] by simp
qed

lemma unfreed_update:
  "update h t item = Inr (t', h') \<Longrightarrow> unfreed (hscm h) \<Longrightarrow> length item + 73 \<le> scm_room (hscm h) \<Longrightarrow> unfreed (hscm h')"
proof (induction h t item arbitrary: t' h' rule: update.induct)
  case (1 h item)
  have v: "scm_valid (hscm h)" using 1(2) by (auto simp: unfreed_def scm_valid_def)
  obtain p s1 q s2 where n: "scm_malloc (hscm h) NODE_SIZE = Inr (p, s1)" "scm_strdup s1 item = Inr (q, s2)" "hscm h' = s2"
    using 1(1) by (auto simp: new_node_def obind_eq_Inr)
  have "unfreed s1" using unfreed_malloc [OF 1(2) _ n(1)] 1(3) by (simp add: NODE_SIZE_def)
  moreover have "scm_room (hscm h) \<le> scm_room s1 + NODE_SIZE + 16"
    using sh.alloc_law [OF v, of NODE_SIZE] 1(3) n(1) by (auto simp: NODE_SIZE_def)
  then have "length item + 17 \<le> scm_room s1" using 1(3) by (simp add: NODE_SIZE_def)
  ultimately show ?case using unfreed_strdup [OF _ _ n(2)] n(3) by simp
next
  case (2 h p d c q it l r item)
  consider "item = it" | "item < it" | "it < item" by force
  then show ?case
  proof cases
    case 1
    then show ?thesis using 2(3,4) by (auto simp: Let_def count_item_def)
  next
    case 2
    then obtain l' where "update h l item = Inr (l', h')" using "2.prems"(1) by (auto simp: Let_def obind_eq_Inr split: if_splits)
    then show ?thesis using "2.IH"(1) [OF refl, of l' h'] 2 "2.prems"(2,3) by auto
  next
    case 3
    then obtain r' where "update h r item = Inr (r', h')" using "2.prems"(1) by (auto simp: Let_def obind_eq_Inr split: if_splits)
    then show ?thesis using "2.IH"(2) [OF refl, of r' h'] 3 "2.prems"(2,3) by auto
  qed
qed

text \<open>The words of a list, one after the other.\<close>

fun m_insert_all :: "m_avl \<Rightarrow> bytes list \<Rightarrow> m_avl run" where
  "m_insert_all x [] = Some (Inr x)"
| "m_insert_all x (w # ws) = lbind (m_avl_insert x w) (\<lambda>(r, x). m_insert_all x ws)"

lemma m_insert_all_ok:
  assumes "rep bs x a" and "avl_ok a" and "unfreed (hscm (a_heap a))" and "\<forall>w \<in> set ws. w \<noteq> [] \<and> 0 \<notin> set w"
    and "sum_list (map (\<lambda>w. length w + 73) ws) \<le> avl_room a" and "avl_items a + length ws < 2 ^ 64"
  shows "\<exists>bs' x' a'. m_insert_all x ws = Some (Inr x') \<and> rep bs' x' a' \<and> avl_ok a' \<and> unfreed (hscm (a_heap a')) \<and>
    count_in a' = (\<lambda>w. count_in a w + count_list ws w) \<and> avl_items a' = avl_items a + length ws"
  using assms
proof (induction ws arbitrary: bs x a)
  case Nil
  then show ?case by auto
next
  case (Cons w ws)
  have w: "w \<noteq> []" "0 \<notin> set w" and room: "length w + 73 \<le> avl_room a" and few: "avl_items a + 1 < 2 ^ 64" using Cons.prems(4-6) by auto
  obtain bs1 x1 a1 where 1: "m_avl_insert x w = Some (Inr (0, x1))" "avl_insert a w = Inr (0, a1)" "rep bs1 x1 a1"
    using m_avl_insert_ok [OF Cons.prems(1,2) w room] .
  have a1: "avl_ok a1" "count_in a1 = (count_in a)(w := count_in a w + 1)" "avl_items a1 = avl_items a + 1"
    "avl_room a \<le> avl_room a1 + length w + 73"
    using avl_insert_ok [OF Cons.prems(2) w(1) room few] 1(2) by auto
  obtain t h where u: "update (a_heap a) (a_root a) w = Inr (t, h)" "a_heap a1 = h"
    using 1(2) w(1) by (auto simp: avl_insert_def obind_eq_Inr)
  have un: "unfreed (hscm (a_heap a1))" using unfreed_update [OF u(1) Cons.prems(3)] room u(2) by (simp add: avl_room_def)
  have "\<exists>bs' x' a'. m_insert_all x1 ws = Some (Inr x') \<and> rep bs' x' a' \<and> avl_ok a' \<and> unfreed (hscm (a_heap a')) \<and>
      count_in a' = (\<lambda>w. count_in a1 w + count_list ws w) \<and> avl_items a' = avl_items a1 + length ws"
    by (rule Cons.IH [OF 1(3) a1(1) un]) (use Cons.prems(4-6) a1(3,4) in auto)
  then obtain bs' x' a' where 2: "m_insert_all x1 ws = Some (Inr x')" "rep bs' x' a'" "avl_ok a'" "unfreed (hscm (a_heap a'))"
    "count_in a' = (\<lambda>w. count_in a1 w + count_list ws w)" "avl_items a' = avl_items a1 + length ws" by blast
  have "count_in a' = (\<lambda>v. count_in a v + count_list (w # ws) v)" using 2(5) a1(2) by (auto simp: fun_eq_iff)
  then show ?case using 1(1) 2 a1(3) by (intro exI [of _ bs'] exI [of _ x'] exI [of _ a']) simp
qed

subsection \<open>A session that leaves the counter at 0\<close>

text \<open>A tree of one node at most, with the blocks and the counter of its region.\<close>

definition at_blocks :: "avl \<Rightarrow> tree \<Rightarrow> blocks \<Rightarrow> nat \<Rightarrow> bool" where
  "at_blocks a t bs u \<longleftrightarrow>
     a_root a = t \<and> scm_ok (hscm (a_heap a)) bs \<and> user_bytes (hscm (a_heap a)) = u \<and> ssize (hscm (a_heap a)) = 4096"

lemma at_blocks_room: "at_blocks a t bs u \<Longrightarrow> avl_room a = 4096 - (base_addr + extent bs)"
  using scm_room_blocks by (auto simp: at_blocks_def avl_room_def)

lemma insert_leaf:
  assumes a: "at_blocks a Leaf bs u" and ins: "avl_insert a item = Inr (0, a')" and room: "length item + 73 \<le> avl_room a"
  defines "bs1 \<equiv> snd (spec_malloc bs NODE_SIZE)"
  shows "at_blocks a' (Node (fst (spec_malloc bs NODE_SIZE)) 0 1 (base_addr + extent bs1 + 16) item Leaf Leaf)
    (bs1 @ [(True, length item + 1)])
    (add64 (if first_fit base_addr bs NODE_SIZE = None then add64 u NODE_SIZE else u) (length item + 1))"
proof -
  let ?s = "hscm (a_heap a)"
  have ok: "scm_ok ?s bs" and sz: "ssize ?s = 4096" "user_bytes ?s = u" using a by (simp_all add: at_blocks_def)
  have rm: "length item + 73 \<le> 4096 - (base_addr + extent bs)" using room at_blocks_room [OF a] by simp
  then have "malloc_fits ?s bs NODE_SIZE" using sz by (auto simp: malloc_fits_def NODE_SIZE_def)
  then obtain s1 where s1: "scm_malloc ?s NODE_SIZE = Inr (fst (spec_malloc bs NODE_SIZE), s1)" "scm_ok s1 bs1" "ssize s1 = 4096"
    using scm_malloc_ok [OF ok] sz bs1_def by metis
  have "extent bs1 \<le> extent bs + NODE_SIZE + 16" by (simp add: bs1_def spec_malloc_def extent_set_flag split: option.split)
  then have "base_addr + extent bs1 + 16 + (length item + 1) \<le> ssize s1" using rm s1(3) by (simp add: NODE_SIZE_def)
  then obtain s2 where s2: "scm_strdup s1 item = Inr (base_addr + extent bs1 + 16, s2)" "scm_ok s2 (bs1 @ [(True, length item + 1)])"
    "ssize s2 = 4096" using scm_strdup_ok [OF s1(2)] s1(3) by metis
  have "user_bytes s2 = add64 (if first_fit base_addr bs NODE_SIZE = None then add64 u NODE_SIZE else u) (length item + 1)"
    using strdup_user [OF s2(1)] malloc_user [OF ok s1(1)] sz by simp
  then show ?thesis
    using ins s1(1) s2 a by (auto simp: avl_insert_def new_node_def at_blocks_def split: if_splits)
qed

lemma delete_single:
  assumes a: "at_blocks a (Node p d 1 q item Leaf Leaf) bs u" and del: "avl_delete a item = Inr (0, a')" and item: "item \<noteq> []"
    and sz: "size_at base_addr bs q = Some k" "size_at base_addr (set_flag base_addr bs q False) p = Some n"
  shows "at_blocks a' Leaf (set_flag base_addr (set_flag base_addr bs q False) p False) (sub64 (sub64 u k) n)"
proof -
  let ?s = "hscm (a_heap a)"
  have ok: "scm_ok ?s bs" and u: "ssize ?s = 4096" "user_bytes ?s = u" using a by (simp_all add: at_blocks_def)
  obtain s1 where s1: "scm_free ?s q = Inr s1" "scm_ok s1 (set_flag base_addr bs q False)" "ssize s1 = 4096" "user_bytes s1 = sub64 u k"
    using scm_free_ok [OF ok, of q] u sz(1) by (metis option.simps(5))
  obtain s2 where s2: "scm_free s1 p = Inr s2" "scm_ok s2 (set_flag base_addr (set_flag base_addr bs q False) p False)" "ssize s2 = 4096"
    "user_bytes s2 = sub64 (sub64 u k) n"
    using scm_free_ok [OF s1(2), of p] s1(3,4) sz(2) by (metis option.simps(5))
  have r: "a_root a = Node p d 1 q item Leaf Leaf" using a by (simp add: at_blocks_def)
  have ex: "avl_exists a item = Inr 1" using r item by (simp add: avl_exists_def)
  have i: "int32 (Suc 0) = 1" by (simp add: int32_def)
  let ?h1 = "(a_heap a)\<lparr>hitems := dec64 (hitems (a_heap a)), hunique := dec64 (hunique (a_heap a))\<rparr>"
  have "avl_delete a item = obind (delete ?h1 (a_root a) item) (\<lambda>(t, h2). Inr (0, \<lparr>a_root = t, a_heap = h2\<rparr>))"
    unfolding avl_delete_def ex by (simp add: i Let_def)
  then have "avl_delete a item = Inr (0, \<lparr>a_root = Leaf, a_heap = ?h1\<lparr>hscm := s2\<rparr>\<rparr>)"
    using r s1(1) s2(1) by (simp add: delete.simps free_node_def)
  then show ?thesis using del s2(2-4) by (auto simp: at_blocks_def)
qed

text \<open>One word is inserted into the empty tree, and taken out again.\<close>

lemma in_and_out:
  assumes r: "rep bs0 x a" "avl_ok a" and a: "at_blocks a Leaf bs u" and item: "item \<noteq> []" "0 \<notin> set item"
    and room: "length item + 73 \<le> avl_room a"
  obtains bs0' x' a' where "m_avl_insert x item = Some (Inr (0, x'))" "avl_insert a item = Inr (0, a')" "rep bs0' x' a'" "avl_ok a'"
    "count_in a' = (\<lambda>_. 0)(item := 1)"
proof -
  obtain bs0' x' a' where 1: "m_avl_insert x item = Some (Inr (0, x'))" "avl_insert a item = Inr (0, a')" "rep bs0' x' a'"
    using m_avl_insert_ok [OF r item room] .
  have z: "count_in a = (\<lambda>_. 0)" "avl_items a = 0"
    using a r(2) by (auto simp: at_blocks_def count_in_def item_count_def avl_ok_def)
  then show ?thesis using that [OF 1] avl_insert_ok [OF r(2) item(1) room] 1(2) by (auto simp: fun_eq_iff)
qed

lemma out_again:
  assumes r: "rep bs0 x a" "avl_ok a" and c: "count_in a = (\<lambda>_. 0)(item := 1)" and item: "item \<noteq> []" and room: "length item + 17 \<le> avl_room a"
  obtains bs0' x' a' where "m_avl_delete x item = Some (Inr (0, x'))" "avl_delete a item = Inr (0, a')" "rep bs0' x' a'" "avl_ok a'"
proof -
  have one: "0 < count_in a item" "count_in a item < 2 ^ 31" and rm: "\<And>y. 0 < count_in a y \<Longrightarrow> length y + 17 \<le> avl_room a"
    using c room by (auto split: if_splits)
  obtain bs0' x' a' where 1: "m_avl_delete x item = Some (Inr (0, x'))" "avl_delete a item = Inr (0, a')" "rep bs0' x' a'"
    using m_avl_delete_ok [OF r item one rm] .
  then show ?thesis using that [OF 1] avl_delete_ok [OF r(2) item one] rm by fastforce
qed

lemmas block_eval = spec_malloc_def base_addr_def SIZE_INFO_BYTES_def NODE_SIZE_def STATE_SIZE_def add64_def sub64_def

subsection \<open>Properties\<close>

text \<open>
  C9: on the bytes of the region \<open>avl_insert\<close> returns 0 and makes the changes of the function on tree values, so with room it
  raises the count of the item by one, leaves every other count alone, and the bytes again hold a balanced search tree.
\<close>

theorem m_avl_insert_refines:
  assumes "represents x a" and "avl_ok a" and "item \<noteq> []" and "0 \<notin> set item" and "length item + 73 \<le> avl_room a"
    and "avl_items a + 1 < 2 ^ 64"
  shows "\<exists>x' a'. m_avl_insert x item = Some (Inr (0, x')) \<and> avl_insert a item = Inr (0, a') \<and> represents x' a' \<and> avl_ok a' \<and>
    count_in a' = (count_in a)(item := count_in a item + 1)"
proof -
  obtain bs where r: "rep bs x a" using assms(1) by (auto simp: represents_def)
  obtain bs' x' a' where 1: "m_avl_insert x item = Some (Inr (0, x'))" "avl_insert a item = Inr (0, a')" "rep bs' x' a'"
    using m_avl_insert_ok [OF r assms(2-5)] .
  then show ?thesis using avl_insert_ok [OF assms(2,3,5,6)] by (auto simp: represents_def)
qed

text \<open>
  C8: on the bytes of the region \<open>avl_delete\<close> of a present item returns 0 and makes the changes of the function on tree values: its count
  goes down by one, and the bytes again hold a balanced search tree.
\<close>

theorem m_avl_delete_refines:
  assumes "represents x a" and "avl_ok a" and "item \<noteq> []" and "0 < count_in a item" and "count_in a item < 2 ^ 31"
    and "\<And>y. 0 < count_in a y \<Longrightarrow> length y + 17 \<le> avl_room a"
  shows "\<exists>x' a'. m_avl_delete x item = Some (Inr (0, x')) \<and> avl_delete a item = Inr (0, a') \<and> represents x' a' \<and> avl_ok a' \<and>
    count_in a' = (count_in a)(item := count_in a item - 1)"
proof -
  obtain bs where r: "rep bs x a" using assms(1) by (auto simp: represents_def)
  obtain bs' x' a' where 1: "m_avl_delete x item = Some (Inr (0, x'))" "avl_delete a item = Inr (0, a')" "rep bs' x' a'"
    using m_avl_delete_ok [OF r assms(2-6)] .
  then show ?thesis using avl_delete_ok [OF assms(2-5)] assms(6) by (auto simp: represents_def)
qed

text \<open>
  C28: the tree outlives the program exactly as long as the counter of bytes in use says that there is something. When the counter is not
  0, \<open>avl_open\<close> without truncation of the file that \<open>avl_close\<close> leaves finds the same tree, so every lookup and the counters give what
  they gave before. When it is 0, which a tree with words can reach (C40), the file is taken for a new one: as long as a \<open>struct state\<close> fits,
  the assertion on the first block fails.
\<close>

theorem m_avl_persists:
  assumes "represents x a" and "pathname \<noteq> []"
  shows "\<exists>img. m_avl_close x = Inr img \<and>
    (if scm_utilized (m_scm x) \<noteq> 0
     then \<exists>x'. m_avl_open pathname True (Some (True, img)) True False = Inr (Some x') \<and>
       represents x' a \<and> (\<forall>item. m_avl_exists x' item = m_avl_exists x item) \<and> m_avl_items x' = m_avl_items x \<and>
       m_avl_unique x' = m_avl_unique x
     else 40 \<le> scm_room (m_scm x) \<longrightarrow> m_avl_open pathname True (Some (True, img)) True False = Inl Assert_failed)"
proof -
  obtain bs where r: "rep bs x a" using assms(1) by (auto simp: represents_def)
  obtain img where img: "m_avl_close x = Inr img"
    using scm_close_open [OF _ assms(2)] r unfolding rep_def linked_def m_avl_close_def by metis
  show ?thesis
  proof (cases "scm_utilized (m_scm x) = 0")
    case True
    then have "m_avl_open pathname True (Some (True, img)) True False = Inl Assert_failed" if "40 \<le> scm_room (m_scm x)"
      using m_avl_reopen_lost [OF r True assms(2) that] img by (metis sum.inject(2))
    with img True show ?thesis by auto
  next
    case False
    obtain x' where x': "m_avl_open pathname True (Some (True, img)) True False = Inr (Some x')" "rep bs x' a"
      using m_avl_reopen [OF r False assms(2)] img by (metis sum.inject(2))
    have "m_avl_exists x' item = m_avl_exists x item" for item
      using rep_finds(1) [OF r, of item] rep_finds(1) [OF x'(2), of item] by (cases "item = []") (simp_all add: m_avl_exists_def)
    then show ?thesis using False img x' rep_finds(3,4) [OF r] rep_finds(3,4) [OF x'(2)] by (auto simp: represents_def)
  qed
qed

text \<open>
  C6: a list of words that fits is inserted into a new file, the file is closed and opened again: then \<open>avl_exists\<close> gives for each word how
  often it is in the list, \<open>avl_items\<close> the length of the list, and \<open>avl_traverse\<close> visits the different words in
  increasing order with these counts.
\<close>

theorem avl_words_persist:
  assumes "pathname \<noteq> []" and "VM_START_ADDR + length img < 2 ^ 64" and "\<forall>w \<in> set ws. w \<noteq> [] \<and> 0 \<notin> set w"
    and "64 + sum_list (map (\<lambda>w. length w + 73) ws) \<le> length img"
  shows "\<exists>x y img' z ys. m_avl_open pathname True (Some (True, img)) True True = Inr (Some x) \<and>
    m_insert_all x ws = Some (Inr y) \<and> m_avl_close y = Inr img' \<and>
    m_avl_open pathname True (Some (True, img')) True False = Inr (Some z) \<and>
    (\<forall>w. w \<noteq> [] \<longrightarrow> m_avl_exists z w = Some (Inr (count_list ws w))) \<and> m_avl_items z = Inr (length ws) \<and>
    m_avl_traverse (\<lambda>xs it c. xs @ [(it, c)]) z [] = Some (Inr ys) \<and> sorted_wrt (<) (map fst ys) \<and>
    set ys = {(w, n). n = count_list ws w \<and> 0 < n}"
proof -
  have big: "64 \<le> length img" and small: "length img < 2 ^ 64" using assms(2,4) by simp_all
  obtain x a bs where x: "m_avl_open pathname True (Some (True, img)) True True = Inr (Some x)"
    "avl_open pathname True (Some (True, img)) True True (Leaf, 0, 0) = Inr (Some a)" "rep bs x a"
    "scm_ok (hscm (a_heap a)) [(True, STATE_SIZE)]" "user_bytes (hscm (a_heap a)) = STATE_SIZE"
    using m_avl_open_fresh [OF assms(1) big assms(2)] .
  have a: "avl_ok a" "count_in a = (\<lambda>_. 0)" "avl_room a = length img - 64" "avl_items a = 0"
    using avl_open_truncated [OF assms(1) big small, of "(Leaf, 0, 0)"] x(2) by auto
  have un: "unfreed (hscm (a_heap a))" using x(4,5) by (auto simp: unfreed_def intro!: exI [of _ "[]"])
  have "length vs \<le> sum_list (map (\<lambda>w. length w + 73) vs)" for vs :: "bytes list" by (induction vs) auto
  from this [of ws] have few: "avl_items a + length ws < 2 ^ 64" using assms(4) small a(4) by linarith
  have fit: "sum_list (map (\<lambda>w. length w + 73) ws) \<le> avl_room a" using assms(4) a(3) by simp
  obtain bs' y a' where y: "m_insert_all x ws = Some (Inr y)" "rep bs' y a'" "avl_ok a'" "unfreed (hscm (a_heap a'))"
    "count_in a' = (\<lambda>w. count_in a w + count_list ws w)" "avl_items a' = avl_items a + length ws"
    using m_insert_all_ok [OF x(3) a(1) un assms(3) fit few] by blast
  have "user_bytes (m_scm y) = user_bytes (hscm (a_heap a'))" using y(2) by (simp add: rep_def linked_def)
  then have "scm_utilized (m_scm y) \<noteq> 0" using unfreed_used [OF y(4)] by (simp add: scm_utilized_def)
  then obtain img' z where z: "m_avl_close y = Inr img'" "m_avl_open pathname True (Some (True, img')) True False = Inr (Some z)" "rep bs' z a'"
    using m_avl_reopen [OF y(2) _ assms(1)] by metis
  have c: "count_in a' w = count_list ws w" for w using y(5) a(2) by simp
  have found: "m_avl_exists z w = Some (Inr (count_list ws w))" if "w \<noteq> []" for w
    using rep_finds(1) [OF z(3) that] avl_exists_counts [OF y(3) that] c by simp
  let ?ys = "avl_traverse (\<lambda>xs it c. xs @ [(it, c)]) a' []"
  have visited: "m_avl_traverse (\<lambda>xs it c. xs @ [(it, c)]) z [] = Some (Inr ?ys)" "sorted_wrt (<) (map fst ?ys)"
    "set ?ys = {(w, n). n = count_list ws w \<and> 0 < n}"
    using rep_finds(2) [OF z(3)] avl_traverse_sorted [OF y(3)] c by simp_all
  have "m_avl_items z = Inr (length ws)" using rep_finds(3) [OF z(3)] y(6) a(4) by simp
  then show ?thesis using x(1) y(1) z(1,2) found visited by blast
qed

text \<open>A tree in memory with one word, for the witnesses.\<close>

lemma opened_bytes:
  "\<exists>x a. m_avl_open ''scm'' True (Some (True, replicate 4096 0)) True True = Inr (Some x) \<and> represents x a \<and> avl_ok a \<and>
     count_in a = (\<lambda>_. 0) \<and> avl_room a = 4032 \<and> avl_items a = 0 \<and> unfreed (hscm (a_heap a))"
proof -
  obtain x a bs where x: "m_avl_open ''scm'' True (Some (True, replicate 4096 0)) True True = Inr (Some x)"
    "avl_open ''scm'' True (Some (True, replicate 4096 0)) True True (Leaf, 0, 0) = Inr (Some a)" "rep bs x a"
    "scm_ok (hscm (a_heap a)) [(True, STATE_SIZE)]" "user_bytes (hscm (a_heap a)) = STATE_SIZE"
    by (rule m_avl_open_fresh [of "''scm''" "replicate 4096 0"]) (auto simp: VM_START_ADDR_def)
  moreover have "unfreed (hscm (a_heap a))" using x(4,5) by (auto simp: unfreed_def intro!: exI [of _ "[]"])
  ultimately show ?thesis using opened by (auto simp: represents_def)
qed

lemma one_item_bytes:
  "\<exists>x a. represents x a \<and> avl_ok a \<and> count_in a = (\<lambda>_. 0)([104, 105] := 1) \<and> 100 \<le> avl_room a \<and> scm_utilized (m_scm x) \<noteq> 0"
proof -
  obtain x a where x: "represents x a" "avl_ok a" "count_in a = (\<lambda>_. 0)" "avl_room a = 4032" "avl_items a = 0" "unfreed (hscm (a_heap a))"
    using opened_bytes by blast
  then obtain bs where r: "rep bs x a" by (auto simp: represents_def)
  obtain bs' y b where y: "rep bs' y b" "avl_ok b" "unfreed (hscm (a_heap b))" "avl_insert a [104, 105] = Inr (0, b)"
  proof -
    obtain bs' y b where 1: "m_avl_insert x [104, 105] = Some (Inr (0, y))" "avl_insert a [104, 105] = Inr (0, b)" "rep bs' y b"
      by (rule m_avl_insert_ok [OF r x(2), of "[104, 105]"]) (use x(4) in auto)
    obtain t h where u: "update (a_heap a) (a_root a) [104, 105] = Inr (t, h)" "a_heap b = h"
      using 1(2) by (auto simp: avl_insert_def obind_eq_Inr)
    have "unfreed (hscm (a_heap b))" using unfreed_update [OF u(1) x(6)] x(4) u(2) by (simp add: avl_room_def)
    then show ?thesis using that 1(2,3) avl_insert_ok [OF x(2), of "[104, 105]"] x(4,5) by auto
  qed
  have "user_bytes (m_scm y) = user_bytes (hscm (a_heap b))" using y(1) by (simp add: rep_def linked_def)
  then have "scm_utilized (m_scm y) \<noteq> 0" using unfreed_used [OF y(3)] by (simp add: scm_utilized_def)
  moreover have "count_in b = (\<lambda>_. 0)([104, 105] := 1)" "100 \<le> avl_room b"
    using avl_insert_ok [OF x(2), of "[104, 105]"] x(3-5) y(4) by auto
  ultimately show ?thesis using y(1,2) by (auto simp: represents_def)
qed

theorem m_avl_insert_refines_witness:
  "\<exists>x x' a'. m_avl_open ''scm'' True (Some (True, replicate 4096 0)) True True = Inr (Some x) \<and>
     m_avl_insert x [104, 105] = Some (Inr (0, x')) \<and> represents x' a' \<and> count_in a' = (\<lambda>_. 0)([104, 105] := 1)"
proof -
  obtain x a where x: "m_avl_open ''scm'' True (Some (True, replicate 4096 0)) True True = Inr (Some x)" "represents x a" "avl_ok a"
    "count_in a = (\<lambda>_. 0)" "avl_room a = 4032" "avl_items a = 0" using opened_bytes by blast
  then show ?thesis using m_avl_insert_refines [OF x(2,3), of "[104, 105]"] by auto
qed

theorem m_avl_delete_refines_witness:
  "\<exists>x a x' a'. represents x a \<and> count_in a = (\<lambda>_. 0)([104, 105] := 1) \<and> m_avl_delete x [104, 105] = Some (Inr (0, x')) \<and>
     represents x' a' \<and> count_in a' = (\<lambda>_. 0)"
proof -
  obtain x a where x: "represents x a" "avl_ok a" "count_in a = (\<lambda>_. 0)([104, 105] := 1)" "100 \<le> avl_room a" using one_item_bytes by blast
  have "length y + 17 \<le> avl_room a" if "0 < count_in a y" for y using that x(3,4) by (auto split: if_splits)
  then obtain x' a' where "m_avl_delete x [104, 105] = Some (Inr (0, x'))" "represents x' a'"
    "count_in a' = (count_in a)([104, 105] := count_in a [104, 105] - 1)"
    using m_avl_delete_refines [OF x(1,2), of "[104, 105]"] x(3) by auto
  moreover from this(3) have "count_in a' = (\<lambda>_. 0)" using x(3) by (simp add: fun_eq_iff)
  ultimately show ?thesis using x(1,3) by blast
qed

theorem m_avl_persists_witness:
  "\<exists>x a img x'. represents x a \<and> count_in a = (\<lambda>_. 0)([104, 105] := 1) \<and> m_avl_close x = Inr img \<and>
     m_avl_open ''scm'' True (Some (True, img)) True False = Inr (Some x') \<and> represents x' a"
proof -
  obtain x a where x: "represents x a" "count_in a = (\<lambda>_. 0)([104, 105] := 1)" "scm_utilized (m_scm x) \<noteq> 0" using one_item_bytes by blast
  then show ?thesis using m_avl_persists [OF x(1), of "''scm''"] by (auto split: if_splits)
qed

theorem avl_words_persist_witness:
  "\<exists>x y img' z. m_avl_open ''scm'' True (Some (True, replicate 4096 0)) True True = Inr (Some x) \<and>
     m_insert_all x [[104], [105], [104]] = Some (Inr y) \<and> m_avl_close y = Inr img' \<and>
     m_avl_open ''scm'' True (Some (True, img')) True False = Inr (Some z) \<and>
     m_avl_exists z [104] = Some (Inr 2) \<and> m_avl_exists z [105] = Some (Inr 1) \<and> m_avl_exists z [106] = Some (Inr 0) \<and> m_avl_items z = Inr 3"
proof -
  obtain x y img' z where z: "m_avl_open ''scm'' True (Some (True, replicate 4096 0)) True True = Inr (Some x)"
    "m_insert_all x [[104], [105], [104]] = Some (Inr y)" "m_avl_close y = Inr img'"
    "m_avl_open ''scm'' True (Some (True, img')) True False = Inr (Some z)"
    "\<forall>w. w \<noteq> [] \<longrightarrow> m_avl_exists z w = Some (Inr (count_list [[104], [105], [104]] w))"
    "m_avl_items z = Inr (length [[104], [105], [104 :: byte]])"
    using avl_words_persist [of "''scm''" "replicate 4096 0" "[[104], [105], [104]]"] by (auto simp: VM_START_ADDR_def)
  then show ?thesis using z(5) [rule_format, of "[104]"] z(5) [rule_format, of "[105]"] z(5) [rule_format, of "[106]"]
    by (intro exI [of _ x] exI [of _ y] exI [of _ img'] exI [of _ z]) simp
qed

text \<open>
  C40: a word is inserted and deleted, twice, then a word of 15 letters is inserted. The second and third node re-use the memory of the first, which
  is not counted, so the counter of bytes in use is now 0 though the tree has a word. The file cannot be opened again: \<open>avl_open\<close> takes
  it for a new one and its assertion on the first block fails.
\<close>

theorem avl_session_locks_file:
  "\<exists>x0 x1 x2 x3 x4 x5 img.
     m_avl_open ''scm'' True (Some (True, replicate 4096 0)) True True = Inr (Some x0) \<and>
     m_avl_insert x0 [97] = Some (Inr (0, x1)) \<and> m_avl_delete x1 [97] = Some (Inr (0, x2)) \<and>
     m_avl_insert x2 [98] = Some (Inr (0, x3)) \<and> m_avl_delete x3 [98] = Some (Inr (0, x4)) \<and>
     m_avl_insert x4 (replicate 15 99) = Some (Inr (0, x5)) \<and> m_avl_exists x5 (replicate 15 99) = Some (Inr 1) \<and>
     m_avl_close x5 = Inr img \<and> m_avl_open ''scm'' True (Some (True, img)) True False = Inl Assert_failed"
proof -
  obtain x0 a0 bs0 where 0: "m_avl_open ''scm'' True (Some (True, replicate 4096 0)) True True = Inr (Some x0)"
    "avl_open ''scm'' True (Some (True, replicate 4096 0)) True True (Leaf, 0, 0) = Inr (Some a0)" "rep bs0 x0 a0"
    "scm_ok (hscm (a_heap a0)) [(True, STATE_SIZE)]" "user_bytes (hscm (a_heap a0)) = STATE_SIZE"
    by (rule m_avl_open_fresh [of "''scm''" "replicate 4096 0"]) (auto simp: VM_START_ADDR_def)
  have a0: "avl_ok a0" "count_in a0 = (\<lambda>_. 0)" "avl_room a0 = 4032" "avl_items a0 = 0" using opened 0(2) by auto
  have "a_root a0 = Leaf" using a0(1,4) length_le_total [of "inorder (a_root a0)"] by (cases "a_root a0") (auto simp: avl_ok_def)
  moreover have "ssize (hscm (a_heap a0)) = 4096"
    using a0(3) scm_room_blocks [OF 0(4)] by (simp add: avl_room_def block_eval)
  ultimately have b0: "at_blocks a0 Leaf [(True, 24)] 24" using 0(4,5) by (simp add: at_blocks_def STATE_SIZE_def)
  obtain bs1 x1 a1 where 1: "m_avl_insert x0 [97] = Some (Inr (0, x1))" "avl_insert a0 [97] = Inr (0, a1)" "rep bs1 x1 a1" "avl_ok a1"
    "count_in a1 = (\<lambda>_. 0)([97] := 1)" by (rule in_and_out [OF 0(3) a0(1) b0, of "[97]"]) (use a0(3) in auto)
  have b1: "at_blocks a1 (Node 80 0 1 136 [97] Leaf Leaf) [(True, 24), (True, 40), (True, 2)] 66"
    using insert_leaf [OF b0 1(2)] a0(3) by (simp add: block_eval numeral_2_eq_2 [symmetric])
  obtain bs2 x2 a2 where 2: "m_avl_delete x1 [97] = Some (Inr (0, x2))" "avl_delete a1 [97] = Inr (0, a2)" "rep bs2 x2 a2" "avl_ok a2"
    by (rule out_again [OF 1(3-5)]) (use at_blocks_room [OF b1] in \<open>auto simp: block_eval\<close>)
  have b2: "at_blocks a2 Leaf [(True, 24), (False, 40), (False, 2)] 24"
    using delete_single [OF b1 2(2), of 2 40] by (simp add: block_eval)
  obtain bs3 x3 a3 where 3: "m_avl_insert x2 [98] = Some (Inr (0, x3))" "avl_insert a2 [98] = Inr (0, a3)" "rep bs3 x3 a3" "avl_ok a3"
    "count_in a3 = (\<lambda>_. 0)([98] := 1)"
    by (rule in_and_out [OF 2(3,4) b2, of "[98]"]) (use at_blocks_room [OF b2] in \<open>auto simp: block_eval\<close>)
  have b3: "at_blocks a3 (Node 80 0 1 154 [98] Leaf Leaf) [(True, 24), (True, 40), (False, 2), (True, 2)] 26"
    using insert_leaf [OF b2 3(2)] at_blocks_room [OF b2] by (simp add: block_eval numeral_2_eq_2 [symmetric])
  obtain bs4 x4 a4 where 4: "m_avl_delete x3 [98] = Some (Inr (0, x4))" "avl_delete a3 [98] = Inr (0, a4)" "rep bs4 x4 a4" "avl_ok a4"
    by (rule out_again [OF 3(3-5)]) (use at_blocks_room [OF b3] in \<open>auto simp: block_eval\<close>)
  have b4: "at_blocks a4 Leaf [(True, 24), (False, 40), (False, 2), (False, 2)] (2 ^ 64 - 16)"
    using delete_single [OF b3 4(2), of 2 40] by (simp add: block_eval)
  let ?w = "replicate 15 99 :: bytes"
  obtain bs5 x5 a5 where 5: "m_avl_insert x4 ?w = Some (Inr (0, x5))" "avl_insert a4 ?w = Inr (0, a5)" "rep bs5 x5 a5" "avl_ok a5"
    "count_in a5 = (\<lambda>_. 0)(?w := 1)"
    by (rule in_and_out [OF 4(3,4) b4, of ?w]) (use at_blocks_room [OF b4] in \<open>auto simp: block_eval\<close>)
  have b5: "at_blocks a5 (Node 80 0 1 172 ?w Leaf Leaf) [(True, 24), (True, 40), (False, 2), (False, 2), (True, 16)] 0"
    using insert_leaf [OF b4 5(2)] at_blocks_room [OF b4] by (simp add: block_eval)
  have l5: "linked (m_state x5) bs5 (m_scm x5) (a_heap a5)" using 5(3) unfolding rep_def by blast
  have "scm_utilized (m_scm x5) = 0" using b5 l5 by (simp add: at_blocks_def linked_def scm_utilized_def)
  moreover have "40 \<le> scm_room (m_scm x5)"
    using at_blocks_room [OF b5] linked_room [OF l5] by (simp add: avl_room_def block_eval)
  ultimately obtain img where img: "m_avl_close x5 = Inr img" "m_avl_open ''scm'' True (Some (True, img)) True False = Inl Assert_failed"
    using m_avl_reopen_lost [OF 5(3), of "''scm''"] by auto
  have "avl_exists a5 ?w = Inr 1" using b5 by (simp add: avl_exists_def at_blocks_def)
  then have "m_avl_exists x5 ?w = Some (Inr 1)" using rep_finds(1) [OF 5(3), of ?w] by simp
  then show ?thesis using 0(1) 1(1) 2(1) 3(1) 4(1) 5(1) img by blast
qed


end
