(* ===== verification/Spec2Isabelle.thy ===== *)
theory Spec2Isabelle
  imports Driver_Ref Jitc Threads Commands_Ref Screen Monitor_Ref Codegen_Heap Resources_Ref Avl_Persist
begin

text \<open>
  A verification library for the five programs under \<open>src/\<close>, written in C for an operating systems course: a run-time
  compiler for arithmetic expressions (\<open>project-1\<close>), a cooperative and preemptive thread scheduler (\<open>project-2\<close>), a
  persistent heap with an AVL tree and a shell on it (\<open>project-3\<close>), a log-structured key-value store (\<open>project-4\<close>) and a system
  monitor (\<open>project-5\<close>).

  \<^bold>\<open>Conventions.\<close> A C function is a HOL function from its arguments and the state it works on to its result and the new
  state. A program that stops (a failed \<open>assert\<close>, \<open>exit\<close>, an access out of bounds, a null or dangling pointer, a division
  by zero, a data race, the reading of an unwritten variable) gives \<open>Inl\<close> of a value of \<open>fault\<close> (theory \<open>Prelude\<close>); the
  error codes C functions return are ordinary values. Loops that might not end are \<open>partial_function (option)\<close> or have fuel, and
  then \<open>None\<close> is the run that does not end. Numbers of a fixed width are words or \<open>nat\<close> with the wrap-around written out
  (\<open>add64\<close>, \<open>sub64\<close>, \<open>inc64\<close>, \<open>dec64\<close>). Memory that the code only shares by ownership is a value; memory it addresses is a
  list of bytes (the heap's region, the lines of the shell) or a map from addresses (the threads, the parser's nodes). What lies outside the
  repository is a parameter: \<open>malloc\<close>'s success, the device's input and output, \<open>strtod\<close> and \<open>printf ("%f")\<close>, the compiler and
  the dynamic loader, doubles, \<open>rand\<close>, the clock, \<open>nanosleep\<close>, the files under \<open>/proc\<close>, and the schedule of threads and signals.

  \<^bold>\<open>What the programs share.\<close> \<open>Prelude\<close>: faults, runs that may not end and their composition, numbers and lists. \<open>System\<close>
  (\<open>system.c\<close>, the same functions in each project): time, sleeping, files, alignment. \<open>Scan\<close>: the formats of \<open>scanf\<close> and decimal
  numbers. \<open>Terminal\<close> (\<open>term.c\<close>, and the texts that \<open>project-3\<close> and \<open>project-4\<close> print): a terminal is what was written to it;
  \<open>strip\<close> takes the escape sequences out, and the lemmas say what is left to read.

  \<^bold>\<open>Project 4, the store.\<close> \<open>Device\<close> (\<open>device.c\<close>): geometry, reads and writes of whole blocks. \<open>Logfs\<close> (\<open>logfs.c\<close>): the
  append-only log with its current block, ring of blocks to be written, worker thread and read cache; the worker is a
  sequence of half-steps (take a block, write it) that a schedule places between the client's steps. \<open>Logfs_Inv\<close> has the
  invariant of the ring and its preservation by both threads, \<open>Logfs_Ref\<close> the abstract content of the log (a byte list) and the
  proof that \<open>logfs_append\<close> and \<open>logfs_read\<close> implement it under a fair schedule; under other schedules the only other outcome is a
  data race, which exists. \<open>Kvraw\<close> (\<open>kvraw.c\<close>): records with a header, linked backwards. \<open>Index\<close> (\<open>index.c\<close>): the hash, open
  addressing, growth; the locale \<open>ref_map\<close> is what the store relies on. \<open>Kvdb\<close> (\<open>kvdb.c\<close>): the store, with the walk along a chain of
  records; \<open>Kvdb_Ref\<close>: the refinement of a map from keys to values, behind the locale \<open>kv_store\<close>. Conditions: the
  operation's records fit the device, memory is available, and no probe sequence passes \<open>2 ^ 64\<close>. \<open>Driver\<close> (\<open>main.c\<close>): the
  repository's tests. \<open>Driver_Rules\<close> has rules that take one call of the store each, with the specified outcome; with them \<open>Driver_Ref\<close>
  derives from the refinement that \<open>basic_logic\<close>, \<open>heavy_rewrite\<close> and \<open>read_write\<close> return 0, and from that \<open>project4_main_passes\<close>:
  the five tests pass one after the other on one device, when the keys \<open>rand\<close> leads to are different (\<open>good_objects\<close>).
  \<open>Shutdown\<close> (\<open>logfs_close\<close>): the closing thread and the worker call by call, under any schedule; the worker ends, or its wake-up is lost, or a
  mutex or condition is used after its end. \<open>Resources\<close>: opening and closing once more, for the memory, the descriptor and the thread each layer
  takes, given how the shutdown goes; \<open>Resources_Ref\<close> proves layer by layer, behind the locale \<open>closable\<close>, that a store gives back what it takes.

  \<^bold>\<open>Project 3, the heap, the tree and the shell.\<close> \<open>Scm\<close> (\<open>scm.c\<close>): the region as bytes, its header and blocks. \<open>Scm_Inv\<close>: the list
  of blocks the bytes encode, first-fit allocation and freeing on that list, no overlap, persistence; the locale \<open>string_heap\<close> is
  the tree's view of it. \<open>Avl\<close> (\<open>avl.c\<close>): the tree of counted strings, its nodes a tree value with addresses; \<open>Avl_Inv\<close>: balance,
  order, counters, and the counts as a function of the items. \<open>Avl_Mem\<close> (\<open>avl.c\<close> again): the same functions where nodes, strings and
  \<open>struct state\<close> are bytes of the region, fields loads and stores at their offsets, and pointers stored words. \<open>Avl_Mem_Inv\<close>: when bytes
  hold a tree (\<open>tree_at\<close>, each block owned once), what a store leaves alone (\<open>frame\<close>), and the rotations on bytes in step with those on
  tree values; \<open>Avl_Mem_Heap\<close>: allocating and freeing under the tree; \<open>Avl_Mem_Ref\<close>: insertion, deletion, lookup and traversal in step, by
  induction on the tree, so that they end and meet no bad pointer; \<open>Avl_Persist\<close>: opening and closing, the tree found again in the file, and
  a session after which it is not. There the region with its address stays below \<open>2 ^ 64\<close>, and words have no zero byte. \<open>Cstring\<close>: \<open>strcmp\<close>. \<open>Shell\<close> (\<open>shell.c\<close>): the line editor on the
  buffers of the history; \<open>Shell_Ref\<close>: what the keys do to the text and the cursor, trimming, and when a line leaves
  its slot. \<open>Display\<close> (\<open>shell.c\<close>): the terminal's attributes, the report of the cursor, the redrawing of the line, and
  \<open>shell\<close> between \<open>configure\<close> and \<open>restore\<close>; \<open>Screen\<close>: a terminal that obeys the escape sequences written, and that it shows the line of
  \<open>Shell\<close>. \<open>Commands\<close> (\<open>main.c\<close>): the commands and \<open>main\<close>; \<open>Commands_Ref\<close>: from the keys typed to the answers printed.

  \<^bold>\<open>Project 1, the compiler.\<close> \<open>Lexer\<close> (\<open>lexer.c\<close>), \<open>Parser\<close> (\<open>parser.c\<close>) with the grammar and both directions of its
  correctness in \<open>Parser_Ref\<close>; the recursion has fuel, and \<open>expr_fuel\<close> is proved to be enough for every token sequence. There
  the nodes are values; in \<open>Parser_Heap\<close> the same functions work on cells of memory, with \<open>free_dag\<close> and \<open>parser_close\<close>.
  \<open>Parser_Heap_Ref\<close> proves both in step, call by call, that a tree owns each cell made once, that closing frees them all, and that a parse
  that fails loses the cells it has made.
  \<open>Codegen\<close> (\<open>main.c\<close>): the C text generated for a tree, the value of running it, and what \<open>%f\<close> does to the constants;
  \<open>Codegen_Heap\<close> generates it from the parser's cells. \<open>Jitc\<close> (\<open>jitc.c\<close>, \<open>main.c\<close>): compiling,
  loading and running it; the operating system is a record of functions, and \<open>toolchain\<close> says what a working
  compiler and loader do.

  \<^bold>\<open>Project 2, the scheduler.\<close> \<open>Scheduler\<close> (\<open>scheduler.c\<close>): the linked list of threads in a heap of jobs, creation, the
  choice of the next thread, yielding, the alarm, the end of a thread; a thread is a function from its state to the threads it
  creates and its next state, so that a context switch is one step. \<open>Scheduler_Ref\<close>: the list as a queue, the refinement of
  round-robin, fairness across the end of the list, and termination behind the locale \<open>ending_jobs\<close>. \<open>Threads\<close> (\<open>main.c\<close>): the demo program,
  with alarms in the threads' sleeps.

  \<^bold>\<open>Project 5, the monitor.\<close> \<open>Monitor\<close> (\<open>main.c\<close>): reading the files under \<open>/proc\<close>, with a model of the \<open>sscanf\<close> formats used, and the
  figures computed from them; \<open>Monitor_Ref\<close>: the figures are those of the numbers printed in the files, and the end of the
  main loop.

  \<^bold>\<open>What the properties show.\<close> Refinements of abstract specifications (a map, a byte list, a list of blocks, a counted set, a
  round-robin queue, a text with a cursor), equivalences (the parser and the grammar, the generated code and the value
  of the tree), round trips (records, tokens, trees, the file of the counted set, the memory figures), termination and fairness of the
  scheduler, ownership and typing of the parser's cells, and the programs' \<open>main\<close> functions from input to output. Each with a
  hypothesis has a witness at a concrete input. The
  theories also keep theorems that show where the code does not do what it should; they are named after the
  behaviour (for instance \<open>logfs_close_ignores_tail\<close>, \<open>scm_malloc_past_end\<close>, \<open>alarm_after_free\<close>, \<open>history_overrun\<close>,
  \<open>parser_loses_cells\<close>, \<open>failed_read_loses_buffer\<close>, \<open>avl_session_locks_file\<close>, \<open>small_factor_lost\<close>, \<open>hasty_close\<close>,
  \<open>scheduler_starves\<close>).

  \<^bold>\<open>Not modelled.\<close> The register and stack contents that \<open>setjmp\<close> and \<open>longjmp\<close> save; alarms inside \<open>printf\<close>; the freeing of the lexer's
  tokens (\<open>lexer_close\<close>); the scrolling of the terminal; the wait of the monitor between its rounds; the trace output of \<open>TRACE\<close> outside the parser; the text
  layout of the monitor's figures. \<open>project4_main_passes\<close> has no instance here: one needs the hashes of 1234 keys of up to 1234 bytes.
\<close>

end
